(* ===== verification/Prelude.thy ===== *)
theory Prelude
  imports Main "HOL-Library.Word" "HOL-Library.Monad_Syntax" "HOL-Library.Multiset"
begin

text \<open>
  Shared vocabulary of the development: the machine integer types of the C sources, pointers,
  the convention for failing code, and the generic lemmas on words, lists and options that the
  component theories use.

  \<^item> \<open>u8\<close>, \<open>u16\<close>, \<open>u32\<close>, \<open>u64\<close> are the fixed width integers of \<^verbatim>\<open>stdint.h\<close>; \<open>size_t\<close>,
    \<open>uintptr_t\<close> and \<open>rb_value_t\<close> are 64 bits wide on the only supported architecture.
  \<^item> A pointer to an object is an optional address: \<open>None\<close> is \<^verbatim>\<open>nullptr\<close>.
  \<^item> A fallible C routine is a function into \<open>option\<close>: \<open>None\<close> stands for a dereferenced
    \<^verbatim>\<open>nullptr\<close>, a failed \<^verbatim>\<open>ASSERT\<close>, a \<^verbatim>\<open>panic\<close> or a loop that never ends. A theorem
    that shows a routine returns \<open>Some\<close> therefore shows that none of them happens.
\<close>

unbundle bit_operations_syntax

section \<open>Machine types\<close>

type_synonym u8 = "8 word"
type_synonym u16 = "16 word"
type_synonym u32 = "32 word"
type_synonym u64 = "64 word"
type_synonym addr = u64
type_synonym ptr = "addr option"

named_theorems rb_simps \<open>unfolding rules of the red black tree heap\<close>
named_theorems word_arith \<open>rules that turn word arithmetic into arithmetic on naturals\<close>

section \<open>Assertions\<close>

text \<open>\<^verbatim>\<open>ASSERT(P)\<close> (\<^verbatim>\<open>include/common/assert.h\<close>) panics when \<open>P\<close> fails.\<close>

definition ASSERT :: "bool \<Rightarrow> unit option" where
  "ASSERT P = (if P then Some () else None)"

lemma ASSERT_True [simp]: "ASSERT True = Some ()"
  by (simp add: ASSERT_def)

lemma ASSERT_eq_Some [simp]: "ASSERT P = Some u \<longleftrightarrow> P"
  by (simp add: ASSERT_def)

lemma ASSERT_bind: "P \<Longrightarrow> ASSERT P \<bind> f = f ()"
  by (simp add: ASSERT_def)

section \<open>Aligned blocks of naturals\<close>

text \<open>
  \<open>p div 2 ^ k = b div 2 ^ k\<close> says that \<open>p\<close> lies in the aligned block of \<open>2 ^ k\<close> numbers around \<open>b\<close>. The
  buddy of a block is \<open>b XOR 2 ^ k\<close>.
\<close>

lemma shift_xor_unshift: "((b * 2 ^ n) XOR (c * 2 ^ n)) div 2 ^ n = b XOR (c :: nat)"
proof -
  have "push_bit n b XOR push_bit n c = push_bit n (b XOR c)" by (simp add: push_bit_xor)
  then show ?thesis by (simp add: push_bit_eq_mult)
qed

lemma xor_pow_neq [simp]: "b XOR 2 ^ k \<noteq> (b :: nat)"
proof
  assume "b XOR 2 ^ k = b"
  then have "bit (b XOR 2 ^ k) k = bit b k" by simp
  then show False by (simp add: bit_xor_iff bit_exp_iff)
qed

lemma xor_pow_xor [simp]: "(b XOR 2 ^ k) XOR 2 ^ k = (b :: nat)"
  by (simp add: xor.assoc)

lemma xor_pow_div: "(b XOR 2 ^ k) div 2 ^ k = (b div 2 ^ k) XOR (1 :: nat)"
proof -
  have "drop_bit k (2 ^ k :: nat) = 1" by (simp add: drop_bit_eq_div)
  then show ?thesis by (simp only: drop_bit_xor flip: drop_bit_eq_div)
qed

lemma xor_pow_div_Suc: "(b XOR 2 ^ k) div 2 ^ Suc k = b div (2 ^ Suc k :: nat)"
proof -
  have "drop_bit (Suc k) (2 ^ k :: nat) = 0" by (simp add: drop_bit_eq_div)
  then show ?thesis by (simp only: drop_bit_xor xor.right_neutral flip: drop_bit_eq_div)
qed

lemma xor_pow_dvd: "2 ^ k dvd b \<Longrightarrow> 2 ^ k dvd b XOR (2 ^ k :: nat)"
  by (simp add: take_bit_xor flip: take_bit_eq_0_iff)

lemma div_Suc_xor: "x div 2 = y div 2 \<longleftrightarrow> x = y \<or> x = y XOR (1 :: nat)"
proof (cases "even y")
  case True
  then have "y XOR 1 = y + 1" unfolding xor_one_eq by simp
  with True show ?thesis by presburger
next
  case False
  then have "y XOR 1 = y - 1" unfolding xor_one_eq by simp
  with False show ?thesis by presburger
qed

lemma block_halves:
  "p div 2 ^ Suc k = b div 2 ^ Suc k \<longleftrightarrow> p div 2 ^ k = b div 2 ^ k \<or> p div 2 ^ k = (b XOR 2 ^ k) div (2 ^ k :: nat)"
  unfolding xor_pow_div div_Suc_xor[symmetric] power_Suc2 div_mult2_eq ..

lemma halves_disjoint: "(b XOR 2 ^ k) div 2 ^ k \<noteq> b div (2 ^ k :: nat)"
  unfolding xor_pow_div by (metis xor_pow_neq power_0)

lemma aligned_xor_add:
  assumes "2 ^ Suc k dvd b"
  shows "b XOR 2 ^ k = b + (2 ^ k :: nat)"
proof -
  obtain c where c: "b = 2 ^ k * (2 * c)" using assms by (auto simp: dvd_def mult_ac)
  then have "\<not> bit b k" by (simp add: bit_iff_odd)
  then have "flip_bit k b = b + 2 ^ k" by (simp add: flip_bit_eq_if set_bit_eq)
  moreover have "flip_bit k b = b XOR 2 ^ k" by (simp add: flip_bit_eq_xor push_bit_eq_mult)
  ultimately show ?thesis by simp
qed

lemma div_pow_mono: "p div 2 ^ k = b div (2 ^ k :: nat) \<Longrightarrow> k \<le> m \<Longrightarrow> p div 2 ^ m = b div 2 ^ m"
  by (metis div_exp_eq le_add_diff_inverse)

lemma aligned_head: "p div 2 ^ k = b div (2 ^ k :: nat) \<Longrightarrow> 2 ^ k dvd p \<Longrightarrow> 2 ^ k dvd b \<Longrightarrow> p = b"
  by (metis dvd_div_mult_self)

lemma aligned_lower:
  assumes "2 ^ k dvd b" "b < b XOR (2 ^ k :: nat)"
  shows "2 ^ Suc k dvd b"
proof -
  obtain c where c: "b = 2 ^ k * c" using assms(1) by (rule dvdE)
  have "even c"
  proof (rule ccontr)
    assume "odd c"
    then have "c XOR 1 = c - 1" unfolding xor_one_eq by simp
    then have "(b XOR 2 ^ k) div 2 ^ k = c - 1" unfolding xor_pow_div by (simp add: c)
    then have "b XOR 2 ^ k = 2 ^ k * (c - 1)" using xor_pow_dvd[OF assms(1)] by (metis dvd_mult_div_cancel)
    then have "b XOR 2 ^ k \<le> b" by (simp add: c)
    with assms(2) show False by simp
  qed
  then show ?thesis by (auto simp: c elim!: evenE)
qed

lemma aligned_interval:
  assumes "2 ^ k dvd b"
  shows "p \<in> {b ..< b + 2 ^ k} \<longleftrightarrow> p div 2 ^ k = b div (2 ^ k :: nat)"
proof -
  obtain c where c: "b = 2 ^ k * c" using assms by (rule dvdE)
  have "p div 2 ^ k = c \<longleftrightarrow> c \<le> p div 2 ^ k \<and> p div 2 ^ k < Suc c" by auto
  also have "\<dots> \<longleftrightarrow> 2 ^ k * c \<le> p \<and> p < 2 ^ k * c + 2 ^ k"
    by (simp add: less_eq_div_iff_mult_less_eq div_less_iff_less_mult mult.commute add.commute)
  finally have "p div 2 ^ k = c \<longleftrightarrow> 2 ^ k * c \<le> p \<and> p < 2 ^ k * c + 2 ^ k" .
  then show ?thesis by (auto simp: c)
qed

end
