(* ===== verification/LibRb.thy ===== *)
theory LibRb
  imports Prelude
begin

text \<open>
  The intrusive red black tree of \<^verbatim>\<open>lib/rb.c\<close> and \<^verbatim>\<open>include/lib/rb.h\<close>, modelled on a heap of
  nodes with parent and child pointers.

  A state is the heap of nodes and the tree header (root pointer and node count). The header's
  \<^verbatim>\<open>value\<close> callback is the parameter \<open>val\<close>. Loads and stores come in the order of the C code.
  Dereferencing \<^verbatim>\<open>nullptr\<close>, a failed \<^verbatim>\<open>ASSERT\<close> and a loop that does not end are \<open>None\<close>; the
  pointer chasing loops are \<^theory_text>\<open>partial_function (option)\<close>, so that nothing is assumed
  about the shape of the heap. Theories \<open>RbShape\<close>, \<open>RbInsert\<close> and \<open>RbRemove\<close> prove these
  routines correct.
\<close>

section \<open>Data\<close>

datatype rb_direction = RB_LEFT | RB_RIGHT

datatype rb_search_type =
    RB_SEARCH_EXACT | RB_SEARCH_NEAREST | RB_SEARCH_NEAREST_LT | RB_SEARCH_NEAREST_LTE
  | RB_SEARCH_NEAREST_GT | RB_SEARCH_NEAREST_GTE

record rb_node =
  n_red :: bool
  n_parent :: ptr
  n_left :: ptr
  n_right :: ptr

record rb_tree =
  rb_heap :: "addr \<Rightarrow> rb_node"
  rb_root :: ptr
  rb_count :: u64

definition RB_TREE_INIT :: "(addr \<Rightarrow> rb_node) \<Rightarrow> rb_tree" where
  "RB_TREE_INIT h = \<lparr>rb_heap = h, rb_root = None, rb_count = 0\<rparr>"

fun opp :: "rb_direction \<Rightarrow> rb_direction" where
  "opp RB_LEFT = RB_RIGHT"
| "opp RB_RIGHT = RB_LEFT"

text \<open>\<^verbatim>\<open>children[direction]\<close> shares storage with \<^verbatim>\<open>left\<close> and \<^verbatim>\<open>right\<close>.\<close>

fun n_child :: "rb_node \<Rightarrow> rb_direction \<Rightarrow> ptr" where
  "n_child n RB_LEFT = n_left n"
| "n_child n RB_RIGHT = n_right n"

fun n_set_child :: "rb_direction \<Rightarrow> ptr \<Rightarrow> rb_node \<Rightarrow> rb_node" where
  "n_set_child RB_LEFT p n = n\<lparr>n_left := p\<rparr>"
| "n_set_child RB_RIGHT p n = n\<lparr>n_right := p\<rparr>"

abbreviation rb_node_at :: "rb_tree \<Rightarrow> addr \<Rightarrow> rb_node" where "rb_node_at s a \<equiv> rb_heap s a"
abbreviation red_of :: "rb_tree \<Rightarrow> addr \<Rightarrow> bool" where "red_of s a \<equiv> n_red (rb_heap s a)"
abbreviation parent_of :: "rb_tree \<Rightarrow> addr \<Rightarrow> ptr" where "parent_of s a \<equiv> n_parent (rb_heap s a)"
abbreviation child_of :: "rb_tree \<Rightarrow> addr \<Rightarrow> rb_direction \<Rightarrow> ptr" where
  "child_of s a d \<equiv> n_child (rb_heap s a) d"

definition upd_node :: "addr \<Rightarrow> (rb_node \<Rightarrow> rb_node) \<Rightarrow> rb_tree \<Rightarrow> rb_tree" where
  "upd_node a f s = s\<lparr>rb_heap := (rb_heap s)(a := f (rb_heap s a))\<rparr>"

definition set_red :: "addr \<Rightarrow> bool \<Rightarrow> rb_tree \<Rightarrow> rb_tree" where
  "set_red a c = upd_node a (\<lambda>n. n\<lparr>n_red := c\<rparr>)"

definition set_parent :: "addr \<Rightarrow> ptr \<Rightarrow> rb_tree \<Rightarrow> rb_tree" where
  "set_parent a p = upd_node a (\<lambda>n. n\<lparr>n_parent := p\<rparr>)"

definition set_child :: "addr \<Rightarrow> rb_direction \<Rightarrow> ptr \<Rightarrow> rb_tree \<Rightarrow> rb_tree" where
  "set_child a d p = upd_node a (n_set_child d p)"

definition set_root :: "ptr \<Rightarrow> rb_tree \<Rightarrow> rb_tree" where
  "set_root p s = s\<lparr>rb_root := p\<rparr>"

text \<open>The macros \<^verbatim>\<open>IS_RED\<close> and \<^verbatim>\<open>GET_DIRECTION\<close>.\<close>

definition IS_RED :: "rb_tree \<Rightarrow> ptr \<Rightarrow> bool" where
  "IS_RED s p = (case p of None \<Rightarrow> False | Some a \<Rightarrow> red_of s a)"

definition GET_DIRECTION :: "rb_tree \<Rightarrow> addr \<Rightarrow> rb_direction option" where
  "GET_DIRECTION s a = do {
     p \<leftarrow> parent_of s a;
     Some (if Some a = n_right (rb_heap s p) then RB_RIGHT else RB_LEFT)
   }"

section \<open>Structural helpers\<close>

definition transplant :: "rb_tree \<Rightarrow> addr \<Rightarrow> ptr \<Rightarrow> rb_tree option" where
  "transplant s u v = do {
     s \<leftarrow> (case parent_of s u of
             None \<Rightarrow> do { ASSERT (rb_root s = Some u); Some (set_root v s) }
           | Some p \<Rightarrow> do { d \<leftarrow> GET_DIRECTION s u; Some (set_child p d v s) });
     Some (case v of None \<Rightarrow> s | Some w \<Rightarrow> set_parent w (parent_of s u) s)
   }"

definition rotate :: "rb_tree \<Rightarrow> ptr \<Rightarrow> rb_direction \<Rightarrow> (rb_tree \<times> addr) option" where
  "rotate s node_p direction = do {
     node \<leftarrow> node_p;
     let rotation_parent = parent_of s node;
     new_root \<leftarrow> child_of s node (opp direction);
     let s = set_child node (opp direction) (child_of s new_root direction) s;
     let s = (case child_of s node (opp direction) of None \<Rightarrow> s | Some c \<Rightarrow> set_parent c (Some node) s);
     let s = set_child new_root direction (Some node) s;
     let s = set_parent node (Some new_root) s;
     let s = set_parent new_root rotation_parent s;
     let s = (case rotation_parent of
                Some p \<Rightarrow> set_child p (if Some node = n_right (rb_heap s p) then RB_RIGHT else RB_LEFT) (Some new_root) s
              | None \<Rightarrow> set_root (Some new_root) s);
     Some (s, new_root)
   }"

section \<open>Insertion\<close>

text \<open>The branch of \<^verbatim>\<open>rebalance_insert\<close> that is taken when the uncle is black or missing.\<close>

definition rebalance_insert_rotate ::
  "rb_tree \<Rightarrow> addr \<Rightarrow> addr \<Rightarrow> addr \<Rightarrow> rb_direction \<Rightarrow> rb_tree option" where
  "rebalance_insert_rotate s node parent grandparent direction = do {
     (s, parent) \<leftarrow>
       (if Some node = child_of s parent (opp direction) then do {
          (s, _) \<leftarrow> rotate s (Some parent) direction;
          parent' \<leftarrow> child_of s grandparent direction;
          Some (s, parent')
        } else Some (s, parent));
     (s, _) \<leftarrow> rotate s (Some grandparent) (opp direction);
     let s = set_red parent False s;
     Some (set_red grandparent True s)
   }"

text \<open>
  The loop of \<^verbatim>\<open>rebalance_insert\<close>, entered with a parent. Leaving it by its condition blackens
  the root.
\<close>

partial_function (option) rebalance_insert_loop :: "rb_tree \<Rightarrow> addr \<Rightarrow> addr \<Rightarrow> rb_tree option" where
  "rebalance_insert_loop s node parent =
    (if \<not> red_of s parent then Some s
     else (case parent_of s parent of
       None \<Rightarrow> Some (set_red parent False s)
     | Some grandparent \<Rightarrow> do {
         direction \<leftarrow> GET_DIRECTION s parent;
         let uncle_p = child_of s grandparent (opp direction);
         if \<not> IS_RED s uncle_p then rebalance_insert_rotate s node parent grandparent direction
         else do {
           uncle \<leftarrow> uncle_p;
           let s = set_red parent False s;
           let s = set_red uncle False s;
           let s = set_red grandparent True s;
           (case parent_of s grandparent of
              Some p \<Rightarrow> rebalance_insert_loop s grandparent p
            | None \<Rightarrow> do { r \<leftarrow> rb_root s; Some (set_red r False s) })
         }
       }))"

definition rebalance_insert :: "rb_tree \<Rightarrow> addr \<Rightarrow> rb_tree option" where
  "rebalance_insert s node =
    (case parent_of s node of None \<Rightarrow> Some s | Some parent \<Rightarrow> rebalance_insert_loop s node parent)"

text \<open>The descent of \<^verbatim>\<open>rb_insert\<close>: equal values go to the right.\<close>

partial_function (option) rb_insert_descend ::
  "(addr \<Rightarrow> u64) \<Rightarrow> rb_tree \<Rightarrow> addr \<Rightarrow> u64 \<Rightarrow> ptr \<Rightarrow> rb_direction \<Rightarrow> (rb_tree \<times> rb_direction) option" where
  "rb_insert_descend val s node node_value current direction =
    (case current of
       None \<Rightarrow> Some (s, direction)
     | Some c \<Rightarrow>
         (let s = set_parent node (Some c) s;
              direction = (if node_value < val c then RB_LEFT else RB_RIGHT)
          in rb_insert_descend val s node node_value (child_of s c direction) direction))"

definition rb_insert :: "(addr \<Rightarrow> u64) \<Rightarrow> rb_tree \<Rightarrow> addr \<Rightarrow> rb_tree option" where
  "rb_insert val s node = do {
     let s = s\<lparr>rb_count := rb_count s + 1\<rparr>;
     let s = upd_node node (\<lambda>n. n\<lparr>n_left := None, n_right := None, n_parent := None, n_red := True\<rparr>) s;
     (s, direction) \<leftarrow> rb_insert_descend val s node (val node) (rb_root s) RB_LEFT;
     (case parent_of s node of
        None \<Rightarrow> Some (set_red node False (set_root (Some node) s))
      | Some p \<Rightarrow> do {
          let s = set_child p direction (Some node) s;
          (case parent_of s p of None \<Rightarrow> Some s | Some _ \<Rightarrow> rebalance_insert s node)
        })
   }"

section \<open>Removal\<close>

partial_function (option) leftmost :: "rb_tree \<Rightarrow> addr \<Rightarrow> addr option" where
  "leftmost s successor =
    (case n_left (rb_heap s successor) of None \<Rightarrow> Some successor | Some l \<Rightarrow> leftmost s l)"

text \<open>
  The part of \<^verbatim>\<open>rb_remove\<close> up to the rebalancing: unlink the node, and return whether the
  removed position was red, the node \<open>x\<close> that took it and that node's parent \<open>x_p\<close>.
\<close>

definition rb_unlink :: "rb_tree \<Rightarrow> addr \<Rightarrow> (rb_tree \<times> bool \<times> ptr \<times> ptr) option" where
  "rb_unlink s node =
    (let original_is_red = IS_RED s (Some node) in
     if n_left (rb_heap s node) = None then do {
       let x = n_right (rb_heap s node);
       let x_p = parent_of s node;
       s \<leftarrow> transplant s node x;
       Some (s, original_is_red, x, x_p)
     } else if n_right (rb_heap s node) = None then do {
       let x = n_left (rb_heap s node);
       let x_p = parent_of s node;
       s \<leftarrow> transplant s node x;
       Some (s, original_is_red, x, x_p)
     } else do {
       r \<leftarrow> n_right (rb_heap s node);
       successor \<leftarrow> leftmost s r;
       let original_is_red = IS_RED s (Some successor);
       let x = n_right (rb_heap s successor);
       (s, x_p) \<leftarrow>
         (if parent_of s successor = Some node then Some (s, Some successor)
          else do {
            let x_p = parent_of s successor;
            s \<leftarrow> transplant s successor x;
            let s = set_child successor RB_RIGHT (n_right (rb_heap s node)) s;
            rr \<leftarrow> n_right (rb_heap s successor);
            let s = set_parent rr (Some successor) s;
            Some (s, x_p)
          });
       ASSERT (n_left (rb_heap s successor) = None);
       s \<leftarrow> transplant s node (Some successor);
       let s = set_child successor RB_LEFT (n_left (rb_heap s node)) s;
       ll \<leftarrow> n_left (rb_heap s successor);
       let s = set_parent ll (Some successor) s;
       let s = set_red successor (IS_RED s (Some node)) s;
       Some (s, original_is_red, x, x_p)
     })"

text \<open>
  One iteration of the rebalancing loop of \<^verbatim>\<open>rb_remove\<close>. The C code spells out the two mirror
  images of this body; \<open>d\<close> is \<open>RB_LEFT\<close> in the branch for \<^verbatim>\<open>x == x_p->left\<close> and \<open>RB_RIGHT\<close> in
  the other one. \<open>rb_remove_fix\<close> is the part after the treatment of a red sibling \<open>w\<close>; the result
  carries the new \<open>x\<close>.
\<close>

definition rb_remove_fix :: "rb_tree \<Rightarrow> addr \<Rightarrow> addr \<Rightarrow> rb_direction \<Rightarrow> (rb_tree \<times> ptr) option" where
  "rb_remove_fix s x_p w d =
    (if \<not> IS_RED s (child_of s w d) \<and> \<not> IS_RED s (child_of s w (opp d))
     then Some (set_red w True s, Some x_p)
     else do {
       (s, w) \<leftarrow>
         (if \<not> IS_RED s (child_of s w (opp d)) then do {
            near \<leftarrow> child_of s w d;
            let s = set_red near False s;
            let s = set_red w True s;
            (s, _) \<leftarrow> rotate s (Some w) (opp d);
            w \<leftarrow> child_of s x_p (opp d);
            Some (s, w)
          } else Some (s, w));
       let s = set_red w (IS_RED s (Some x_p)) s;
       let s = set_red x_p False s;
       far \<leftarrow> child_of s w (opp d);
       let s = set_red far False s;
       (s, _) \<leftarrow> rotate s (Some x_p) d;
       Some (s, rb_root s)
     })"

definition rb_remove_step :: "rb_tree \<Rightarrow> ptr \<Rightarrow> addr \<Rightarrow> rb_direction \<Rightarrow> (rb_tree \<times> ptr) option" where
  "rb_remove_step s x x_p d = do {
     w \<leftarrow> child_of s x_p (opp d);
     (s, w) \<leftarrow>
       (if red_of s w then do {
          let s = set_red w False s;
          let s = set_red x_p True s;
          (s, _) \<leftarrow> rotate s (Some x_p) d;
          ASSERT (x = child_of s x_p d);
          w \<leftarrow> child_of s x_p (opp d);
          Some (s, w)
        } else Some (s, w));
     rb_remove_fix s x_p w d
   }"

partial_function (option) rb_remove_loop :: "rb_tree \<Rightarrow> ptr \<Rightarrow> ptr \<Rightarrow> rb_tree option" where
  "rb_remove_loop s x x_p =
    (if x = rb_root s \<or> IS_RED s x
     then Some (case x of None \<Rightarrow> s | Some a \<Rightarrow> set_red a False s)
     else do {
       p \<leftarrow> x_p;
       (s, x) \<leftarrow> rb_remove_step s x p (if x = n_left (rb_heap s p) then RB_LEFT else RB_RIGHT);
       a \<leftarrow> x;
       rb_remove_loop s x (parent_of s a)
     })"

definition rb_remove :: "rb_tree \<Rightarrow> addr \<Rightarrow> rb_tree option" where
  "rb_remove s node = do {
     let s = s\<lparr>rb_count := rb_count s - 1\<rparr>;
     (s, original_is_red, x, x_p) \<leftarrow> rb_unlink s node;
     ASSERT (case x_p of None \<Rightarrow> True
             | Some p \<Rightarrow> x = n_left (rb_heap s p) \<or> x = n_right (rb_heap s p));
     if original_is_red then Some s else rb_remove_loop s x x_p
   }"

section \<open>Search\<close>

text \<open>
  One iteration of the loop of \<^verbatim>\<open>rb_search\<close> at node \<open>c\<close>: \<open>Inl\<close> is an early return, \<open>Inr\<close> the
  loop variables \<open>current\<close>, \<open>nearest_node\<close> and \<open>nearest_value\<close> for the next iteration.
\<close>

fun rb_search_visit ::
  "(addr \<Rightarrow> u64) \<Rightarrow> rb_tree \<Rightarrow> u64 \<Rightarrow> rb_search_type \<Rightarrow> addr \<Rightarrow> ptr \<Rightarrow> u64 \<Rightarrow> addr + ptr \<times> ptr \<times> u64" where
  "rb_search_visit val s v RB_SEARCH_EXACT c nearest nearest_value =
     (if val c = v then Inl c
      else Inr (if val c < v then n_right (rb_heap s c) else n_left (rb_heap s c), nearest, nearest_value))"
| "rb_search_visit val s v RB_SEARCH_NEAREST c nearest nearest_value =
     Inr (if val c < v then n_right (rb_heap s c) else n_left (rb_heap s c), Some c, nearest_value)"
| "rb_search_visit val s v RB_SEARCH_NEAREST_LT c nearest nearest_value =
     (if v < val c \<or> val c = v then Inr (n_left (rb_heap s c), nearest, nearest_value)
      else if nearest = None \<or> nearest_value < val c then Inr (n_right (rb_heap s c), Some c, val c)
      else Inr (n_right (rb_heap s c), nearest, nearest_value))"
| "rb_search_visit val s v RB_SEARCH_NEAREST_LTE c nearest nearest_value =
     (if v < val c then Inr (n_left (rb_heap s c), nearest, nearest_value)
      else if nearest = None \<or> nearest_value < val c then Inr (n_right (rb_heap s c), Some c, val c)
      else Inr (n_right (rb_heap s c), nearest, nearest_value))"
| "rb_search_visit val s v RB_SEARCH_NEAREST_GT c nearest nearest_value =
     (if val c < v \<or> val c = v then Inr (n_right (rb_heap s c), nearest, nearest_value)
      else if nearest = None \<or> val c < nearest_value then Inr (n_left (rb_heap s c), Some c, val c)
      else Inr (n_left (rb_heap s c), nearest, nearest_value))"
| "rb_search_visit val s v RB_SEARCH_NEAREST_GTE c nearest nearest_value =
     (if val c < v then Inr (n_right (rb_heap s c), nearest, nearest_value)
      else if nearest = None \<or> val c < nearest_value then Inr (n_left (rb_heap s c), Some c, val c)
      else Inr (n_left (rb_heap s c), nearest, nearest_value))"

partial_function (option) rb_search_loop ::
  "(addr \<Rightarrow> u64) \<Rightarrow> rb_tree \<Rightarrow> u64 \<Rightarrow> rb_search_type \<Rightarrow> ptr \<Rightarrow> ptr \<Rightarrow> u64 \<Rightarrow> ptr option" where
  "rb_search_loop val s v ty current nearest nearest_value =
    (case current of
       None \<Rightarrow> Some nearest
     | Some c \<Rightarrow>
         (case rb_search_visit val s v ty c nearest nearest_value of
            Inl found \<Rightarrow> Some (Some found)
          | Inr (current, nearest, nearest_value) \<Rightarrow>
              rb_search_loop val s v ty current nearest nearest_value))"

definition rb_search :: "(addr \<Rightarrow> u64) \<Rightarrow> rb_tree \<Rightarrow> u64 \<Rightarrow> rb_search_type \<Rightarrow> ptr option" where
  "rb_search val s v ty = rb_search_loop val s v ty (rb_root s) None 0"

end
