(* ===== verification/RbShape.thy ===== *)
theory RbShape
  imports LibRb
begin

text \<open>
  The shape of a red black tree in the heap. \<open>rbt\<close> is the abstract tree of node addresses;
  \<open>rep s k t\<close> says that the heap of \<open>s\<close> holds the tree \<open>t\<close> below the context \<open>k\<close> (the path back to
  the root, innermost frame first), with consistent parent pointers and no sharing. Moving the
  focus (\<open>rep_move\<close>) lets every store of the C code be proved at the node it touches.
\<close>

section \<open>Trees, contexts\<close>

datatype rbt = Leaf | Node bool rbt addr rbt

fun inorder :: "rbt \<Rightarrow> addr list" where
  "inorder Leaf = []"
| "inorder (Node c l a r) = inorder l @ a # inorder r"

fun top :: "rbt \<Rightarrow> ptr" where
  "top Leaf = None"
| "top (Node c l a r) = Some a"

fun isred :: "rbt \<Rightarrow> bool" where
  "isred Leaf = False"
| "isred (Node c l a r) = c"

datatype frame = Frame rb_direction bool addr rbt

text \<open>\<open>nd d c t a u\<close>: the node \<open>a\<close> with \<open>t\<close> as its child in direction \<open>d\<close> and \<open>u\<close> as the other one.\<close>

fun nd :: "rb_direction \<Rightarrow> bool \<Rightarrow> rbt \<Rightarrow> addr \<Rightarrow> rbt \<Rightarrow> rbt" where
  "nd RB_LEFT c t a u = Node c t a u"
| "nd RB_RIGHT c t a u = Node c u a t"

fun plug :: "frame list \<Rightarrow> rbt \<Rightarrow> rbt" where
  "plug [] t = t"
| "plug (Frame d c a u # k) t = plug k (nd d c t a u)"

fun up :: "frame list \<Rightarrow> ptr" where
  "up [] = None"
| "up (Frame d c a u # k) = Some a"

fun cnodes :: "frame list \<Rightarrow> addr list" where
  "cnodes [] = []"
| "cnodes (Frame d c a u # k) = a # inorder u @ cnodes k"

lemma opp_opp [simp]: "opp (opp d) = d"
  by (cases d) auto

lemma opp_neq [simp]: "opp d \<noteq> d" "d \<noteq> opp d"
  by (cases d; simp)+

lemma top_in: "top t = Some a \<Longrightarrow> a \<in> set (inorder t)"
  by (cases t) auto

lemma top_neq [simp]: "a \<notin> set (inorder t) \<Longrightarrow> top t \<noteq> Some a" "a \<notin> set (inorder t) \<Longrightarrow> Some a \<noteq> top t"
  using top_in by metis+

lemma top_None [simp]: "top t = None \<longleftrightarrow> t = Leaf" "None = top t \<longleftrightarrow> t = Leaf"
  by (cases t; simp)+

lemma top_nd [simp]: "top (nd d c t a u) = Some a"
  by (cases d) auto

lemma isred_nd [simp]: "isred (nd d c t a u) = c"
  by (cases d) auto

lemma set_inorder_nd [simp]: "set (inorder (nd d c t a u)) = insert a (set (inorder t) \<union> set (inorder u))"
  by (cases d) auto

lemma distinct_inorder_nd [simp]:
  "distinct (inorder (nd d c t a u)) \<longleftrightarrow>
     distinct (inorder t) \<and> distinct (inorder u) \<and> a \<notin> set (inorder t) \<and> a \<notin> set (inorder u) \<and>
     set (inorder t) \<inter> set (inorder u) = {}"
  by (cases d) auto

lemma nd_neq_Leaf [simp]: "nd d c t a u \<noteq> Leaf" "Leaf \<noteq> nd d c t a u"
  by (cases d; simp)+

lemma nd_inject [simp]: "nd d c t a u = nd d c' t' a' u' \<longleftrightarrow> c = c' \<and> t = t' \<and> a = a' \<and> u = u'"
  by (cases d) auto

lemma nd_cases: obtains "t = Leaf" | c u a v where "t = nd d c u a v"
proof (cases t)
  case (Node c l a r)
  then have "t = nd d c (if d = RB_LEFT then l else r) a (if d = RB_LEFT then r else l)"
    by (cases d) auto
  then show ?thesis by (rule that(2))
qed (rule that(1))

lemma plug_append: "plug (k @ k') t = plug k' (plug k t)"
  by (induction k t rule: plug.induct) auto

section \<open>Trees in the heap\<close>

fun tree_at :: "(addr \<Rightarrow> rb_node) \<Rightarrow> ptr \<Rightarrow> rbt \<Rightarrow> bool" where
  "tree_at h par Leaf = True"
| "tree_at h par (Node c l a r) =
     (n_red (h a) = c \<and> n_parent (h a) = par \<and> n_left (h a) = top l \<and> n_right (h a) = top r \<and>
      tree_at h (Some a) l \<and> tree_at h (Some a) r)"

fun ctx_at :: "(addr \<Rightarrow> rb_node) \<Rightarrow> ptr \<Rightarrow> ptr \<Rightarrow> frame list \<Rightarrow> bool" where
  "ctx_at h root p [] = (root = p)"
| "ctx_at h root p (Frame d c a u # k) =
     (n_red (h a) = c \<and> n_parent (h a) = up k \<and> n_child (h a) d = p \<and> n_child (h a) (opp d) = top u \<and>
      tree_at h (Some a) u \<and> ctx_at h root (Some a) k)"

definition rep :: "rb_tree \<Rightarrow> frame list \<Rightarrow> rbt \<Rightarrow> bool" where
  "rep s k t \<longleftrightarrow> tree_at (rb_heap s) (up k) t \<and> ctx_at (rb_heap s) (rb_root s) (top t) k \<and>
     distinct (inorder t @ cnodes k)"

text \<open>What an operation leaves alone: nodes outside \<open>N\<close> and the node count.\<close>

definition rb_same :: "addr set \<Rightarrow> rb_tree \<Rightarrow> rb_tree \<Rightarrow> bool" where
  "rb_same N s s' \<longleftrightarrow> (\<forall>a. a \<notin> N \<longrightarrow> rb_heap s' a = rb_heap s a) \<and> rb_count s' = rb_count s"

lemma rb_same_refl [simp]: "rb_same N s s"
  by (simp add: rb_same_def)

lemma rb_same_trans: "rb_same N s s' \<Longrightarrow> rb_same N s' s'' \<Longrightarrow> rb_same N s s''"
  by (simp add: rb_same_def)

lemma tree_at_nd [simp]:
  "tree_at h par (nd d c t a u) \<longleftrightarrow>
     n_red (h a) = c \<and> n_parent (h a) = par \<and> n_child (h a) d = top t \<and> n_child (h a) (opp d) = top u \<and>
     tree_at h (Some a) t \<and> tree_at h (Some a) u"
  by (cases d) auto

lemma tree_at_frame [simp]: "a \<notin> set (inorder t) \<Longrightarrow> tree_at (h(a := v)) par t = tree_at h par t"
  by (induction t arbitrary: par) auto

lemma ctx_at_frame [simp]: "a \<notin> set (cnodes k) \<Longrightarrow> ctx_at (h(a := v)) root p k = ctx_at h root p k"
  by (induction k arbitrary: p rule: cnodes.induct) auto

lemma tree_at_cong: "(\<And>a. a \<in> set (inorder t) \<Longrightarrow> h a = h' a) \<Longrightarrow> tree_at h par t = tree_at h' par t"
  by (induction t arbitrary: par) auto

lemma rep_move: "rep s (Frame d c a u # k) t = rep s k (nd d c t a u)"
  by (auto simp: rep_def)

lemma rep_plug: "rep s k t = rep s [] (plug k t)"
  by (induction k t rule: plug.induct) (auto simp: rep_move)

lemma rep_distinct: "rep s k t \<Longrightarrow> distinct (inorder t @ cnodes k)"
  by (simp add: rep_def)

lemma set_inorder_plug: "set (inorder (plug k t)) = set (inorder t) \<union> set (cnodes k)"
  by (induction k t rule: plug.induct) auto

lemma n_child_set_child [simp]:
  "n_child (n_set_child d p n) d = p" "n_child (n_set_child d p n) (opp d) = n_child n (opp d)"
  "n_child (n_set_child (opp d) p n) d = n_child n d"
  "n_child (n\<lparr>n_red := c\<rparr>) d = n_child n d" "n_child (n\<lparr>n_parent := q\<rparr>) d = n_child n d"
  "n_red (n_set_child d p n) = n_red n" "n_parent (n_set_child d p n) = n_parent n"
  by (cases d; simp)+

lemma upd_node_simps [simp]:
  "rb_heap (upd_node a f s) = (rb_heap s)(a := f (rb_heap s a))"
  "rb_root (upd_node a f s) = rb_root s" "rb_count (upd_node a f s) = rb_count s"
  by (simp_all add: upd_node_def)

lemmas rb_stores = set_red_def set_parent_def set_child_def set_root_def

section \<open>Recolouring and rotation\<close>

lemma set_red_rep: "rep s k (nd d c t a u) \<Longrightarrow> rep (set_red a c' s) k (nd d c' t a u)"
  by (auto simp: rep_def rb_stores)

lemma set_red_same: "a \<in> N \<Longrightarrow> rb_same N s (set_red a c s)"
  by (simp add: rb_same_def rb_stores)

lemma parent_dir:
  "n_child n d = Some a \<Longrightarrow> n_child n (opp d) \<noteq> Some a \<Longrightarrow>
    (if Some a = n_right n then RB_RIGHT else RB_LEFT) = d"
  by (cases d) auto

lemmas disjoint_simps = Int_Un_distrib Int_Un_distrib2 Int_insert_left Int_insert_right

lemma rotate_rep:
  assumes "rep s k (nd d c x a (nd d c' y b z))"
  shows "\<exists>s'. rotate s (Some a) d = Some (s', b) \<and> rep s' k (nd d c' (nd d c x a y) b z) \<and>
    rb_same (set (inorder (nd d c x a (nd d c' y b z))) \<union> set (cnodes k)) s s'"
proof (cases k rule: up.cases)
  case 1
  show ?thesis
  proof (cases y)
    case Leaf
    with 1 assms show ?thesis
      by (simp add: rep_def rotate_def rb_stores rb_same_def, elim conjE) (simp add: disjoint_simps)
  next
    case (Node yc yl ya yr)
    with 1 assms show ?thesis
      by (simp add: rep_def rotate_def rb_stores rb_same_def, elim conjE) (simp add: disjoint_simps)
  qed
next
  case (2 d' c'' p u k')
  have dir: "(if Some a = n_right (rb_heap s p) then RB_RIGHT else RB_LEFT) = d'"
    using assms 2 by (intro parent_dir) (auto simp: rep_def)
  show ?thesis
  proof (cases y)
    case Leaf
    with 2 assms show ?thesis
      by (simp add: rep_def rotate_def rb_stores rb_same_def dir, elim conjE) (simp add: dir disjoint_simps)
  next
    case (Node yc yl ya yr)
    with 2 assms show ?thesis
      by (simp add: rep_def rotate_def rb_stores rb_same_def dir, elim conjE) (simp add: dir disjoint_simps)
  qed
qed

section \<open>Reading the tree through the representation\<close>

lemma IS_RED_top: "tree_at (rb_heap s) par t \<Longrightarrow> IS_RED s (top t) = isred t"
  by (cases t) (auto simp: IS_RED_def)

lemma rep_nd:
  assumes "rep s k (nd d c t a u)"
  shows "red_of s a = c" "parent_of s a = up k" "child_of s a d = top t" "child_of s a (opp d) = top u"
    "IS_RED s (top t) = isred t" "IS_RED s (top u) = isred u" "IS_RED s (Some a) = c"
  using assms by (auto simp: rep_def IS_RED_top) (auto simp: IS_RED_def)

lemma rep_root: "rep s [] t \<Longrightarrow> rb_root s = top t"
  by (simp add: rep_def)

lemma rep_parent: "rep s k t \<Longrightarrow> top t = Some a \<Longrightarrow> parent_of s a = up k"
  by (cases t) (auto simp: rep_def)

lemma GET_DIRECTION_rep:
  assumes "rep s (Frame d c p u # k) t" and "top t = Some a"
  shows "GET_DIRECTION s a = Some d"
proof -
  have 1: "parent_of s a = Some p" using rep_parent[OF assms] by simp
  have "a \<notin> set (inorder u)" using assms top_in by (auto simp: rep_def)
  then have "(if Some a = n_right (rb_heap s p) then RB_RIGHT else RB_LEFT) = d"
    using assms by (intro parent_dir) (auto simp: rep_def)
  with 1 show ?thesis by (simp add: GET_DIRECTION_def)
qed

lemma rep_cong:
  assumes "rep s k t" "rb_root s' = rb_root s" "\<And>a. a \<in> set (inorder (plug k t)) \<Longrightarrow> rb_heap s' a = rb_heap s a"
  shows "rep s' k t"
proof -
  have "rep s [] (plug k t)" using assms(1) rep_plug by simp
  then have "rep s' [] (plug k t)"
    using assms(2,3) tree_at_cong[of "plug k t" "rb_heap s" "rb_heap s'"] by (simp add: rep_def)
  then show ?thesis using rep_plug by simp
qed

lemma rb_same_mono: "rb_same N s s' \<Longrightarrow> N \<subseteq> M \<Longrightarrow> rb_same M s s'"
  by (auto simp: rb_same_def)

end
