(* ===== verification/RbInsert.thy ===== *)
theory RbInsert
  imports RbShape
begin

text \<open>
  The red black invariants and the correctness of \<^verbatim>\<open>rb_insert\<close>: on every well formed tree the
  routine returns, keeps the colour and black height invariants, and its nodes in order are the
  old ones with the new node after all nodes of smaller or equal value.
\<close>

section \<open>Colour and black height\<close>

fun invc :: "rbt \<Rightarrow> bool" where
  "invc Leaf = True"
| "invc (Node c l a r) = ((c \<longrightarrow> \<not> isred l \<and> \<not> isred r) \<and> invc l \<and> invc r)"

fun bhgt :: "rbt \<Rightarrow> nat \<Rightarrow> bool" where
  "bhgt Leaf n = (n = 0)"
| "bhgt (Node True l a r) n = (bhgt l n \<and> bhgt r n)"
| "bhgt (Node False l a r) 0 = False"
| "bhgt (Node False l a r) (Suc n) = (bhgt l n \<and> bhgt r n)"

definition rbt_ok :: "rbt \<Rightarrow> bool" where
  "rbt_ok t \<longleftrightarrow> invc t \<and> (\<exists>n. bhgt t n) \<and> \<not> isred t"

text \<open>The same conditions for a context, given the black height and the colour of its hole.\<close>

fun ch :: "frame list \<Rightarrow> nat \<Rightarrow> bool" where
  "ch [] n = True"
| "ch (Frame d c a u # k) n = (bhgt u n \<and> ch k (if c then n else Suc n))"

fun cc :: "frame list \<Rightarrow> bool \<Rightarrow> bool" where
  "cc [] red = (\<not> red)"
| "cc (Frame d c a u # k) red = (invc u \<and> (c \<longrightarrow> \<not> red \<and> \<not> isred u) \<and> cc k c)"

lemma invc_nd [simp]: "invc (nd d c t a u) \<longleftrightarrow> (c \<longrightarrow> \<not> isred t \<and> \<not> isred u) \<and> invc t \<and> invc u"
  by (cases d) auto

lemma bhgt_nd [simp]:
  "bhgt (nd d True t a u) n \<longleftrightarrow> bhgt t n \<and> bhgt u n"
  "bhgt (nd d False t a u) (Suc n) \<longleftrightarrow> bhgt t n \<and> bhgt u n"
  "\<not> bhgt (nd d False t a u) 0"
  by (cases d; auto)+

lemma bhgt_nd_iff:
  "bhgt (nd d c t a u) n \<longleftrightarrow> (if c then bhgt t n \<and> bhgt u n else (\<exists>m. n = Suc m \<and> bhgt t m \<and> bhgt u m))"
  by (cases c; cases n) auto

lemma bhgt_unique: "bhgt t n \<Longrightarrow> bhgt t m \<Longrightarrow> n = m"
proof (induction t arbitrary: n m)
  case Leaf
  then show ?case by simp
next
  case (Node c l a r)
  then show ?case by (cases c; cases n; cases m) auto
qed

lemma bhgt_Suc_cases:
  assumes "bhgt t (Suc n)" "\<not> isred t"
  obtains u a v where "t = nd d False u a v" "bhgt u n" "bhgt v n"
  using assms by (cases rule: nd_cases[where t = t and d = d]) (auto simp: bhgt_nd_iff split: if_splits)

lemma red_cases:
  assumes "isred t"
  obtains u a v where "t = nd d True u a v"
  using assms by (cases rule: nd_cases[where t = t and d = d]) auto

lemma cc_mono: "cc k True \<Longrightarrow> cc k b"
  by (cases k rule: up.cases) auto

lemma cc_False: "cc k b \<Longrightarrow> cc k False"
  by (cases k rule: up.cases) auto

lemma plug_ok: "rbt_ok (plug k t) \<longleftrightarrow> invc t \<and> cc k (isred t) \<and> (\<exists>n. bhgt t n \<and> ch k n)"
proof (induction k t rule: plug.induct)
  case (1 t)
  then show ?case by (auto simp: rbt_ok_def)
next
  case (2 d c a u k t)
  show ?case
    unfolding plug.simps 2
    by (cases c) (simp_all add: bhgt_nd_iff, blast+)
qed

section \<open>Nodes in order\<close>

fun cl :: "frame list \<Rightarrow> addr list" where
  "cl [] = []"
| "cl (Frame RB_LEFT c a u # k) = cl k"
| "cl (Frame RB_RIGHT c a u # k) = cl k @ inorder u @ [a]"

fun cr :: "frame list \<Rightarrow> addr list" where
  "cr [] = []"
| "cr (Frame RB_LEFT c a u # k) = a # inorder u @ cr k"
| "cr (Frame RB_RIGHT c a u # k) = cr k"

lemma inorder_plug: "inorder (plug k t) = cl k @ inorder t @ cr k"
proof (induction k t rule: plug.induct)
  case (2 d c a u k t)
  then show ?case by (cases d) auto
qed simp

lemma inorder_nd_colour: "inorder (nd d c t a u) = inorder (nd d c' t a u)"
  by (cases d) auto

lemma inorder_rotate: "inorder (nd d c' (nd d c1 x a y) b z) = inorder (nd d c x a (nd d c2 y b z))"
  by (cases d) auto

lemma nd_opp: "nd (opp d) c t a u = nd d c u a t"
  by (cases d) auto

lemma inorder_nd_cong: "inorder t = inorder t' \<Longrightarrow> inorder u = inorder u' \<Longrightarrow>
    inorder (nd d c t a u) = inorder (nd d c' t' a u')"
  by (cases d) auto

definition ins_val :: "(addr \<Rightarrow> u64) \<Rightarrow> addr \<Rightarrow> addr list \<Rightarrow> addr list" where
  "ins_val val a xs = takeWhile (\<lambda>x. val x \<le> val a) xs @ a # dropWhile (\<lambda>x. val x \<le> val a) xs"

lemma ins_val_split:
  assumes "\<And>x. x \<in> set xs \<Longrightarrow> val x \<le> val a" "\<And>y. y \<in> set ys \<Longrightarrow> val a < val y"
  shows "ins_val val a (xs @ ys) = xs @ a # ys"
proof -
  have "takeWhile (\<lambda>x. val x \<le> val a) ys = []" "dropWhile (\<lambda>x. val x \<le> val a) ys = ys"
    using assms(2) by (cases ys; simp add: linorder_not_le)+
  with assms(1) show ?thesis
    by (simp add: ins_val_def takeWhile_append2 dropWhile_append2)
qed

lemma mset_ins_val: "mset (ins_val val a xs) = add_mset a (mset xs)"
  unfolding ins_val_def by (induction xs) auto

lemma set_ins_val [simp]: "set (ins_val val a xs) = insert a (set xs)"
  by (metis mset_ins_val set_mset_add_mset_insert set_mset_mset)

lemma length_ins_val [simp]: "length (ins_val val a xs) = Suc (length xs)"
  by (metis mset_ins_val size_add_mset size_mset)

lemma distinct_ins_val: "distinct (ins_val val a xs) \<longleftrightarrow> a \<notin> set xs \<and> distinct xs"
  using mset_eq_imp_distinct_iff[of "ins_val val a xs" "a # xs"] by (simp add: mset_ins_val)

lemma sorted_ins_val:
  assumes "sorted (map val xs)"
  shows "sorted (map val (ins_val val a xs))"
proof -
  let ?P = "\<lambda>x. val x \<le> val a"
  define us vs where uv: "us = takeWhile ?P xs" "vs = dropWhile ?P xs"
  have xs: "sorted (map val (us @ vs))" using assms uv by simp
  have us: "\<forall>x \<in> set us. val x \<le> val a" using uv(1) by (auto dest: set_takeWhileD)
  have sv: "sorted (map val us)" "sorted (map val vs)" using xs by (simp_all add: sorted_append)
  have "val a \<le> val y" if "y \<in> set vs" for y
  proof -
    from that obtain v vs' where vs: "vs = v # vs'" by (cases vs) auto
    then have "val a < val v" using uv(2) hd_dropWhile[of ?P xs] by (simp add: linorder_not_le)
    moreover have "val v \<le> val y" using sv(2) vs that by auto
    ultimately show ?thesis by simp
  qed
  with us sv show ?thesis
    unfolding ins_val_def uv(1)[symmetric] uv(2)[symmetric]
    by (simp add: sorted_append) (meson order_trans)
qed

section \<open>Rebalancing after an insertion\<close>

abbreviation tree_nodes :: "frame list \<Rightarrow> rbt \<Rightarrow> addr set" where
  "tree_nodes k t \<equiv> set (inorder (plug k t))"

lemma rotate_plug:
  assumes "rep s k (nd d c x a (nd d c' y b z))"
  obtains s' where "rotate s (Some a) d = Some (s', b)" "rep s' k (nd d c' (nd d c x a y) b z)"
    "rb_same (tree_nodes k (nd d c x a (nd d c' y b z))) s s'"
  using rotate_rep[OF assms] by (auto simp: set_inorder_plug)

text \<open>The final rotation at the grandparent with its two recolourings.\<close>

lemma rotate_recolour:
  assumes "rep s k (nd dg False (nd dg True A p u) g v)"
  obtains s1 where "rotate s (Some g) (opp dg) = Some (s1, p)"
    "rep (set_red g True (set_red p False s1)) k (nd (opp dg) False (nd (opp dg) True v g u) p A)"
    "rb_same (tree_nodes k (nd dg False (nd dg True A p u) g v)) s (set_red g True (set_red p False s1))"
proof -
  have "rep s k (nd (opp dg) False v g (nd (opp dg) True u p A))"
    using assms by (simp add: nd_opp)
  then obtain s1 where s1: "rotate s (Some g) (opp dg) = Some (s1, p)"
    "rep s1 k (nd (opp dg) True (nd (opp dg) False v g u) p A)"
    "rb_same (tree_nodes k (nd (opp dg) False v g (nd (opp dg) True u p A))) s s1"
    by (rule rotate_plug)
  from set_red_rep[OF s1(2), of False]
  have "rep (set_red p False s1) (Frame (opp dg) False p A # k) (nd (opp dg) False v g u)"
    by (simp add: rep_move)
  from set_red_rep[OF this, of True]
  have "rep (set_red g True (set_red p False s1)) k (nd (opp dg) False (nd (opp dg) True v g u) p A)"
    by (simp add: rep_move)
  moreover have "rb_same (tree_nodes k (nd dg False (nd dg True A p u) g v)) s (set_red g True (set_red p False s1))"
  proof (rule rb_same_trans[OF rb_same_mono[OF s1(3)] rb_same_trans])
    show "rb_same (tree_nodes k (nd dg False (nd dg True A p u) g v)) s1 (set_red p False s1)"
      by (rule set_red_same) (simp add: set_inorder_plug)
    show "rb_same (tree_nodes k (nd dg False (nd dg True A p u) g v)) (set_red p False s1)
        (set_red g True (set_red p False s1))"
      by (rule set_red_same) (simp add: set_inorder_plug)
  qed (auto simp: set_inorder_plug)
  ultimately show thesis using s1(1) that by blast
qed

lemma insert_rotate:
  assumes rep: "rep s k (nd dg False (nd dn True t p u) g v)"
    and t: "t = nd dg True t1 x t2" and black: "\<not> isred u" "\<not> isred v"
    and inv: "invc t" "invc u" "invc v" "bhgt t n" "bhgt u n" "bhgt v n"
  shows "\<exists>s' t'. rebalance_insert_rotate s x p g dg = Some s' \<and> rep s' k t' \<and>
    inorder t' = inorder (nd dg False (nd dn True t p u) g v) \<and> invc t' \<and> \<not> isred t' \<and> bhgt t' (Suc n) \<and>
    rb_same (tree_nodes k (nd dg False (nd dn True t p u) g v)) s s'"
proof (cases "dn = dg")
  case True
  have sub: "rep s (Frame dg False g v # k) (nd dg True t p u)" using rep True by (simp add: rep_move)
  have ne: "child_of s p (opp dg) \<noteq> Some x"
    using rep_nd(4)[OF sub] rep_distinct[OF sub] t by auto
  from rep[unfolded True] obtain s1 where s1: "rotate s (Some g) (opp dg) = Some (s1, p)"
    "rep (set_red g True (set_red p False s1)) k (nd (opp dg) False (nd (opp dg) True v g u) p t)"
    "rb_same (tree_nodes k (nd dg False (nd dg True t p u) g v)) s (set_red g True (set_red p False s1))"
    by (rule rotate_recolour)
  let ?t' = "nd (opp dg) False (nd (opp dg) True v g u) p t"
  have "rebalance_insert_rotate s x p g dg = Some (set_red g True (set_red p False s1))"
    using ne s1(1) by (auto simp: rebalance_insert_rotate_def)
  moreover have "inorder ?t' = inorder (nd dg False (nd dn True t p u) g v)"
    using True by (cases dg) auto
  moreover have "invc ?t' \<and> \<not> isred ?t' \<and> bhgt ?t' (Suc n)" using black inv by simp
  ultimately show ?thesis using s1(2,3) True by blast
next
  case False
  then have dn: "dn = opp dg" by (cases dn; cases dg) auto
  have sub: "rep s (Frame dg False g v # k) (nd dg True u p (nd dg True t1 x t2))"
    using rep dn t by (simp add: rep_move nd_opp)
  then obtain s0 where s0: "rotate s (Some p) dg = Some (s0, x)"
    "rep s0 (Frame dg False g v # k) (nd dg True (nd dg True u p t1) x t2)"
    "rb_same (tree_nodes (Frame dg False g v # k) (nd dg True u p (nd dg True t1 x t2))) s s0"
    by (rule rotate_plug)
  have e: "child_of s p (opp dg) = Some x" using rep_nd(4)[OF sub] by simp
  from s0(2) have r0: "rep s0 k (nd dg False (nd dg True (nd dg True u p t1) x t2) g v)"
    by (simp add: rep_move)
  have c: "child_of s0 g dg = Some x" using rep_nd(3)[OF r0] by simp
  from r0 obtain s1 where s1: "rotate s0 (Some g) (opp dg) = Some (s1, x)"
    "rep (set_red g True (set_red x False s1)) k (nd (opp dg) False (nd (opp dg) True v g t2) x (nd dg True u p t1))"
    "rb_same (tree_nodes k (nd dg False (nd dg True (nd dg True u p t1) x t2) g v)) s0 (set_red g True (set_red x False s1))"
    by (rule rotate_recolour)
  have same: "rb_same (tree_nodes k (nd dg False (nd dn True t p u) g v)) s (set_red g True (set_red x False s1))"
    using t dn by - (rule rb_same_trans[OF rb_same_mono[OF s0(3)] rb_same_mono[OF s1(3)]];
      auto simp: set_inorder_plug)
  have io: "inorder (nd (opp dg) False (nd (opp dg) True v g t2) x (nd dg True u p t1)) =
      inorder (nd dg False (nd dn True t p u) g v)"
    using t dn by (cases dg) auto
  let ?t' = "nd (opp dg) False (nd (opp dg) True v g t2) x (nd dg True u p t1)"
  have "rebalance_insert_rotate s x p g dg = Some (set_red g True (set_red x False s1))"
    using e c s0(1) s1(1) by (simp add: rebalance_insert_rotate_def)
  moreover have "invc ?t' \<and> \<not> isred ?t' \<and> bhgt ?t' (Suc n)" using black inv t by simp
  ultimately show ?thesis using s1(2) same io by blast
qed

text \<open>The branch for a red uncle: both children of the grandparent become black, it becomes red.\<close>

lemma insert_recolour:
  assumes rep: "rep s k (nd dg False (nd dn True t p u) g (nd dv True v1 w v2))"
  defines "N \<equiv> tree_nodes k (nd dg False (nd dn True t p u) g (nd dv True v1 w v2))"
  defines "s' \<equiv> set_red g True (set_red w False (set_red p False s))"
  shows "rep s' k (nd dg True (nd dn False t p u) g (nd dv False v1 w v2))" "rb_same N s s'"
proof -
  from rep have "rep s (Frame dg False g (nd dv True v1 w v2) # k) (nd dn True t p u)"
    by (simp add: rep_move)
  from set_red_rep[OF this, of False]
  have "rep (set_red p False s) (Frame (opp dg) False g (nd dn False t p u) # k) (nd dv True v1 w v2)"
    by (simp add: rep_move nd_opp)
  from set_red_rep[OF this, of False]
  have "rep (set_red w False (set_red p False s)) k (nd dg False (nd dn False t p u) g (nd dv False v1 w v2))"
    by (simp add: rep_move nd_opp)
  from set_red_rep[OF this, of True]
  show "rep s' k (nd dg True (nd dn False t p u) g (nd dv False v1 w v2))" by (simp add: s'_def)
  have "p \<in> N" "w \<in> N" "g \<in> N" by (simp_all add: N_def set_inorder_plug)
  then show "rb_same N s s'" by (simp add: s'_def rb_same_def rb_stores)
qed

lemma rebalance_insert_loop_red:
  assumes rep: "rep s k (nd dg False (nd dn True t p u) g v)"
  shows "\<not> isred v \<Longrightarrow> rebalance_insert_loop s x p = rebalance_insert_rotate s x p g dg"
    and "v = nd dv True v1 w v2 \<Longrightarrow> s' = set_red g True (set_red w False (set_red p False s)) \<Longrightarrow>
      rebalance_insert_loop s x p = (case parent_of s' g of
          Some q \<Rightarrow> rebalance_insert_loop s' g q
        | None \<Rightarrow> do { r \<leftarrow> rb_root s'; Some (set_red r False s') })"
proof -
  have sub: "rep s (Frame dg False g v # k) (nd dn True t p u)" using rep by (simp add: rep_move)
  have dir: "GET_DIRECTION s p = Some dg" by (rule GET_DIRECTION_rep[OF sub]) simp
  note rd = rep_nd(1,2)[OF sub] rep_nd(4,6)[OF rep] dir
  show "\<not> isred v \<Longrightarrow> rebalance_insert_loop s x p = rebalance_insert_rotate s x p g dg"
    using rd by (simp add: rebalance_insert_loop.simps)
  show "v = nd dv True v1 w v2 \<Longrightarrow> s' = set_red g True (set_red w False (set_red p False s)) \<Longrightarrow>
      rebalance_insert_loop s x p = (case parent_of s' g of
          Some q \<Rightarrow> rebalance_insert_loop s' g q
        | None \<Rightarrow> do { r \<leftarrow> rb_root s'; Some (set_red r False s') })"
    using rd by (cases "parent_of s' g") (simp_all add: rebalance_insert_loop.simps[of s] Let_def)
qed

lemma rebalance_insert_loop_correct:
  assumes "rep s (Frame dn pc p u # k) t" "isred t" "top t = Some x" "invc t" "invc u" "pc \<Longrightarrow> \<not> isred u"
    "cc k pc" "bhgt t n" "bhgt u n" "ch k (if pc then n else Suc n)"
  shows "\<exists>s' t'. rebalance_insert_loop s x p = Some s' \<and> rep s' [] t' \<and> rbt_ok t' \<and>
    inorder t' = inorder (plug k (nd dn pc t p u)) \<and> rb_same (tree_nodes k (nd dn pc t p u)) s s'"
  using assms
proof (induction "length k" arbitrary: s dn pc p u k t x n rule: less_induct)
  case less
  note prems = less.prems
  have rd: "red_of s p = pc" "parent_of s p = up k"
    using prems(1) by (simp_all add: rep_move rep_nd(1,2))
  show ?case
  proof (cases pc)
    case False
    with prems rd have "rebalance_insert_loop s x p = Some s" "rep s [] (plug k (nd dn pc t p u))"
      by (simp_all add: rebalance_insert_loop.simps rep_move flip: rep_plug)
    moreover have "rbt_ok (plug k (nd dn pc t p u))"
      unfolding plug_ok using prems False by (auto simp: bhgt_nd_iff)
    ultimately show ?thesis by (metis rb_same_refl)
  next
    case True
    with prems(7) obtain dg gc g v k' where k: "k = Frame dg gc g v # k'" by (cases k rule: up.cases) auto
    have g: "\<not> gc" "invc v" "cc k' False" "bhgt v n" "ch k' (Suc n)"
      using prems(7,10) k True by (auto split: if_splits)
    have rep: "rep s k' (nd dg False (nd dn True t p u) g v)"
      using prems(1) k True g(1) by (simp add: rep_move)
    have io: "inorder (plug k (nd dn pc t p u)) = inorder (plug k' (nd dg False (nd dn True t p u) g v))"
      using k True g(1) by simp
    show ?thesis
    proof (cases "isred v")
      case False
      obtain t1 x' t2 where t: "t = nd dg True t1 x' t2" using prems(2) by (rule red_cases)
      have x: "x' = x" using prems(3) t by simp
      from insert_rotate[OF rep, of t1 x t2 n] t x False True prems g obtain s' t' where
        r: "rebalance_insert_rotate s x p g dg = Some s'" "rep s' k' t'"
          "inorder t' = inorder (nd dg False (nd dn True t p u) g v)" "invc t'" "\<not> isred t'" "bhgt t' (Suc n)"
          "rb_same (tree_nodes k' (nd dg False (nd dn True t p u) g v)) s s'"
        by auto
      have "rebalance_insert_loop s x p = Some s'"
        using rebalance_insert_loop_red(1)[OF rep False] r(1) by simp
      moreover have "rep s' [] (plug k' t')" using r(2) rep_plug by simp
      moreover have "rbt_ok (plug k' t')" unfolding plug_ok using r g by auto
      moreover have "inorder (plug k' t') = inorder (plug k (nd dn pc t p u))"
        unfolding io by (simp only: inorder_plug r(3))
      ultimately show ?thesis using r(7) unfolding io by blast
    next
      case True
      then obtain v1 w v2 where v: "v = nd dg True v1 w v2" by (rule red_cases)
      define s1 where "s1 = set_red g True (set_red w False (set_red p False s))"
      define T where "T = nd dg True (nd dn False t p u) g (nd dg False v1 w v2)"
      have s1: "rep s1 k' T" "rb_same (tree_nodes k' (nd dg False (nd dn True t p u) g v)) s s1"
        using insert_recolour[OF rep[unfolded v]] v by (simp_all add: s1_def T_def)
      have ioT: "inorder T = inorder (nd dg False (nd dn True t p u) g v)"
        unfolding T_def v by (intro inorder_nd_cong refl)
      have T: "isred T" "top T = Some g" "invc T" "bhgt T (Suc n)"
        using prems g v \<open>pc\<close> by (auto simp: T_def)
      have step: "rebalance_insert_loop s x p = (case parent_of s1 g of
              Some q \<Rightarrow> rebalance_insert_loop s1 g q
            | None \<Rightarrow> do { r \<leftarrow> rb_root s1; Some (set_red r False s1) })"
        by (rule rebalance_insert_loop_red(2)[OF rep v s1_def])
      have par: "parent_of s1 g = up k'" using rep_parent[OF s1(1) T(2)] .
      show ?thesis
      proof (cases k' rule: up.cases)
        case 1
        have "rb_root s1 = Some g" using rep_root[of s1 T] s1(1) T(2) 1 by simp
        then have "rebalance_insert_loop s x p = Some (set_red g False s1)"
          using step par 1 by simp
        moreover have "rep (set_red g False s1) [] (nd dg False (nd dn False t p u) g (nd dg False v1 w v2))"
          using set_red_rep[OF s1(1)[unfolded T_def]] 1 by simp
        moreover have "rbt_ok (nd dg False (nd dn False t p u) g (nd dg False v1 w v2))"
          using T unfolding T_def rbt_ok_def
          by (simp, intro exI[of _ "Suc (Suc n)"]) (simp add: bhgt_nd_iff)
        moreover have "inorder (nd dg False (nd dn False t p u) g (nd dg False v1 w v2)) =
            inorder (plug k (nd dn pc t p u))"
          unfolding io using 1 v by (simp, intro inorder_nd_cong refl)
        moreover have "rb_same (tree_nodes k (nd dn pc t p u)) s (set_red g False s1)"
          unfolding io using s1(2) set_red_same by (rule rb_same_trans) (simp add: set_inorder_plug)
        ultimately show ?thesis by blast
      next
        case (2 d2 c2 p2 u2 k2)
        have "\<exists>s' t'. rebalance_insert_loop s1 g p2 = Some s' \<and> rep s' [] t' \<and> rbt_ok t' \<and>
            inorder t' = inorder (plug k2 (nd d2 c2 T p2 u2)) \<and>
            rb_same (tree_nodes k2 (nd d2 c2 T p2 u2)) s1 s'"
          using s1(1) T g 2 k by (intro less.hyps[where n = "Suc n"]) (auto split: if_splits)
        then obtain s' t' where r: "rebalance_insert_loop s1 g p2 = Some s'" "rep s' [] t'" "rbt_ok t'"
          "inorder t' = inorder (plug k' T)" "rb_same (tree_nodes k' T) s1 s'"
          using 2 by auto
        have ioK: "inorder (plug k' T) = inorder (plug k (nd dn pc t p u))"
          unfolding io by (simp only: inorder_plug ioT)
        have "rebalance_insert_loop s x p = Some s'" using step par 2 r(1) by simp
        moreover have "rb_same (tree_nodes k (nd dn pc t p u)) s s'"
          using s1(2) r(5) unfolding ioK io by (rule rb_same_trans)
        ultimately show ?thesis using r(2-4) ioK by metis
      qed
    qed
  qed
qed

section \<open>The descent and \<^verbatim>\<open>rb_insert\<close>\<close>

fun top_dir :: "rb_direction \<Rightarrow> frame list \<Rightarrow> rb_direction" where
  "top_dir d [] = d"
| "top_dir d (Frame d' c a u # k) = d'"

definition link_parent :: "addr \<Rightarrow> ptr \<Rightarrow> rb_tree \<Rightarrow> rb_tree" where
  "link_parent a q s = (if q = None then s else set_parent a q s)"

lemma set_parent_twice [simp]: "set_parent a p (set_parent a q s) = set_parent a p s"
  by (simp add: set_parent_def upd_node_def)

lemma set_parent_link [simp]: "set_parent a p (link_parent a q s) = set_parent a p s"
  by (simp add: link_parent_def)

lemma cl_append: "cl (k @ k') = cl k' @ cl k"
  by (induction k rule: cl.induct) auto

lemma cr_append: "cr (k @ k') = cr k @ cr k'"
  by (induction k rule: cr.induct) auto

lemma rb_insert_descend_correct:
  assumes "tree_at (rb_heap s0) par t" "node \<notin> set (inorder t)" "sorted (map val (inorder t))"
  shows "\<exists>k'. rb_insert_descend val (link_parent node (up k) s0) node (val node) (top t) (top_dir d k) =
      Some (link_parent node (up (k' @ k)) s0, top_dir d (k' @ k)) \<and> plug k' Leaf = t \<and>
    (\<forall>x \<in> set (cl k'). val x \<le> val node) \<and> (\<forall>y \<in> set (cr k'). val node < val y)"
  using assms
proof (induction t arbitrary: k par)
  case Leaf
  show ?case by (intro exI[of _ "[]"]) (simp add: rb_insert_descend.simps)
next
  case (Node c l a r)
  let ?s1 = "set_parent node (Some a) s0"
  have a: "node \<noteq> a" and ch: "n_left (rb_heap ?s1 a) = top l" "n_right (rb_heap ?s1 a) = top r"
    using Node.prems by (auto simp: set_parent_def)
  have lo: "val x \<le> val a" if "x \<in> set (inorder l)" for x
    using Node.prems(3) that by (auto simp: sorted_append)
  have hi: "val a \<le> val y" if "y \<in> set (inorder r)" for y
    using Node.prems(3) that by (auto simp: sorted_append)
  show ?case
  proof (cases "val node < val a")
    case True
    let ?f = "Frame RB_LEFT c a r"
    from Node.prems Node.IH(1)[of "Some a" "?f # k"] obtain k' where
      k': "rb_insert_descend val ?s1 node (val node) (top l) RB_LEFT =
          Some (link_parent node (up (k' @ ?f # k)) s0, top_dir d (k' @ ?f # k))" "plug k' Leaf = l"
        "\<forall>x \<in> set (cl k'). val x \<le> val node" "\<forall>y \<in> set (cr k'). val node < val y"
      by (auto simp: sorted_append link_parent_def)
    show ?thesis
      using k' True ch order.strict_trans2[OF True hi] by (intro exI[of _ "k' @ [?f]"])
        (auto simp: rb_insert_descend.simps[of _ _ _ _ "Some a"] Let_def plug_append cl_append cr_append)
  next
    case False
    let ?f = "Frame RB_RIGHT c a l"
    from Node.prems Node.IH(2)[of "Some a" "?f # k"] obtain k' where
      k': "rb_insert_descend val ?s1 node (val node) (top r) RB_RIGHT =
          Some (link_parent node (up (k' @ ?f # k)) s0, top_dir d (k' @ ?f # k))" "plug k' Leaf = r"
        "\<forall>x \<in> set (cl k'). val x \<le> val node" "\<forall>y \<in> set (cr k'). val node < val y"
      by (auto simp: sorted_append link_parent_def)
    show ?thesis
      using k' False ch order.trans[OF lo] by (intro exI[of _ "k' @ [?f]"])
        (auto simp: rb_insert_descend.simps[of _ _ _ _ "Some a"] Let_def plug_append cl_append cr_append)
  qed
qed

text \<open>Linking the new leaf below the end of the path.\<close>

lemma link_leaf:
  assumes "rep s (Frame d c p u # k) Leaf" "node \<notin> tree_nodes (Frame d c p u # k) Leaf"
    "rb_heap s node = \<lparr>n_red = True, n_parent = Some p, n_left = None, n_right = None\<rparr>"
  shows "rep (set_child p d (Some node) s) (Frame d c p u # k) (Node True Leaf node Leaf)"
  using assms by (auto simp: rep_def rb_stores set_inorder_plug)

theorem rb_insert_rep:
  assumes rep: "rep s [] t" and ok: "rbt_ok t" and srt: "sorted (map val (inorder t))"
    and new: "node \<notin> set (inorder t)"
  shows "\<exists>s' t'. rb_insert val s node = Some s' \<and> rep s' [] t' \<and> rbt_ok t' \<and>
    inorder t' = ins_val val node (inorder t) \<and> rb_count s' = rb_count s + 1 \<and>
    (\<forall>a. a \<noteq> node \<longrightarrow> a \<notin> set (inorder t) \<longrightarrow> rb_heap s' a = rb_heap s a)"
proof -
  define s0 where "s0 = upd_node node (\<lambda>n. n\<lparr>n_left := None, n_right := None, n_parent := None, n_red := True\<rparr>)
    (s\<lparr>rb_count := rb_count s + 1\<rparr>)"
  have rep0: "rep s0 [] t" using rep new by (intro rep_cong[OF rep]) (auto simp: s0_def)
  then have tr: "tree_at (rb_heap s0) None t" and root: "rb_root s0 = top t" by (simp_all add: rep_def)
  from rb_insert_descend_correct[OF tr new srt, of "[]" RB_LEFT] obtain k where
    k: "rb_insert_descend val s0 node (val node) (top t) RB_LEFT =
        Some (link_parent node (up k) s0, top_dir RB_LEFT k)" "plug k Leaf = t"
      "\<forall>x \<in> set (cl k). val x \<le> val node" "\<forall>y \<in> set (cr k). val node < val y"
    by (auto simp: link_parent_def)
  have io: "inorder (plug k (Node True Leaf node Leaf)) = ins_val val node (inorder t)"
    using ins_val_split[of "cl k" val node "cr k"] k(2-4) by (auto simp: inorder_plug simp flip: k(2))
  show ?thesis
  proof (cases k rule: up.cases)
    case 1
    let ?s' = "set_red node False (set_root (Some node) s0)"
    have t: "t = Leaf" using k(2) 1 by simp
    have "rb_insert val s node = Some ?s'"
      using k(1) 1 root by (simp add: rb_insert_def s0_def[symmetric] link_parent_def) (simp add: s0_def)
    moreover have "rep ?s' [] (Node False Leaf node Leaf)"
      by (simp add: rep_def rb_stores s0_def)
    moreover have "rbt_ok (Node False Leaf node Leaf)"
      unfolding rbt_ok_def by (auto intro!: exI[of _ "Suc 0"])
    ultimately show ?thesis using t
      by (intro exI[of _ ?s'] exI[of _ "Node False Leaf node Leaf"])
        (simp add: ins_val_def rb_stores s0_def)
  next
    case (2 d c p u k2)
    define s1 where "s1 = set_parent node (Some p) s0"
    define s2 where "s2 = set_child p d (Some node) s1"
    have mem: "p \<in> set (inorder t)" "p \<noteq> node" using k(2) 2 new by (auto simp: set_inorder_plug)
    have "rep s1 [] t" using new by (intro rep_cong[OF rep0]) (auto simp: s1_def rb_stores)
    then have r1: "rep s1 (Frame d c p u # k2) Leaf" using k(2) 2 rep_plug by metis
    have r2: "rep s2 (Frame d c p u # k2) (Node True Leaf node Leaf)"
      unfolding s2_def using k(2) 2 new
      by (intro link_leaf[OF r1]) (simp_all add: s1_def s0_def rb_stores)
    note okk = ok[unfolded k(2)[symmetric] 2 plug_ok]
    have ins: "rb_insert val s node = (case parent_of s2 p of None \<Rightarrow> Some s2 | Some _ \<Rightarrow> rebalance_insert s2 node)"
    proof -
      have "rb_root (s\<lparr>rb_count := rb_count s + 1\<rparr>) = top t" using root by (simp add: s0_def)
      moreover have "parent_of s1 node = Some p" by (simp add: s1_def set_parent_def)
      moreover have "link_parent node (up k) s0 = s1" by (simp add: link_parent_def s1_def 2)
      ultimately show ?thesis
        using k(1) 2 root
        by (cases "parent_of s2 p") (simp_all add: rb_insert_def s0_def[symmetric] s2_def)
    qed
    have par: "parent_of s2 p = up k2" using r2 by (simp add: rep_move rep_nd(2))
    have parn: "parent_of s2 node = Some p" using rep_parent[OF r2] by simp
    have same2: "\<forall>a. a \<noteq> node \<longrightarrow> a \<notin> set (inorder t) \<longrightarrow> rb_heap s2 a = rb_heap s a"
      using mem by (auto simp: s2_def s1_def s0_def rb_stores)
    have cnt2: "rb_count s2 = rb_count s + 1" by (simp add: s2_def s1_def s0_def rb_stores)
    have ex: "\<exists>s' t'. rb_insert val s node = Some s' \<and> rep s' [] t' \<and> rbt_ok t' \<and>
        inorder t' = inorder (plug k (Node True Leaf node Leaf)) \<and> rb_same (insert node (set (inorder t))) s2 s'"
    proof (cases k2 rule: up.cases)
      case 1
      have "rb_insert val s node = Some s2" using ins par 1 by simp
      moreover have "rep s2 [] (plug k (Node True Leaf node Leaf))" using r2 2 rep_plug by metis
      moreover have "rbt_ok (plug k (Node True Leaf node Leaf))"
        using okk 1 unfolding 2 plug_ok by auto
      ultimately show ?thesis using rb_same_refl by blast
    next
      case (2 d' c' q u' k3)
      have "rb_insert val s node = rebalance_insert_loop s2 node p"
        using ins par parn 2 by (simp add: rebalance_insert_def)
      moreover have "\<exists>s' t'. rebalance_insert_loop s2 node p = Some s' \<and> rep s' [] t' \<and> rbt_ok t' \<and>
          inorder t' = inorder (plug k2 (nd d c (Node True Leaf node Leaf) p u)) \<and>
          rb_same (tree_nodes k2 (nd d c (Node True Leaf node Leaf) p u)) s2 s'"
        using okk by (intro rebalance_insert_loop_correct[OF r2, of node 0]) auto
      moreover have "tree_nodes k2 (nd d c (Node True Leaf node Leaf) p u) = insert node (set (inorder t))"
        using io \<open>k = _\<close> set_ins_val by simp
      ultimately show ?thesis using \<open>k = _\<close> by simp
    qed
    then show ?thesis using same2 cnt2 unfolding io rb_same_def by fastforce
  qed
qed

end
