(* ===== verification/RbRemove.thy ===== *)
theory RbRemove
  imports RbInsert
begin

text \<open>
  The correctness of \<^verbatim>\<open>rb_remove\<close>: on every well formed tree that holds the node the routine returns
  (no null pointer is dereferenced and no assertion fails), keeps the colour and black height
  invariants, and leaves the other nodes in their order.
\<close>

section \<open>Unlinking\<close>

lemma cnodes_append: "cnodes (k @ k') = cnodes k @ cnodes k'"
  by (induction k rule: cnodes.induct) auto

lemma plug_Leaf [simp]: "plug k t = Leaf \<longleftrightarrow> k = [] \<and> t = Leaf"
  by (induction k t rule: plug.induct) auto

lemma rep_plugged_distinct: "rep s k t \<Longrightarrow> distinct (inorder (plug k t))"
  using rep_plug[of s k t] by (simp add: rep_def)

lemma transplant_at:
  assumes ctx: "ctx_at (rb_heap s) (rb_root s) (Some a) k" and par: "parent_of s a = up k"
    and tr: "tree_at (rb_heap s) q w" and dist: "distinct (inorder w @ cnodes k)"
    and new: "a \<notin> set (inorder w)" "a \<notin> set (cnodes k)"
  shows "\<exists>s'. transplant s a (top w) = Some s' \<and> rep s' k w \<and>
    rb_same (set (inorder w) \<union> set (cnodes k)) s s'"
proof (cases k rule: up.cases)
  case 1
  show ?thesis
  proof (cases w)
    case Leaf
    with 1 ctx par show ?thesis by (simp add: transplant_def rep_def rb_stores rb_same_def)
  next
    case (Node wc wl b wr)
    with 1 ctx par tr dist show ?thesis
      by (simp add: transplant_def rep_def rb_stores rb_same_def)
  qed
next
  case (2 d c p u k')
  have "a \<notin> set (inorder u)" using new 2 by simp
  then have "(if Some a = n_right (rb_heap s p) then RB_RIGHT else RB_LEFT) = d"
    using ctx 2 by (intro parent_dir) auto
  then have dir: "GET_DIRECTION s a = Some d" using par 2 by (simp add: GET_DIRECTION_def)
  show ?thesis
  proof (cases w)
    case Leaf
    with 2 ctx par dist new dir show ?thesis
      by (simp add: transplant_def rep_def rb_stores rb_same_def)
  next
    case (Node wc wl b wr)
    with 2 ctx par tr dist new dir show ?thesis
      by (simp add: transplant_def rep_def rb_stores rb_same_def, elim conjE) (simp add: disjoint_simps)
  qed
qed

lemma leftmost_correct:
  assumes "tree_at (rb_heap s) par t" "top t = Some a"
  shows "\<exists>k c b r. leftmost s a = Some b \<and> t = plug k (Node c Leaf b r) \<and> cl k = []"
  using assms
proof (induction t arbitrary: par a)
  case (Node c l x r)
  show ?case
  proof (cases "top l")
    case None
    with Node.prems show ?thesis
      by (intro exI[of _ "[]"] exI[of _ c] exI[of _ a] exI[of _ r]) (simp add: leftmost.simps)
  next
    case (Some y)
    with Node obtain k c' b r' where "leftmost s y = Some b" "l = plug k (Node c' Leaf b r')" "cl k = []"
      by (auto; blast)
    with Some Node.prems show ?thesis
      by (intro exI[of _ "k @ [Frame RB_LEFT c x r]"] exI[of _ c'] exI[of _ b] exI[of _ r'])
        (simp add: leftmost.simps[of _ a] plug_append cl_append)
  qed
qed simp

lemma find_node: "a \<in> set (inorder t) \<Longrightarrow> \<exists>k c l r. t = plug k (Node c l a r)"
proof (induction t)
  case (Node c l x r)
  then consider "a = x" | "a \<in> set (inorder l)" | "a \<in> set (inorder r)" by auto
  then show ?case
  proof cases
    case 1
    then show ?thesis by (metis plug.simps(1))
  next
    case 2
    with Node obtain k c' l' r' where "l = plug k (Node c' l' a r')" by blast
    then have "Node c l x r = plug (k @ [Frame RB_LEFT c x r]) (Node c' l' a r')" by (simp add: plug_append)
    then show ?thesis by blast
  next
    case 3
    with Node obtain k c' l' r' where "r = plug k (Node c' l' a r')" by blast
    then have "Node c l x r = plug (k @ [Frame RB_RIGHT c x l]) (Node c' l' a r')" by (simp add: plug_append)
    then show ?thesis by blast
  qed
qed simp

text \<open>
  The state in which the successor \<open>b\<close> is out of the right subtree of \<open>a\<close> and owns what is left of
  it: reached at once when \<open>b\<close> is the right child, after the first \<^verbatim>\<open>transplant\<close> otherwise.
\<close>

definition detached :: "rb_tree \<Rightarrow> frame list \<Rightarrow> bool \<Rightarrow> rbt \<Rightarrow> addr \<Rightarrow> bool \<Rightarrow> addr \<Rightarrow> rbt \<Rightarrow> bool" where
  "detached s k c l a cs b R \<longleftrightarrow>
     tree_at (rb_heap s) (parent_of s b) (Node cs Leaf b R) \<and> ctx_at (rb_heap s) (rb_root s) (Some a) k \<and>
     tree_at (rb_heap s) (Some a) l \<and> parent_of s a = up k \<and> n_left (rb_heap s a) = top l \<and> red_of s a = c \<and>
     distinct (a # inorder l @ b # inorder R @ cnodes k)"

lemma detach_direct: "rep s k (Node c l a (Node cs Leaf b R)) \<Longrightarrow> detached s k c l a cs b R"
  by (auto simp: rep_def detached_def)

lemma detach_deep:
  assumes rep: "rep s k (Node c l a (plug k2 (Node cs Leaf b rr)))" and ne: "k2 \<noteq> []"
  shows "\<exists>s1 R' s2. transplant s b (top rr) = Some s1 \<and> n_right (rb_heap s1 a) = Some R' \<and>
    s2 = set_parent R' (Some b) (set_child b RB_RIGHT (Some R') s1) \<and>
    detached s2 k c l a cs b (plug k2 rr) \<and>
    rb_same (tree_nodes k (Node c l a (plug k2 (Node cs Leaf b rr)))) s s2"
proof -
  let ?K = "k2 @ Frame RB_RIGHT c a l # k" and ?N = "tree_nodes k (Node c l a (plug k2 (Node cs Leaf b rr)))"
  have pl: "plug ?K t = plug k (Node c l a (plug k2 t))" for t by (simp add: plug_append)
  have r0: "rep s ?K (Node cs Leaf b rr)" using rep rep_plug pl by metis
  then have "\<exists>s1. transplant s b (top rr) = Some s1 \<and> rep s1 ?K rr \<and>
      rb_same (set (inorder rr) \<union> set (cnodes ?K)) s s1"
    by (intro transplant_at[where q = "Some b"]) (auto simp: rep_def)
  then obtain s1 where s1: "transplant s b (top rr) = Some s1" "rep s1 ?K rr"
    "rb_same (set (inorder rr) \<union> set (cnodes ?K)) s s1" by blast
  have r1: "rep s1 k (Node c l a (plug k2 rr))" using s1(2) rep_plug pl by metis
  obtain R' where R': "top (plug k2 rr) = Some R'"
    using ne plug_Leaf[of k2 rr] by (cases "plug k2 rr") auto
  define s2 where "s2 = set_parent R' (Some b) (set_child b RB_RIGHT (Some R') s1)"
  have setp: "set (inorder (plug k2 rr)) = set (inorder rr) \<union> set (cnodes k2)" by (rule set_inorder_plug)
  have b: "b \<notin> set (inorder rr) \<union> set (cnodes ?K)" using rep_distinct[OF r0] by auto
  have nb: "rb_heap s1 b = rb_heap s b" using s1(3) b by (simp add: rb_same_def)
  have "a \<noteq> b" "b \<notin> set (inorder l)" "b \<notin> set (inorder (plug k2 rr))" "b \<notin> set (cnodes k)"
    using b by (auto simp: setp cnodes_append)
  note neb = this
  obtain Pc Pl Pr where P: "plug k2 rr = Node Pc Pl R' Pr" using R' by (cases "plug k2 rr") auto
  have "red_of s1 b = cs" "n_left (rb_heap s1 b) = None" using r0 nb by (simp_all add: rep_def)
  then have "detached s2 k c l a cs b (plug k2 rr)"
    using r1 neb unfolding P s2_def detached_def rep_def rb_stores
    by (simp, elim conjE) (simp add: disjoint_simps)
  moreover have "rb_same ?N s s2"
    using s1(3) top_in[OF R'] unfolding s2_def
    by (auto simp: rb_same_def rb_stores set_inorder_plug cnodes_append)
  moreover have "n_right (rb_heap s1 a) = Some R'" using r1 R' by (simp add: rep_def)
  ultimately show ?thesis using s1(1) s2_def by blast
qed

lemma attach_successor:
  assumes det: "detached s k c l a cs b R" and l: "l \<noteq> Leaf"
  shows "\<exists>s1 l' s2. transplant s a (Some b) = Some s1 \<and> n_left (rb_heap s1 a) = Some l' \<and>
    s2 = set_red b c (set_parent l' (Some b) (set_child b RB_LEFT (Some l') s1)) \<and>
    IS_RED (set_parent l' (Some b) (set_child b RB_LEFT (Some l') s1)) (Some a) = c \<and>
    rep s2 k (Node c l b R) \<and> rb_same (tree_nodes k (Node c l b R)) s s2"
proof -
  have "\<exists>s1. transplant s a (top (Node cs Leaf b R)) = Some s1 \<and> rep s1 k (Node cs Leaf b R) \<and>
      rb_same (set (inorder (Node cs Leaf b R)) \<union> set (cnodes k)) s s1"
    using det by (intro transplant_at) (auto simp: detached_def)
  then obtain s1 where s1: "transplant s a (Some b) = Some s1" "rep s1 k (Node cs Leaf b R)"
    "rb_same (insert b (set (inorder R)) \<union> set (cnodes k)) s s1" by auto
  obtain l' where l': "top l = Some l'" using l by (cases l) auto
  define s2 where "s2 = set_red b c (set_parent l' (Some b) (set_child b RB_LEFT (Some l') s1))"
  have dist: "distinct (a # inorder l @ b # inorder R @ cnodes k)" using det by (simp add: detached_def)
  have keep: "rb_heap s1 x = rb_heap s x" if "x \<in> insert a (set (inorder l))" for x
    using s1(3) dist that by (auto simp: rb_same_def)
  have tl: "tree_at (rb_heap s1) (Some a) l"
    using det tree_at_cong[of l "rb_heap s1" "rb_heap s"] keep by (simp add: detached_def)
  have "rep s2 k (Node c l b R)"
    using l' s1(2) tl dist by (cases l) (auto simp: rep_def s2_def rb_stores)
  moreover have "rb_same (tree_nodes k (Node c l b R)) s s2"
    using s1(3) top_in[OF l'] by (auto simp: rb_same_def s2_def rb_stores set_inorder_plug)
  moreover have "n_left (rb_heap s1 a) = Some l'" "red_of s1 a = c"
    using keep[of a] det l' by (simp_all add: detached_def)
  moreover have "a \<noteq> b" "a \<noteq> l'" using dist top_in[OF l'] by auto
  ultimately show ?thesis using s1(1) s2_def by (auto simp: IS_RED_def rb_stores)
qed

text \<open>The hole that the unlinked node leaves: its position was red or black (\<open>o\<close>) with subtree \<open>w\<close> below.\<close>

definition hole_ok :: "bool \<Rightarrow> frame list \<Rightarrow> rbt \<Rightarrow> bool" where
  "hole_ok red k w \<longleftrightarrow> invc w \<and> cc k red \<and> (red \<longrightarrow> \<not> isred w) \<and>
     (\<exists>n. bhgt w n \<and> ch k (if red then n else Suc n))"

lemma hole_ok_nd:
  assumes "rbt_ok (plug k (nd d c Leaf a w))"
  shows "hole_ok c k w"
proof -
  from assms obtain n where "bhgt (nd d c Leaf a w) n" "ch k n" "invc w" "cc k c" "c \<longrightarrow> \<not> isred w"
    by (auto simp: plug_ok)
  then show ?thesis unfolding hole_ok_def by (auto simp: bhgt_nd_iff split: if_splits)
qed

lemma cc_append_node: "cc (k2 @ Frame d c a l # k) x = cc (k2 @ Frame d c b l # k) x"
  by (induction k2 x rule: cc.induct) auto

lemma ch_append_node: "ch (k2 @ Frame d c a l # k) n = ch (k2 @ Frame d c b l # k) n"
  by (induction k2 n rule: ch.induct) auto

lemma hole_ok_node: "hole_ok x (k2 @ Frame d c a l # k) w = hole_ok x (k2 @ Frame d c b l # k) w"
  unfolding hole_ok_def by (simp add: cc_append_node[of _ _ _ a _ _ _ b] ch_append_node[of _ _ _ a _ _ _ b])

lemma rb_unlink_one:
  assumes rep: "rep s k (nd d c Leaf a w)" and ok: "rbt_ok (plug k (nd d c Leaf a w))"
  shows "\<exists>s'. rb_unlink s a = Some (s', c, top w, up k) \<and> rep s' k w \<and>
    inorder (plug k w) = remove1 a (inorder (plug k (nd d c Leaf a w))) \<and> hole_ok c k w \<and>
    rb_same (tree_nodes k (nd d c Leaf a w)) s s'"
proof -
  have "\<exists>s'. transplant s a (top w) = Some s' \<and> rep s' k w \<and> rb_same (set (inorder w) \<union> set (cnodes k)) s s'"
    using rep by (intro transplant_at) (auto simp: rep_def)
  then obtain s' where s': "transplant s a (top w) = Some s'" "rep s' k w"
    "rb_same (set (inorder w) \<union> set (cnodes k)) s s'" by blast
  have same: "rb_same (tree_nodes k (nd d c Leaf a w)) s s'"
    using s'(3) by (rule rb_same_mono) (auto simp: set_inorder_plug)
  have a: "a \<notin> set (cl k)" "a \<notin> set (inorder w)"
    using rep_plugged_distinct[OF rep] by (cases d; simp add: inorder_plug)+
  have io: "inorder (plug k w) = remove1 a (inorder (plug k (nd d c Leaf a w)))"
    using a by (cases d) (simp_all add: inorder_plug remove1_append)
  note rd = rep_nd[OF rep]
  have "rb_unlink s a = Some (s', c, top w, up k)"
    using rd s'(1) by (cases d; cases w) (simp_all add: rb_unlink_def)
  with s'(2) io hole_ok_nd[OF ok] same show ?thesis by blast
qed

lemma rb_unlink_two:
  assumes rep: "rep s k (Node c l a r)" and ok: "rbt_ok (plug k (Node c l a r))" and ne: "l \<noteq> Leaf" "r \<noteq> Leaf"
  shows "\<exists>s' red k' w. rb_unlink s a = Some (s', red, top w, up k') \<and> rep s' k' w \<and>
    inorder (plug k' w) = remove1 a (inorder (plug k (Node c l a r))) \<and> hole_ok red k' w \<and>
    rb_same (tree_nodes k (Node c l a r)) s s'"
proof -
  have rd: "n_left (rb_heap s a) = top l" "n_right (rb_heap s a) = top r" "parent_of s a = up k" "red_of s a = c"
    "tree_at (rb_heap s) (Some a) r"
    using rep by (simp_all add: rep_def)
  obtain r' where r': "top r = Some r'" using ne by (cases r) auto
  from leftmost_correct[OF rd(5) r'] obtain k2 cs b rr where
    lm: "leftmost s r' = Some b" "r = plug k2 (Node cs Leaf b rr)" "cl k2 = []" by blast
  let ?K = "\<lambda>x. k2 @ Frame RB_RIGHT c x l # k"
  have pl: "plug (?K x) t = plug k (Node c l x (plug k2 t))" for t x by (simp add: plug_append)
  have rb: "rep s (?K a) (Node cs Leaf b rr)" using rep lm(2) rep_plug pl by metis
  have rdb: "red_of s b = cs" "parent_of s b = up (?K a)" "n_left (rb_heap s b) = None"
    "n_right (rb_heap s b) = top rr" using rb by (simp_all add: rep_def)
  have hole: "hole_ok cs (?K b) rr"
    using hole_ok_nd[of "?K a" RB_LEFT cs b rr] ok lm(2) pl hole_ok_node by (metis nd.simps(1))
  have dist: "distinct (inorder (plug k (Node c l a r)))"
    by (rule rep_plugged_distinct[OF rep])
  have io: "inorder (plug (?K b) rr) = remove1 a (inorder (plug k (Node c l a r)))"
    using dist unfolding pl lm(2) by (simp add: inorder_plug remove1_append lm(3))
  have sub: "tree_nodes k (Node c l b (plug k2 rr)) \<subseteq> tree_nodes k (Node c l a r)"
    by (auto simp: set_inorder_plug lm(2))
  let ?mid = "\<lambda>s. do {
       ASSERT (n_left (rb_heap s b) = None);
       s \<leftarrow> transplant s a (Some b);
       let s = set_child b RB_LEFT (n_left (rb_heap s a)) s;
       ll \<leftarrow> n_left (rb_heap s b);
       let s = set_parent ll (Some b) s;
       let s = set_red b (IS_RED s (Some a)) s;
       Some (s, cs, top rr, up (?K b)) }"
  have fin: "\<exists>s2. ?mid s1 = Some (s2, cs, top rr, up (?K b)) \<and> rep s2 (?K b) rr \<and>
      rb_same (tree_nodes k (Node c l a r)) s1 s2"
    if det: "detached s1 k c l a cs b (plug k2 rr)" for s1
  proof -
    from attach_successor[OF det ne(1)] obtain s2 l' s3 where
      t: "transplant s1 a (Some b) = Some s2" "n_left (rb_heap s2 a) = Some l'"
        "s3 = set_red b c (set_parent l' (Some b) (set_child b RB_LEFT (Some l') s2))"
        "IS_RED (set_parent l' (Some b) (set_child b RB_LEFT (Some l') s2)) (Some a) = c"
        "rep s3 k (Node c l b (plug k2 rr))" "rb_same (tree_nodes k (Node c l b (plug k2 rr))) s1 s3"
      by blast
    have "n_left (rb_heap (set_child b RB_LEFT (Some l') s2) b) = Some l'" by (simp add: rb_stores)
    then have "?mid s1 = Some (s3, cs, top rr, up (?K b))"
      using det t(1,2,3,4) by (simp add: detached_def)
    moreover have "rep s3 (?K b) rr" using t(5) rep_plug pl by metis
    ultimately show ?thesis using rb_same_mono[OF t(6) sub] by blast
  qed
  have l0: "n_left (rb_heap s a) \<noteq> None" "n_right (rb_heap s a) \<noteq> None" using ne rd by simp_all
  have "\<exists>s'. rb_unlink s a = Some (s', cs, top rr, up (?K b)) \<and> rep s' (?K b) rr \<and>
      rb_same (tree_nodes k (Node c l a r)) s s'"
  proof (cases "k2 = []")
    case True
    have "detached s k c l a cs b (plug k2 rr)" using detach_direct rep lm(2) True by simp
    from fin[OF this] show ?thesis
      using True rd rdb r' lm(1) l0 by (auto simp: rb_unlink_def IS_RED_def)
  next
    case False
    from detach_deep[OF rep[unfolded lm(2)] False] obtain s1 R' s2 where
      t: "transplant s b (top rr) = Some s1" "n_right (rb_heap s1 a) = Some R'"
        "s2 = set_parent R' (Some b) (set_child b RB_RIGHT (Some R') s1)"
        "detached s2 k c l a cs b (plug k2 rr)" "rb_same (tree_nodes k (Node c l a r)) s s2"
      unfolding lm(2)[symmetric] by blast
    from fin[OF t(4)] obtain s3 where s3: "?mid s2 = Some (s3, cs, top rr, up (?K b))" "rep s3 (?K b) rr"
      "rb_same (tree_nodes k (Node c l a r)) s2 s3" by blast
    have "n_right (rb_heap (set_child b RB_RIGHT (Some R') s1) b) = Some R'" by (simp add: rb_stores)
    moreover have "up (?K a) \<noteq> Some a" "up (?K a) = up (?K b)"
      using False rep_distinct[OF rb] by (cases k2 rule: up.cases; simp add: cnodes_append)+
    ultimately have "rb_unlink s a = ?mid s2"
      using rd rdb r' lm(1) l0 t(1-3) by (simp add: rb_unlink_def IS_RED_def)
    with s3 rb_same_trans[OF t(5) s3(3)] show ?thesis by auto
  qed
  with io hole show ?thesis by blast
qed

section \<open>Rebalancing after a removal\<close>

text \<open>The final step: the far nephew is red. Recolour and rotate at the parent.\<close>

lemma remove_far_red:
  assumes rep: "rep s k (nd d c w p (nd d cb u1 b (nd d True v1 e v2)))"
  defines "N \<equiv> tree_nodes k (nd d c w p (nd d cb u1 b (nd d True v1 e v2)))"
  defines "s1 \<equiv> set_red e False (set_red p False (set_red b c s))"
  shows "\<exists>s2. rotate s1 (Some p) d = Some (s2, b) \<and>
    rep s2 k (nd d c (nd d False w p u1) b (nd d False v1 e v2)) \<and> rb_same N s s2"
    and "child_of (set_red p False (set_red b c s)) b (opp d) = Some e"
proof -
  have mem: "p \<in> N" "b \<in> N" "e \<in> N" by (simp_all add: N_def set_inorder_plug)
  from rep have "rep s (Frame (opp d) c p w # k) (nd d cb u1 b (nd d True v1 e v2))"
    by (simp add: rep_move nd_opp)
  from set_red_rep[OF this, of c]
  have "rep (set_red b c s) k (nd d c w p (nd d c u1 b (nd d True v1 e v2)))"
    by (simp add: rep_move nd_opp)
  from set_red_rep[OF this, of False]
  have r: "rep (set_red p False (set_red b c s)) (Frame (opp d) False p w # k) (nd d c u1 b (nd d True v1 e v2))"
    by (simp add: rep_move nd_opp)
  from rep_nd(4)[OF r] show "child_of (set_red p False (set_red b c s)) b (opp d) = Some e" by simp
  from r have "rep (set_red p False (set_red b c s)) (Frame (opp d) c b u1 # Frame (opp d) False p w # k) (nd d True v1 e v2)"
    by (simp add: rep_move nd_opp)
  from set_red_rep[OF this, of False]
  have "rep s1 k (nd d False w p (nd d c u1 b (nd d False v1 e v2)))"
    by (simp add: rep_move nd_opp s1_def)
  then obtain s2 where s2: "rotate s1 (Some p) d = Some (s2, b)"
    "rep s2 k (nd d c (nd d False w p u1) b (nd d False v1 e v2))"
    "rb_same (tree_nodes k (nd d False w p (nd d c u1 b (nd d False v1 e v2)))) s1 s2"
    by (rule rotate_plug)
  have "rb_same N s1 s2" using s2(3) by (rule rb_same_mono) (auto simp: N_def set_inorder_plug)
  moreover have "rb_same N s s1" using mem by (simp add: s1_def rb_same_def rb_stores)
  ultimately show "\<exists>s2. rotate s1 (Some p) d = Some (s2, b) \<and>
      rep s2 k (nd d c (nd d False w p u1) b (nd d False v1 e v2)) \<and> rb_same N s s2"
    using s2(1,2) rb_same_trans by blast
qed

text \<open>The step before it: only the near nephew is red. Rotate at the sibling.\<close>

lemma remove_near_red:
  assumes rep: "rep s k (nd d c w p (nd d cb (nd d True v1 e v2) b u2))"
  defines "N \<equiv> tree_nodes k (nd d c w p (nd d cb (nd d True v1 e v2) b u2))"
  shows "\<exists>s1. rotate (set_red b True (set_red e False s)) (Some b) (opp d) = Some (s1, e) \<and>
    rep s1 k (nd d c w p (nd d False v1 e (nd d True v2 b u2))) \<and> rb_same N s s1"
proof -
  let ?K = "Frame (opp d) c p w # k" and ?s = "set_red b True (set_red e False s)"
  have mem: "b \<in> N" "e \<in> N" by (simp_all add: N_def set_inorder_plug)
  from rep have "rep s (Frame d cb b u2 # ?K) (nd d True v1 e v2)" by (simp add: rep_move nd_opp)
  from set_red_rep[OF this, of False]
  have "rep (set_red e False s) ?K (nd d cb (nd d False v1 e v2) b u2)" by (simp add: rep_move nd_opp)
  from set_red_rep[OF this, of True]
  have "rep ?s ?K (nd (opp d) True u2 b (nd (opp d) False v2 e v1))" by (simp add: nd_opp)
  then obtain s1 where s1: "rotate ?s (Some b) (opp d) = Some (s1, e)"
    "rep s1 ?K (nd (opp d) False (nd (opp d) True u2 b v2) e v1)"
    "rb_same (tree_nodes ?K (nd (opp d) True u2 b (nd (opp d) False v2 e v1))) ?s s1"
    by (rule rotate_plug)
  have "rb_same N ?s s1" using s1(3) by (rule rb_same_mono) (auto simp: N_def set_inorder_plug)
  moreover have "rb_same N s ?s" using mem by (simp add: rb_same_def rb_stores)
  moreover have "rep s1 k (nd d c w p (nd d False v1 e (nd d True v2 b u2)))"
    using s1(2) by (simp add: rep_move nd_opp)
  ultimately show ?thesis using s1(1) rb_same_trans by blast
qed

text \<open>What the rebalancing at a black sibling achieves: the missing black is either made up for here
  or moved up to the parent.\<close>

lemma rb_remove_fix_up:
  assumes rep: "rep s k (nd d c w p (nd d False u1 b u2))" and black: "\<not> isred u1" "\<not> isred u2"
  shows "rb_remove_fix s p b d = Some (set_red b True s, Some p)"
    "rep (set_red b True s) k (nd d c w p (nd d True u1 b u2))"
    "rb_same (tree_nodes k (nd d c w p (nd d False u1 b u2))) s (set_red b True s)"
proof -
  have sub: "rep s (Frame (opp d) c p w # k) (nd d False u1 b u2)" using rep by (simp add: rep_move nd_opp)
  show "rb_remove_fix s p b d = Some (set_red b True s, Some p)"
    using rep_nd[OF sub] black by (simp add: rb_remove_fix_def)
  show "rep (set_red b True s) k (nd d c w p (nd d True u1 b u2))"
    using set_red_rep[OF sub, of True] by (simp add: rep_move nd_opp)
  show "rb_same (tree_nodes k (nd d c w p (nd d False u1 b u2))) s (set_red b True s)"
    by (rule set_red_same) (simp add: set_inorder_plug)
qed

lemma rb_remove_fix_done:
  assumes rep: "rep s k (nd d c w p (nd d False u1 b u2))" and red: "isred u1 \<or> isred u2"
    and inv: "\<not> isred w" "invc w" "invc u1" "invc u2" "bhgt w n" "bhgt u1 n" "bhgt u2 n"
  shows "\<exists>s' t'. rb_remove_fix s p b d = Some (s', rb_root s') \<and> rep s' k t' \<and> invc t' \<and> isred t' = c \<and>
    bhgt t' (if c then Suc n else Suc (Suc n)) \<and> inorder t' = inorder (nd d c w p (nd d False u1 b u2)) \<and>
    rb_same (tree_nodes k (nd d c w p (nd d False u1 b u2))) s s'"
proof -
  have sub: "rep s (Frame (opp d) c p w # k) (nd d False u1 b u2)" using rep by (simp add: rep_move nd_opp)
  note rd = rep_nd[OF sub] rep_nd(7)[OF rep]
  show ?thesis
  proof (cases "isred u2")
    case True
    then obtain v1 e v2 where u2: "u2 = nd d True v1 e v2" by (rule red_cases)
    let ?t' = "nd d c (nd d False w p u1) b (nd d False v1 e v2)"
    from remove_far_red[OF rep[unfolded u2]] obtain s2 where
      s2: "rotate (set_red e False (set_red p False (set_red b c s))) (Some p) d = Some (s2, b)"
        "rep s2 k ?t'" "rb_same (tree_nodes k (nd d c w p (nd d False u1 b u2))) s s2"
        "child_of (set_red p False (set_red b c s)) b (opp d) = Some e"
      unfolding u2 by blast
    have "rb_remove_fix s p b d = Some (s2, rb_root s2)"
      using rd True s2(1,4) by (simp add: rb_remove_fix_def)
    moreover have "inorder ?t' = inorder (nd d c w p (nd d False u1 b u2))" using u2 by (cases d) auto
    moreover have "invc ?t' \<and> isred ?t' = c \<and> bhgt ?t' (if c then Suc n else Suc (Suc n))"
      using inv u2 by (cases c) simp_all
    ultimately show ?thesis using s2(2,3) by blast
  next
    case False
    with red have "isred u1" by simp
    then obtain v1 e v2 where u1: "u1 = nd d True v1 e v2" by (rule red_cases)
    let ?t' = "nd d c (nd d False w p v1) e (nd d False v2 b u2)"
    from remove_near_red[OF rep[unfolded u1]] obtain s1 where
      s1: "rotate (set_red b True (set_red e False s)) (Some b) (opp d) = Some (s1, e)"
        "rep s1 k (nd d c w p (nd d False v1 e (nd d True v2 b u2)))"
        "rb_same (tree_nodes k (nd d c w p (nd d False u1 b u2))) s s1"
      unfolding u1 by blast
    have rd1: "child_of s1 p (opp d) = Some e" "IS_RED s1 (Some p) = c" using rep_nd[OF s1(2)] by simp_all
    from remove_far_red[OF s1(2)] obtain s2 where
      s2: "rotate (set_red b False (set_red p False (set_red e c s1))) (Some p) d = Some (s2, e)"
        "rep s2 k ?t'" "rb_same (tree_nodes k (nd d c w p (nd d False v1 e (nd d True v2 b u2)))) s1 s2"
        "child_of (set_red p False (set_red e c s1)) e (opp d) = Some b"
      by blast
    have "rb_remove_fix s p b d = Some (s2, rb_root s2)"
      using rd rd1 False u1 s1(1) s2(1,4) by (simp add: rb_remove_fix_def)
    moreover have "rb_same (tree_nodes k (nd d c w p (nd d False u1 b u2))) s s2"
      by (rule rb_same_trans[OF s1(3) rb_same_mono[OF s2(3)]]) (auto simp: set_inorder_plug u1)
    moreover have "inorder ?t' = inorder (nd d c w p (nd d False u1 b u2))" using u1 by (cases d) auto
    moreover have "invc ?t' \<and> isred ?t' = c \<and> bhgt ?t' (if c then Suc n else Suc (Suc n))"
      using inv u1 False by (cases c) simp_all
    ultimately show ?thesis using s2(2) by blast
  qed
qed

section \<open>The rebalancing loop\<close>

definition rb_done :: "rb_tree \<Rightarrow> rb_tree option \<Rightarrow> addr list \<Rightarrow> bool" where
  "rb_done s r xs \<longleftrightarrow> (\<exists>s' t'. r = Some s' \<and> rep s' [] t' \<and> rbt_ok t' \<and> inorder t' = xs \<and> rb_same (set xs) s s')"

lemma rb_done_trans: "rb_same (set xs) s s1 \<Longrightarrow> rb_done s1 r xs \<Longrightarrow> rb_done s r xs"
  unfolding rb_done_def using rb_same_trans by blast

fun blk :: "rbt \<Rightarrow> rbt" where
  "blk Leaf = Leaf"
| "blk (Node c l a r) = Node False l a r"

lemma blk_nd [simp]: "blk (nd d c t a u) = nd d False t a u"
  by (cases d) auto

lemma blk_black [simp]: "\<not> isred t \<Longrightarrow> blk t = t"
  by (cases t) auto

lemma inorder_blk [simp]: "inorder (blk t) = inorder t"
  by (cases t) auto

lemma rb_remove_loop_exit:
  assumes rep: "rep s k w" and stop: "k = [] \<or> isred w" and inv: "invc (blk w)" "cc k False" "bhgt w n" "ch k (Suc n)"
  shows "rb_done s (rb_remove_loop s (top w) q) (inorder (plug k w))"
proof (cases w)
  case Leaf
  then have "k = []" using stop by simp
  then show ?thesis
    using Leaf rep_root[of s Leaf] rep unfolding rb_done_def
    by (intro exI[of _ s] exI[of _ Leaf]) (simp add: rb_remove_loop.simps rbt_ok_def)
next
  case (Node c l a r)
  have "rb_remove_loop s (top w) q = Some (set_red a False s)"
    using stop rep_root[of s w] rep Node rep_nd(7)[of s k RB_LEFT c l a r]
    by (auto simp: rb_remove_loop.simps)
  moreover have "rep (set_red a False s) [] (plug k (Node False l a r))"
    using set_red_rep[of s k RB_LEFT c l a r False] rep Node by (simp flip: rep_plug)
  moreover have "rbt_ok (plug k (Node False l a r))"
  proof -
    have "\<exists>m. bhgt (Node False l a r) m \<and> ch k m"
    proof (cases c)
      case True
      then show ?thesis using inv Node by (intro exI[of _ "Suc n"]) simp
    next
      case False
      then show ?thesis using inv Node stop by auto
    qed
    then show ?thesis unfolding plug_ok using inv Node by auto
  qed
  moreover have "rb_same (set (inorder (plug k w))) s (set_red a False s)"
    using Node by (intro set_red_same) (simp add: set_inorder_plug)
  moreover have "inorder (plug k (Node False l a r)) = inorder (plug k w)"
    using Node by (simp add: inorder_plug)
  ultimately show ?thesis unfolding rb_done_def by blast
qed

lemma rb_remove_loop_root:
  assumes "rep s k t" "rbt_ok (plug k t)"
  shows "rb_done s (rb_remove_loop s (rb_root s) q) (inorder (plug k t))"
proof -
  from assms obtain n where r: "rep s [] (plug k t)" "rb_root s = top (plug k t)" "bhgt (plug k t) n"
    using rep_plug[of s k t] rep_root[of s "plug k t"] by (auto simp: rbt_ok_def)
  show ?thesis
    using rb_remove_loop_exit[OF r(1), of n q] r assms by (simp add: rbt_ok_def)
qed

lemma sibling_dir:
  assumes "rep s (Frame d c p u # k) w" "u \<noteq> Leaf"
  shows "(if top w = n_left (rb_heap s p) then RB_LEFT else RB_RIGHT) = d"
proof -
  obtain x where x: "top u = Some x" using assms(2) by (cases u) auto
  then have "top w \<noteq> top u"
    using assms(1) top_in[OF x] top_in[of w x] by (auto simp: rep_def)
  then show ?thesis using assms(1) by (cases d) (auto simp: rep_def)
qed

lemma rb_remove_step_black:
  assumes "rep s (Frame d c p (nd d False u1 b u2) # k) w"
  shows "rb_remove_step s x p d = rb_remove_fix s p b d"
proof -
  have 1: "rep s k (nd d c w p (nd d False u1 b u2))" using assms by (simp add: rep_move)
  have 2: "rep s (Frame (opp d) c p w # k) (nd d False u1 b u2)" using 1 by (simp add: rep_move nd_opp)
  show ?thesis using rep_nd(4)[OF 1] rep_nd(1)[OF 2] by (simp add: rb_remove_step_def)
qed

lemma rb_remove_step_red:
  assumes "rep s (Frame d False p (nd d True (nd d False v1 e v2) b u2) # k) w"
  shows "\<exists>s1. rb_remove_step s (top w) p d = rb_remove_fix s1 p e d \<and>
    rep s1 (Frame d False b u2 # k) (nd d True w p (nd d False v1 e v2)) \<and>
    rb_same (tree_nodes (Frame d False p (nd d True (nd d False v1 e v2) b u2) # k) w) s s1"
proof -
  let ?N = "tree_nodes (Frame d False p (nd d True (nd d False v1 e v2) b u2) # k) w"
  have 1: "rep s k (nd d False w p (nd d True (nd d False v1 e v2) b u2))" using assms by (simp add: rep_move)
  have 2: "rep s (Frame (opp d) False p w # k) (nd d True (nd d False v1 e v2) b u2)"
    using 1 by (simp add: rep_move nd_opp)
  from set_red_rep[OF 2, of False]
  have "rep (set_red b False s) k (nd d False w p (nd d False (nd d False v1 e v2) b u2))"
    by (simp add: rep_move nd_opp)
  from set_red_rep[OF this, of True]
  have "rep (set_red p True (set_red b False s)) k (nd d True w p (nd d False (nd d False v1 e v2) b u2))" .
  then obtain s1 where s1: "rotate (set_red p True (set_red b False s)) (Some p) d = Some (s1, b)"
    "rep s1 k (nd d False (nd d True w p (nd d False v1 e v2)) b u2)"
    "rb_same (tree_nodes k (nd d True w p (nd d False (nd d False v1 e v2) b u2)))
      (set_red p True (set_red b False s)) s1"
    by (rule rotate_plug)
  have r1: "rep s1 (Frame d False b u2 # k) (nd d True w p (nd d False v1 e v2))" using s1(2) by (simp add: rep_move)
  have "rb_remove_step s (top w) p d = rb_remove_fix s1 p e d"
    using rep_nd(4)[OF 1] rep_nd(1)[OF 2] s1(1) rep_nd(3,4)[OF r1] by (simp add: rb_remove_step_def)
  moreover have "rb_same ?N (set_red p True (set_red b False s)) s1"
    using s1(3) by (rule rb_same_mono) (auto simp: set_inorder_plug)
  moreover have "rb_same ?N s (set_red p True (set_red b False s))"
    by (simp add: rb_same_def rb_stores set_inorder_plug)
  ultimately show ?thesis using r1 rb_same_trans by blast
qed

lemma top_plug: "t \<noteq> Leaf \<Longrightarrow> top (plug k t) = top t \<or> top (plug k t) \<in> Some ` set (cnodes k)"
  by (induction k t rule: plug.induct) auto

lemma rb_remove_loop_step:
  assumes "rep s (Frame d c p u # k) w" "\<not> isred w" "u \<noteq> Leaf"
  shows "rb_remove_loop s (top w) (Some p) = do {
      (s, x) \<leftarrow> rb_remove_step s (top w) p d;
      a \<leftarrow> x;
      rb_remove_loop s x (parent_of s a) }"
proof -
  have "top w \<noteq> rb_root s"
  proof
    assume *: "top w = rb_root s"
    have "rb_root s = top (plug k (nd d c w p u))"
      using assms(1) rep_plug[of s k] rep_root[of s "plug k (nd d c w p u)"] by (simp add: rep_move)
    then have "top w \<in> Some ` insert p (set (cnodes k))"
      using * top_plug[of "nd d c w p u" k] by auto
    with assms(1) show False using top_in[of w] by (auto simp: rep_def)
  qed
  moreover have "\<not> IS_RED s (top w)" using assms IS_RED_top[of s "up (Frame d c p u # k)" w] by (simp add: rep_def)
  ultimately show ?thesis
    using sibling_dir[OF assms(1,3)] by (simp add: rb_remove_loop.simps[of s "top w"])
qed

text \<open>One round at a black sibling, the loop continuing with \<open>cont\<close> when the missing black moves up.\<close>

lemma remove_round:
  assumes rep: "rep s (Frame d c p (nd d False u1 b u2) # k) w"
    and inv: "\<not> isred w" "invc w" "invc u1" "invc u2" "bhgt w n" "bhgt u1 n" "bhgt u2 n" "cc k c"
      "ch k (if c then Suc n else Suc (Suc n))"
    and cont: "\<And>s'. \<not> isred u1 \<Longrightarrow> \<not> isred u2 \<Longrightarrow> rep s' k (nd d c w p (nd d True u1 b u2)) \<Longrightarrow>
      rb_done s' (rb_remove_loop s' (Some p) (up k)) (inorder (plug k (nd d c w p (nd d True u1 b u2))))"
  shows "rb_done s (do { (s, x) \<leftarrow> rb_remove_fix s p b d; a \<leftarrow> x; rb_remove_loop s x (parent_of s a) })
    (inorder (plug k (nd d c w p (nd d False u1 b u2))))"
proof -
  have r: "rep s k (nd d c w p (nd d False u1 b u2))" using rep by (simp add: rep_move)
  show ?thesis
  proof (cases "isred u1 \<or> isred u2")
    case False
    then have black: "\<not> isred u1" "\<not> isred u2" by simp_all
    note up = rb_remove_fix_up[OF r black]
    have io: "inorder (plug k (nd d c w p (nd d True u1 b u2))) = inorder (plug k (nd d c w p (nd d False u1 b u2)))"
      unfolding inorder_plug using inorder_nd_cong[OF refl inorder_nd_colour] by simp
    from rb_done_trans[OF up(3) cont[OF black up(2), unfolded io]] show ?thesis
      using up(1) rep_nd(2)[OF up(2)] by simp
  next
    case True
    from rb_remove_fix_done[OF r True inv(1-7)] obtain s' t' where
      f: "rb_remove_fix s p b d = Some (s', rb_root s')" "rep s' k t'" "invc t'" "isred t' = c"
        "bhgt t' (if c then Suc n else Suc (Suc n))" "inorder t' = inorder (nd d c w p (nd d False u1 b u2))"
        "rb_same (tree_nodes k (nd d c w p (nd d False u1 b u2))) s s'" by blast
    have ok: "rbt_ok (plug k t')" unfolding plug_ok using f inv(8,9) by blast
    have io: "inorder (plug k t') = inorder (plug k (nd d c w p (nd d False u1 b u2)))"
      by (simp only: inorder_plug f(6))
    have "t' \<noteq> Leaf" using f(5) by (auto split: if_splits)
    then obtain a where a: "rb_root s' = Some a"
      using rep_root[of s' "plug k t'"] f(2) rep_plug[of s' k t'] by (cases "plug k t'") auto
    from rb_done_trans[OF f(7) rb_remove_loop_root[OF f(2) ok, unfolded io]] show ?thesis
      using f(1) a by simp
  qed
qed

theorem rb_remove_loop_correct:
  assumes "rep s k w" "invc (blk w)" "cc k False" "bhgt w n" "ch k (Suc n)"
  shows "rb_done s (rb_remove_loop s (top w) (up k)) (inorder (plug k w))"
  using assms
proof (induction "length k" arbitrary: s k w n rule: less_induct)
  case less
  note prems = less.prems
  show ?case
  proof (cases "k = [] \<or> isred w")
    case True
    with prems show ?thesis by (intro rb_remove_loop_exit)
  next
    case False
    then obtain d c p u k' where k: "k = Frame d c p u # k'" by (cases k rule: up.cases) auto
    have w: "\<not> isred w" "invc w" using False prems(2) by simp_all
    have u: "bhgt u (Suc n)" "invc u" "cc k' c" "c \<longrightarrow> \<not> isred u" "ch k' (if c then Suc n else Suc (Suc n))"
      using prems k by auto
    then have "u \<noteq> Leaf" by auto
    note step = rb_remove_loop_step[OF prems(1)[unfolded k] w(1) this]
    show ?thesis
    proof (cases "isred u")
      case False
      from u(1) False obtain u1 b u2 where ub: "u = nd d False u1 b u2" "bhgt u1 n" "bhgt u2 n"
        by (rule bhgt_Suc_cases)
      have cont: "rb_done s' (rb_remove_loop s' (Some p) (up k')) (inorder (plug k' (nd d c w p (nd d True u1 b u2))))"
        if "\<not> isred u1" "\<not> isred u2" "rep s' k' (nd d c w p (nd d True u1 b u2))" for s'
        using less.hyps[of k' s' "nd d c w p (nd d True u1 b u2)" "if c then n else Suc n"] that k u w ub prems(4) cc_False
        by (auto split: if_splits)
      show ?thesis
        using remove_round[OF prems(1)[unfolded k ub(1)] w, of n] cont u w ub prems(4) step k
          rb_remove_step_black[OF prems(1)[unfolded k ub(1)]] by simp
    next
      case True
      then obtain uN b u2 where ub: "u = nd d True uN b u2" by (rule red_cases)
      have c: "\<not> c" using True u(4) by auto
      have b: "\<not> isred uN" "invc uN" "bhgt uN (Suc n)" "\<not> isred u2" "invc u2" "bhgt u2 (Suc n)" using u ub by auto
      from b(3,1) obtain v1 e v2 where uN: "uN = nd d False v1 e v2" "bhgt v1 n" "bhgt v2 n"
        by (rule bhgt_Suc_cases)
      from rb_remove_step_red[of s d p v1 e v2 b u2 k' w] prems(1) k ub uN c obtain s1 where
        s1: "rb_remove_step s (top w) p d = rb_remove_fix s1 p e d"
          "rep s1 (Frame d False b u2 # k') (nd d True w p (nd d False v1 e v2))"
          "rb_same (tree_nodes k w) s s1" by auto
      let ?K = "Frame d False b u2 # k'"
      have io: "inorder (plug ?K (nd d True w p (nd d False v1 e v2))) = inorder (plug k w)"
        using k ub uN by (cases d) (simp_all add: inorder_plug)
      have cont: "rb_done s' (rb_remove_loop s' (Some p) (up ?K)) (inorder (plug ?K (nd d True w p (nd d True v1 e v2))))"
        if "\<not> isred v1" "\<not> isred v2" "rep s' ?K (nd d True w p (nd d True v1 e v2))" for s'
        using rb_remove_loop_exit[OF that(3), of n "up ?K"] that w u b c uN prems(4) by simp
      have "rb_done s1 (do { (s, x) \<leftarrow> rb_remove_fix s1 p e d; a \<leftarrow> x; rb_remove_loop s x (parent_of s a) })
          (inorder (plug ?K (nd d True w p (nd d False v1 e v2))))"
        using s1(2) w u b c uN prems(4) cont by (intro remove_round[where n = n]) (simp_all add: rep_move)
      from rb_done_trans[OF s1(3) this[unfolded io]] show ?thesis using step s1(1) k by simp
    qed
  qed
qed

section \<open>\<^verbatim>\<open>rb_remove\<close>\<close>

theorem rb_remove_rep:
  assumes rep: "rep s [] t" and ok: "rbt_ok t" and mem: "a \<in> set (inorder t)"
  shows "\<exists>s' t'. rb_remove s a = Some s' \<and> rep s' [] t' \<and> rbt_ok t' \<and>
    inorder t' = remove1 a (inorder t) \<and> rb_count s' = rb_count s - 1 \<and>
    (\<forall>x. x \<notin> set (inorder t) \<longrightarrow> rb_heap s' x = rb_heap s x)"
proof -
  let ?s = "s\<lparr>rb_count := rb_count s - 1\<rparr>"
  obtain k c l r where t: "t = plug k (Node c l a r)" using find_node[OF mem] by blast
  have rk: "rep ?s k (Node c l a r)"
    using rep rep_plug[of ?s k "Node c l a r"] by (simp add: t rep_def)
  have "\<exists>s1 red k' w. rb_unlink ?s a = Some (s1, red, top w, up k') \<and> rep s1 k' w \<and>
      inorder (plug k' w) = remove1 a (inorder t) \<and> hole_ok red k' w \<and> rb_same (set (inorder t)) ?s s1"
  proof -
    consider "l = Leaf" | "r = Leaf" | "l \<noteq> Leaf" "r \<noteq> Leaf" by blast
    then show ?thesis
    proof cases
      case 1
      with rb_unlink_one[of ?s k RB_LEFT c a r] rk ok t show ?thesis by auto
    next
      case 2
      with rb_unlink_one[of ?s k RB_RIGHT c a l] rk ok t show ?thesis by auto
    next
      case 3
      with rb_unlink_two[OF rk] ok t show ?thesis by auto
    qed
  qed
  then obtain s1 red k' w where u: "rb_unlink ?s a = Some (s1, red, top w, up k')" "rep s1 k' w"
    "inorder (plug k' w) = remove1 a (inorder t)" "hole_ok red k' w" "rb_same (set (inorder t)) ?s s1" by blast
  have "(case up k' of None \<Rightarrow> True | Some p \<Rightarrow> top w = n_left (rb_heap s1 p) \<or> top w = n_right (rb_heap s1 p))"
    using u(2) by (cases k' rule: up.cases; simp add: rep_def) (case_tac d; simp)
  then have rm: "rb_remove s a = (if red then Some s1 else rb_remove_loop s1 (top w) (up k'))"
    using u(1) by (simp add: rb_remove_def)
  have "rb_done s1 (rb_remove s a) (inorder (plug k' w))"
  proof (cases red)
    case True
    then have "rbt_ok (plug k' w)" using u(4) cc_False unfolding hole_ok_def plug_ok by auto
    with u(2) rep_plug[of s1 k' w] rm True show ?thesis by (auto simp: rb_done_def)
  next
    case False
    then show ?thesis
      using u(4) rb_remove_loop_correct[OF u(2)] rm unfolding hole_ok_def by (cases w) auto
  qed
  then obtain s' t' where r: "rb_remove s a = Some s'" "rep s' [] t'" "rbt_ok t'" "inorder t' = remove1 a (inorder t)"
    "rb_same (set (remove1 a (inorder t))) s1 s'" unfolding rb_done_def u(3) by blast
  have "rb_same (set (inorder t)) ?s s'"
    using u(5) rb_same_mono[OF r(5) set_remove1_subset] by (rule rb_same_trans)
  then show ?thesis using r(1-4) by (auto simp: rb_same_def)
qed

end
