(* ===== verification/RbSpec.thy ===== *)
theory RbSpec
  imports RbRemove
begin

text \<open>
  What the red black tree promises its clients: \<open>rb_inv val s xs\<close> says that the tree in \<open>s\<close> holds
  exactly the nodes \<open>xs\<close>, listed by ascending value. The locale \<open>ordered_index\<close> states the contract
  of \<^verbatim>\<open>rb_insert\<close>, \<^verbatim>\<open>rb_remove\<close> and \<^verbatim>\<open>rb_search\<close> over such lists; the virtual memory and the timer
  event components are built on that contract.
\<close>

section \<open>Search\<close>

text \<open>
  The result of a search on the ascending list \<open>xs\<close>: for five of the types what \<^verbatim>\<open>rb.h\<close> documents, for
  \<^verbatim>\<open>RB_SEARCH_NEAREST\<close>, documented as the nearest match, only what the code gives: a neighbour of the
  key, which need not be the nearer one.
\<close>

fun search_spec :: "(addr \<Rightarrow> u64) \<Rightarrow> u64 \<Rightarrow> rb_search_type \<Rightarrow> addr list \<Rightarrow> ptr \<Rightarrow> bool" where
  "search_spec val v RB_SEARCH_EXACT xs None = (\<forall>x \<in> set xs. val x \<noteq> v)"
| "search_spec val v RB_SEARCH_EXACT xs (Some a) = (a \<in> set xs \<and> val a = v)"
| "search_spec val v RB_SEARCH_NEAREST xs None = (xs = [])"
| "search_spec val v RB_SEARCH_NEAREST xs (Some a) =
     (a \<in> set xs \<and> (\<forall>x \<in> set xs. \<not> (val a < val x \<and> val x < v) \<and> \<not> (v \<le> val x \<and> val x < val a)))"
| "search_spec val v RB_SEARCH_NEAREST_LT xs None = (\<forall>x \<in> set xs. v \<le> val x)"
| "search_spec val v RB_SEARCH_NEAREST_LT xs (Some a) =
     (a \<in> set xs \<and> val a < v \<and> (\<forall>x \<in> set xs. val x < v \<longrightarrow> val x \<le> val a))"
| "search_spec val v RB_SEARCH_NEAREST_LTE xs None = (\<forall>x \<in> set xs. v < val x)"
| "search_spec val v RB_SEARCH_NEAREST_LTE xs (Some a) =
     (a \<in> set xs \<and> val a \<le> v \<and> (\<forall>x \<in> set xs. val x \<le> v \<longrightarrow> val x \<le> val a))"
| "search_spec val v RB_SEARCH_NEAREST_GT xs None = (\<forall>x \<in> set xs. val x \<le> v)"
| "search_spec val v RB_SEARCH_NEAREST_GT xs (Some a) =
     (a \<in> set xs \<and> v < val a \<and> (\<forall>x \<in> set xs. v < val x \<longrightarrow> val a \<le> val x))"
| "search_spec val v RB_SEARCH_NEAREST_GTE xs None = (\<forall>x \<in> set xs. val x < v)"
| "search_spec val v RB_SEARCH_NEAREST_GTE xs (Some a) =
     (a \<in> set xs \<and> v \<le> val a \<and> (\<forall>x \<in> set xs. v \<le> val x \<longrightarrow> val a \<le> val x))"

lemma search_loop_None [simp]: "rb_search_loop val s v ty None n nv = Some n"
  by (simp add: rb_search_loop.simps)

lemma sorted_node:
  assumes "sorted (map val (inorder (Node c l a r)))"
  shows "sorted (map val (inorder l))" "sorted (map val (inorder r))"
    "\<And>x. x \<in> set (inorder l) \<Longrightarrow> val x \<le> val a" "\<And>x. x \<in> set (inorder r) \<Longrightarrow> val a \<le> val x"
  using assms by (auto simp: sorted_append)

lemma search_exact_loop:
  assumes "tree_at (rb_heap s) par t" "sorted (map val (inorder t))"
  shows "\<exists>r. rb_search_loop val s v RB_SEARCH_EXACT (top t) None nv = Some r \<and>
    search_spec val v RB_SEARCH_EXACT (inorder t) r"
  using assms
proof (induction t arbitrary: par)
  case Leaf
  then show ?case by simp
next
  case (Node c l a r)
  note so = sorted_node[OF Node.prems(2)]
  consider "val a = v" | "val a < v" | "v < val a" by (rule linorder_cases)
  then show ?case
  proof cases
    case 1
    then show ?thesis by (simp add: rb_search_loop.simps)
  next
    case 2
    obtain q where q: "rb_search_loop val s v RB_SEARCH_EXACT (top r) None nv = Some q"
      "search_spec val v RB_SEARCH_EXACT (inorder r) q" using Node so by fastforce
    have "search_spec val v RB_SEARCH_EXACT (inorder (Node c l a r)) q"
      using q(2) 2 so(3) by (cases q) fastforce+
    with q(1) 2 Node.prems(1) show ?thesis by (simp add: rb_search_loop.simps[of _ _ _ _ "Some a"])
  next
    case 3
    obtain q where q: "rb_search_loop val s v RB_SEARCH_EXACT (top l) None nv = Some q"
      "search_spec val v RB_SEARCH_EXACT (inorder l) q" using Node so by fastforce
    have "search_spec val v RB_SEARCH_EXACT (inorder (Node c l a r)) q"
      using q(2) 3 so(4) by (cases q) fastforce+
    with q(1) 3 Node.prems(1) show ?thesis by (simp add: rb_search_loop.simps[of _ _ _ _ "Some a"] less_not_sym)
  qed
qed

lemma search_nearest_loop:
  assumes "tree_at (rb_heap s) par t" "sorted (map val (inorder t))" "t \<noteq> Leaf"
  shows "\<exists>a. rb_search_loop val s v RB_SEARCH_NEAREST (top t) n nv = Some (Some a) \<and>
    search_spec val v RB_SEARCH_NEAREST (inorder t) (Some a)"
  using assms
proof (induction t arbitrary: par n)
  case (Node c l a r)
  note so = sorted_node[OF Node.prems(2)]
  show ?case
  proof (cases "val a < v")
    case True
    show ?thesis
    proof (cases "r = Leaf")
      case True
      with \<open>val a < v\<close> Node.prems(1) so(3) show ?thesis
        by (force simp: rb_search_loop.simps[of _ _ _ _ "Some a"])
    next
      case False
      obtain b where b: "rb_search_loop val s v RB_SEARCH_NEAREST (top r) (Some a) nv = Some (Some b)"
        "search_spec val v RB_SEARCH_NEAREST (inorder r) (Some b)"
        using Node.IH(2)[of "Some a" "Some a"] Node.prems so False by auto
      have "val a \<le> val b" using b(2) so(4) by auto
      then have "search_spec val v RB_SEARCH_NEAREST (inorder (Node c l a r)) (Some b)"
        using b(2) True so(3) by fastforce
      with b(1) True Node.prems(1) show ?thesis by (simp add: rb_search_loop.simps[of _ _ _ _ "Some a"])
    qed
  next
    case ge: False
    show ?thesis
    proof (cases "l = Leaf")
      case True
      with ge Node.prems(1) so(4) show ?thesis
        by (force simp: rb_search_loop.simps[of _ _ _ _ "Some a"])
    next
      case False
      obtain b where b: "rb_search_loop val s v RB_SEARCH_NEAREST (top l) (Some a) nv = Some (Some b)"
        "search_spec val v RB_SEARCH_NEAREST (inorder l) (Some b)"
        using Node.IH(1)[of "Some a" "Some a"] Node.prems so False by auto
      have "val b \<le> val a" using b(2) so(3) by auto
      then have "search_spec val v RB_SEARCH_NEAREST (inorder (Node c l a r)) (Some b)"
        using b(2) ge so(4) by fastforce
      with b(1) ge Node.prems(1) show ?thesis by (simp add: rb_search_loop.simps[of _ _ _ _ "Some a"])
    qed
  qed
qed simp

text \<open>
  The one sided searches. \<open>below\<close> is the test of \<^verbatim>\<open>RB_SEARCH_NEAREST_LT\<close> and
  \<^verbatim>\<open>RB_SEARCH_NEAREST_LTE\<close>, \<open>above\<close> that of the other two.
\<close>

definition below :: "rb_search_type \<Rightarrow> u64 \<Rightarrow> u64 \<Rightarrow> bool" where
  "below ty v x = (if ty = RB_SEARCH_NEAREST_LT then x < v else x \<le> v)"

definition above :: "rb_search_type \<Rightarrow> u64 \<Rightarrow> u64 \<Rightarrow> bool" where
  "above ty v x = (if ty = RB_SEARCH_NEAREST_GT then v < x else v \<le> x)"

lemma search_below_visit:
  assumes "ty = RB_SEARCH_NEAREST_LT \<or> ty = RB_SEARCH_NEAREST_LTE"
  shows "rb_search_visit val s v ty c n nv =
    (if \<not> below ty v (val c) then Inr (n_left (rb_heap s c), n, nv)
     else if n = None \<or> nv < val c then Inr (n_right (rb_heap s c), Some c, val c)
     else Inr (n_right (rb_heap s c), n, nv))"
  using assms by (auto simp: below_def)

lemma search_above_visit:
  assumes "ty = RB_SEARCH_NEAREST_GT \<or> ty = RB_SEARCH_NEAREST_GTE"
  shows "rb_search_visit val s v ty c n nv =
    (if \<not> above ty v (val c) then Inr (n_right (rb_heap s c), n, nv)
     else if n = None \<or> val c < nv then Inr (n_left (rb_heap s c), Some c, val c)
     else Inr (n_left (rb_heap s c), n, nv))"
  using assms by (auto simp: above_def)

text \<open>
  \<open>best le val P n X r\<close>: \<open>r\<close> is the greatest candidate (\<open>P\<close>) of \<open>X\<close> in the order \<open>le\<close>, or the earlier
  result \<open>n\<close> when that is at least as good. Both directions of the search are instances.
\<close>

definition best :: "(u64 \<Rightarrow> u64 \<Rightarrow> bool) \<Rightarrow> (addr \<Rightarrow> u64) \<Rightarrow> (u64 \<Rightarrow> bool) \<Rightarrow> ptr \<Rightarrow> addr set \<Rightarrow> ptr \<Rightarrow> bool" where
  "best le val P n X r \<longleftrightarrow>
     r = n \<and> (\<forall>x \<in> X. P (val x) \<longrightarrow> (\<exists>m. n = Some m \<and> le (val x) (val m))) \<or>
     (\<exists>a \<in> X. r = Some a \<and> P (val a) \<and> (\<forall>x \<in> X. P (val x) \<longrightarrow> le (val x) (val a)))"

lemma best_skip:
  assumes "best le val P n X r" "\<And>y. y \<in> Y \<Longrightarrow> \<not> P (val y)"
  shows "best le val P n (X \<union> Y) r"
  using assms unfolding best_def by blast

lemma best_take:
  assumes b: "best le val P (Some m) X r" and m: "val m = val a" "m = a \<or> n = Some m" and a: "P (val a)"
    and lo: "\<And>y. y \<in> Y \<Longrightarrow> le (val y) (val a)" and hi: "\<And>x. x \<in> X \<Longrightarrow> le (val a) (val x)"
    and le: "\<And>x. le x x" "\<And>x y z. le x y \<Longrightarrow> le y z \<Longrightarrow> le x z"
  shows "best le val P n (insert a (X \<union> Y)) r"
proof -
  from b consider "r = Some m" "\<forall>x \<in> X. P (val x) \<longrightarrow> le (val x) (val m)"
    | b where "b \<in> X" "r = Some b" "P (val b)" "\<forall>x \<in> X. P (val x) \<longrightarrow> le (val x) (val b)"
    unfolding best_def by blast
  then show ?thesis
  proof cases
    case 1
    then have "\<forall>x \<in> insert a (X \<union> Y). P (val x) \<longrightarrow> le (val x) (val m)" using lo le(1) m(1) by auto
    with 1(1) m a show ?thesis unfolding best_def by auto
  next
    case (2 b)
    then have "\<forall>x \<in> insert a (X \<union> Y). P (val x) \<longrightarrow> le (val x) (val b)" using hi lo le(2) by blast
    with 2 show ?thesis unfolding best_def by blast
  qed
qed

lemma search_below_loop:
  assumes "tree_at (rb_heap s) par t" "sorted (map val (inorder t))"
    and ty: "ty = RB_SEARCH_NEAREST_LT \<or> ty = RB_SEARCH_NEAREST_LTE"
    and "\<And>m. n = Some m \<Longrightarrow> nv = val m \<and> (\<forall>x \<in> set (inorder t). val m \<le> val x)"
  shows "\<exists>r. rb_search_loop val s v ty (top t) n nv = Some r \<and>
    best (\<le>) val (below ty v) n (set (inorder t)) r"
  using assms(1,2,4)
proof (induction t arbitrary: par n nv)
  case Leaf
  then show ?case by (simp add: best_def)
next
  case (Node c l a r)
  note so = sorted_node[OF Node.prems(2)]
  have X: "set (inorder (Node c l a r)) = insert a (set (inorder r) \<union> set (inorder l))"
    "set (inorder (Node c l a r)) = set (inorder l) \<union> insert a (set (inorder r))" by auto
  note [simp] = rb_search_loop.simps[of _ _ _ _ "Some a"] search_below_visit[OF ty]
  show ?case
  proof (cases "below ty v (val a)")
    case False
    have nr: "\<not> below ty v (val x)" if "x \<in> insert a (set (inorder r))" for x
      using so(4)[of x] that False by (auto simp: below_def split: if_splits)
    obtain q where q: "rb_search_loop val s v ty (top l) n nv = Some q" "best (\<le>) val (below ty v) n (set (inorder l)) q"
      using Node.IH(1)[of "Some a" n nv] Node.prems so(1) by auto
    have "best (\<le>) val (below ty v) n (set (inorder (Node c l a r))) q"
      unfolding X(2) using q(2) nr by (rule best_skip)
    then show ?thesis using q(1) False Node.prems(1) by auto
  next
    case True
    define m where "m = (if n = None \<or> nv < val a then a else the n)"
    have m: "val m = val a" "m = a \<or> n = Some m"
      "rb_search_loop val s v ty (top (Node c l a r)) n nv = rb_search_loop val s v ty (top r) (Some m) (val m)"
      using Node.prems(1,3) True by (cases n; auto simp: m_def)+
    then obtain q where q: "rb_search_loop val s v ty (top r) (Some m) (val m) = Some q"
      "best (\<le>) val (below ty v) (Some m) (set (inorder r)) q"
      using Node.IH(2)[of "Some a" "Some m" "val m"] Node.prems so(2,4) by auto
    have "best (\<le>) val (below ty v) n (insert a (set (inorder r) \<union> set (inorder l))) q"
      by (rule best_take[OF q(2) m(1,2) True so(3,4)]) auto
    then show ?thesis using q(1) m(3) unfolding X(1) by auto
  qed
qed

lemma search_above_loop:
  assumes "tree_at (rb_heap s) par t" "sorted (map val (inorder t))"
    and ty: "ty = RB_SEARCH_NEAREST_GT \<or> ty = RB_SEARCH_NEAREST_GTE"
    and "\<And>m. n = Some m \<Longrightarrow> nv = val m \<and> (\<forall>x \<in> set (inorder t). val x \<le> val m)"
  shows "\<exists>r. rb_search_loop val s v ty (top t) n nv = Some r \<and>
    best (\<ge>) val (above ty v) n (set (inorder t)) r"
  using assms(1,2,4)
proof (induction t arbitrary: par n nv)
  case Leaf
  then show ?case by (simp add: best_def)
next
  case (Node c l a r)
  note so = sorted_node[OF Node.prems(2)]
  have X: "set (inorder (Node c l a r)) = insert a (set (inorder l) \<union> set (inorder r))"
    "set (inorder (Node c l a r)) = set (inorder r) \<union> insert a (set (inorder l))" by auto
  note [simp] = rb_search_loop.simps[of _ _ _ _ "Some a"] search_above_visit[OF ty]
  show ?case
  proof (cases "above ty v (val a)")
    case False
    have nr: "\<not> above ty v (val x)" if "x \<in> insert a (set (inorder l))" for x
      using so(3)[of x] that False by (auto simp: above_def split: if_splits)
    obtain q where q: "rb_search_loop val s v ty (top r) n nv = Some q" "best (\<ge>) val (above ty v) n (set (inorder r)) q"
      using Node.IH(2)[of "Some a" n nv] Node.prems so(2) by auto
    have "best (\<ge>) val (above ty v) n (set (inorder (Node c l a r))) q"
      unfolding X(2) using q(2) nr by (rule best_skip)
    then show ?thesis using q(1) False Node.prems(1) by auto
  next
    case True
    define m where "m = (if n = None \<or> val a < nv then a else the n)"
    have m: "val m = val a" "m = a \<or> n = Some m"
      "rb_search_loop val s v ty (top (Node c l a r)) n nv = rb_search_loop val s v ty (top l) (Some m) (val m)"
      using Node.prems(1,3) True by (cases n; auto simp: m_def)+
    then obtain q where q: "rb_search_loop val s v ty (top l) (Some m) (val m) = Some q"
      "best (\<ge>) val (above ty v) (Some m) (set (inorder l)) q"
      using Node.IH(1)[of "Some a" "Some m" "val m"] Node.prems so(1,3) by auto
    have "best (\<ge>) val (above ty v) n (insert a (set (inorder l) \<union> set (inorder r))) q"
      by (rule best_take[OF q(2) m(1,2) True so(4,3)]) auto
    then show ?thesis using q(1) m(3) unfolding X(1) by auto
  qed
qed

theorem rb_search_rep:
  assumes rep: "rep s [] t" and srt: "sorted (map val (inorder t))"
  shows "\<exists>r. rb_search val s v ty = Some r \<and> search_spec val v ty (inorder t) r"
proof -
  have tr: "tree_at (rb_heap s) None t" and s: "rb_search val s v ty = rb_search_loop val s v ty (top t) None 0"
    using rep rep_root[OF rep] by (simp_all add: rep_def rb_search_def)
  note lo = search_below_loop[OF tr srt, of ty None 0 v]
  note hi = search_above_loop[OF tr srt, of ty None 0 v]
  show ?thesis
  proof (cases ty)
    case RB_SEARCH_EXACT
    then show ?thesis using s search_exact_loop[OF tr srt] by simp
  next
    case RB_SEARCH_NEAREST
    then show ?thesis using s search_nearest_loop[OF tr srt] by (cases "t = Leaf") fastforce+
  next
    case RB_SEARCH_NEAREST_LT
    then obtain r where "rb_search val s v ty = Some r" "best (\<le>) val (below ty v) None (set (inorder t)) r"
      using lo s by auto
    with RB_SEARCH_NEAREST_LT show ?thesis by (cases r) (auto simp: best_def below_def not_less)
  next
    case RB_SEARCH_NEAREST_LTE
    then obtain r where "rb_search val s v ty = Some r" "best (\<le>) val (below ty v) None (set (inorder t)) r"
      using lo s by auto
    with RB_SEARCH_NEAREST_LTE show ?thesis by (cases r) (auto simp: best_def below_def not_le)
  next
    case RB_SEARCH_NEAREST_GT
    then obtain r where "rb_search val s v ty = Some r" "best (\<ge>) val (above ty v) None (set (inorder t)) r"
      using hi s by auto
    with RB_SEARCH_NEAREST_GT show ?thesis by (cases r) (auto simp: best_def above_def not_less)
  next
    case RB_SEARCH_NEAREST_GTE
    then obtain r where "rb_search val s v ty = Some r" "best (\<ge>) val (above ty v) None (set (inorder t)) r"
      using hi s by auto
    with RB_SEARCH_NEAREST_GTE show ?thesis by (cases r) (auto simp: best_def above_def not_le)
  qed
qed

section \<open>The depth of a tree\<close>

fun depth :: "rbt \<Rightarrow> nat" where
  "depth Leaf = 0"
| "depth (Node c l a r) = Suc (max (depth l) (depth r))"

lemma depth_bhgt: "invc t \<Longrightarrow> bhgt t n \<Longrightarrow> depth t \<le> 2 * n + (if isred t then 1 else 0)"
proof (induction t arbitrary: n)
  case (Node c l a r)
  show ?case
  proof (cases c)
    case True
    with Node.prems have "depth l \<le> 2 * n" "depth r \<le> 2 * n" using Node.IH[of n] by auto
    with True show ?thesis by simp
  next
    case False
    with Node.prems obtain m where m: "n = Suc m" "bhgt l m" "bhgt r m" by (cases n) auto
    then have "depth l \<le> 2 * m + 1" "depth r \<le> 2 * m + 1"
      using Node.IH[of m] Node.prems by (auto intro: order_trans)
    with m show ?thesis by simp
  qed
qed simp

lemma size_bhgt: "bhgt t n \<Longrightarrow> 2 ^ n \<le> length (inorder t) + 1"
proof (induction t arbitrary: n)
  case (Node c l a r)
  show ?case
  proof (cases c)
    case True
    with Node show ?thesis by fastforce
  next
    case False
    with Node.prems obtain m where m: "n = Suc m" "bhgt l m" "bhgt r m" by (cases n) auto
    then have "2 ^ m \<le> length (inorder l) + 1" "2 ^ m \<le> length (inorder r) + 1" using Node.IH by auto
    with m show ?thesis by simp
  qed
qed simp

lemma depth_bound:
  assumes "rbt_ok t"
  shows "2 ^ (depth t div 2) \<le> length (inorder t) + 1"
proof -
  obtain n where n: "invc t" "bhgt t n" "\<not> isred t" using assms by (auto simp: rbt_ok_def)
  then have "depth t div 2 \<le> n" using depth_bhgt[of t n] by simp
  then have "(2::nat) ^ (depth t div 2) \<le> 2 ^ n" by simp
  with size_bhgt[OF n(2)] show ?thesis by (rule order_trans[rotated])
qed

section \<open>The contract of an ordered index\<close>

definition rb_inv :: "(addr \<Rightarrow> u64) \<Rightarrow> rb_tree \<Rightarrow> addr list \<Rightarrow> bool" where
  "rb_inv val s xs \<longleftrightarrow> (\<exists>t. rep s [] t \<and> rbt_ok t \<and> inorder t = xs \<and> sorted (map val xs) \<and>
     rb_count s = of_nat (length xs))"

datatype index_cmd = Ins addr | Rem addr

fun index_seq :: "(addr \<Rightarrow> u64) \<Rightarrow> index_cmd \<Rightarrow> addr list \<Rightarrow> addr list option" where
  "index_seq val (Ins a) xs = (if a \<in> set xs then None else Some (ins_val val a xs))"
| "index_seq val (Rem a) xs = (if a \<in> set xs then Some (remove1 a xs) else None)"

fun index_run :: "(index_cmd \<Rightarrow> 's \<Rightarrow> 's option) \<Rightarrow> index_cmd list \<Rightarrow> 's \<Rightarrow> 's option" where
  "index_run f [] s = Some s"
| "index_run f (c # cs) s = do { s \<leftarrow> f c s; index_run f cs s }"

locale ordered_index =
  fixes val :: "addr \<Rightarrow> u64"
    and inv :: "'s \<Rightarrow> addr list \<Rightarrow> bool"
    and ins rem :: "'s \<Rightarrow> addr \<Rightarrow> 's option"
    and search :: "'s \<Rightarrow> u64 \<Rightarrow> rb_search_type \<Rightarrow> ptr option"
  assumes inv_wf: "inv s xs \<Longrightarrow> distinct xs \<and> sorted (map val xs)"
    and ins_inv: "inv s xs \<Longrightarrow> a \<notin> set xs \<Longrightarrow> \<exists>s'. ins s a = Some s' \<and> inv s' (ins_val val a xs)"
    and rem_inv: "inv s xs \<Longrightarrow> a \<in> set xs \<Longrightarrow> \<exists>s'. rem s a = Some s' \<and> inv s' (remove1 a xs)"
    and search_inv: "inv s xs \<Longrightarrow> \<exists>r. search s v ty = Some r \<and> search_spec val v ty xs r"
begin

definition exec :: "index_cmd \<Rightarrow> 's \<Rightarrow> 's option" where
  "exec c s = (case c of Ins a \<Rightarrow> ins s a | Rem a \<Rightarrow> rem s a)"

lemma run_refines:
  assumes "inv s xs" "index_run (index_seq val) cs xs = Some ys"
  shows "\<exists>s'. index_run exec cs s = Some s' \<and> inv s' ys"
  using assms
proof (induction cs arbitrary: s xs)
  case (Cons c cs)
  from Cons.prems(2) obtain zs where zs: "index_seq val c xs = Some zs" "index_run (index_seq val) cs zs = Some ys"
    by (cases "index_seq val c xs") auto
  have "\<exists>s1. exec c s = Some s1 \<and> inv s1 zs"
  proof (cases c)
    case (Ins a)
    with zs(1) ins_inv[OF Cons.prems(1)] show ?thesis by (auto simp: exec_def split: if_splits)
  next
    case (Rem a)
    with zs(1) rem_inv[OF Cons.prems(1)] show ?thesis by (auto simp: exec_def split: if_splits)
  qed
  with Cons.IH zs(2) show ?case by fastforce
qed simp

lemma unique_exact:
  assumes "inv s xs" "distinct (map val xs)" "a \<in> set xs"
  shows "search s (val a) RB_SEARCH_EXACT = Some (Some a)"
proof -
  obtain r where r: "search s (val a) RB_SEARCH_EXACT = Some r" "search_spec val (val a) RB_SEARCH_EXACT xs r"
    using search_inv[OF assms(1)] by blast
  have "r = Some a"
  proof (cases r)
    case None
    with r(2) assms(3) show ?thesis by auto
  next
    case (Some b)
    with r(2) assms(2,3) show ?thesis by (auto dest: inj_onD simp: distinct_map)
  qed
  with r(1) show ?thesis by simp
qed

lemma first_nearest:
  assumes "inv s (a # xs)" "distinct (map val (a # xs))"
  shows "search s 0 RB_SEARCH_NEAREST = Some (Some a)"
proof -
  obtain r where r: "search s 0 RB_SEARCH_NEAREST = Some r" "search_spec val 0 RB_SEARCH_NEAREST (a # xs) r"
    using search_inv[OF assms(1)] by blast
  then obtain b where b: "r = Some b" "b \<in> set (a # xs)" "\<not> val a < val b" by (cases r) auto
  moreover have "val a \<le> val b" using inv_wf[OF assms(1)] b(2) by auto
  ultimately have "b = a" using assms(2) by (auto simp: image_iff)
  with r(1) b(1) show ?thesis by simp
qed

end

lemma rb_inv_wf: "rb_inv val s xs \<Longrightarrow> distinct xs \<and> sorted (map val xs)"
  by (auto simp: rb_inv_def rep_def)

lemma rb_inv_cong: "rb_inv val s xs \<Longrightarrow> (\<And>x. x \<in> set xs \<Longrightarrow> val x = val' x) \<Longrightarrow> rb_inv val' s xs"
  unfolding rb_inv_def using map_cong[OF refl, of xs val val'] by metis

lemma rb_inv_insert:
  assumes "rb_inv val s xs" "a \<notin> set xs"
  shows "\<exists>s'. rb_insert val s a = Some s' \<and> rb_inv val s' (ins_val val a xs) \<and>
    (\<forall>x. x \<noteq> a \<longrightarrow> x \<notin> set xs \<longrightarrow> rb_heap s' x = rb_heap s x)"
proof -
  obtain t where t: "rep s [] t" "rbt_ok t" "inorder t = xs" "sorted (map val xs)" "rb_count s = of_nat (length xs)"
    using assms(1) by (auto simp: rb_inv_def)
  from rb_insert_rep[OF t(1,2), of val a] t assms(2) obtain s' t' where
    "rb_insert val s a = Some s'" "rep s' [] t'" "rbt_ok t'" "inorder t' = ins_val val a xs" "rb_count s' = rb_count s + 1"
    "\<forall>x. x \<noteq> a \<longrightarrow> x \<notin> set xs \<longrightarrow> rb_heap s' x = rb_heap s x"
    by auto
  with t sorted_ins_val[of val xs a] show ?thesis by (auto simp: rb_inv_def)
qed

lemma rb_inv_remove:
  assumes "rb_inv val s xs" "a \<in> set xs"
  shows "\<exists>s'. rb_remove s a = Some s' \<and> rb_inv val s' (remove1 a xs) \<and>
    (\<forall>x. x \<notin> set xs \<longrightarrow> rb_heap s' x = rb_heap s x)"
proof -
  obtain t where t: "rep s [] t" "rbt_ok t" "inorder t = xs" "sorted (map val xs)" "rb_count s = of_nat (length xs)"
    using assms(1) by (auto simp: rb_inv_def)
  from rb_remove_rep[OF t(1,2), of a] t assms(2) obtain s' t' where r:
    "rb_remove s a = Some s'" "rep s' [] t'" "rbt_ok t'" "inorder t' = remove1 a xs" "rb_count s' = rb_count s - 1"
    "\<forall>x. x \<notin> set xs \<longrightarrow> rb_heap s' x = rb_heap s x"
    by auto
  have "rb_count s' = of_nat (length (remove1 a xs))"
    using r(5) t(5) assms(2) by (cases "length xs") (auto simp: length_remove1)
  moreover have "sorted (map val (remove1 a xs))"
    using t(4) by (metis sorted_map_remove1)
  ultimately show ?thesis using r by (auto simp: rb_inv_def)
qed

lemma rb_inv_search: "rb_inv val s xs \<Longrightarrow> \<exists>r. rb_search val s v ty = Some r \<and> search_spec val v ty xs r"
  using rb_search_rep by (auto simp: rb_inv_def)

lemma rb_inv_init: "rb_inv val (RB_TREE_INIT h) []"
  unfolding rb_inv_def RB_TREE_INIT_def
  by (intro exI[of _ Leaf]) (simp add: rep_def rbt_ok_def)

interpretation rbi: ordered_index val "rb_inv val" "rb_insert val" rb_remove "rb_search val"
proof unfold_locales
qed (use rb_inv_wf rb_inv_insert rb_inv_remove rb_inv_search in blast)+

section \<open>Properties\<close>

text \<open>A tree of two nodes, the red one on the right, for concrete runs.\<close>

definition rb_demo :: rb_tree where
  "rb_demo = \<lparr>rb_heap = (\<lambda>a. if a = 10 then \<lparr>n_red = False, n_parent = None, n_left = None, n_right = Some 20\<rparr>
     else \<lparr>n_red = True, n_parent = Some 10, n_left = None, n_right = None\<rparr>), rb_root = Some 10, rb_count = 2\<rparr>"

lemma rb_demo_inv: "rb_inv id rb_demo [10, 20]"
  unfolding rb_inv_def rb_demo_def
  by (intro exI[of _ "Node False Leaf 10 (Node True Leaf 20 Leaf)"])
    (simp add: rep_def rbt_ok_def exI[of _ "Suc 0"])

text \<open>
  (C3) \<^verbatim>\<open>rb_insert\<close> on any well formed tree and any node that is not in it returns; the result is a
  well formed red black tree that holds the old nodes with the new one behind every node of
  smaller or equal value; the node count is one more, and no node outside the tree is touched.
\<close>

theorem rb_insert_correct:
  assumes "rb_inv val s xs" and "a \<notin> set xs"
  shows "\<exists>s'. rb_insert val s a = Some s' \<and> rb_inv val s' (ins_val val a xs) \<and>
    (\<forall>x. x \<noteq> a \<longrightarrow> x \<notin> set xs \<longrightarrow> rb_heap s' x = rb_heap s x)"
  using assms by (rule rb_inv_insert)

theorem rb_insert_correct_witness:
  "\<exists>s'. rb_insert id rb_demo 15 = Some s' \<and> rb_inv id s' [10, 15, 20] \<and>
    (\<forall>x. x \<noteq> 15 \<longrightarrow> x \<notin> set [10, 20] \<longrightarrow> rb_heap s' x = rb_heap rb_demo x)"
  using rb_insert_correct[OF rb_demo_inv, of 15] by (simp add: ins_val_def)

text \<open>
  (C4) \<^verbatim>\<open>rb_remove\<close> of a node that is in the tree returns: no null pointer is dereferenced and none
  of its assertions fails. The result is a well formed red black tree with the remaining nodes in
  their order, one node less in the count, and no node outside the tree is touched.
\<close>

theorem rb_remove_correct:
  assumes "rb_inv val s xs" and "a \<in> set xs"
  shows "\<exists>s'. rb_remove s a = Some s' \<and> rb_inv val s' (remove1 a xs) \<and>
    (\<forall>x. x \<notin> set xs \<longrightarrow> rb_heap s' x = rb_heap s x)"
  using assms by (rule rb_inv_remove)

theorem rb_remove_correct_witness:
  "\<exists>s'. rb_remove rb_demo 10 = Some s' \<and> rb_inv id s' [20] \<and>
    (\<forall>x. x \<notin> set [10, 20] \<longrightarrow> rb_heap s' x = rb_heap rb_demo x)"
  using rb_remove_correct[OF rb_demo_inv, of 10] by simp



text \<open>
  (C10) The tree stays balanced: every sequence of insertions of new nodes and removals of present
  ones by \<^verbatim>\<open>rb_insert\<close> and \<^verbatim>\<open>rb_remove\<close>, from the empty tree, runs to its end, and the linked tree it
  leaves behind with \<open>n\<close> nodes has no path of more than \<open>h\<close> nodes from its root, where
  \<open>2 ^ (h div 2) \<le> n + 1\<close>: the descents of the three routines take logarithmically many steps.
\<close>

theorem rb_depth_logarithmic:
  assumes "index_run (index_seq val) cs [] = Some ys"
  shows "\<exists>s' t. index_run (\<lambda>c s. case c of Ins a \<Rightarrow> rb_insert val s a | Rem a \<Rightarrow> rb_remove s a) cs
      (RB_TREE_INIT h) = Some s' \<and> rep s' [] t \<and> inorder t = ys \<and> 2 ^ (depth t div 2) \<le> length ys + 1"
proof -
  have "\<exists>s'. index_run (\<lambda>c s. case c of Ins a \<Rightarrow> rb_insert val s a | Rem a \<Rightarrow> rb_remove s a) cs
      (RB_TREE_INIT h) = Some s' \<and> rb_inv val s' ys"
    using rbi.run_refines[OF rb_inv_init assms] by (simp add: rbi.exec_def[abs_def])
  then show ?thesis using depth_bound by (auto simp: rb_inv_def)
qed

theorem rb_depth_logarithmic_witness:
  "\<exists>s' t. index_run (\<lambda>c s. case c of Ins a \<Rightarrow> rb_insert id s a | Rem a \<Rightarrow> rb_remove s a)
      [Ins 1, Ins 2, Ins 3, Ins 4, Rem 2] (RB_TREE_INIT (\<lambda>_. undefined)) = Some s' \<and> rep s' [] t \<and>
      inorder t = [1, 3, 4] \<and> 2 ^ (depth t div 2) \<le> length [1 :: addr, 3, 4] + 1"
  by (rule rb_depth_logarithmic) (simp add: ins_val_def word_le_nat_alt)

text \<open>
  (C11) From the empty tree of \<^verbatim>\<open>RB_TREE_INIT\<close>, every sequence of insertions of new nodes and removals
  of present ones runs to its end, and the tree then holds what the sequence of operations
  on ascending lists gives.
\<close>

theorem rb_run_correct:
  assumes "index_run (index_seq val) cs [] = Some ys"
  shows "\<exists>s'. index_run (\<lambda>c s. case c of Ins a \<Rightarrow> rb_insert val s a | Rem a \<Rightarrow> rb_remove s a) cs
      (RB_TREE_INIT h) = Some s' \<and> rb_inv val s' ys"
  using rbi.run_refines[OF rb_inv_init assms] by (simp add: rbi.exec_def[abs_def])

theorem rb_run_correct_witness:
  "\<exists>s'. index_run (\<lambda>c s. case c of Ins a \<Rightarrow> rb_insert id s a | Rem a \<Rightarrow> rb_remove s a)
      [Ins 3, Ins 1, Ins 2, Rem 3] (RB_TREE_INIT (\<lambda>_. undefined)) = Some s' \<and> rb_inv id s' [1, 2]"
  by (rule rb_run_correct) (simp add: ins_val_def word_le_nat_alt)

text \<open>
  \<^verbatim>\<open>RB_SEARCH_NEAREST\<close> does not give the node nearest to the key: in the tree of the nodes 10
  (root) and 20, searching for 11 gives 20.
\<close>

theorem rb_search_nearest_not_nearest:
  "rb_search id rb_demo 11 RB_SEARCH_NEAREST = Some (Some 20)"
  by (simp add: rb_search_def rb_search_loop.simps rb_demo_def)

end
