(* ===== verification/LibList.thy ===== *)
theory LibList
  imports Prelude
begin

text \<open>
  The intrusive doubly linked list of \<^verbatim>\<open>lib/list.c\<close> and \<^verbatim>\<open>include/lib/list.h\<close>.

  A \<open>list_node\<close> lives in a heap of nodes; \<open>list_t\<close> is the list header. Every operation works on
  the heap and the header together (\<open>list_state\<close>), with the loads and stores in the order of the
  C code, and returns \<open>None\<close> when the C code would dereference \<^verbatim>\<open>nullptr\<close> or fail an assertion.

  \<open>dll\<close> relates a state to the sequence of nodes it represents. The lemmas show that each
  operation is the corresponding operation on sequences and touches no node outside of it. The
  locale \<open>list_spec\<close> states that contract; the components that queue blocks, slabs, threads or
  work items use the sequence level operations \<open>seq_push\<close>, \<open>seq_pop\<close>, \<open>seq_delete\<close>.
\<close>

section \<open>Data\<close>

record list_node =
  ln_next :: ptr
  ln_prev :: ptr

record list_t =
  l_count :: u64
  l_head :: ptr
  l_tail :: ptr

record list_state =
  ls_heap :: "addr \<Rightarrow> list_node"
  ls_list :: list_t

definition LIST_INIT :: list_t where
  "LIST_INIT = \<lparr>l_count = 0, l_head = None, l_tail = None\<rparr>"

text \<open>Stores through a node pointer and into the list header.\<close>

definition set_next :: "addr \<Rightarrow> ptr \<Rightarrow> list_state \<Rightarrow> list_state" where
  "set_next a p s = s\<lparr>ls_heap := (ls_heap s)(a := (ls_heap s a)\<lparr>ln_next := p\<rparr>)\<rparr>"

definition set_prev :: "addr \<Rightarrow> ptr \<Rightarrow> list_state \<Rightarrow> list_state" where
  "set_prev a p s = s\<lparr>ls_heap := (ls_heap s)(a := (ls_heap s a)\<lparr>ln_prev := p\<rparr>)\<rparr>"

definition set_head :: "ptr \<Rightarrow> list_state \<Rightarrow> list_state" where
  "set_head p s = s\<lparr>ls_list := (ls_list s)\<lparr>l_head := p\<rparr>\<rparr>"

definition set_tail :: "ptr \<Rightarrow> list_state \<Rightarrow> list_state" where
  "set_tail p s = s\<lparr>ls_list := (ls_list s)\<lparr>l_tail := p\<rparr>\<rparr>"

definition set_count :: "u64 \<Rightarrow> list_state \<Rightarrow> list_state" where
  "set_count n s = s\<lparr>ls_list := (ls_list s)\<lparr>l_count := n\<rparr>\<rparr>"

abbreviation nxt :: "list_state \<Rightarrow> addr \<Rightarrow> ptr" where "nxt s a \<equiv> ln_next (ls_heap s a)"
abbreviation prv :: "list_state \<Rightarrow> addr \<Rightarrow> ptr" where "prv s a \<equiv> ln_prev (ls_heap s a)"
abbreviation head :: "list_state \<Rightarrow> ptr" where "head s \<equiv> l_head (ls_list s)"
abbreviation tail :: "list_state \<Rightarrow> ptr" where "tail s \<equiv> l_tail (ls_list s)"
abbreviation cnt :: "list_state \<Rightarrow> u64" where "cnt s \<equiv> l_count (ls_list s)"

lemmas store_defs = set_next_def set_prev_def set_head_def set_tail_def set_count_def

section \<open>Operations\<close>

definition list_initial_node :: "list_state \<Rightarrow> addr \<Rightarrow> list_state option" where
  "list_initial_node s node = do {
     ASSERT (cnt s = 0);
     let s = set_next node None s;
     let s = set_prev node None s;
     let s = set_head (Some node) s;
     let s = set_tail (Some node) s;
     Some (set_count 1 s)
   }"

definition list_node_append :: "list_state \<Rightarrow> addr \<Rightarrow> addr \<Rightarrow> list_state" where
  "list_node_append s pos node =
    (let s = set_next node (nxt s pos) s;
         s = set_prev node (Some pos) s;
         s = set_next pos (Some node) s;
         s = (case nxt s node of None \<Rightarrow> s | Some n \<Rightarrow> set_prev n (Some node) s);
         s = (if tail s = Some pos then set_tail (Some node) s else s)
     in set_count (cnt s + 1) s)"

definition list_node_prepend :: "list_state \<Rightarrow> addr \<Rightarrow> addr \<Rightarrow> list_state" where
  "list_node_prepend s pos node =
    (let s = set_next node (Some pos) s;
         s = set_prev node (prv s pos) s;
         s = set_prev pos (Some node) s;
         s = (case prv s node of None \<Rightarrow> s | Some n \<Rightarrow> set_next n (Some node) s);
         s = (if head s = Some pos then set_head (Some node) s else s)
     in set_count (cnt s + 1) s)"

definition list_node_delete :: "list_state \<Rightarrow> addr \<Rightarrow> list_state" where
  "list_node_delete s node =
    (let s = set_count (cnt s - 1) s;
         s = (if head s = Some node then set_head (nxt s node) s else s);
         s = (if tail s = Some node then set_tail (prv s node) s else s);
         s = (case prv s node of None \<Rightarrow> s | Some p \<Rightarrow> set_next p (nxt s node) s)
     in (case nxt s node of None \<Rightarrow> s | Some n \<Rightarrow> set_prev n (prv s node) s))"

definition list_push_front :: "list_state \<Rightarrow> addr \<Rightarrow> list_state option" where
  "list_push_front s node =
    (case head s of
       None \<Rightarrow> do { ASSERT (tail s = None); list_initial_node s node }
     | Some first \<Rightarrow> do { ASSERT (cnt s \<noteq> 0); Some (list_node_prepend s first node) })"

definition list_push_back :: "list_state \<Rightarrow> addr \<Rightarrow> list_state option" where
  "list_push_back s node =
    (case tail s of
       None \<Rightarrow> do { ASSERT (head s = None); list_initial_node s node }
     | Some final \<Rightarrow> do { ASSERT (cnt s \<noteq> 0); Some (list_node_append s final node) })"

definition list_pop_front :: "list_state \<Rightarrow> list_state \<times> ptr" where
  "list_pop_front s =
    (case head s of None \<Rightarrow> (s, None) | Some node \<Rightarrow> (list_node_delete s node, Some node))"

definition list_pop_back :: "list_state \<Rightarrow> list_state \<times> ptr" where
  "list_pop_back s =
    (case tail s of None \<Rightarrow> (s, None) | Some node \<Rightarrow> (list_node_delete s node, Some node))"

text \<open>\<^verbatim>\<open>list_push\<close> and \<^verbatim>\<open>list_pop\<close> are linker aliases of the front operations.\<close>

definition list_push :: "list_state \<Rightarrow> addr \<Rightarrow> list_state option" where
  "list_push = list_push_front"

definition list_pop :: "list_state \<Rightarrow> list_state \<times> ptr" where
  "list_pop = list_pop_front"


section \<open>The sequence a list represents\<close>

text \<open>
  \<open>seg h p xs n\<close>: the nodes \<open>xs\<close> are chained in both directions, the first one's predecessor is
  \<open>p\<close> and the last one's successor is \<open>n\<close>.
\<close>

fun seg :: "(addr \<Rightarrow> list_node) \<Rightarrow> ptr \<Rightarrow> addr list \<Rightarrow> ptr \<Rightarrow> bool" where
  "seg h p [] n = True"
| "seg h p (x # xs) n =
     (ln_prev (h x) = p \<and> ln_next (h x) = (if xs = [] then n else Some (hd xs)) \<and> seg h (Some x) xs n)"

definition dll :: "list_state \<Rightarrow> addr list \<Rightarrow> bool" where
  "dll s xs \<longleftrightarrow>
     distinct xs \<and> cnt s = of_nat (length xs) \<and>
     head s = (if xs = [] then None else Some (hd xs)) \<and>
     tail s = (if xs = [] then None else Some (last xs)) \<and>
     seg (ls_heap s) None xs None"

lemma seg_append:
  "seg h p (xs @ ys) n \<longleftrightarrow>
     seg h p xs (if ys = [] then n else Some (hd ys)) \<and>
     seg h (if xs = [] then p else Some (last xs)) ys n"
  by (induction xs arbitrary: p) auto

lemma seg_frame [simp]: "a \<notin> set xs \<Longrightarrow> seg (h(a := v)) p xs n = seg h p xs n"
  by (induction xs arbitrary: p) auto

lemma seg_cong: "(\<And>x. x \<in> set xs \<Longrightarrow> h x = h' x) \<Longrightarrow> seg h p xs n = seg h' p xs n"
  by (induction xs arbitrary: p) auto

lemma last_seg_next: "seg h p (xs @ [x]) n \<Longrightarrow> ln_next (h x) = n"
  by (simp add: seg_append)

lemma length_less_word: "distinct xs \<Longrightarrow> (a::addr) \<notin> set xs \<Longrightarrow> length xs < 2 ^ 64"
proof -
  assume d: "distinct xs" and n: "a \<notin> set xs"
  have "card (set xs) < card (UNIV :: addr set)"
    by (rule psubset_card_mono) (use n in auto)
  then show ?thesis using d by (simp add: distinct_card card_word)
qed

lemma count_nonzero:
  assumes "distinct xs" "(a::addr) \<notin> set xs" "xs \<noteq> []"
  shows "(of_nat (length xs) :: u64) \<noteq> 0"
proof -
  have "unat (of_nat (length xs) :: u64) = length xs"
    using length_less_word[OF assms(1,2)] by (simp add: unat_of_nat)
  with assms(3) show ?thesis by auto
qed

lemma last_neq [simp]: "x \<notin> set xs \<Longrightarrow> xs \<noteq> [] \<Longrightarrow> last xs \<noteq> x"
  using last_in_set by blast

lemma hd_neq [simp]: "x \<notin> set xs \<Longrightarrow> xs \<noteq> [] \<Longrightarrow> hd xs \<noteq> x"
  using hd_in_set by blast

lemma dll_distinct: "dll s xs \<Longrightarrow> distinct xs"
  by (simp add: dll_def)

lemma dll_initial: "ls_list s = LIST_INIT \<Longrightarrow> dll s []"
  by (simp add: dll_def LIST_INIT_def)

lemma seg_unique:
  "seg h p xs None \<Longrightarrow> seg h q ys None \<Longrightarrow> xs = [] \<longleftrightarrow> ys = [] \<Longrightarrow> (xs \<noteq> [] \<Longrightarrow> hd xs = hd ys) \<Longrightarrow> xs = ys"
proof (induction xs arbitrary: p q ys)
  case Nil
  then show ?case by simp
next
  case (Cons x xs)
  then obtain ys' where ys: "ys = x # ys'" by (cases ys) auto
  have "xs = ys'"
  proof (rule Cons.IH)
    show "seg h (Some x) xs None" and "seg h (Some x) ys' None" using Cons.prems ys by auto
    show "xs = [] \<longleftrightarrow> ys' = []" and "xs \<noteq> [] \<Longrightarrow> hd xs = hd ys'"
      using Cons.prems(1,2) ys by (auto split: if_splits)
  qed
  with ys show ?case by simp
qed

lemma dll_unique: "dll s xs \<Longrightarrow> dll s ys \<Longrightarrow> xs = ys"
  by (rule seg_unique[of "ls_heap s" None xs None ys]) (auto simp: dll_def split: if_splits)

text \<open>Nodes of other lists are not touched: two states agree outside a set of nodes.\<close>

definition same_outside :: "addr set \<Rightarrow> list_state \<Rightarrow> list_state \<Rightarrow> bool" where
  "same_outside A s s' \<longleftrightarrow> (\<forall>a. a \<notin> A \<longrightarrow> ls_heap s' a = ls_heap s a)"

lemma dll_snocD: "dll s (xs @ [x]) \<Longrightarrow> tail s = Some x"
  by (simp add: dll_def)

lemma list_node_append_dll:
  assumes "dll s (xs @ pos # ys)" and "node \<notin> set (xs @ pos # ys)"
  shows "dll (list_node_append s pos node) (xs @ pos # node # ys)"
  using assms
  by (cases ys; cases xs rule: rev_cases)
    (auto simp: dll_def list_node_append_def store_defs Let_def seg_append hd_append)

lemma list_node_append_frame:
  assumes "dll s (xs @ pos # ys)" and "node \<notin> set (xs @ pos # ys)"
  shows "same_outside (set (xs @ pos # node # ys)) s (list_node_append s pos node)"
  using assms
  by (cases ys)
    (auto simp: dll_def list_node_append_def store_defs Let_def seg_append hd_append same_outside_def)

lemma list_node_prepend_dll:
  assumes "dll s (xs @ pos # ys)" and "node \<notin> set (xs @ pos # ys)"
  shows "dll (list_node_prepend s pos node) (xs @ node # pos # ys)"
  using assms
  by (cases ys; cases xs rule: rev_cases)
    (auto simp: dll_def list_node_prepend_def store_defs Let_def seg_append hd_append)

lemma list_node_prepend_frame:
  assumes "dll s (xs @ pos # ys)" and "node \<notin> set (xs @ pos # ys)"
  shows "same_outside (set (xs @ node # pos # ys)) s (list_node_prepend s pos node)"
  using assms
  by (cases xs rule: rev_cases)
    (auto simp: dll_def list_node_prepend_def store_defs Let_def seg_append same_outside_def)

lemma list_node_delete_dll:
  assumes "dll s (xs @ node # ys)"
  shows "dll (list_node_delete s node) (xs @ ys)"
  using assms
  by (cases ys; cases xs rule: rev_cases)
    (auto simp: dll_def list_node_delete_def store_defs Let_def seg_append hd_append)

lemma list_node_delete_frame:
  assumes "dll s (xs @ node # ys)"
  shows "same_outside (set (xs @ ys)) s (list_node_delete s node)"
  using assms
  by (cases ys; cases xs rule: rev_cases)
    (auto simp: dll_def list_node_delete_def store_defs Let_def seg_append hd_append same_outside_def)


lemma list_push_front_dll:
  assumes "dll s xs" and "node \<notin> set xs"
  shows "\<exists>s'. list_push_front s node = Some s' \<and> dll s' (node # xs) \<and> same_outside (set (node # xs)) s s'"
proof (cases xs)
  case Nil
  with assms show ?thesis
    by (auto simp: list_push_front_def list_initial_node_def store_defs dll_def same_outside_def)
next
  case (Cons x ys)
  have "cnt s \<noteq> 0" and "head s = Some x"
    using assms Cons count_nonzero[of xs node] by (auto simp: dll_def)
  with list_node_prepend_dll[of s "[]" x ys node] list_node_prepend_frame[of s "[]" x ys node]
    assms Cons show ?thesis by (simp add: list_push_front_def)
qed

lemma list_push_back_dll:
  assumes "dll s xs" and "node \<notin> set xs"
  shows "\<exists>s'. list_push_back s node = Some s' \<and> dll s' (xs @ [node]) \<and> same_outside (set (xs @ [node])) s s'"
proof (cases xs rule: rev_cases)
  case Nil
  with assms show ?thesis
    by (auto simp: list_push_back_def list_initial_node_def store_defs dll_def same_outside_def)
next
  case (snoc ys x)
  have "cnt s \<noteq> 0" and "tail s = Some x"
    using assms snoc count_nonzero[of xs node] by (auto simp: dll_def)
  with list_node_append_dll[of s ys x "[]" node] list_node_append_frame[of s ys x "[]" node]
    assms snoc show ?thesis by (simp add: list_push_back_def)
qed

lemma list_pop_front_dll:
  "dll s [] \<Longrightarrow> list_pop_front s = (s, None)"
  "dll s (x # xs) \<Longrightarrow> list_pop_front s = (list_node_delete s x, Some x) \<and> dll (list_node_delete s x) xs"
  using list_node_delete_dll[of s "[]" x xs] by (simp_all add: list_pop_front_def dll_def)

lemma list_pop_back_dll:
  "dll s [] \<Longrightarrow> list_pop_back s = (s, None)"
  "dll s (xs @ [x]) \<Longrightarrow> list_pop_back s = (list_node_delete s x, Some x) \<and> dll (list_node_delete s x) xs"
  using list_node_delete_dll[of s xs x "[]"] by (simp_all add: list_pop_back_def dll_def)

section \<open>Operations on sequences\<close>

text \<open>
  The operations that the other components use on the sequence a list represents. Adding a node
  that is already linked, or unlinking one that is not, would corrupt the C list: the result is
  \<open>None\<close>.
\<close>

definition seq_push :: "'a list \<Rightarrow> 'a \<Rightarrow> 'a list option" where
  "seq_push xs a = (if a \<in> set xs then None else Some (a # xs))"

definition seq_push_back :: "'a list \<Rightarrow> 'a \<Rightarrow> 'a list option" where
  "seq_push_back xs a = (if a \<in> set xs then None else Some (xs @ [a]))"

definition seq_pop :: "'a list \<Rightarrow> 'a list \<times> 'a option" where
  "seq_pop xs = (case xs of [] \<Rightarrow> ([], None) | x # ys \<Rightarrow> (ys, Some x))"

definition seq_pop_back :: "'a list \<Rightarrow> 'a list \<times> 'a option" where
  "seq_pop_back xs = (if xs = [] then ([], None) else (butlast xs, Some (last xs)))"

definition seq_delete :: "'a list \<Rightarrow> 'a \<Rightarrow> 'a list option" where
  "seq_delete xs a = (if a \<in> set xs then Some (remove1 a xs) else None)"

definition seq_append :: "'a list \<Rightarrow> 'a \<Rightarrow> 'a \<Rightarrow> 'a list option" where
  "seq_append xs pos a =
    (if pos \<in> set xs \<and> a \<notin> set xs
     then Some (takeWhile (\<lambda>x. x \<noteq> pos) xs @ pos # a # tl (dropWhile (\<lambda>x. x \<noteq> pos) xs)) else None)"

definition seq_prepend :: "'a list \<Rightarrow> 'a \<Rightarrow> 'a \<Rightarrow> 'a list option" where
  "seq_prepend xs pos a =
    (if pos \<in> set xs \<and> a \<notin> set xs
     then Some (takeWhile (\<lambda>x. x \<noteq> pos) xs @ a # pos # tl (dropWhile (\<lambda>x. x \<noteq> pos) xs)) else None)"

lemma split_at_mem:
  "pos \<in> set xs \<Longrightarrow> xs = takeWhile (\<lambda>x. x \<noteq> pos) xs @ pos # tl (dropWhile (\<lambda>x. x \<noteq> pos) xs)"
  by (induction xs) auto

datatype list_cmd =
    PushFront addr | PushBack addr | PopFront | PopBack | Delete addr | Append addr addr | Prepend addr addr

fun list_step :: "list_state \<Rightarrow> list_cmd \<Rightarrow> (list_state \<times> ptr) option" where
  "list_step s (PushFront a) = do { s' \<leftarrow> list_push s a; Some (s', None) }"
| "list_step s (PushBack a) = do { s' \<leftarrow> list_push_back s a; Some (s', None) }"
| "list_step s PopFront = Some (list_pop s)"
| "list_step s PopBack = Some (list_pop_back s)"
| "list_step s (Delete a) = Some (list_node_delete s a, None)"
| "list_step s (Append p a) = Some (list_node_append s p a, None)"
| "list_step s (Prepend p a) = Some (list_node_prepend s p a, None)"

fun seq_step :: "addr list \<Rightarrow> list_cmd \<Rightarrow> (addr list \<times> ptr) option" where
  "seq_step xs (PushFront a) = do { ys \<leftarrow> seq_push xs a; Some (ys, None) }"
| "seq_step xs (PushBack a) = do { ys \<leftarrow> seq_push_back xs a; Some (ys, None) }"
| "seq_step xs PopFront = Some (seq_pop xs)"
| "seq_step xs PopBack = Some (seq_pop_back xs)"
| "seq_step xs (Delete a) = do { ys \<leftarrow> seq_delete xs a; Some (ys, None) }"
| "seq_step xs (Append p a) = do { ys \<leftarrow> seq_append xs p a; Some (ys, None) }"
| "seq_step xs (Prepend p a) = do { ys \<leftarrow> seq_prepend xs p a; Some (ys, None) }"

fun run_cmds :: "('s \<Rightarrow> list_cmd \<Rightarrow> ('s \<times> ptr) option) \<Rightarrow> 's \<Rightarrow> list_cmd list \<Rightarrow> ('s \<times> ptr list) option" where
  "run_cmds step s [] = Some (s, [])"
| "run_cmds step s (c # cs) = do {
     (s', r) \<leftarrow> step s c;
     (s'', rs) \<leftarrow> run_cmds step s' cs;
     Some (s'', r # rs)
   }"

section \<open>The contract of a list\<close>

text \<open>
  Any implementation that simulates the sequence operations step by step gives the same results
  over every run of commands that keeps to the contract.
\<close>

locale list_spec =
  fixes repr :: "'s \<Rightarrow> addr list \<Rightarrow> bool"
    and step :: "'s \<Rightarrow> list_cmd \<Rightarrow> ('s \<times> ptr) option"
  assumes step_refines: "repr s xs \<Longrightarrow> seq_step xs c = Some (ys, r) \<Longrightarrow>
      \<exists>s'. step s c = Some (s', r) \<and> repr s' ys"
    and repr_unique: "repr s xs \<Longrightarrow> repr s ys \<Longrightarrow> xs = ys"
begin

lemma run_refines:
  "repr s xs \<Longrightarrow> run_cmds seq_step xs cs = Some (ys, rs) \<Longrightarrow>
    \<exists>s'. run_cmds step s cs = Some (s', rs) \<and> repr s' ys"
proof (induction cs arbitrary: s xs ys rs)
  case Nil
  then show ?case by simp
next
  case (Cons c cs)
  from Cons.prems(2) obtain xs1 r rs1 where 1: "seq_step xs c = Some (xs1, r)"
    and 2: "run_cmds seq_step xs1 cs = Some (ys, rs1)" and 3: "rs = r # rs1"
    by (auto simp: bind_eq_Some_conv)
  from step_refines[OF Cons.prems(1) 1] obtain s1 where s1: "step s c = Some (s1, r)" "repr s1 xs1"
    by blast
  from Cons.IH[OF s1(2) 2] obtain s2 where "run_cmds step s1 cs = Some (s2, rs1)" "repr s2 ys"
    by blast
  with s1 3 show ?case by auto
qed

lemma push_pop_back_fifo:
  assumes "repr s xs" and "distinct (xs @ ys)"
  shows "\<exists>s'. run_cmds step s (map PushBack ys @ map (\<lambda>_. PopFront) (xs @ ys)) =
      Some (s', map (\<lambda>_. None) ys @ map Some (xs @ ys)) \<and> repr s' []"
proof (rule run_refines[OF assms(1)])
  have pops: "run_cmds seq_step zs (map (\<lambda>_. PopFront) zs) = Some ([], map Some zs)" for zs
    by (induction zs) (auto simp: seq_pop_def)
  have append: "run_cmds seq_step zs (as @ bs) =
      do { (zs', r1) \<leftarrow> run_cmds seq_step zs as; (zs'', r2) \<leftarrow> run_cmds seq_step zs' bs; Some (zs'', r1 @ r2) }"
    for zs as bs
    by (induction as arbitrary: zs) (auto split: Option.bind_splits)
  have pushes: "distinct (zs @ ys) \<Longrightarrow>
      run_cmds seq_step zs (map PushBack ys) = Some (zs @ ys, map (\<lambda>_. None) ys)" for zs
    by (induction ys arbitrary: zs) (auto simp: seq_push_back_def)
  show "run_cmds seq_step xs (map PushBack ys @ map (\<lambda>_. PopFront) (xs @ ys)) =
      Some ([], map (\<lambda>_. None) ys @ map Some (xs @ ys))"
    by (simp add: append pushes[OF assms(2)] pops del: map_append)
qed

end

lemma list_step_refines:
  assumes "dll s xs" and "seq_step xs c = Some (ys, r)"
  shows "\<exists>s'. list_step s c = Some (s', r) \<and> dll s' ys"
proof (cases c)
  case (PushFront a)
  with assms list_push_front_dll[of s xs a] show ?thesis
    by (auto simp: seq_push_def list_push_def split: if_splits)
next
  case (PushBack a)
  with assms list_push_back_dll[of s xs a] show ?thesis
    by (auto simp: seq_push_back_def split: if_splits)
next
  case PopFront
  with assms list_pop_front_dll[of s] show ?thesis
    by (cases xs) (auto simp: seq_pop_def list_pop_def)
next
  case PopBack
  with assms list_pop_back_dll[of s] show ?thesis
    by (cases xs rule: rev_cases) (auto simp: seq_pop_back_def)
next
  case (Delete a)
  with assms have a: "a \<in> set xs" and ys: "ys = remove1 a xs" "r = None"
    by (auto simp: seq_delete_def split: if_splits)
  from a obtain us vs where us: "xs = us @ a # vs" "a \<notin> set us" by (meson split_list_first)
  with list_node_delete_dll[of s us a vs] assms(1) ys Delete show ?thesis by (simp add: remove1_append)
next
  case (Append p a)
  with assms have p: "p \<in> set xs" and a: "a \<notin> set xs" and r: "r = None"
    and ys: "ys = takeWhile (\<lambda>x. x \<noteq> p) xs @ p # a # tl (dropWhile (\<lambda>x. x \<noteq> p) xs)"
    by (auto simp: seq_append_def split: if_splits)
  from list_node_append_dll[of s "takeWhile (\<lambda>x. x \<noteq> p) xs" p "tl (dropWhile (\<lambda>x. x \<noteq> p) xs)" a]
  show ?thesis using assms(1) a r ys Append by (simp add: split_at_mem[OF p, symmetric])
next
  case (Prepend p a)
  with assms have p: "p \<in> set xs" and a: "a \<notin> set xs" and r: "r = None"
    and ys: "ys = takeWhile (\<lambda>x. x \<noteq> p) xs @ a # p # tl (dropWhile (\<lambda>x. x \<noteq> p) xs)"
    by (auto simp: seq_prepend_def split: if_splits)
  from list_node_prepend_dll[of s "takeWhile (\<lambda>x. x \<noteq> p) xs" p "tl (dropWhile (\<lambda>x. x \<noteq> p) xs)" a]
  show ?thesis using assms(1) a r ys Prepend by (simp add: split_at_mem[OF p, symmetric])
qed

interpretation dl: list_spec dll list_step
  by unfold_locales (auto intro: list_step_refines dll_unique)

section \<open>Properties\<close>

text \<open>
  (C6) The pointer operations of the list refine the operations on sequences: over every run of
  commands that keeps to the contract (no node is linked twice, none is unlinked that is not
  linked), no assertion of \<^verbatim>\<open>list.c\<close> fails, the same nodes are returned, and the heap represents the
  resulting sequence, with its count, head and tail.
\<close>

theorem list_run_refines:
  assumes "dll s xs" and "run_cmds seq_step xs cs = Some (ys, rs)"
  shows "\<exists>s'. run_cmds list_step s cs = Some (s', rs) \<and> dll s' ys"
  using assms by (rule dl.run_refines)

theorem list_run_refines_witness:
  "\<exists>s'. run_cmds list_step \<lparr>ls_heap = (\<lambda>_. \<lparr>ln_next = None, ln_prev = None\<rparr>), ls_list = LIST_INIT\<rparr>
      [PushFront 8, PushBack 16, Append 8 24, Delete 8, PopBack] = Some (s', [None, None, None, None, Some 16]) \<and> dll s' [24]"
  by (rule list_run_refines[OF dll_initial])
    (simp_all add: seq_push_def seq_push_back_def seq_append_def seq_delete_def seq_pop_back_def)

text \<open>
  A list that is filled with \<^verbatim>\<open>list_push_back\<close> and drained with \<^verbatim>\<open>list_pop\<close> is a queue: the nodes come
  out in the order in which they went in, and the list is empty afterwards.
\<close>

theorem list_fifo:
  assumes "dll s xs" and "distinct (xs @ ys)"
  shows "\<exists>s'. run_cmds list_step s (map PushBack ys @ map (\<lambda>_. PopFront) (xs @ ys)) =
      Some (s', map (\<lambda>_. None) ys @ map Some (xs @ ys)) \<and> dll s' []"
  using assms by (rule dl.push_pop_back_fifo)

theorem list_fifo_witness:
  "\<exists>s'. run_cmds list_step \<lparr>ls_heap = (\<lambda>_. \<lparr>ln_next = None, ln_prev = None\<rparr>), ls_list = LIST_INIT\<rparr>
      [PushBack 8, PushBack 16, PopFront, PopFront] = Some (s', [None, None, Some 8, Some 16]) \<and> dll s' []"
  using list_fifo[OF dll_initial, of "\<lparr>ls_heap = (\<lambda>_. \<lparr>ln_next = None, ln_prev = None\<rparr>), ls_list = LIST_INIT\<rparr>" "[8, 16]"]
  by simp

end
