(* ===== verification/Pmm.thy ===== *)
theory Pmm
  imports LibList
begin

text \<open>
  The physical memory manager: the buddy allocator of \<^verbatim>\<open>memory/pmm.c\<close>.

  A block pointer is the index of its page in \<^verbatim>\<open>g_page_db\<close>; \<open>BLOCK_PADDR\<close> and \<open>PAGE\<close> are the
  conversions of \<^verbatim>\<open>memory/page.h\<close>. The bit fields of \<^verbatim>\<open>pmm_block_t\<close> keep their width of three bits.
  A zone's free lists are sequences of block pointers under the operations of theory \<open>LibList\<close>
  (\<open>None\<close> where the intrusive list would be corrupted). \<^verbatim>\<open>panic\<close> and a failed \<^verbatim>\<open>ASSERT\<close> are \<open>None\<close>.
  \<open>phys_mem\<close> is the content of physical memory, which \<^verbatim>\<open>PMM_FLAG_ZERO\<close> clears. Each operation holds
  the zone's spinlock for its list updates; the lock itself is the subject of theory \<open>Spinlock\<close>.
\<close>

section \<open>Data\<close>

record pmm_block =
  blk_order :: "3 word"
  blk_max_order :: "3 word"
  blk_free :: bool

record pmm_zone =
  zone_lists :: "nat \<Rightarrow> nat list"
  total_page_count :: u64
  free_page_count :: u64

datatype zone_id = ZONE_LOW | ZONE_NORMAL

record pmm =
  page_db :: "nat \<Rightarrow> pmm_block"
  zones :: "zone_id \<Rightarrow> pmm_zone"
  phys_mem :: "nat \<Rightarrow> u8"

definition PMM_MAX_ORDER :: nat where "PMM_MAX_ORDER = 7"
definition ARCH_PAGE_GRANULARITY :: nat where "ARCH_PAGE_GRANULARITY = 4096"
definition ARCH_MEM_LOW_SIZE :: nat where "ARCH_MEM_LOW_SIZE = 2 ^ 24"
definition PMM_FLAG_ZERO :: u8 where "PMM_FLAG_ZERO = 1"
definition PMM_FLAG_ZONE_LOW :: u8 where "PMM_FLAG_ZONE_LOW = 2"

definition PMM_ORDER_TO_PAGECOUNT :: "nat \<Rightarrow> nat" where
  "PMM_ORDER_TO_PAGECOUNT order = 2 ^ order"

definition PAGE :: "nat \<Rightarrow> nat" where "PAGE paddr = paddr div ARCH_PAGE_GRANULARITY"
definition BLOCK_PADDR :: "nat \<Rightarrow> nat" where "BLOCK_PADDR block = block * ARCH_PAGE_GRANULARITY"

fun zone_start :: "zone_id \<Rightarrow> u64" where
  "zone_start ZONE_LOW = of_nat ARCH_PAGE_GRANULARITY"
| "zone_start ZONE_NORMAL = of_nat ARCH_MEM_LOW_SIZE"

fun zone_end :: "zone_id \<Rightarrow> u64" where
  "zone_end ZONE_LOW = of_nat ARCH_MEM_LOW_SIZE"
| "zone_end ZONE_NORMAL = (- 1) div of_nat ARCH_PAGE_GRANULARITY * of_nat ARCH_PAGE_GRANULARITY"

abbreviation ord :: "pmm \<Rightarrow> nat \<Rightarrow> nat" where "ord s b \<equiv> unat (blk_order (page_db s b))"
abbreviation max_ord :: "pmm \<Rightarrow> nat \<Rightarrow> nat" where "max_ord s b \<equiv> unat (blk_max_order (page_db s b))"
abbreviation lists :: "pmm \<Rightarrow> zone_id \<Rightarrow> nat \<Rightarrow> nat list" where "lists s z o' \<equiv> zone_lists (zones s z) o'"

definition upd_block :: "nat \<Rightarrow> (pmm_block \<Rightarrow> pmm_block) \<Rightarrow> pmm \<Rightarrow> pmm" where
  "upd_block b f s = s\<lparr>page_db := (page_db s)(b := f (page_db s b))\<rparr>"

definition upd_zone :: "zone_id \<Rightarrow> (pmm_zone \<Rightarrow> pmm_zone) \<Rightarrow> pmm \<Rightarrow> pmm" where
  "upd_zone z f s = s\<lparr>zones := (zones s)(z := f (zones s z))\<rparr>"

definition set_list :: "zone_id \<Rightarrow> nat \<Rightarrow> nat list \<Rightarrow> pmm \<Rightarrow> pmm" where
  "set_list z order xs = upd_zone z (\<lambda>zn. zn\<lparr>zone_lists := (zone_lists zn)(order := xs)\<rparr>)"

section \<open>Page counts and orders\<close>

text \<open>\<^verbatim>\<open>__builtin_clzll\<close>, whose result is undefined at 0; the model takes 64 there.\<close>

definition clzll :: "u64 \<Rightarrow> nat" where
  "clzll w = length (takeWhile (\<lambda>i. \<not> bit w i) (rev [0..<64]))"

definition pagecount_to_order :: "u64 \<Rightarrow> u8" where
  "pagecount_to_order pages = (if pages = 1 then 0 else of_nat (64 - clzll (pages - 1)))"

section \<open>Adding a region\<close>

text \<open>The two loops that lower the order: \<open>None\<close> is the assertion on order 0.\<close>

primrec reduce_order :: "(nat \<Rightarrow> bool) \<Rightarrow> nat \<Rightarrow> nat option" where
  "reduce_order too_big 0 = (if too_big 0 then None else Some 0)"
| "reduce_order too_big (Suc order) = (if too_big (Suc order) then reduce_order too_big order else Some (Suc order))"

definition init_page :: "zone_id \<Rightarrow> nat \<Rightarrow> bool \<Rightarrow> nat \<Rightarrow> pmm \<Rightarrow> pmm option" where
  "init_page z order is_free page s = do {
     let s = upd_block page (\<lambda>b. b\<lparr>blk_order := 0, blk_max_order := of_nat order, blk_free := is_free\<rparr>) s;
     if is_free then do { xs \<leftarrow> seq_push (lists s z order) page; Some (set_list z order xs s) } else Some s
   }"

primrec init_pages :: "zone_id \<Rightarrow> nat \<Rightarrow> bool \<Rightarrow> nat list \<Rightarrow> pmm \<Rightarrow> pmm option" where
  "init_pages z order is_free [] s = Some s"
| "init_pages z order is_free (p # ps) s = do { s \<leftarrow> init_page z order is_free p s; init_pages z order is_free ps s }"

definition region_order :: "nat \<Rightarrow> nat \<Rightarrow> nat \<Rightarrow> nat option" where
  "region_order local_base page_count j = do {
     let order = unat (pagecount_to_order (of_nat (page_count - j)));
     let order = (if order > PMM_MAX_ORDER then PMM_MAX_ORDER else order);
     order \<leftarrow> reduce_order (\<lambda>i. PMM_ORDER_TO_PAGECOUNT i > page_count - j) order;
     reduce_order (\<lambda>i. (local_base + j * ARCH_PAGE_GRANULARITY) AND (PMM_ORDER_TO_PAGECOUNT i * ARCH_PAGE_GRANULARITY - 1) \<noteq> 0) order
   }"

function region_loop :: "zone_id \<Rightarrow> nat \<Rightarrow> nat \<Rightarrow> nat \<Rightarrow> bool \<Rightarrow> nat \<Rightarrow> pmm \<Rightarrow> pmm option" where
  "region_loop z local_base index_offset page_count is_free j s =
    (if j < page_count then
       (case region_order local_base page_count j of
          None \<Rightarrow> None
        | Some order \<Rightarrow>
            (case init_pages z order is_free (map (\<lambda>y. index_offset + j + y) [0..<PMM_ORDER_TO_PAGECOUNT order]) s of
               None \<Rightarrow> None
             | Some s \<Rightarrow> region_loop z local_base index_offset page_count is_free (j + PMM_ORDER_TO_PAGECOUNT order) s))
     else Some s)"
  by pat_completeness auto
termination
  by (relation "measure (\<lambda>(z, lb, off, n, fr, j, s). n - j)") (auto simp: PMM_ORDER_TO_PAGECOUNT_def intro: diff_less_mono2)

declare region_loop.simps [simp del]

definition region_add_zone :: "zone_id \<Rightarrow> u64 \<Rightarrow> u64 \<Rightarrow> bool \<Rightarrow> pmm \<Rightarrow> pmm option" where
  "region_add_zone z base size' is_free s =
    (if base + size' \<le> zone_start z \<or> base \<ge> zone_end z then Some s
     else
       (let local_size = (if base < zone_start z then size' - (zone_start z - base) else size');
            local_base = (if base < zone_start z then zone_start z else base);
            local_size = (if local_base + local_size > zone_end z then zone_end z - local_base else local_size);
            index_offset = local_base div of_nat ARCH_PAGE_GRANULARITY;
            page_count = local_size div of_nat ARCH_PAGE_GRANULARITY;
            s = upd_zone z (\<lambda>zn. zn\<lparr>total_page_count := total_page_count zn + page_count\<rparr>) s
        in region_loop z (unat local_base) (unat index_offset) (unat page_count) is_free 0 s))"

definition pmm_region_add :: "u64 \<Rightarrow> u64 \<Rightarrow> bool \<Rightarrow> pmm \<Rightarrow> pmm option" where
  "pmm_region_add base size' is_free s = do {
     s \<leftarrow> region_add_zone ZONE_LOW base size' is_free s;
     region_add_zone ZONE_NORMAL base size' is_free s
   }"

section \<open>Allocation\<close>

text \<open>The search for a non-empty list; \<open>None\<close> is the panic for lack of memory.\<close>

function find_order :: "(nat \<Rightarrow> nat list) \<Rightarrow> nat \<Rightarrow> nat option" where
  "find_order ls avl_order =
    (if length (ls avl_order) = 0 then
       (if avl_order + 1 > PMM_MAX_ORDER then None else find_order ls (avl_order + 1))
     else Some avl_order)"
  by pat_completeness auto
termination by (relation "measure (\<lambda>(ls, i). PMM_MAX_ORDER - i)") auto

declare find_order.simps [simp del]

text \<open>The loop that splits the block down to the wanted order.\<close>

fun split_block :: "zone_id \<Rightarrow> nat \<Rightarrow> nat \<Rightarrow> nat \<Rightarrow> pmm \<Rightarrow> pmm option" where
  "split_block z block order avl_order s =
    (if avl_order > order then do {
       let buddy = PAGE (BLOCK_PADDR block + PMM_ORDER_TO_PAGECOUNT (avl_order - 1) * ARCH_PAGE_GRANULARITY);
       let s = upd_block buddy (\<lambda>b. b\<lparr>blk_order := of_nat (avl_order - 1)\<rparr>) s;
       let s = upd_block buddy (\<lambda>b. b\<lparr>blk_free := True\<rparr>) s;
       xs \<leftarrow> seq_push (lists s z (avl_order - 1)) buddy;
       split_block z block order (avl_order - 1) (set_list z (avl_order - 1) xs s)
     } else Some s)"

declare split_block.simps [simp del]

definition mem_clear_phys :: "nat \<Rightarrow> nat \<Rightarrow> pmm \<Rightarrow> pmm" where
  "mem_clear_phys paddr n s = s\<lparr>phys_mem := (\<lambda>a. if paddr \<le> a \<and> a < paddr + n then 0 else phys_mem s a)\<rparr>"

definition pmm_alloc :: "u8 \<Rightarrow> u8 \<Rightarrow> pmm \<Rightarrow> (pmm \<times> nat) option" where
  "pmm_alloc order_arg flags s = do {
     let order = unat order_arg;
     ASSERT (order \<le> PMM_MAX_ORDER);
     let z = (if flags AND PMM_FLAG_ZONE_LOW \<noteq> 0 then ZONE_LOW else ZONE_NORMAL);
     avl_order \<leftarrow> find_order (lists s z) order;
     let (rest, popped) = seq_pop (lists s z avl_order);
     block \<leftarrow> popped;
     let s = set_list z avl_order rest s;
     s \<leftarrow> split_block z block order avl_order s;
     let s = upd_block block (\<lambda>b. b\<lparr>blk_order := of_nat order\<rparr>) s;
     let s = upd_block block (\<lambda>b. b\<lparr>blk_free := False\<rparr>) s;
     let s = upd_zone z (\<lambda>zn. zn\<lparr>free_page_count := free_page_count zn - of_nat (PMM_ORDER_TO_PAGECOUNT order)\<rparr>) s;
     let s = (if flags AND PMM_FLAG_ZERO \<noteq> 0
              then mem_clear_phys (BLOCK_PADDR block) (PMM_ORDER_TO_PAGECOUNT order * ARCH_PAGE_GRANULARITY) s
              else s);
     Some (s, block)
   }"

definition pmm_alloc_pages :: "u64 \<Rightarrow> u8 \<Rightarrow> pmm \<Rightarrow> (pmm \<times> nat) option" where
  "pmm_alloc_pages page_count flags s = pmm_alloc (pagecount_to_order page_count) flags s"

definition pmm_alloc_page :: "u8 \<Rightarrow> pmm \<Rightarrow> (pmm \<times> nat) option" where
  "pmm_alloc_page flags s = pmm_alloc 0 flags s"

section \<open>Freeing\<close>

text \<open>
  The zone is chosen by \<^verbatim>\<open>(BLOCK_PADDR(block) & ~ARCH_MEM_LOW_MASK) > 0\<close>: some bit of the address from
  24 on is set.
\<close>

definition zone_of :: "nat \<Rightarrow> zone_id" where
  "zone_of block = (if drop_bit 24 (BLOCK_PADDR block) > 0 then ZONE_NORMAL else ZONE_LOW)"

definition buddy_of :: "pmm \<Rightarrow> nat \<Rightarrow> nat" where
  "buddy_of s block = PAGE (BLOCK_PADDR block XOR (PMM_ORDER_TO_PAGECOUNT (ord s block) * ARCH_PAGE_GRANULARITY))"

text \<open>
  The merging loop. The three bit order grows in every iteration and stays below a three bit
  maximum, so the loop ends on every state.
\<close>

function pmm_merge :: "zone_id \<Rightarrow> nat \<Rightarrow> pmm \<Rightarrow> (pmm \<times> nat) option" where
  "pmm_merge z block s =
    (if blk_order (page_db s block) < blk_max_order (page_db s block) then
       (let buddy = buddy_of s block; bh = page_db s buddy in
        if \<not> blk_free bh \<or> blk_order bh = blk_max_order bh \<or> blk_order bh \<noteq> blk_order (page_db s block)
        then Some (s, block)
        else (case seq_delete (lists s z (ord s block)) buddy of
            None \<Rightarrow> None
          | Some xs \<Rightarrow>
              (let s1 = set_list z (ord s block) xs s;
                   s2 = upd_block buddy (\<lambda>b. b\<lparr>blk_order := blk_order b + 1\<rparr>) s1;
                   s3 = upd_block block (\<lambda>b. b\<lparr>blk_order := blk_order b + 1\<rparr>) s2
               in pmm_merge z (if BLOCK_PADDR buddy < BLOCK_PADDR block then buddy else block) s3)))
     else Some (s, block))"
  by pat_completeness auto

definition pmm_free :: "nat \<Rightarrow> pmm \<Rightarrow> pmm option" where
  "pmm_free block s = do {
     let z = zone_of block;
     let s = upd_zone z (\<lambda>zn. zn\<lparr>free_page_count := free_page_count zn + of_nat (PMM_ORDER_TO_PAGECOUNT (ord s block))\<rparr>) s;
     let s = upd_block block (\<lambda>b. b\<lparr>blk_free := True\<rparr>) s;
     (s, block) \<leftarrow> pmm_merge z block s;
     xs \<leftarrow> seq_push (lists s z (ord s block)) block;
     Some (set_list z (ord s block) xs s)
   }"

lemma buddy_xor: "PAGE (BLOCK_PADDR b XOR (PMM_ORDER_TO_PAGECOUNT k * ARCH_PAGE_GRANULARITY)) = b XOR 2 ^ k"
  using shift_xor_unshift[of b 12 "2 ^ k"]
  by (simp add: PAGE_def BLOCK_PADDR_def PMM_ORDER_TO_PAGECOUNT_def ARCH_PAGE_GRANULARITY_def)

lemma split_add: "PAGE (BLOCK_PADDR b + PMM_ORDER_TO_PAGECOUNT k * ARCH_PAGE_GRANULARITY) = b + 2 ^ k"
  unfolding PAGE_def BLOCK_PADDR_def PMM_ORDER_TO_PAGECOUNT_def ARCH_PAGE_GRANULARITY_def add_mult_distrib[symmetric]
  by simp

lemma buddy_of_eq: "buddy_of s b = b XOR 2 ^ ord s b"
  by (simp add: buddy_of_def buddy_xor)

lemma buddy_neq [simp]: "buddy_of s b \<noteq> b" "b \<noteq> buddy_of s b"
  by (simp_all add: buddy_of_eq not_sym)

lemma inc_order: "(x :: 3 word) < y \<Longrightarrow> unat (x + 1) = unat x + 1"
proof -
  assume "x < y"
  then have "unat x < 7" using unsigned_less[of y, where 'a = nat] by (simp add: word_less_nat_alt)
  then show ?thesis by (simp add: unat_word_ariths)
qed

termination pmm_merge
proof (relation "measure (\<lambda>(z, block, s). 7 - ord s block)")
  fix z block s buddy bh xs s1 s2 s3
  assume a: "blk_order (page_db s block) < blk_max_order (page_db s block)"
    and d: "buddy = buddy_of s block" "bh = page_db s buddy"
    and c: "\<not> (\<not> blk_free bh \<or> blk_order bh = blk_max_order bh \<or> blk_order bh \<noteq> blk_order (page_db s block))"
    and s: "s1 = set_list z (ord s block) xs s" "s2 = upd_block buddy (\<lambda>b. b\<lparr>blk_order := blk_order b + 1\<rparr>) s1"
      "s3 = upd_block block (\<lambda>b. b\<lparr>blk_order := blk_order b + 1\<rparr>) s2"
  have ne: "buddy \<noteq> block" using d by simp
  have "ord s block < 7"
    using a unsigned_less[of "blk_max_order (page_db s block)", where 'a = nat] by (simp add: word_less_nat_alt)
  moreover have "ord s3 block = ord s block + 1" "ord s3 buddy = ord s block + 1"
    using c d ne inc_order[OF a] by (simp_all add: s upd_block_def set_list_def upd_zone_def)
  ultimately show "((z, if BLOCK_PADDR buddy < BLOCK_PADDR block then buddy else block, s3), z, block, s)
      \<in> measure (\<lambda>(z, block, s). 7 - ord s block)"
    by simp
qed simp

declare pmm_merge.simps [simp del]

lemma page_in_block:
  "BLOCK_PADDR b \<le> a \<and> a < BLOCK_PADDR b + 2 ^ k * ARCH_PAGE_GRANULARITY \<longleftrightarrow> b \<le> PAGE a \<and> PAGE a < b + 2 ^ k"
proof -
  have "b * 4096 \<le> a \<longleftrightarrow> b \<le> a div 4096" by (simp add: less_eq_div_iff_mult_less_eq)
  moreover have "a < b * 4096 + 2 ^ k * 4096 \<longleftrightarrow> a div 4096 < b + 2 ^ k"
    unfolding add_mult_distrib[symmetric] by (rule div_less_iff_less_mult[symmetric]) simp
  ultimately show ?thesis unfolding PAGE_def BLOCK_PADDR_def ARCH_PAGE_GRANULARITY_def by blast
qed

end
