(* ===== verification/PmmInv.thy ===== *)
theory PmmInv
  imports Pmm
begin

text \<open>
  Correctness of the buddy allocator. \<open>M\<close> is the set of managed pages and \<open>A\<close> the set of allocated
  blocks, both ghosts. The core of the invariant says that the allocated and the free blocks are
  aligned and partition the managed pages; taking a block off a list, putting one on, splitting
  and merging each keep it, and the loops of \<^verbatim>\<open>pmm_alloc\<close> and \<^verbatim>\<open>pmm_free\<close> are sequences of these steps.
\<close>

section \<open>The invariant\<close>

definition heads :: "pmm \<Rightarrow> nat set \<Rightarrow> nat set" where
  "heads s A = A \<union> (\<Union>z k. set (lists s z k))"

definition covers :: "pmm \<Rightarrow> nat \<Rightarrow> nat \<Rightarrow> bool" where
  "covers s h p \<longleftrightarrow> p div 2 ^ ord s h = h div 2 ^ ord s h"

definition geo :: "pmm \<Rightarrow> nat set \<Rightarrow> bool" where
  "geo s M \<longleftrightarrow> (\<forall>p \<in> M. \<forall>q. q div 2 ^ max_ord s p = p div 2 ^ max_ord s p \<longrightarrow>
     q \<in> M \<and> max_ord s q = max_ord s p \<and> zone_of q = zone_of p)"

definition lists_ok :: "pmm \<Rightarrow> nat set \<Rightarrow> nat set \<Rightarrow> bool" where
  "lists_ok s M A \<longleftrightarrow> (\<forall>z k. distinct (lists s z k) \<and> (\<forall>b \<in> set (lists s z k).
     b \<in> M \<and> b \<notin> A \<and> zone_of b = z \<and> ord s b = k \<and> blk_free (page_db s b)))"

definition pmm_core :: "pmm \<Rightarrow> nat set \<Rightarrow> nat set \<Rightarrow> bool" where
  "pmm_core s M A \<longleftrightarrow> geo s M \<and> A \<subseteq> M \<and> lists_ok s M A \<and>
     (\<forall>h \<in> heads s A. ord s h \<le> max_ord s h \<and> 2 ^ ord s h dvd h) \<and>
     (\<forall>p \<in> M. \<exists>!h. h \<in> heads s A \<and> covers s h p)"

definition coalesced :: "pmm \<Rightarrow> bool" where
  "coalesced s \<longleftrightarrow> (\<forall>z k. \<forall>b \<in> set (lists s z k). k < max_ord s b \<longrightarrow> b XOR 2 ^ k \<notin> set (lists s z k))"

definition free_pages :: "pmm \<Rightarrow> zone_id \<Rightarrow> nat" where
  "free_pages s z = (\<Sum>k \<le> PMM_MAX_ORDER. 2 ^ k * length (lists s z k))"

definition counted :: "pmm \<Rightarrow> bool" where
  "counted s \<longleftrightarrow> (\<forall>z. free_page_count (zones s z) = of_nat (free_pages s z))"

definition pmm_inv :: "pmm \<Rightarrow> nat set \<Rightarrow> nat set \<Rightarrow> bool" where
  "pmm_inv s M A \<longleftrightarrow> pmm_core s M A \<and> (\<forall>a \<in> A. \<not> blk_free (page_db s a)) \<and> coalesced s \<and> counted s"

section \<open>Stores\<close>

lemma pmm_store_simps [simp]:
  "page_db (upd_block b f s) = (page_db s)(b := f (page_db s b))" "zones (upd_block b f s) = zones s"
  "phys_mem (upd_block b f s) = phys_mem s"
  "page_db (upd_zone z g s) = page_db s" "zones (upd_zone z g s) = (zones s)(z := g (zones s z))"
  "phys_mem (upd_zone z g s) = phys_mem s"
  "page_db (set_list z k xs s) = page_db s" "phys_mem (set_list z k xs s) = phys_mem s"
  "page_db (mem_clear_phys a n s) = page_db s" "zones (mem_clear_phys a n s) = zones s"
  by (simp_all add: upd_block_def upd_zone_def set_list_def mem_clear_phys_def)

lemma lists_set_list [simp]:
  "lists (set_list z k xs s) z' k' = (if z' = z \<and> k' = k then xs else lists s z' k')"
  by (simp add: set_list_def upd_zone_def)

lemma free_count_set_list [simp]: "free_page_count (zones (set_list z k xs s) z') = free_page_count (zones s z')"
  by (simp add: set_list_def upd_zone_def)

text \<open>The invariant reads the headers and lists only.\<close>

lemma core_cong:
  assumes "page_db s' = page_db s" "\<And>z k. lists s' z k = lists s z k"
  shows "pmm_core s' M A = pmm_core s M A" "heads s' A = heads s A" "coalesced s' = coalesced s"
    "free_pages s' z = free_pages s z"
  using assms by (simp_all add: pmm_core_def geo_def lists_ok_def heads_def covers_def coalesced_def free_pages_def)

lemma max_ord_upd [simp]:
  "max_ord (upd_block c (\<lambda>h. h\<lparr>blk_free := f\<rparr>) s) x = max_ord s x"
  "max_ord (upd_block c (\<lambda>h. h\<lparr>blk_order := g h\<rparr>) s) x = max_ord s x"
  by simp_all

lemma coalesced_cong:
  "(\<And>z k. lists s' z k = lists s z k) \<Longrightarrow> (\<And>b. max_ord s' b = max_ord s b) \<Longrightarrow> coalesced s' = coalesced s"
  by (simp add: coalesced_def)

lemma finite_order: "ord s b \<le> PMM_MAX_ORDER" "max_ord s b \<le> PMM_MAX_ORDER"
  using unsigned_less[of "blk_order (page_db s b)", where 'a = nat]
    unsigned_less[of "blk_max_order (page_db s b)", where 'a = nat] by (simp_all add: PMM_MAX_ORDER_def)

lemma order_of_nat: "k \<le> PMM_MAX_ORDER \<Longrightarrow> unat (of_nat k :: 3 word) = k"
  by (simp add: PMM_MAX_ORDER_def unat_of_nat)

section \<open>Steps that keep the core\<close>

lemma coreD:
  assumes "pmm_core s M A"
  shows "geo s M" "A \<subseteq> M" "lists_ok s M A" "p \<in> M \<Longrightarrow> \<exists>!h. h \<in> heads s A \<and> covers s h p"
  using assms unfolding pmm_core_def by blast+

lemma core_listD:
  assumes "pmm_core s M A" "b \<in> set (lists s z k)"
  shows "b \<in> M" "b \<notin> A" "zone_of b = z" "ord s b = k" "blk_free (page_db s b)" "b \<in> heads s A" "k \<le> PMM_MAX_ORDER"
  using assms finite_order(1)[of s b] by (auto simp: pmm_core_def lists_ok_def heads_def)

lemma geo_cong: "page_db s' = page_db s \<Longrightarrow> geo s' M = geo s M"
  by (simp only: geo_def)

lemma covers_cong: "page_db s' = page_db s \<Longrightarrow> covers s' = covers s"
  unfolding covers_def by metis

definition others :: "pmm \<Rightarrow> zone_id \<Rightarrow> nat \<Rightarrow> nat set" where
  "others s z k = (\<Union>z' k'. if z' = z \<and> k' = k then {} else set (lists s z' k'))"

lemma heads_others: "heads s A = A \<union> set (lists s z k) \<union> others s z k"
  unfolding heads_def others_def by (auto split: if_splits)

lemma heads_set_list: "heads (set_list z k xs s) A = A \<union> set xs \<union> others s z k"
  unfolding heads_others[of "set_list z k xs s" A z k] by (simp add: others_def cong: if_cong)

lemma core_set_list:
  assumes core: "pmm_core s M A" and A: "A' \<subseteq> M" and h: "A' \<union> set xs \<union> others s z k = heads s A"
    and ok: "lists_ok (set_list z k xs s) M A'"
  shows "pmm_core (set_list z k xs s) M A'"
  using core A ok unfolding pmm_core_def heads_set_list h geo_cong[of "set_list z k xs s" s, OF pmm_store_simps(7)]
    covers_cong[of "set_list z k xs s" s, OF pmm_store_simps(7)] pmm_store_simps by blast

lemma core_take:
  assumes core: "pmm_core s M A" and b: "b \<in> set (lists s z k)"
  shows "pmm_core (set_list z k (remove1 b (lists s z k)) s) M (insert b A)"
proof (rule core_set_list[OF core])
  have d: "distinct (lists s z' k')" for z' k' using core by (simp add: pmm_core_def lists_ok_def)
  show "insert b A \<subseteq> M" using core core_listD(1)[OF core b] by (simp add: pmm_core_def)
  show "insert b A \<union> set (remove1 b (lists s z k)) \<union> others s z k = heads s A"
    unfolding heads_others[of s A z k] using b d[of z k] by auto
  show "lists_ok (set_list z k (remove1 b (lists s z k)) s) M (insert b A)"
    unfolding lists_ok_def
  proof (intro allI conjI ballI)
    fix z' k' x assume x: "x \<in> set (lists (set_list z k (remove1 b (lists s z k)) s) z' k')"
    then have x': "x \<in> set (lists s z' k')" using d[of z k] by (auto split: if_splits)
    note xD = core_listD[OF core x'] and bD = core_listD[OF core b]
    have "x \<noteq> b" using x d[of z k] xD(3,4) bD(3,4) by (auto split: if_splits)
    then show "x \<notin> insert b A" using xD by simp
  qed (use core d in \<open>auto simp: pmm_core_def lists_ok_def split: if_splits\<close>)
qed

lemma core_give:
  assumes core: "pmm_core s M A" and b: "b \<in> A" "blk_free (page_db s b)" "zone_of b = z" "ord s b = k"
  shows "b \<notin> set (lists s z k)" "pmm_core (set_list z k (b # lists s z k) s) M (A - {b})"
proof -
  show nb: "b \<notin> set (lists s z k)" using core_listD(2)[OF core, of b] b(1) by auto
  show "pmm_core (set_list z k (b # lists s z k) s) M (A - {b})"
  proof (rule core_set_list[OF core])
    show "A - {b} \<subseteq> M" using core by (auto simp: pmm_core_def)
    show "A - {b} \<union> set (b # lists s z k) \<union> others s z k = heads s A"
      unfolding heads_others[of s A z k] using b by auto
    have ok: "lists_ok s M A" "b \<in> M" using core b by (auto simp: pmm_core_def)
    show "lists_ok (set_list z k (b # lists s z k) s) M (A - {b})"
      unfolding lists_ok_def
    proof (intro allI)
      fix z' k'
      show "distinct (lists (set_list z k (b # lists s z k) s) z' k') \<and>
        (\<forall>x \<in> set (lists (set_list z k (b # lists s z k) s) z' k').
          x \<in> M \<and> x \<notin> A - {b} \<and> zone_of x = z' \<and> ord (set_list z k (b # lists s z k) s) x = k' \<and>
          blk_free (page_db (set_list z k (b # lists s z k) s) x))"
        using ok nb b by (cases "z' = z \<and> k' = k") (simp_all add: lists_ok_def)
    qed
  qed
qed

text \<open>Splitting and merging: the cover of each page stays unique.\<close>

lemma ex1_merge:
  assumes ex: "\<exists>!h. h \<in> H \<and> C h" and H: "lo \<in> H" "hi \<in> H" "lo \<noteq> hi"
    and lo: "C' lo \<longleftrightarrow> C lo \<or> C hi" and same: "\<And>h. h \<in> H \<Longrightarrow> h \<noteq> lo \<Longrightarrow> h \<noteq> hi \<Longrightarrow> C' h = C h"
  shows "\<exists>!h. h \<in> H - {hi} \<and> C' h"
proof -
  from ex obtain x where x: "x \<in> H" "C x" "\<And>y. y \<in> H \<Longrightarrow> C y \<Longrightarrow> y = x" by blast
  show ?thesis
  proof (rule ex1I[of _ "if x = hi then lo else x"])
    show "(if x = hi then lo else x) \<in> H - {hi} \<and> C' (if x = hi then lo else x)"
      using x(1,2) H lo same by (metis Diff_iff singletonD)
    fix y assume "y \<in> H - {hi} \<and> C' y"
    then show "y = (if x = hi then lo else x)"
      using x(3) H lo same by (metis Diff_iff singletonI)
  qed
qed

lemma ex1_split:
  assumes ex: "\<exists>!h. h \<in> H \<and> C h" and H: "b \<in> H" "c \<notin> H"
    and b: "C b \<longleftrightarrow> C' b \<or> C' c" "\<not> (C' b \<and> C' c)" and same: "\<And>h. h \<in> H \<Longrightarrow> h \<noteq> b \<Longrightarrow> C' h = C h"
  shows "\<exists>!h. h \<in> insert c H \<and> C' h"
proof -
  from ex obtain x where x: "x \<in> H" "C x" "\<And>y. y \<in> H \<Longrightarrow> C y \<Longrightarrow> y = x" by blast
  show ?thesis
  proof (rule ex1I[of _ "if x = b \<and> C' c then c else x"])
    show "(if x = b \<and> C' c then c else x) \<in> insert c H \<and> C' (if x = b \<and> C' c then c else x)"
      using x(1,2) b same by (metis insert_iff)
    fix y assume "y \<in> insert c H \<and> C' y"
    then show "y = (if x = b \<and> C' c then c else x)"
      using x(3) H b same by (metis insert_iff)
  qed
qed

lemma geo_same: "geo s M \<Longrightarrow> p \<in> M \<Longrightarrow> k \<le> max_ord s p \<Longrightarrow> q div 2 ^ k = p div 2 ^ k \<Longrightarrow>
    q \<in> M \<and> max_ord s q = max_ord s p \<and> zone_of q = zone_of p"
  unfolding geo_def using div_pow_mono[of q k p "max_ord s p"] by blast

lemma core_head:
  assumes "pmm_core s M A" "h \<in> heads s A"
  shows "h \<in> M" "ord s h \<le> max_ord s h" "2 ^ ord s h dvd h" "covers s h h"
proof -
  show "h \<in> M" using assms(2) coreD(2,3)[OF assms(1)] by (auto simp: heads_def lists_ok_def)
  show "ord s h \<le> max_ord s h" "2 ^ ord s h dvd h" using assms unfolding pmm_core_def by blast+
  show "covers s h h" by (simp add: covers_def)
qed

lemma core_unique:
  assumes "pmm_core s M A" "g \<in> heads s A" "h \<in> heads s A" "covers s g p" "covers s h p"
  shows "g = h"
proof -
  have "p \<in> M"
    using geo_same[of s M g "ord s g" p] assms(1,4) core_head[OF assms(1,2)] unfolding pmm_core_def covers_def by blast
  then show ?thesis using assms unfolding pmm_core_def by blast
qed

text \<open>The buddy of a block below its maximal order is a block as well, and not a larger one.\<close>

lemma buddy_geo:
  assumes core: "pmm_core s M A" and b: "b \<in> heads s A" "k < max_ord s b"
  shows "b XOR 2 ^ k \<in> M" "max_ord s (b XOR 2 ^ k) = max_ord s b" "zone_of (b XOR 2 ^ k) = zone_of b"
  using geo_same[OF coreD(1)[OF core] core_head(1)[OF core b(1)], of "Suc k" "b XOR 2 ^ k"] b(2) xor_pow_div_Suc[of b k]
  by simp_all

lemma buddy_head:
  assumes core: "pmm_core s M A" and b: "b \<in> heads s A" "ord s b < max_ord s b"
  shows "b XOR 2 ^ ord s b \<in> heads s A" "ord s (b XOR 2 ^ ord s b) \<le> ord s b"
proof -
  let ?B = "b XOR 2 ^ ord s b"
  obtain h where h: "h \<in> heads s A" "covers s h ?B"
    using coreD(4)[OF core buddy_geo(1)[OF core b]] by blast
  have le: "ord s h \<le> ord s b"
  proof (rule ccontr)
    assume "\<not> ord s h \<le> ord s b"
    then have "?B div 2 ^ ord s h = b div 2 ^ ord s h"
      by (intro div_pow_mono[OF xor_pow_div_Suc]) simp
    then have "covers s h b" using h(2) by (simp add: covers_def)
    then have "h = b" using core_unique[OF core h(1) b(1)] core_head(4)[OF core b(1)] by blast
    with \<open>\<not> ord s h \<le> ord s b\<close> show False by simp
  qed
  have "2 ^ ord s h dvd ?B"
    using xor_pow_dvd[OF core_head(3)[OF core b(1)]] le_imp_power_dvd[OF le] dvd_trans by blast
  from aligned_head[OF h(2)[unfolded covers_def] this core_head(3)[OF core h(1)]] have "?B = h" .
  with h(1) le show "?B \<in> heads s A" "ord s ?B \<le> ord s b" by simp_all
qed

definition set_ord :: "nat \<Rightarrow> nat \<Rightarrow> pmm \<Rightarrow> pmm" where
  "set_ord b k = upd_block b (\<lambda>h. h\<lparr>blk_order := of_nat k\<rparr>)"

lemma set_ord_simps [simp]:
  "k \<le> PMM_MAX_ORDER \<Longrightarrow> ord (set_ord b k s) x = (if x = b then k else ord s x)"
  "max_ord (set_ord b k s) x = max_ord s x" "zones (set_ord b k s) = zones s"
  "blk_free (page_db (set_ord b k s) x) = blk_free (page_db s x)"
  "heads (set_ord b k s) A = heads s A"
  by (simp_all add: set_ord_def order_of_nat heads_def)

lemma lists_ok_set_ord:
  assumes ok: "lists_ok s M A" and nl: "\<And>z i. b \<notin> set (lists s z i)" "\<And>z i. c \<notin> set (lists s z i)"
    and A: "\<And>x z i. x \<in> A' \<Longrightarrow> x \<notin> set (lists s z i)"
  shows "lists_ok (set_ord b k (set_ord c k s)) M A'"
  unfolding lists_ok_def set_ord_simps
proof (intro allI conjI ballI)
  fix z i x assume x: "x \<in> set (lists s z i)"
  then have "x \<noteq> b" "x \<noteq> c" using nl by metis+
  then have "page_db (set_ord b k (set_ord c k s)) x = page_db s x" by (simp add: set_ord_def)
  then show "ord (set_ord b k (set_ord c k s)) x = i" using ok x unfolding lists_ok_def by simp
  show "x \<notin> A'" using A x by blast
qed (use ok in \<open>unfold lists_ok_def, blast+\<close>)

lemma core_split:
  assumes core: "pmm_core s M A" and b: "b \<in> A" "ord s b = Suc k"
  defines "c \<equiv> b + 2 ^ k"
  shows "pmm_core (set_ord b k (set_ord c k s)) M (insert c A)" "c \<notin> heads s A" "zone_of c = zone_of b"
proof -
  let ?s = "set_ord b k (set_ord c k s)"
  have bh: "b \<in> heads s A" using b by (simp add: heads_def)
  note bD = core_head[OF core bh]
  have k: "k \<le> PMM_MAX_ORDER" "Suc k \<le> max_ord s b" using finite_order(1)[of s b] b(2) bD(2) by simp_all
  have al: "2 ^ Suc k dvd b" using bD(3) b(2) by simp
  have c: "c = b XOR 2 ^ k" unfolding c_def by (rule aligned_xor_add[OF al, symmetric])
  have cb: "covers s b c" unfolding covers_def b(2) c by (rule xor_pow_div_Suc)
  then show nc: "c \<notin> heads s A"
    using core_unique[OF core bh _ cb, of c] core_head(4)[OF core, of c] c_def by auto
  have ne: "c \<noteq> b" by (simp add: c_def)
  have g: "c \<in> M" "max_ord s c = max_ord s b" "zone_of c = zone_of b"
    using buddy_geo[OF core bh, of k] k c by simp_all
  then show "zone_of c = zone_of b" by simp
  have hd: "heads ?s (insert c A) = insert c (heads s A)" unfolding set_ord_simps by (simp add: heads_def)
  have cov: "covers ?s h p = covers s h p" if "h \<in> heads s A" "h \<noteq> b" for h p
    using that nc k by (auto simp: covers_def)
  have "\<exists>!h. h \<in> insert c (heads s A) \<and> covers ?s h p" if "p \<in> M" for p
  proof (rule ex1_split[OF coreD(4)[OF core that] bh nc])
    show "covers s b p = (covers ?s b p \<or> covers ?s c p)"
      using k ne unfolding covers_def b(2) block_halves[of p k b, folded c] by simp
    show "\<not> (covers ?s b p \<and> covers ?s c p)"
      using k ne halves_disjoint[of b k, folded c] by (simp add: covers_def)
  qed (rule cov)
  moreover have "lists_ok ?s M (insert c A)"
  proof (rule lists_ok_set_ord[OF coreD(3)[OF core]])
    show "b \<notin> set (lists s z i)" "c \<notin> set (lists s z i)" for z i
      using core_listD(2,6)[OF core] b(1) nc by metis+
    show "x \<notin> set (lists s z i)" if "x \<in> insert c A" for x z i
      using core_listD(2,6)[OF core] that nc by (metis insert_iff)
  qed
  moreover have "geo ?s M" using coreD(1)[OF core] unfolding geo_def set_ord_simps .
  moreover have "ord ?s h \<le> max_ord ?s h \<and> 2 ^ ord ?s h dvd h" if "h \<in> insert c (heads s A)" for h
  proof (cases "h = b \<or> h = c")
    case True
    have "2 ^ k dvd b" using al by (rule dvd_trans[rotated]) simp
    then have "2 ^ k dvd c" unfolding c by (rule xor_pow_dvd)
    with \<open>2 ^ k dvd b\<close> True k g(2) show ?thesis by auto
  next
    case False
    then show ?thesis using that core_head(2,3)[OF core, of h] k by simp
  qed
  moreover have "insert c A \<subseteq> M" using g(1) coreD(2)[OF core] by simp
  ultimately show "pmm_core ?s M (insert c A)" unfolding pmm_core_def hd by meson
qed

lemma core_merge_lo:
  assumes core: "pmm_core s M A" and b: "b \<in> A" "c \<in> A" "ord s b = k" "ord s c = k" "k < max_ord s b"
    and c: "c = b XOR 2 ^ k" "b < c"
  shows "pmm_core (set_ord b (Suc k) (set_ord c (Suc k) s)) M (A - {c})"
proof -
  let ?s = "set_ord b (Suc k) (set_ord c (Suc k) s)"
  have h: "b \<in> heads s A" "c \<in> heads s A" using b by (simp_all add: heads_def)
  have k: "Suc k \<le> PMM_MAX_ORDER" using b(5) finite_order(2)[of s b] by simp
  have nl: "c \<notin> set (lists s z i)" "b \<notin> set (lists s z i)" for z i using core_listD(2)[OF core] b(1,2) by blast+
  have hd: "heads ?s (A - {c}) = heads s A - {c}" unfolding set_ord_simps using nl by (auto simp: heads_def)
  have al: "2 ^ Suc k dvd b"
    using aligned_lower[of k b] core_head(3)[OF core h(1)] b(3) c by simp
  have "\<exists>!h. h \<in> heads s A - {c} \<and> covers ?s h p" if "p \<in> M" for p
  proof (rule ex1_merge[OF coreD(4)[OF core that] h])
    show "b \<noteq> c" using c(2) by simp
    show "covers ?s b p = (covers s b p \<or> covers s c p)"
      using k c(2) b(3,4) by (simp add: covers_def block_halves[of p k b, folded c(1)] del: power_Suc)
    show "covers ?s h p = covers s h p" if "h \<noteq> b" "h \<noteq> c" for h
      using that k by (simp add: covers_def)
  qed
  moreover have "lists_ok ?s M (A - {c})"
    by (rule lists_ok_set_ord[OF coreD(3)[OF core] nl(2,1)]) (use core_listD(2)[OF core] in blast)
  moreover have "geo ?s M" using coreD(1)[OF core] unfolding geo_def set_ord_simps .
  moreover have "ord ?s x \<le> max_ord ?s x \<and> 2 ^ ord ?s x dvd x" if "x \<in> heads s A - {c}" for x
    using that core_head(2,3)[OF core, of x] k b(5) al by (cases "x = b") (simp_all del: power_Suc)
  moreover have "A - {c} \<subseteq> M" using coreD(2)[OF core] by blast
  ultimately show ?thesis unfolding pmm_core_def hd by blast
qed

lemma core_flag:
  assumes core: "pmm_core s M A" and x: "x \<in> A"
  shows "pmm_core (upd_block x (\<lambda>h. h\<lparr>blk_free := f\<rparr>) s) M A"
proof -
  let ?s = "upd_block x (\<lambda>h. h\<lparr>blk_free := f\<rparr>) s"
  have o: "ord ?s y = ord s y" "max_ord ?s y = max_ord s y" for y by simp_all
  have hd: "heads ?s A = heads s A" by (simp add: heads_def)
  have cov: "covers ?s = covers s" unfolding covers_def o ..
  have "lists_ok ?s M A"
    unfolding lists_ok_def o
  proof (intro allI conjI ballI)
    fix z k y assume y: "y \<in> set (lists ?s z k)"
    then have yl: "y \<in> set (lists s z k)" by simp
    then have "y \<noteq> x" using core_listD(2)[OF core yl] x by blast
    then show "blk_free (page_db ?s y)" using core_listD(5)[OF core yl] by simp
  qed (use coreD(3)[OF core] in \<open>unfold lists_ok_def pmm_store_simps, blast+\<close>)
  then show ?thesis
    using core unfolding pmm_core_def hd cov geo_def o by meson
qed

lemma free_pages_set_list:
  assumes "k \<le> PMM_MAX_ORDER"
  shows "free_pages (set_list z k xs s) z' + (if z' = z then 2 ^ k * length (lists s z k) else 0) =
    free_pages s z' + (if z' = z then 2 ^ k * length xs else 0)"
proof (cases "z' = z")
  case True
  have "k \<in> {..PMM_MAX_ORDER}" using assms by simp
  moreover have "(\<Sum>i \<in> {..PMM_MAX_ORDER} - {k}. 2 ^ i * length (lists (set_list z k xs s) z i)) =
      (\<Sum>i \<in> {..PMM_MAX_ORDER} - {k}. 2 ^ i * length (lists s z i))"
    by (rule sum.cong) simp_all
  ultimately show ?thesis using True by (simp add: free_pages_def sum.remove)
qed (simp add: free_pages_def)

lemma coalesced_give:
  assumes core: "pmm_core s M A" and co: "coalesced s" and b: "b \<in> A" "zone_of b = z" "ord s b = k"
    and nb: "k < max_ord s b \<Longrightarrow> b XOR 2 ^ k \<notin> set (lists s z k)"
  shows "coalesced (set_list z k (b # lists s z k) s)"
proof -
  have *: "x XOR 2 ^ k \<noteq> b" if x: "x \<in> set (lists s z k)" "k < max_ord s x" for x
  proof
    assume e: "x XOR 2 ^ k = b"
    then have "max_ord s b = max_ord s x" using buddy_geo(2)[OF core core_listD(6)[OF core x(1)] x(2)] by simp
    moreover have "b XOR 2 ^ k = x" using e by auto
    ultimately show False using nb x by auto
  qed
  show ?thesis
    unfolding coalesced_def
  proof (intro allI ballI impI)
    fix z' k' x
    let ?s = "set_list z k (b # lists s z k) s"
    assume x: "x \<in> set (lists ?s z' k')" "k' < max_ord ?s x"
    show "x XOR 2 ^ k' \<notin> set (lists ?s z' k')"
    proof (cases "z' = z \<and> k' = k")
      case True
      then have "x = b \<or> x \<in> set (lists s z k)" "k < max_ord s x" using x by simp_all
      with True nb * co show ?thesis by (auto simp: coalesced_def)
    next
      case False
      then show ?thesis using x co by (auto simp: coalesced_def)
    qed
  qed
qed

text \<open>One round of the splitting loop: the upper half of \<open>b\<close> goes on the list.\<close>

lemma split_round:
  assumes core: "pmm_core (set_ord b (Suc k) s) M A" and b: "b \<in> A" "zone_of b = z" "Suc k \<le> PMM_MAX_ORDER"
    and co: "coalesced s"
  defines "c \<equiv> b + 2 ^ k"
  defines "s1 \<equiv> upd_block c (\<lambda>h. h\<lparr>blk_free := True\<rparr>) (upd_block c (\<lambda>h. h\<lparr>blk_order := of_nat k\<rparr>) s)"
  defines "s2 \<equiv> set_list z k (c # lists s z k) s1"
  shows "c \<notin> set (lists s z k)" "pmm_core (set_ord b k s2) M A" "coalesced s2" "c \<notin> A"
proof -
  let ?g = "set_ord b (Suc k) s"
  have "ord ?g b = Suc k" using b(3) by simp
  note sp = core_split[OF core b(1) this, folded c_def]
  show cA: "c \<notin> A" using sp(2) by (auto simp: heads_def)
  let ?h = "upd_block c (\<lambda>h. h\<lparr>blk_free := True\<rparr>) (set_ord b k (set_ord c k ?g))"
  have ne: "c \<noteq> b" by (simp add: c_def)
  have h: "pmm_core ?h M (insert c A)" by (rule core_flag[OF sp(1)]) simp
  have db: "page_db ?h = page_db (set_ord b k s1)" using ne by (auto simp: set_ord_def s1_def)
  have ordc: "ord ?h c = k" using b(3) ne by (simp add: set_ord_def order_of_nat)
  have zc: "zone_of c = z" using sp(3) b(2) by simp
  have fc: "blk_free (page_db ?h c)" by simp
  note gv = core_give[OF h _ fc zc ordc]
  have ls: "lists ?h z' k' = lists s z' k'" for z' k' by (simp add: set_ord_def)
  show "c \<notin> set (lists s z k)" using gv(1) unfolding ls by simp
  have "pmm_core (set_list z k (c # lists ?h z k) ?h) M A" using gv(2) cA by simp
  moreover have "page_db (set_list z k (c # lists ?h z k) ?h) = page_db (set_ord b k s2)"
    using db by (simp add: s2_def set_ord_def)
  moreover have "lists (set_list z k (c # lists ?h z k) ?h) z' k' = lists (set_ord b k s2) z' k'" for z' k'
    by (simp add: s2_def s1_def set_ord_def)
  ultimately show "pmm_core (set_ord b k s2) M A" using core_cong(1) by metis
  have "coalesced (set_list z k (c # lists ?h z k) ?h)"
  proof (rule coalesced_give[OF h _ _ zc ordc])
    show "coalesced ?h"
      using co coalesced_cong[of ?h s] unfolding ls set_ord_simps max_ord_upd by simp
    have "2 ^ Suc k dvd b" using core_head(3)[OF core, of b] b by (simp add: heads_def)
    then have "c XOR 2 ^ k = b" unfolding c_def by (simp flip: aligned_xor_add)
    moreover have "b \<notin> set (lists ?h z k)" using core_listD(2)[OF core, of b z k] b(1) ls[of z k] by auto
    ultimately show "c XOR 2 ^ k \<notin> set (lists ?h z k)" by simp
  qed simp
  moreover have "lists (set_list z k (c # lists ?h z k) ?h) z' k' = lists s2 z' k'" for z' k'
    by (simp add: s2_def s1_def set_ord_def)
  moreover have "max_ord (set_list z k (c # lists ?h z k) ?h) x = max_ord s2 x" for x
    by (simp add: s2_def s1_def set_ord_def)
  ultimately show "coalesced s2" using coalesced_cong by metis
qed

section \<open>Allocation\<close>

lemma split_block_correct:
  assumes "pmm_core (set_ord b avl s) M A" "b \<in> A" "zone_of b = z" "order \<le> avl" "avl \<le> PMM_MAX_ORDER" "coalesced s"
  shows "\<exists>s'. split_block z b order avl s = Some s' \<and> pmm_core (set_ord b order s') M A \<and> coalesced s' \<and>
    (\<forall>z'. free_pages s' z' + (if z' = z then 2 ^ order else 0) = free_pages s z' + (if z' = z then 2 ^ avl else 0)) \<and>
    (\<forall>a \<in> A. page_db s' a = page_db s a) \<and> (\<forall>z'. free_page_count (zones s' z') = free_page_count (zones s z')) \<and>
    phys_mem s' = phys_mem s"
  using assms
proof (induction avl arbitrary: s)
  case 0
  then show ?case by (intro exI[of _ s]) (simp add: split_block.simps)
next
  case (Suc k)
  show ?case
  proof (cases "order = Suc k")
    case True
    with Suc.prems show ?thesis by (intro exI[of _ s]) (simp add: split_block.simps)
  next
    case False
    define c where "c = b + 2 ^ k"
    define s1 where "s1 = upd_block c (\<lambda>h. h\<lparr>blk_free := True\<rparr>) (upd_block c (\<lambda>h. h\<lparr>blk_order := of_nat k\<rparr>) s)"
    define s2 where "s2 = set_list z k (c # lists s z k) s1"
    have rd: "c \<notin> set (lists s z k)" "pmm_core (set_ord b k s2) M A" "coalesced s2" "c \<notin> A"
      unfolding s2_def s1_def c_def by (fact split_round[OF Suc.prems(1-3,5,6)])+
    have le: "order \<le> k" "k \<le> PMM_MAX_ORDER" using False Suc.prems(4,5) by simp_all
    have ls1: "lists s1 z' k' = lists s z' k'" for z' k' by (simp add: s1_def)
    have step: "split_block z b order (Suc k) s = split_block z b order k s2"
      using rd(1) le by (simp add: split_block.simps[of z b order "Suc k"] split_add seq_push_def s2_def s1_def c_def Let_def)
    from Suc.IH[OF rd(2) Suc.prems(2,3) le rd(3)] obtain s' where
      s': "split_block z b order k s2 = Some s'" "pmm_core (set_ord b order s') M A" "coalesced s'"
        "\<And>z'. free_pages s' z' + (if z' = z then 2 ^ order else 0) = free_pages s2 z' + (if z' = z then 2 ^ k else 0)"
        "\<forall>a \<in> A. page_db s' a = page_db s2 a" "\<forall>z'. free_page_count (zones s' z') = free_page_count (zones s2 z')"
        "phys_mem s' = phys_mem s2" by blast
    have fp: "free_pages s2 z' = free_pages s z' + (if z' = z then 2 ^ k else 0)" for z'
      using free_pages_set_list[OF le(2), of z "c # lists s z k" s1 z'] core_cong(4)[of s1 s1]
      unfolding s2_def[symmetric] ls1 by (simp add: free_pages_def ls1 split: if_splits)
    have "\<forall>a \<in> A. page_db s2 a = page_db s a" using rd(4) by (auto simp: s2_def s1_def)
    moreover have "\<forall>z'. free_page_count (zones s2 z') = free_page_count (zones s z')" "phys_mem s2 = phys_mem s"
      by (simp_all add: s2_def s1_def)
    moreover have "free_pages s' z' + (if z' = z then 2 ^ order else 0) =
        free_pages s z' + (if z' = z then 2 ^ Suc k else 0)" for z'
      using s'(4)[of z'] fp[of z'] by (simp split: if_splits)
    ultimately show ?thesis using step s' by auto
  qed
qed

lemma find_order_Some: "find_order ls i = Some k \<Longrightarrow> i \<le> k \<and> ls k \<noteq> []"
  by (induction ls i rule: find_order.induct) (auto simp: find_order.simps split: if_splits)

lemma find_order_None: "find_order ls i = None \<Longrightarrow> i \<le> k \<Longrightarrow> k \<le> PMM_MAX_ORDER \<Longrightarrow> ls k = []"
proof (induction ls i rule: find_order.induct)
  case (1 ls i)
  show ?case
  proof (cases "i = k")
    case True
    then show ?thesis using "1.prems" by (simp add: find_order.simps[of ls k] split: if_splits)
  next
    case False
    then show ?thesis using 1 by (auto simp: find_order.simps[of ls i] split: if_splits)
  qed
qed

definition alloc_zone :: "u8 \<Rightarrow> zone_id" where
  "alloc_zone flags = (if flags AND PMM_FLAG_ZONE_LOW \<noteq> 0 then ZONE_LOW else ZONE_NORMAL)"

lemma set_ord_same: "ord s b = k \<Longrightarrow> page_db (set_ord b k s) = page_db s"
  by (auto simp: set_ord_def)

text \<open>The state from which the splitting starts: the first block of the list is taken.\<close>

lemma alloc_take:
  assumes inv: "pmm_inv s M A" and ls: "lists s z k = b # rest"
  defines "s1 \<equiv> set_list z k rest s"
  shows "pmm_core (set_ord b k s1) M (insert b A)" "coalesced s1" "zone_of b = z" "k \<le> PMM_MAX_ORDER" "b \<notin> A"
    "\<And>z'. free_pages s1 z' + (if z' = z then 2 ^ k else 0) = free_pages s z'"
proof -
  have core: "pmm_core s M A" and co: "coalesced s" using inv by (simp_all add: pmm_inv_def)
  have b: "b \<in> set (lists s z k)" using ls by simp
  note bD = core_listD[OF core b]
  show "zone_of b = z" "k \<le> PMM_MAX_ORDER" "b \<notin> A" using bD by simp_all
  have "pmm_core s1 M (insert b A)" using core_take[OF core b] ls by (simp add: s1_def)
  moreover have "page_db (set_ord b k s1) = page_db s1" using bD(4) by (intro set_ord_same) (simp add: s1_def)
  ultimately show "pmm_core (set_ord b k s1) M (insert b A)"
    using core_cong(1)[of "set_ord b k s1" s1] by (simp add: set_ord_def)
  have "set (lists s1 z' k') \<subseteq> set (lists s z' k')" for z' k' using ls by (auto simp: s1_def)
  then show "coalesced s1" using co unfolding coalesced_def by (fastforce simp: s1_def)
  show "free_pages s1 z' + (if z' = z then 2 ^ k else 0) = free_pages s z'" for z'
    using free_pages_set_list[OF bD(7), of z rest s z'] ls by (auto simp: s1_def split: if_splits)
qed

definition block_pages :: "pmm \<Rightarrow> nat \<Rightarrow> nat set" where
  "block_pages s b = {b ..< b + 2 ^ ord s b}"

lemma block_pages_covers: "2 ^ ord s b dvd b \<Longrightarrow> p \<in> block_pages s b \<longleftrightarrow> covers s b p"
  unfolding block_pages_def covers_def by (rule aligned_interval)

lemma core_pages_disjoint:
  assumes "pmm_core s M A" "a \<in> heads s A" "b \<in> heads s A" "a \<noteq> b"
  shows "block_pages s a \<inter> block_pages s b = {}"
  using core_unique[OF assms(1-3)] block_pages_covers[OF core_head(3)[OF assms(1)]] assms by blast

lemma core_pages_managed:
  assumes "pmm_core s M A" "b \<in> heads s A"
  shows "block_pages s b \<subseteq> M"
  using geo_same[OF coreD(1)[OF assms(1)] core_head(1,2)[OF assms]] block_pages_covers[OF core_head(3)[OF assms]]
  by (auto simp: covers_def)

definition zeroed :: "pmm \<Rightarrow> nat \<Rightarrow> bool" where
  "zeroed s b \<longleftrightarrow> (\<forall>a. BLOCK_PADDR b \<le> a \<and> a < BLOCK_PADDR b + 2 ^ ord s b * ARCH_PAGE_GRANULARITY \<longrightarrow> phys_mem s a = 0)"

lemma pmm_alloc_inv:
  assumes inv: "pmm_inv s M A" and o7: "unat order \<le> PMM_MAX_ORDER"
    and avail: "k \<ge> unat order" "lists s (alloc_zone flags) k \<noteq> []"
  shows "\<exists>s' b. pmm_alloc order flags s = Some (s', b) \<and> pmm_inv s' M (insert b A) \<and> b \<notin> A \<and>
    ord s' b = unat order \<and> zone_of b = alloc_zone flags \<and> (\<forall>a \<in> A. page_db s' a = page_db s a) \<and>
    free_pages s' (alloc_zone flags) + 2 ^ unat order = free_pages s (alloc_zone flags) \<and>
    (flags AND PMM_FLAG_ZERO \<noteq> 0 \<longrightarrow> zeroed s' b) \<and>
    (\<forall>a. flags AND PMM_FLAG_ZERO = 0 \<or> PAGE a \<notin> block_pages s' b \<longrightarrow> phys_mem s' a = phys_mem s a)"
proof -
  let ?z = "alloc_zone flags" and ?o = "unat order"
  have core: "pmm_core s M A" using inv by (simp add: pmm_inv_def)
  have "k \<le> PMM_MAX_ORDER" using avail(2) core_listD(7)[OF core] by (metis list.set_intros(1) neq_Nil_conv)
  then obtain avl where f: "find_order (lists s ?z) ?o = Some avl"
    using find_order_None[of "lists s ?z" ?o k] avail by (cases "find_order (lists s ?z) ?o") auto
  then have avl: "?o \<le> avl" "lists s ?z avl \<noteq> []" using find_order_Some by blast+
  then obtain b rest where ls: "lists s ?z avl = b # rest" by (cases "lists s ?z avl") auto
  define s1 where "s1 = set_list ?z avl rest s"
  note t = alloc_take[OF inv ls, folded s1_def]
  from split_block_correct[OF t(1) insertI1 t(3) avl(1) t(4,2)] obtain s2 where
    s2: "split_block ?z b ?o avl s1 = Some s2" "pmm_core (set_ord b ?o s2) M (insert b A)" "coalesced s2"
      "\<And>z'. free_pages s2 z' + (if z' = ?z then 2 ^ ?o else 0) = free_pages s1 z' + (if z' = ?z then 2 ^ avl else 0)"
      "\<forall>a \<in> insert b A. page_db s2 a = page_db s1 a"
      "\<forall>z'. free_page_count (zones s2 z') = free_page_count (zones s1 z')" "phys_mem s2 = phys_mem s1"
    by blast
  define s3 where "s3 = upd_block b (\<lambda>h. h\<lparr>blk_free := False\<rparr>) (set_ord b ?o s2)"
  define s4 where "s4 = upd_zone ?z (\<lambda>zn. zn\<lparr>free_page_count := free_page_count zn - of_nat (PMM_ORDER_TO_PAGECOUNT ?o)\<rparr>) s3"
  define s5 where "s5 = (if flags AND PMM_FLAG_ZERO \<noteq> 0
    then mem_clear_phys (BLOCK_PADDR b) (PMM_ORDER_TO_PAGECOUNT ?o * ARCH_PAGE_GRANULARITY) s4 else s4)"
  have al: "pmm_alloc order flags s = Some (s5, b)"
    using o7 f ls s2(1) unfolding s5_def s4_def s3_def set_ord_def s1_def
    by (simp add: pmm_alloc_def alloc_zone_def[symmetric] seq_pop_def Let_def)
  have db5: "page_db s5 = page_db s3" by (simp add: s5_def s4_def)
  have ls5: "lists s5 z' k' = lists s2 z' k'" for z' k' by (simp add: s5_def s4_def s3_def set_ord_def)
  have "pmm_core s3 M (insert b A)" unfolding s3_def by (rule core_flag[OF s2(2)]) simp
  then have core5: "pmm_core s5 M (insert b A)"
    using core_cong(1)[of s5 s3] db5 ls5 by (simp add: s3_def set_ord_def)
  have A: "page_db s5 a = page_db s a" if "a \<in> A" for a
    using that t(5) s2(5) by (auto simp: db5 s3_def set_ord_def s1_def)
  have fp: "free_pages s5 z' + (if z' = ?z then 2 ^ ?o else 0) = free_pages s z'" for z'
    using s2(4)[of z'] t(6)[of z'] unfolding free_pages_def ls5 by (simp split: if_splits)
  have cnt: "counted s5"
    unfolding counted_def
  proof
    fix z'
    have "free_page_count (zones s5 z') = free_page_count (zones s z') - (if z' = ?z then of_nat (2 ^ ?o) else 0)"
      using s2(6) by (simp add: s5_def s4_def s3_def set_ord_def s1_def PMM_ORDER_TO_PAGECOUNT_def)
    moreover have "free_page_count (zones s z') = of_nat (free_pages s z')" using inv by (simp add: pmm_inv_def counted_def)
    moreover have "free_pages s z' = free_pages s5 z' + (if z' = ?z then 2 ^ ?o else 0)" using fp[of z'] by simp
    ultimately show "free_page_count (zones s5 z') = of_nat (free_pages s5 z')" by (cases "z' = ?z") simp_all
  qed
  have "coalesced s5" using s2(3) coalesced_cong[of s5 s2] ls5 by (simp add: db5 s3_def set_ord_def)
  moreover have "\<forall>a \<in> insert b A. \<not> blk_free (page_db s5 a)"
    using A inv by (auto simp: pmm_inv_def) (simp add: db5 s3_def)
  ultimately have inv5: "pmm_inv s5 M (insert b A)" using core5 cnt by (simp add: pmm_inv_def)
  have "ord s5 b = ord (set_ord b ?o s2) b" by (simp add: db5 s3_def)
  then have o5: "ord s5 b = ?o" using set_ord_simps(1)[OF o7] by simp
  have mem: "phys_mem s5 = (if flags AND PMM_FLAG_ZERO \<noteq> 0 then
      (\<lambda>a. if BLOCK_PADDR b \<le> a \<and> a < BLOCK_PADDR b + 2 ^ ?o * ARCH_PAGE_GRANULARITY then 0 else phys_mem s a) else phys_mem s)"
  proof -
    have "phys_mem s4 = phys_mem s" using s2(7) by (simp add: s4_def s3_def set_ord_def s1_def)
    then show ?thesis by (auto simp: s5_def mem_clear_phys_def PMM_ORDER_TO_PAGECOUNT_def fun_eq_iff)
  qed
  have out: "\<not> (BLOCK_PADDR b \<le> a \<and> a < BLOCK_PADDR b + 2 ^ ?o * ARCH_PAGE_GRANULARITY)" if "PAGE a \<notin> block_pages s5 b" for a
    using that page_in_block[of b a ?o] by (simp add: block_pages_def o5)
  show ?thesis
    using al inv5 t(5,3) o5 A fp[of ?z] out by (intro exI[of _ s5] exI[of _ b]) (auto simp: mem zeroed_def)
qed

section \<open>Freeing\<close>

text \<open>One round of the merging loop: the free buddy leaves its list and the two blocks become one.\<close>

lemma merge_round:
  assumes core: "pmm_core s M (insert b A)" and b: "b \<notin> A" "zone_of b = z" "ord s b = k" "k < max_ord s b"
    and flags: "\<forall>a \<in> A. \<not> blk_free (page_db s a)"
    and B: "B = b XOR 2 ^ k" "blk_free (page_db s B)" "ord s B = k" and co: "coalesced s"
  defines "s1 \<equiv> set_list z k (remove1 B (lists s z k)) s"
  defines "s3 \<equiv> upd_block b (\<lambda>h. h\<lparr>blk_order := blk_order h + 1\<rparr>) (upd_block B (\<lambda>h. h\<lparr>blk_order := blk_order h + 1\<rparr>) s1)"
  defines "lo \<equiv> (if B < b then B else b)"
  shows "B \<in> set (lists s z k)" "pmm_core s3 M (insert lo A)" "lo \<notin> A" "zone_of lo = z" "coalesced s3"
    "\<And>a. a \<in> A \<Longrightarrow> page_db s3 a = page_db s a" "ord s3 lo = Suc k"
proof -
  have bh: "b \<in> heads s (insert b A)" by (simp add: heads_def)
  have ne: "B \<noteq> b" using B(1) by simp
  have "B \<in> heads s (insert b A)" using buddy_head(1)[OF core bh] b(3,4) B(1) by simp
  moreover have BA: "B \<notin> A" using flags B(2) by blast
  ultimately obtain z' k' where Bl: "B \<in> set (lists s z' k')" using ne by (auto simp: heads_def)
  have zB: "zone_of B = z" using buddy_geo(3)[OF core bh b(4)] B(1) b(2) by simp
  have "z' = z" "k' = k" using core_listD(3,4)[OF core Bl] zB B(3) by simp_all
  with Bl show Bin: "B \<in> set (lists s z k)" by simp
  have core1: "pmm_core s1 M (insert B (insert b A))" unfolding s1_def by (rule core_take[OF core Bin])
  have k: "Suc k \<le> PMM_MAX_ORDER" using b(4) finite_order(2)[of s b] by simp
  have o1: "ord s1 b = k" "ord s1 B = k" "max_ord s1 b = max_ord s b" using b(3) B(3) by (simp_all add: s1_def)
  have mB: "max_ord s1 B = max_ord s b" using buddy_geo(2)[OF core bh b(4)] B(1) by (simp add: s1_def)
  have inc: "blk_order (page_db s1 x) + 1 = of_nat (Suc k)" if "x = b \<or> x = B" for x
  proof -
    have "ord s1 x = k" using that o1 by blast
    moreover have "of_nat (ord s1 x) = blk_order (page_db s1 x)" by simp
    ultimately show ?thesis by (metis add.commute of_nat_Suc)
  qed
  have db: "page_db s3 = page_db (set_ord b (Suc k) (set_ord B (Suc k) s1))"
    "page_db s3 = page_db (set_ord B (Suc k) (set_ord b (Suc k) s1))"
    using ne inc by (auto simp: s3_def set_ord_def fun_eq_iff)
  have ls: "lists s3 z k = lists s1 z k" for z k by (simp add: s3_def)
  show "pmm_core s3 M (insert lo A)"
  proof (cases "b < B")
    case True
    then have "pmm_core (set_ord b (Suc k) (set_ord B (Suc k) s1)) M (insert B (insert b A) - {B})"
      using core1 o1 b(4) B(1) by (intro core_merge_lo) simp_all
    moreover have "insert B (insert b A) - {B} = insert lo A" using True BA ne by (auto simp: lo_def)
    ultimately show ?thesis using core_cong(1)[OF db(1)] ls by (simp add: set_ord_def)
  next
    case False
    then have lt: "B < b" using ne by simp
    have "b = B XOR 2 ^ k" using B(1) by simp
    then have "pmm_core (set_ord B (Suc k) (set_ord b (Suc k) s1)) M (insert B (insert b A) - {b})"
      using core1 o1 mB b(4) lt by (intro core_merge_lo) simp_all
    moreover have "insert B (insert b A) - {b} = insert lo A" using lt b(1) ne by (auto simp: lo_def)
    ultimately show ?thesis using core_cong(1)[OF db(2)] ls by (simp add: set_ord_def)
  qed
  show "lo \<notin> A" "zone_of lo = z" using BA b(1,2) zB by (simp_all add: lo_def)
  have "set (lists s1 z' k') \<subseteq> set (lists s z' k')" for z' k' using set_remove1_subset[of B "lists s z k"] by (auto simp: s1_def)
  then have "coalesced s1" using co unfolding coalesced_def by (fastforce simp: s1_def)
  then show "coalesced s3" using coalesced_cong[of s3 s1] ls by (simp add: s3_def)
  show "page_db s3 a = page_db s a" if "a \<in> A" for a
    using that BA b(1) by (auto simp: s3_def s1_def)
  show "ord s3 lo = Suc k" using k ne unfolding db(1) by (simp add: lo_def)
qed

lemma pmm_merge_correct:
  assumes "pmm_core s M (insert b A)" "b \<notin> A" "zone_of b = z" "blk_free (page_db s b)"
    "\<forall>a \<in> A. \<not> blk_free (page_db s a)" "coalesced s"
  shows "\<exists>s' b'. pmm_merge z b s = Some (s', b') \<and> pmm_core s' M (insert b' A) \<and> b' \<notin> A \<and> zone_of b' = z \<and>
    blk_free (page_db s' b') \<and> coalesced s' \<and> (\<forall>a \<in> A. page_db s' a = page_db s a) \<and>
    (ord s' b' < max_ord s' b' \<longrightarrow> b' XOR 2 ^ ord s' b' \<notin> set (lists s' z (ord s' b'))) \<and>
    (\<forall>z'. free_pages s' z' + (if z' = z then 2 ^ ord s' b' else 0) = free_pages s z' + (if z' = z then 2 ^ ord s b else 0)) \<and>
    (\<forall>z'. free_page_count (zones s' z') = free_page_count (zones s z')) \<and> phys_mem s' = phys_mem s"
  using assms
proof (induction z b s rule: pmm_merge.induct)
  case (1 z b s)
  note prems = "1.prems"
  let ?B = "b XOR 2 ^ ord s b"
  show ?case
  proof (cases "ord s b < max_ord s b \<and> blk_free (page_db s ?B) \<and> ord s ?B = ord s b")
    case False
    have bh: "b \<in> heads s (insert b A)" by (simp add: heads_def)
    have ret: "pmm_merge z b s = Some (s, b)"
      using False by (auto simp: pmm_merge.simps[of z b s] buddy_of_eq word_less_nat_alt word_unat_eq_iff Let_def)
    have "?B \<notin> set (lists s z (ord s b))" if "ord s b < max_ord s b"
      using False that core_listD(4,5)[OF prems(1), of ?B z "ord s b"] by blast
    with ret prems show ?thesis by (intro exI[of _ s] exI[of _ b]) auto
  next
    case True
    define k where "k = ord s b"
    define B where "B = ?B"
    define s1 where "s1 = set_list z k (remove1 B (lists s z k)) s"
    define s2 where "s2 = upd_block B (\<lambda>h. h\<lparr>blk_order := blk_order h + 1\<rparr>) s1"
    define s3 where "s3 = upd_block b (\<lambda>h. h\<lparr>blk_order := blk_order h + 1\<rparr>) s2"
    define lo where "lo = (if B < b then B else b)"
    have B: "B = b XOR 2 ^ k" "blk_free (page_db s B)" "ord s B = k" "k < max_ord s b" "buddy_of s b = B" "ord s b = k"
      using True by (simp_all add: B_def k_def buddy_of_eq)
    note mr = merge_round[OF prems(1,2,3) B(6,4) prems(5) B(1,2,3) prems(6)]
    have mr: "B \<in> set (lists s z k)" "pmm_core s3 M (insert lo A)" "lo \<notin> A" "zone_of lo = z" "coalesced s3"
      "\<And>a. a \<in> A \<Longrightarrow> page_db s3 a = page_db s a" "ord s3 lo = Suc k"
      unfolding s3_def s2_def s1_def lo_def by (fact mr)+
    have bh: "b \<in> heads s (insert b A)" by (simp add: heads_def)
    have bB: "blk_order (page_db s B) = blk_order (page_db s b)" using B(3,6) by (simp add: word_unat_eq_iff)
    have nm: "blk_order (page_db s B) \<noteq> blk_max_order (page_db s B)"
      using buddy_geo(2)[OF prems(1) bh B(4)] B(1,3,4) by (auto simp: word_unat_eq_iff)
    have lt: "blk_order (page_db s b) < blk_max_order (page_db s b)" using B(4,6) by (simp add: word_less_nat_alt)
    have del: "seq_delete (lists s z k) B = Some (remove1 B (lists s z k))" using mr(1) by (simp add: seq_delete_def)
    have blt: "BLOCK_PADDR B < BLOCK_PADDR b \<longleftrightarrow> B < b" by (simp add: BLOCK_PADDR_def ARCH_PAGE_GRANULARITY_def)
    have step: "pmm_merge z b s = pmm_merge z lo s3"
      using lt nm bB B(2,5,6) del unfolding pmm_merge.simps[of z b s] s3_def s2_def s1_def lo_def
      by (simp add: Let_def blt)
    have frlo: "blk_free (page_db s3 lo)" using prems(4) B(2) by (simp add: s3_def s2_def s1_def lo_def)
    have fl: "\<forall>a \<in> A. \<not> blk_free (page_db s3 a)" using mr(6) prems(5) by simp
    have cond: "\<not> (\<not> blk_free (page_db s B) \<or> blk_order (page_db s B) = blk_max_order (page_db s B) \<or>
        blk_order (page_db s B) \<noteq> blk_order (page_db s b))" using B(2) nm bB by simp
    have loE: "(if BLOCK_PADDR B < BLOCK_PADDR b then B else b) = lo" by (simp add: blt lo_def)
    have dl: "seq_delete (lists s z (ord s b)) B = Some (remove1 B (lists s z k))" using del B(6) by simp
    have s1': "s1 = set_list z (ord s b) (remove1 B (lists s z k)) s" by (simp add: s1_def B(6))
    from "1.IH"[OF lt B(5)[symmetric] refl cond dl s1' s2_def s3_def, unfolded loE, OF mr(2,3,4) frlo fl mr(5)]
    obtain s' b' where r: "pmm_merge z lo s3 = Some (s', b')" "pmm_core s' M (insert b' A)" "b' \<notin> A" "zone_of b' = z"
      "blk_free (page_db s' b')" "coalesced s'" "\<forall>a \<in> A. page_db s' a = page_db s3 a"
      "ord s' b' < max_ord s' b' \<longrightarrow> b' XOR 2 ^ ord s' b' \<notin> set (lists s' z (ord s' b'))"
      "\<And>z'. free_pages s' z' + (if z' = z then 2 ^ ord s' b' else 0) = free_pages s3 z' + (if z' = z then 2 ^ ord s3 lo else 0)"
      "\<forall>z'. free_page_count (zones s' z') = free_page_count (zones s3 z')" "phys_mem s' = phys_mem s3" by blast
    have fp: "free_pages s3 z' + (if z' = z then 2 ^ k else 0) = free_pages s z'" for z'
    proof -
      have "k \<le> PMM_MAX_ORDER" using B(3) finite_order(1) by metis
      note e = free_pages_set_list[OF this, of z "remove1 B (lists s z k)" s z', folded s1_def]
      have "length (lists s z k) = Suc (length (remove1 B (lists s z k)))"
        using mr(1) by (simp add: length_remove1) (metis Suc_pred length_pos_if_in_set)
      then have "free_pages s1 z' + (if z' = z then 2 ^ k else 0) = free_pages s z'"
        using e by (cases "z' = z") (simp_all add: algebra_simps)
      moreover have "free_pages s3 z' = free_pages s1 z'" by (simp add: free_pages_def s3_def s2_def)
      ultimately show ?thesis by simp
    qed
    have "free_pages s' z' + (if z' = z then 2 ^ ord s' b' else 0) = free_pages s z' + (if z' = z then 2 ^ ord s b else 0)" for z'
      using r(9)[of z'] fp[of z'] mr(7) B(6) by (simp split: if_splits)
    moreover have "\<forall>a \<in> A. page_db s' a = page_db s a" using r(7) mr(6) by simp
    moreover have "\<forall>z'. free_page_count (zones s' z') = free_page_count (zones s z')" "phys_mem s' = phys_mem s"
      using r(10,11) by (simp_all add: s3_def s2_def s1_def)
    ultimately show ?thesis using step r(1-6,8) by auto
  qed
qed

lemma pmm_free_inv:
  assumes inv: "pmm_inv s M (insert b A)" and nb: "b \<notin> A"
  shows "\<exists>s'. pmm_free b s = Some s' \<and> pmm_inv s' M A \<and> (\<forall>a \<in> A. page_db s' a = page_db s a) \<and>
    (\<forall>z'. free_pages s' z' = free_pages s z' + (if z' = zone_of b then 2 ^ ord s b else 0)) \<and> phys_mem s' = phys_mem s"
proof -
  let ?z = "zone_of b"
  have core: "pmm_core s M (insert b A)" and fl: "\<forall>a \<in> insert b A. \<not> blk_free (page_db s a)"
    and co: "coalesced s" and cnt: "counted s" using inv by (simp_all add: pmm_inv_def)
  define s1 where "s1 = upd_zone ?z (\<lambda>zn. zn\<lparr>free_page_count := free_page_count zn + of_nat (PMM_ORDER_TO_PAGECOUNT (ord s b))\<rparr>) s"
  define s2 where "s2 = upd_block b (\<lambda>h. h\<lparr>blk_free := True\<rparr>) s1"
  have ls1: "lists s1 z' k' = lists s z' k'" for z' k' by (simp add: s1_def)
  have "pmm_core s1 M (insert b A)" using core core_cong(1)[of s1 s] ls1 by (simp add: s1_def)
  then have core2: "pmm_core s2 M (insert b A)" unfolding s2_def by (rule core_flag) simp
  have co2: "coalesced s2" using co coalesced_cong[of s2 s] by (simp add: s2_def s1_def)
  have fl2: "\<forall>a \<in> A. \<not> blk_free (page_db s2 a)" using fl nb by (auto simp: s2_def s1_def)
  have fr2: "blk_free (page_db s2 b)" by (simp add: s2_def)
  from pmm_merge_correct[OF core2 nb refl fr2 fl2 co2] obtain s3 c where
    r: "pmm_merge ?z b s2 = Some (s3, c)" "pmm_core s3 M (insert c A)" "c \<notin> A" "zone_of c = ?z" "blk_free (page_db s3 c)"
      "coalesced s3" "\<forall>a \<in> A. page_db s3 a = page_db s2 a"
      "ord s3 c < max_ord s3 c \<longrightarrow> c XOR 2 ^ ord s3 c \<notin> set (lists s3 ?z (ord s3 c))"
      "\<And>z'. free_pages s3 z' + (if z' = ?z then 2 ^ ord s3 c else 0) = free_pages s2 z' + (if z' = ?z then 2 ^ ord s2 b else 0)"
      "\<forall>z'. free_page_count (zones s3 z') = free_page_count (zones s2 z')" "phys_mem s3 = phys_mem s2" by blast
  define k where "k = ord s3 c"
  define s4 where "s4 = set_list ?z k (c # lists s3 ?z k) s3"
  note gv = core_give[OF r(2) insertI1 r(5,4) k_def[symmetric]]
  have fr: "pmm_free b s = Some s4"
    using r(1) gv(1) by (simp add: pmm_free_def s1_def[symmetric] s2_def[symmetric] seq_push_def k_def s4_def Let_def)
  have core4: "pmm_core s4 M A" using gv(2) r(3) by (simp add: s4_def)
  have co4: "coalesced s4"
    unfolding s4_def using coalesced_give[OF r(2,6) insertI1 r(4) k_def[symmetric]] r(8) k_def by simp
  have A: "\<forall>a \<in> A. page_db s4 a = page_db s a" using r(7) nb by (auto simp: s4_def s2_def s1_def)
  have "k \<le> PMM_MAX_ORDER" by (simp add: k_def finite_order)
  have fp: "free_pages s4 z' = free_pages s z' + (if z' = ?z then 2 ^ ord s b else 0)" for z'
  proof -
    have "free_pages s2 z' = free_pages s z'" by (simp add: free_pages_def s2_def s1_def)
    moreover have "ord s2 b = ord s b" by (simp add: s2_def s1_def)
    ultimately show ?thesis
      using free_pages_set_list[OF \<open>k \<le> PMM_MAX_ORDER\<close>, of ?z "c # lists s3 ?z k" s3 z', folded s4_def]
        r(9)[of z', folded k_def] by (cases "z' = ?z") simp_all
  qed
  have "counted s4"
    unfolding counted_def
  proof
    fix z'
    have "free_page_count (zones s4 z') = free_page_count (zones s z') + (if z' = ?z then of_nat (2 ^ ord s b) else 0)"
      using r(10) by (simp add: s4_def s2_def s1_def PMM_ORDER_TO_PAGECOUNT_def)
    then show "free_page_count (zones s4 z') = of_nat (free_pages s4 z')"
      using cnt fp[of z'] by (cases "z' = ?z") (simp_all add: counted_def)
  qed
  with core4 co4 A fl have "pmm_inv s4 M A" by (simp add: pmm_inv_def)
  moreover have "phys_mem s4 = phys_mem s" using r(11) by (simp add: s4_def s2_def s1_def)
  ultimately show ?thesis using fr A fp by auto
qed

end
