(* ===== verification/PmmRegion.thy ===== *)
theory PmmRegion
  imports PmmInv
begin

text \<open>
  Order computation and region registration of the physical memory manager: \<open>pagecount_to_order\<close> is
  the rounded up binary logarithm, and \<^verbatim>\<open>pmm_region_add\<close> extends the invariant of theory \<open>PmmInv\<close> by
  the pages of the region, each an allocated block of order 0 that \<^verbatim>\<open>pmm_free\<close> can then release.
\<close>

section \<open>Orders\<close>

lemma bit_unat: "bit (w :: 'a :: len word) i \<longleftrightarrow> bit (unat w) i"
  by (simp add: bit_unsigned_iff bit_imp_le_length)

lemma top_bit: "x < 2 ^ Suc n \<Longrightarrow> bit (x :: nat) n \<longleftrightarrow> 2 ^ n \<le> x"
proof -
  assume "x < 2 ^ Suc n"
  then have "x div 2 ^ n < 2" by (simp add: div_less_iff_less_mult)
  then have "odd (x div 2 ^ n) \<longleftrightarrow> x div 2 ^ n \<noteq> 0" by (auto simp: less_2_cases_iff)
  then show ?thesis by (simp add: bit_iff_odd div_eq_0_iff not_less)
qed

lemma leading_zeros:
  fixes x :: nat
  assumes "x < 2 ^ n"
  shows "x < 2 ^ (n - length (takeWhile (\<lambda>i. \<not> bit x i) (rev [0..<n])))"
    and "x \<noteq> 0 \<Longrightarrow> 2 ^ (n - length (takeWhile (\<lambda>i. \<not> bit x i) (rev [0..<n]))) \<le> 2 * x"
  using assms
proof (induction n)
  case (Suc n)
  {
    case 1
    then show ?case using Suc.IH(1) top_bit[of x n] by (cases "bit x n") (simp_all del: power_Suc)
  next
    case 2
    then show ?case using Suc.IH(2) top_bit[of x n] by (cases "bit x n") (simp, simp del: power_Suc)
  }
qed simp_all

lemma clzll_bounds:
  assumes "w \<noteq> 0"
  shows "unat w < 2 ^ (64 - clzll w)" "2 ^ (64 - clzll w) \<le> 2 * unat w" "clzll w < 64"
proof -
  have "unat w < 2 ^ 64" using unsigned_less[of w, where 'a = nat] by simp
  note lz = leading_zeros[OF this, folded bit_unat]
  show "unat w < 2 ^ (64 - clzll w)" "2 ^ (64 - clzll w) \<le> 2 * unat w"
    using lz assms by (simp_all add: clzll_def unat_eq_zero)
  then show "clzll w < 64" using assms by (cases "clzll w < 64") (simp_all add: unat_eq_zero)
qed

lemma pagecount_to_order_ceil:
  assumes "pages \<noteq> 0"
  shows "unat pages \<le> 2 ^ unat (pagecount_to_order pages)"
    and "unat (pagecount_to_order pages) \<noteq> 0 \<Longrightarrow> 2 ^ (unat (pagecount_to_order pages) - 1) < unat pages"
    and "unat (pagecount_to_order pages) \<le> 64"
proof -
  have *: "unat pages \<le> 2 ^ unat (pagecount_to_order pages) \<and>
      (unat (pagecount_to_order pages) \<noteq> 0 \<longrightarrow> 2 ^ (unat (pagecount_to_order pages) - 1) < unat pages) \<and>
      unat (pagecount_to_order pages) \<le> 64"
  proof (cases "pages = 1")
    case True
    then show ?thesis by (simp add: pagecount_to_order_def)
  next
    case False
    then have nz: "pages - 1 \<noteq> 0" by simp
    note cb = clzll_bounds[OF nz]
    have p: "unat pages = Suc (unat (pages - 1))" using assms by (simp add: unat_minus_one unat_gt_0)
    have o: "unat (pagecount_to_order pages) = 64 - clzll (pages - 1)"
      using False by (simp add: pagecount_to_order_def unat_of_nat)
    have "2 ^ (64 - clzll (pages - 1)) = (2 :: nat) * 2 ^ (64 - clzll (pages - 1) - 1)"
      using cb(3) by (metis Suc_diff_Suc diff_Suc_1 power_Suc zero_less_diff Suc_pred)
    then have "2 ^ (64 - clzll (pages - 1) - 1) \<le> unat (pages - 1)" using cb(2) by linarith
    then show ?thesis using cb p unfolding o by simp
  qed
  then show "unat pages \<le> 2 ^ unat (pagecount_to_order pages)" "unat (pagecount_to_order pages) \<le> 64"
    "unat (pagecount_to_order pages) \<noteq> 0 \<Longrightarrow> 2 ^ (unat (pagecount_to_order pages) - 1) < unat pages" by blast+
qed

section \<open>Adding one aligned block\<close>

definition with_block :: "nat \<Rightarrow> nat set \<Rightarrow> pmm \<Rightarrow> pmm" where
  "with_block order B s = s\<lparr>page_db := (\<lambda>p. if p \<in> B
     then (page_db s p)\<lparr>blk_order := 0, blk_max_order := of_nat order, blk_free := False\<rparr> else page_db s p)\<rparr>"

lemma init_pages_allocated: "init_pages z order False ps s = Some (with_block order (set ps) s)"
proof (induction ps arbitrary: s)
  case Nil
  then show ?case by (simp add: with_block_def)
next
  case (Cons p ps)
  have "with_block order (set ps) (upd_block p (\<lambda>b. b\<lparr>blk_order := 0, blk_max_order := of_nat order, blk_free := False\<rparr>) s)
      = with_block order (set (p # ps)) s"
    by (auto simp: with_block_def upd_block_def fun_eq_iff)
  with Cons show ?case by (simp add: init_page_def)
qed

lemma with_block_simps [simp]:
  "zones (with_block order B s) = zones s" "phys_mem (with_block order B s) = phys_mem s"
  "p \<notin> B \<Longrightarrow> page_db (with_block order B s) p = page_db s p"
  "p \<in> B \<Longrightarrow> ord (with_block order B s) p = 0"
  "p \<in> B \<Longrightarrow> order \<le> PMM_MAX_ORDER \<Longrightarrow> max_ord (with_block order B s) p = order"
  "p \<in> B \<Longrightarrow> \<not> blk_free (page_db (with_block order B s) p)"
  by (simp_all add: with_block_def order_of_nat)

lemma inv_add_block:
  assumes inv: "pmm_inv s M A" and k: "k \<le> PMM_MAX_ORDER" "2 ^ k dvd p" and B: "B = {p ..< p + 2 ^ k}" "B \<inter> M = {}"
    and zn: "\<And>q. q \<in> B \<Longrightarrow> zone_of q = zone_of p"
  shows "pmm_inv (with_block k B s) (M \<union> B) (A \<union> B)"
proof -
  let ?s = "with_block k B s"
  have core: "pmm_core s M A" using inv by (simp add: pmm_inv_def)
  have M: "page_db ?s q = page_db s q" if "q \<in> M" for q using that B(2) by (intro with_block_simps(3)) blast
  have Bq: "q \<in> B \<longleftrightarrow> q div 2 ^ k = p div 2 ^ k" for q unfolding B(1) by (rule aligned_interval[OF k(2)])
  have lM: "q \<in> M" if "q \<in> set (lists s z i)" for q z i using core_listD(1)[OF core that] .
  have hd: "heads ?s (A \<union> B) = heads s A \<union> B" by (auto simp: heads_def)
  have hM: "h \<in> M" if "h \<in> heads s A" for h using core_head(1)[OF core that] .
  have cov: "covers ?s h q = covers s h q" if "h \<in> heads s A" for h q using M[OF hM[OF that]] by (simp add: covers_def)
  have covB: "covers ?s h q \<longleftrightarrow> q = h" if "h \<in> B" for h q using that by (auto simp: covers_def)
  have covM: "q \<in> M" if "h \<in> heads s A" "covers s h q" for h q
    using geo_same[OF coreD(1)[OF core] core_head(1,2)[OF core that(1)]] that(2) unfolding covers_def by blast
  have "geo ?s (M \<union> B)"
    unfolding geo_def
  proof (intro ballI allI impI)
    fix x q assume x: "x \<in> M \<union> B" and q: "q div 2 ^ max_ord ?s x = x div 2 ^ max_ord ?s x"
    show "q \<in> M \<union> B \<and> max_ord ?s q = max_ord ?s x \<and> zone_of q = zone_of x"
    proof (cases "x \<in> B")
      case True
      then have "q \<in> B" using q k(1) Bq by simp
      then show ?thesis using True k(1) zn[of q] zn[of x] by simp
    next
      case False
      then have "x \<in> M" using x by simp
      then have "q \<in> M \<and> max_ord s q = max_ord s x \<and> zone_of q = zone_of x"
        using geo_same[OF coreD(1)[OF core], of x "max_ord s x" q] q M[of x] by simp
      then show ?thesis using M[of q] M[of x] \<open>x \<in> M\<close> by simp
    qed
  qed
  moreover have "lists_ok ?s (M \<union> B) (A \<union> B)"
    unfolding lists_ok_def with_block_simps
  proof (intro allI conjI ballI)
    fix z i q assume q: "q \<in> set (lists s z i)"
    note qD = core_listD[OF core q]
    show "q \<in> M \<union> B" "q \<notin> A \<union> B" "zone_of q = z" "ord ?s q = i" "blk_free (page_db ?s q)"
      using qD M[OF qD(1)] B(2) by auto
  qed (use coreD(3)[OF core] in \<open>simp add: lists_ok_def\<close>)
  moreover have "ord ?s h \<le> max_ord ?s h \<and> 2 ^ ord ?s h dvd h" if "h \<in> heads s A \<union> B" for h
    using that core_head(2,3)[OF core, of h] M[OF hM, of h] by (cases "h \<in> B") auto
  moreover have "\<exists>!h. h \<in> heads s A \<union> B \<and> covers ?s h q" if "q \<in> M \<union> B" for q
  proof (cases "q \<in> B")
    case True
    show ?thesis
    proof (rule ex1I[of _ q])
      show "q \<in> heads s A \<union> B \<and> covers ?s q q" using True covB by simp
      fix h assume h: "h \<in> heads s A \<union> B \<and> covers ?s h q"
      show "h = q"
      proof (cases "h \<in> B")
        case False
        then have "q \<in> M" using h cov[of h q] covM[of h q] by simp
        then show ?thesis using True B(2) by blast
      qed (use h covB in simp)
    qed
  next
    case False
    then have "q \<in> M" using that by blast
    from coreD(4)[OF core this] have ex: "\<exists>!h. h \<in> heads s A \<and> covers s h q" .
    have "(h \<in> heads s A \<union> B \<and> covers ?s h q) = (h \<in> heads s A \<and> covers s h q)" for h
      using covB[of h q] cov[of h q] False by blast
    with ex show ?thesis by presburger
  qed
  moreover have "A \<union> B \<subseteq> M \<union> B" using coreD(2)[OF core] by blast
  ultimately have "pmm_core ?s (M \<union> B) (A \<union> B)" unfolding pmm_core_def hd by meson
  moreover have "\<forall>a \<in> A \<union> B. \<not> blk_free (page_db ?s a)"
  proof
    fix a assume "a \<in> A \<union> B"
    then show "\<not> blk_free (page_db ?s a)"
      using inv coreD(2)[OF core] M[of a] by (cases "a \<in> B") (auto simp: pmm_inv_def)
  qed
  moreover have "coalesced ?s"
    unfolding coalesced_def
  proof (intro allI ballI impI)
    fix z i q assume q: "q \<in> set (lists ?s z i)" "i < max_ord ?s q"
    then have "q \<in> set (lists s z i)" by simp
    with q inv M[OF lM[OF this]] show "q XOR 2 ^ i \<notin> set (lists ?s z i)" by (simp add: pmm_inv_def coalesced_def)
  qed
  moreover have "counted ?s" using inv by (simp add: pmm_inv_def counted_def free_pages_def)
  ultimately show ?thesis by (simp add: pmm_inv_def)
qed

section \<open>The loop over a region\<close>

lemma reduce_order_Some: "reduce_order P n = Some i \<Longrightarrow> i \<le> n \<and> \<not> P i"
  by (induction n) (auto split: if_splits)

lemma reduce_order_ex: "\<not> P 0 \<Longrightarrow> \<exists>i. reduce_order P n = Some i"
  by (induction n) auto

lemma and_low_bits: "x AND (2 ^ k * 2 ^ m - 1) = (0 :: nat) \<longleftrightarrow> 2 ^ (k + m) dvd x"
  unfolding power_add[symmetric] mask_eq_exp_minus_1[symmetric] take_bit_eq_mask[symmetric] take_bit_eq_0_iff ..

lemma region_order_correct:
  assumes "lb = off * ARCH_PAGE_GRANULARITY" "j < n"
  shows "\<exists>k. region_order lb n j = Some k \<and> k \<le> PMM_MAX_ORDER \<and> 2 ^ k \<le> n - j \<and> 2 ^ k dvd off + j"
proof -
  define k0 where "k0 = (let k = unat (pagecount_to_order (of_nat (n - j))) in if k > PMM_MAX_ORDER then PMM_MAX_ORDER else k)"
  let ?fit = "\<lambda>i. PMM_ORDER_TO_PAGECOUNT i > n - j"
  let ?al = "\<lambda>i. (lb + j * ARCH_PAGE_GRANULARITY) AND (PMM_ORDER_TO_PAGECOUNT i * ARCH_PAGE_GRANULARITY - 1) \<noteq> 0"
  have al: "?al i \<longleftrightarrow> \<not> 2 ^ i dvd off + j" for i
  proof -
    have "2 ^ (i + 12) dvd (off + j) * 2 ^ 12 \<longleftrightarrow> 2 ^ i dvd off + j"
      unfolding power_add by (rule dvd_times_right_cancel_iff) simp
    then show ?thesis
      using and_low_bits[of "(off + j) * 2 ^ 12" i 12] assms(1)
      by (simp add: PMM_ORDER_TO_PAGECOUNT_def ARCH_PAGE_GRANULARITY_def add_mult_distrib del: dvd_times_right_cancel_iff)
  qed
  obtain k1 where k1: "reduce_order ?fit k0 = Some k1"
    using reduce_order_ex[of ?fit k0] assms(2) by (auto simp: PMM_ORDER_TO_PAGECOUNT_def)
  obtain k2 where k2: "reduce_order ?al k1 = Some k2" using reduce_order_ex[of ?al k1] al[of 0] by auto
  have le: "k2 \<le> k1" "2 ^ k1 \<le> n - j" "2 ^ k2 dvd off + j" "k1 \<le> k0"
    using reduce_order_Some[OF k1] reduce_order_Some[OF k2] al[of k2] by (auto simp: PMM_ORDER_TO_PAGECOUNT_def)
  have "(2 :: nat) ^ k2 \<le> 2 ^ k1" using le(1) by simp
  moreover have "k0 \<le> PMM_MAX_ORDER" by (simp add: k0_def Let_def)
  moreover have "region_order lb n j = Some k2"
    using k1 k2 by (simp add: region_order_def k0_def Let_def)
  ultimately show ?thesis using le by (intro exI[of _ k2]) linarith
qed

lemma region_loop_correct:
  assumes "pmm_inv s M A" "{off + j ..< off + n} \<inter> M = {}" "lb = off * ARCH_PAGE_GRANULARITY"
    "\<forall>q \<in> {off + j ..< off + n}. zone_of q = z"
  shows "\<exists>s'. region_loop z lb off n False j s = Some s' \<and>
    pmm_inv s' (M \<union> {off + j ..< off + n}) (A \<union> {off + j ..< off + n})"
  using assms
proof (induction z lb off n False j s arbitrary: M A rule: region_loop.induct)
  case (1 z lb off n j s)
  note prems = "1.prems"
  show ?case
  proof (cases "j < n")
    case True
    obtain k where k: "region_order lb n j = Some k" "k \<le> PMM_MAX_ORDER" "2 ^ k \<le> n - j" "2 ^ k dvd off + j"
      using region_order_correct[OF prems(3) True] by blast
    define B where "B = {off + j ..< off + j + 2 ^ k}"
    have set: "set (map (\<lambda>y. off + j + y) [0..<PMM_ORDER_TO_PAGECOUNT k]) = B"
      by (auto simp: B_def PMM_ORDER_TO_PAGECOUNT_def image_iff Bex_def)
    have init: "init_pages z k False (map (\<lambda>y. off + j + y) [0..<PMM_ORDER_TO_PAGECOUNT k]) s = Some (with_block k B s)"
      unfolding init_pages_allocated set ..
    have sub: "B \<subseteq> {off + j ..< off + n}" using k(3) True by (auto simp: B_def)
    have split: "{off + j ..< off + n} = B \<union> {off + (j + 2 ^ k) ..< off + n}"
      using k(3) True by (auto simp: B_def)
    have disj: "B \<inter> {off + (j + 2 ^ k) ..< off + n} = {}" by (auto simp: B_def)
    have inv: "pmm_inv (with_block k B s) (M \<union> B) (A \<union> B)"
    proof (rule inv_add_block[OF prems(1) k(2,4) B_def])
      show "B \<inter> M = {}" using sub prems(2) by blast
      show "zone_of q = zone_of (off + j)" if "q \<in> B" for q
        using prems(4) sub that True by auto
    qed
    have "\<exists>s'. region_loop z lb off n False (j + PMM_ORDER_TO_PAGECOUNT k) (with_block k B s) = Some s' \<and>
        pmm_inv s' (M \<union> B \<union> {off + (j + 2 ^ k) ..< off + n}) (A \<union> B \<union> {off + (j + 2 ^ k) ..< off + n})"
      using "1.hyps"[OF True k(1) init inv] prems(2-4) disj unfolding split PMM_ORDER_TO_PAGECOUNT_def
      by (simp add: Int_Un_distrib Int_Un_distrib2 Int_commute)
    then show ?thesis
      using True k(1) init unfolding split by (simp add: region_loop.simps[of z lb off n False j s] Un_assoc)
  next
    case False
    then show ?thesis using prems(1) by (simp add: region_loop.simps)
  qed
qed

section \<open>Registering a region\<close>

fun zone_pages :: "zone_id \<Rightarrow> nat set" where
  "zone_pages ZONE_LOW = {1 ..< 4096}"
| "zone_pages ZONE_NORMAL = {4096 ..< 2 ^ 52 - 1}"

lemma zone_of_pages: "q \<in> zone_pages z \<Longrightarrow> zone_of q = z"
  by (cases z) (auto simp: zone_of_def BLOCK_PADDR_def ARCH_PAGE_GRANULARITY_def drop_bit_eq_div)

lemma zone_bounds:
  obtains zs ze where "zone_pages z = {zs ..< ze}" "unat (zone_start z) = zs * 4096" "unat (zone_end z) = ze * 4096" "zs < ze"
proof (cases z)
  case ZONE_LOW
  then show ?thesis using that[of 1 4096] by (simp add: ARCH_PAGE_GRANULARITY_def ARCH_MEM_LOW_SIZE_def)
next
  case ZONE_NORMAL
  have "unat (zone_end ZONE_NORMAL) = (2 ^ 52 - 1) * 4096"
  proof -
    have "zone_end ZONE_NORMAL = 18446744073709547520"
      unfolding zone_end.simps ARCH_PAGE_GRANULARITY_def of_nat_numeral by code_simp
    then show ?thesis by simp
  qed
  with ZONE_NORMAL show ?thesis
    using that[of 4096 "2 ^ 52 - 1"] by (simp add: ARCH_PAGE_GRANULARITY_def ARCH_MEM_LOW_SIZE_def)
qed

lemma region_add_zone_correct:
  assumes inv: "pmm_inv s M A" and b: "unat base = b * 4096" "unat size' = n * 4096" "b + n < 2 ^ 52"
    and P: "P = {b ..< b + n} \<inter> zone_pages z" "P \<inter> M = {}"
  shows "\<exists>s'. region_add_zone z base size' False s = Some s' \<and> pmm_inv s' (M \<union> P) (A \<union> P)"
proof -
  obtain zs ze where z: "zone_pages z = {zs ..< ze}" "unat (zone_start z) = zs * 4096" "unat (zone_end z) = ze * 4096" "zs < ze"
    by (rule zone_bounds)
  have be: "unat (base + size') = (b + n) * 4096"
    using b by (simp add: unat_word_ariths)
  have skip: "base + size' \<le> zone_start z \<or> base \<ge> zone_end z \<longleftrightarrow> b + n \<le> zs \<or> ze \<le> b"
    unfolding word_le_nat_alt be z b mult_le_cancel2 by simp
  show ?thesis
  proof (cases "b + n \<le> zs \<or> ze \<le> b")
    case True
    then have "P = {}" unfolding P z by auto
    then show ?thesis using inv skip True by (simp add: region_add_zone_def)
  next
    case False
    define lb where "lb = (if base < zone_start z then zone_start z else base)"
    define ls where "ls = (if base < zone_start z then size' - (zone_start z - base) else size')"
    define ls' where "ls' = (if lb + ls > zone_end z then zone_end z - lb else ls)"
    have bz: "base < zone_start z \<longleftrightarrow> b < zs" unfolding word_less_nat_alt z b by simp
    have lb: "unat lb = max b zs * 4096" unfolding lb_def bz using z b by simp
    have ls: "unat ls = (b + n - max b zs) * 4096"
    proof (cases "b < zs")
      case True
      have "unat (zone_start z - base) = (zs - b) * 4096"
        using True z b by (simp add: unat_sub word_le_nat_alt diff_mult_distrib)
      moreover from this have "unat (size' - (zone_start z - base)) = (n - (zs - b)) * 4096"
        using True False z b by (subst unat_sub) (auto simp: word_le_nat_alt diff_mult_distrib)
      ultimately show ?thesis using True bz by (simp add: ls_def)
    qed (use bz b in \<open>simp add: ls_def\<close>)
    have sum: "unat (lb + ls) = (b + n) * 4096"
    proof -
      have e: "unat lb + unat ls = (b + n) * 4096"
        unfolding lb ls add_mult_distrib[symmetric] using False z(4) by simp
      moreover have "(b + n) * 4096 < 2 ^ 64" using b(3) by simp
      ultimately show ?thesis using unat_add_lem[of lb ls] by simp
    qed
    have gt: "lb + ls > zone_end z \<longleftrightarrow> ze < b + n" unfolding word_less_nat_alt sum z mult_less_cancel2 by simp
    have ls': "unat ls' = (min (b + n) ze - max b zs) * 4096"
    proof (cases "ze < b + n")
      case True
      have "lb \<le> zone_end z" unfolding word_le_nat_alt lb z using False z(4) by simp
      then have "unat (zone_end z - lb) = (ze - max b zs) * 4096"
        by (simp add: unat_sub z lb diff_mult_distrib)
      then show ?thesis using True gt by (simp add: ls'_def min_def)
    qed (use gt ls in \<open>simp add: ls'_def\<close>)
    define s1 where "s1 = upd_zone z (\<lambda>zn. zn\<lparr>total_page_count := total_page_count zn + ls' div of_nat ARCH_PAGE_GRANULARITY\<rparr>) s"
    define off where "off = max b zs"
    define m where "m = min (b + n) ze - max b zs"
    have P': "P = {off + 0 ..< off + m}" unfolding P z off_def m_def using False z(4) by auto
    have inv1: "pmm_inv s1 M A"
    proof -
      have ls: "lists s1 z' k = lists s z' k" for z' k by (simp add: s1_def)
      have "free_page_count (zones s1 z') = free_page_count (zones s z')" for z' by (simp add: s1_def)
      then have "counted s1 = counted s" by (simp add: counted_def free_pages_def ls)
      moreover have "page_db s1 = page_db s" by (simp add: s1_def)
      ultimately show ?thesis using inv core_cong[of s1 s] ls by (simp add: pmm_inv_def)
    qed
    have zn: "\<forall>q \<in> {off + 0 ..< off + m}. zone_of q = z"
      unfolding P'[symmetric] P(1) using zone_of_pages by blast
    have "\<exists>s'. region_loop z (off * ARCH_PAGE_GRANULARITY) off m False 0 s1 = Some s' \<and> pmm_inv s' (M \<union> P) (A \<union> P)"
      unfolding P' by (rule region_loop_correct[OF inv1 P(2)[unfolded P'] refl zn])
    moreover have "unat (lb div of_nat ARCH_PAGE_GRANULARITY) = off" "unat (ls' div of_nat ARCH_PAGE_GRANULARITY) = m"
      using lb ls' by (simp_all add: unat_div ARCH_PAGE_GRANULARITY_def off_def m_def)
    moreover have "upd_zone z (\<lambda>zn. zn\<lparr>total_page_count := total_page_count zn + ls' div 4096\<rparr>) s = s1"
      by (simp add: s1_def ARCH_PAGE_GRANULARITY_def)
    ultimately show ?thesis
      using skip False lb unfolding region_add_zone_def lb_def[symmetric] ls_def[symmetric]
      by (simp add: Let_def ls'_def[symmetric] s1_def[symmetric] lb_def[symmetric] ls_def[symmetric] off_def ARCH_PAGE_GRANULARITY_def)
  qed
qed

definition region_pages :: "u64 \<Rightarrow> u64 \<Rightarrow> nat set" where
  "region_pages base size' = {unat base div 4096 ..< unat base div 4096 + unat size' div 4096} - {0}"

lemma pmm_region_add_inv:
  assumes inv: "pmm_inv s M A" and al: "4096 dvd unat base" "4096 dvd unat size'"
    and top: "unat base + unat size' < 2 ^ 64 - 4096" and new: "region_pages base size' \<inter> M = {}"
  shows "\<exists>s'. pmm_region_add base size' False s = Some s' \<and>
    pmm_inv s' (M \<union> region_pages base size') (A \<union> region_pages base size')"
proof -
  obtain b n where b: "unat base = b * 4096" "unat size' = n * 4096" using al by (metis dvd_def mult.commute)
  have bn: "b + n < 2 ^ 52 - 1" using top b by simp
  define P where "P z = {b ..< b + n} \<inter> zone_pages z" for z
  have un: "region_pages base size' = P ZONE_LOW \<union> P ZONE_NORMAL"
    using bn by (auto simp: region_pages_def P_def b)
  have dj: "P ZONE_NORMAL \<inter> (M \<union> P ZONE_LOW) = {}" "P ZONE_LOW \<inter> M = {}"
    using new un by (auto simp: P_def)
  have bn': "b + n < 2 ^ 52" using bn by simp
  from region_add_zone_correct[OF inv b bn' P_def dj(2)] obtain s1 where
    s1: "region_add_zone ZONE_LOW base size' False s = Some s1" "pmm_inv s1 (M \<union> P ZONE_LOW) (A \<union> P ZONE_LOW)" by blast
  from region_add_zone_correct[OF s1(2) b bn' P_def dj(1)] obtain s2 where
    s2: "region_add_zone ZONE_NORMAL base size' False s1 = Some s2"
      "pmm_inv s2 (M \<union> P ZONE_LOW \<union> P ZONE_NORMAL) (A \<union> P ZONE_LOW \<union> P ZONE_NORMAL)" by blast
  show ?thesis using s1(1) s2 unfolding un by (simp add: pmm_region_add_def Un_assoc)
qed

section \<open>From boot to a running allocator\<close>

text \<open>The static initialisation of the two zones; the page database is uninitialised memory.\<close>

definition pmm_boot :: "(nat \<Rightarrow> pmm_block) \<Rightarrow> (nat \<Rightarrow> u8) \<Rightarrow> pmm" where
  "pmm_boot db mem = \<lparr>page_db = db,
     zones = (\<lambda>_. \<lparr>zone_lists = (\<lambda>_. []), total_page_count = 0, free_page_count = 0\<rparr>), phys_mem = mem\<rparr>"

lemma pmm_boot_inv: "pmm_inv (pmm_boot db mem) {} {}"
  by (simp add: pmm_inv_def pmm_core_def geo_def lists_ok_def heads_def coalesced_def counted_def free_pages_def pmm_boot_def)

primrec pmm_free_all :: "nat list \<Rightarrow> pmm \<Rightarrow> pmm option" where
  "pmm_free_all [] s = Some s"
| "pmm_free_all (b # bs) s = do { s \<leftarrow> pmm_free b s; pmm_free_all bs s }"

lemma pmm_free_all_inv:
  assumes "pmm_inv s M (set bs \<union> A)" "distinct bs" "set bs \<inter> A = {}"
  shows "\<exists>s'. pmm_free_all bs s = Some s' \<and> pmm_inv s' M A"
  using assms
proof (induction bs arbitrary: s)
  case (Cons b bs)
  have "pmm_inv s M (insert b (set bs \<union> A))" "b \<notin> set bs \<union> A" using Cons.prems by simp_all
  from pmm_free_inv[OF this] obtain s1 where "pmm_free b s = Some s1" "pmm_inv s1 M (set bs \<union> A)" by blast
  with Cons.IH[of s1] Cons.prems show ?case by auto
qed simp

end
