(* ===== verification/PmmSpec.thy ===== *)
theory PmmSpec
  imports PmmRegion
begin

text \<open>
  What the physical memory manager promises: the locale \<open>frame_allocator\<close> states the contract its
  clients rely on, the interpretation discharges it for the model of \<^verbatim>\<open>memory/pmm.c\<close>, and the
  properties of the component follow.
\<close>

section \<open>The contract of a frame allocator\<close>

datatype frame_cmd = Alloc u8 u8 | Free nat

text \<open>A sequence of calls, in which only blocks that are allocated at that moment are freed.\<close>

fun frame_calls :: "(u8 \<Rightarrow> u8 \<Rightarrow> 's \<Rightarrow> ('s \<times> nat) option) \<Rightarrow> (nat \<Rightarrow> 's \<Rightarrow> 's option) \<Rightarrow>
    frame_cmd list \<Rightarrow> 's \<Rightarrow> nat set \<Rightarrow> ('s \<times> nat set) option" where
  "frame_calls alloc free [] s A = Some (s, A)"
| "frame_calls alloc free (Alloc order flags # cs) s A =
     do { (s, b) \<leftarrow> alloc order flags s; frame_calls alloc free cs s (insert b A) }"
| "frame_calls alloc free (Free b # cs) s A =
     (if b \<in> A then do { s \<leftarrow> free b s; frame_calls alloc free cs s (A - {b}) } else frame_calls alloc free cs s A)"

locale frame_allocator =
  fixes inv :: "'s \<Rightarrow> nat set \<Rightarrow> nat set \<Rightarrow> bool"
    and alloc :: "u8 \<Rightarrow> u8 \<Rightarrow> 's \<Rightarrow> ('s \<times> nat) option"
    and free :: "nat \<Rightarrow> 's \<Rightarrow> 's option"
    and pages :: "'s \<Rightarrow> nat \<Rightarrow> nat set"
  assumes alloc_inv: "inv s M A \<Longrightarrow> alloc order flags s = Some (s', b) \<Longrightarrow>
      inv s' M (insert b A) \<and> b \<notin> A \<and> (\<forall>a \<in> A. pages s' a = pages s a)"
    and free_inv: "inv s M (insert b A) \<Longrightarrow> b \<notin> A \<Longrightarrow>
      \<exists>s'. free b s = Some s' \<and> inv s' M A \<and> (\<forall>a \<in> A. pages s' a = pages s a)"
    and pages_disjoint: "inv s M A \<Longrightarrow> a \<in> A \<Longrightarrow> b \<in> A \<Longrightarrow> a \<noteq> b \<Longrightarrow> pages s a \<inter> pages s b = {}"
    and pages_managed: "inv s M A \<Longrightarrow> a \<in> A \<Longrightarrow> pages s a \<subseteq> M"
begin

lemma calls_inv: "inv s M A \<Longrightarrow> frame_calls alloc free cs s A = Some (s', A') \<Longrightarrow> inv s' M A'"
proof (induction cs arbitrary: s A)
  case (Cons c cs)
  show ?case
  proof (cases c)
    case (Alloc order flags)
    then obtain s1 b where s1: "alloc order flags s = Some (s1, b)" "frame_calls alloc free cs s1 (insert b A) = Some (s', A')"
      using Cons.prems(2) by (auto split: bind_splits)
    with Cons.IH alloc_inv[OF Cons.prems(1) s1(1)] show ?thesis by blast
  next
    case (Free b)
    show ?thesis
    proof (cases "b \<in> A")
      case True
      then have "inv s M (insert b (A - {b}))" using Cons.prems(1) by (simp add: insert_absorb)
      from free_inv[OF this] obtain s1 where s1: "free b s = Some s1" "inv s1 M (A - {b})" by auto
      with Cons Free True show ?thesis by simp
    next
      case False
      with Cons Free show ?thesis by simp
    qed
  qed
qed simp

lemma fresh_pages:
  assumes "inv s M A" "alloc order flags s = Some (s', b)" "a \<in> A"
  shows "pages s' b \<inter> pages s a = {}" "pages s' b \<subseteq> M"
  using alloc_inv[OF assms(1,2)] assms(3) pages_disjoint[of s' M "insert b A" b a] pages_managed[of s' M "insert b A" b]
  by auto

end

lemma pmm_alloc_fails:
  "unat order > PMM_MAX_ORDER \<Longrightarrow> pmm_alloc order flags s = None"
  "find_order (lists s (alloc_zone flags)) (unat order) = None \<Longrightarrow> pmm_alloc order flags s = None"
  by (simp_all add: pmm_alloc_def alloc_zone_def[symmetric] ASSERT_def Let_def)

lemma pmm_alloc_SomeD:
  assumes "pmm_alloc order flags s = Some (s', b)"
  shows "unat order \<le> PMM_MAX_ORDER" "\<exists>k \<ge> unat order. lists s (alloc_zone flags) k \<noteq> []"
proof -
  show "unat order \<le> PMM_MAX_ORDER" using assms pmm_alloc_fails(1)[of order flags s] by (simp add: linorder_not_less[symmetric]) auto
  obtain k where "find_order (lists s (alloc_zone flags)) (unat order) = Some k"
    using assms pmm_alloc_fails(2)[of s flags order] by fastforce
  from find_order_Some[OF this] show "\<exists>k \<ge> unat order. lists s (alloc_zone flags) k \<noteq> []" by auto
qed

interpretation fa: frame_allocator pmm_inv pmm_alloc pmm_free block_pages
proof
  fix s M A order flags s' b
  assume inv: "pmm_inv s M A" and al: "pmm_alloc order flags s = Some (s', b)"
  obtain k where k: "k \<ge> unat order" "lists s (alloc_zone flags) k \<noteq> []" using pmm_alloc_SomeD(2)[OF al] by blast
  from pmm_alloc_inv[OF inv pmm_alloc_SomeD(1)[OF al] k] al
  show "pmm_inv s' M (insert b A) \<and> b \<notin> A \<and> (\<forall>a \<in> A. block_pages s' a = block_pages s a)"
    by (auto simp: block_pages_def)
next
  fix s M b A assume "pmm_inv s M (insert b A)" "b \<notin> A"
  from pmm_free_inv[OF this]
  show "\<exists>s'. pmm_free b s = Some s' \<and> pmm_inv s' M A \<and> (\<forall>a \<in> A. block_pages s' a = block_pages s a)"
    by (auto simp: block_pages_def)
next
  fix s M A a b assume "pmm_inv s M A" "a \<in> A" "b \<in> A" "a \<noteq> b"
  then show "block_pages s a \<inter> block_pages s b = {}"
    by (intro core_pages_disjoint[of s M A]) (auto simp: pmm_inv_def heads_def)
next
  fix s M A a assume "pmm_inv s M A" "a \<in> A"
  then show "block_pages s a \<subseteq> M" by (intro core_pages_managed[of s M A]) (auto simp: pmm_inv_def heads_def)
qed

section \<open>Properties\<close>

text \<open>
  A concrete state: the pages 4096 and 4097 (physical addresses \<^verbatim>\<open>0x1000000\<close> and up) form one free
  block of order 1.
\<close>

definition pmm_demo :: pmm where
  "pmm_demo = \<lparr>page_db = (\<lambda>p. \<lparr>blk_order = (if p = 4096 then 1 else 0), blk_max_order = 1, blk_free = True\<rparr>),
     zones = (\<lambda>z. \<lparr>zone_lists = (\<lambda>k. if z = ZONE_NORMAL \<and> k = 1 then [4096] else []), total_page_count = 2,
        free_page_count = (if z = ZONE_NORMAL then 2 else 0)\<rparr>), phys_mem = (\<lambda>_. 7)\<rparr>"

lemma zone_of_normal: "4096 \<le> q \<Longrightarrow> zone_of q = ZONE_NORMAL"
  by (simp add: zone_of_def BLOCK_PADDR_def ARCH_PAGE_GRANULARITY_def drop_bit_eq_div div_greater_zero_iff)

lemma half_4096: "q div 2 = 2048 \<longleftrightarrow> q = 4096 \<or> q = (4097 :: nat)"
  by presburger

lemma pmm_demo_inv: "pmm_inv pmm_demo {4096, 4097} {}"
proof -
  have hd: "heads pmm_demo {} = {4096}" by (auto simp: heads_def pmm_demo_def split: if_splits)
  have "geo pmm_demo {4096, 4097}" by (auto simp: geo_def pmm_demo_def half_4096 zone_of_normal)
  moreover have "lists_ok pmm_demo {4096, 4097} {}"
    by (auto simp: lists_ok_def pmm_demo_def zone_of_normal split: if_splits)
  moreover have "covers pmm_demo 4096 q \<longleftrightarrow> q = 4096 \<or> q = 4097" for q
    by (simp add: covers_def pmm_demo_def half_4096)
  ultimately have "pmm_core pmm_demo {4096, 4097} {}"
    unfolding pmm_core_def hd by (auto simp: pmm_demo_def)
  moreover have "coalesced pmm_demo" by (auto simp: coalesced_def pmm_demo_def split: if_splits)
  moreover have "counted pmm_demo"
    by (auto simp: counted_def free_pages_def pmm_demo_def PMM_MAX_ORDER_def numeral_eq_Suc sum.atMost_Suc split: if_splits)
  ultimately show ?thesis by (simp add: pmm_inv_def)
qed

text \<open>
  (C1) \<^verbatim>\<open>pmm_alloc\<close> with a block of sufficient order in the zone returns a block that was not allocated,
  of exactly the wanted order, in the zone the flags ask for and inside the managed memory, whose
  pages are disjoint from those of every allocated block. The allocator invariant is kept: free
  and allocated blocks are aligned and partition the managed pages, no two free buddies
  coexist and the free page counter is exact, one block lower than before. \<^verbatim>\<open>PMM_FLAG_ZERO\<close> clears
  the block, and no memory outside of it changes.
\<close>

theorem pmm_alloc_correct:
  assumes "pmm_inv s M A" and "unat order \<le> PMM_MAX_ORDER"
    and "unat order \<le> k" "lists s (alloc_zone flags) k \<noteq> []"
  shows "\<exists>s' b. pmm_alloc order flags s = Some (s', b) \<and> pmm_inv s' M (insert b A) \<and> b \<notin> A \<and>
    ord s' b = unat order \<and> zone_of b = alloc_zone flags \<and> block_pages s' b \<subseteq> M \<and>
    (\<forall>a \<in> A. block_pages s' b \<inter> block_pages s a = {}) \<and>
    free_pages s' (alloc_zone flags) + 2 ^ unat order = free_pages s (alloc_zone flags) \<and>
    (flags AND PMM_FLAG_ZERO \<noteq> 0 \<longrightarrow> zeroed s' b) \<and>
    (\<forall>a. flags AND PMM_FLAG_ZERO = 0 \<or> PAGE a \<notin> block_pages s' b \<longrightarrow> phys_mem s' a = phys_mem s a)"
proof -
  from pmm_alloc_inv[OF assms] obtain s' b where
    r: "pmm_alloc order flags s = Some (s', b)" "pmm_inv s' M (insert b A)" "b \<notin> A" "ord s' b = unat order"
      "zone_of b = alloc_zone flags"
      "free_pages s' (alloc_zone flags) + 2 ^ unat order = free_pages s (alloc_zone flags)"
      "flags AND PMM_FLAG_ZERO \<noteq> 0 \<longrightarrow> zeroed s' b"
      "\<forall>a. flags AND PMM_FLAG_ZERO = 0 \<or> PAGE a \<notin> block_pages s' b \<longrightarrow> phys_mem s' a = phys_mem s a" by blast
  with fa.fresh_pages(1)[OF assms(1) r(1)] fa.pages_managed[OF r(2) insertI1] show ?thesis by blast
qed

theorem pmm_alloc_correct_witness:
  "\<exists>s' b. pmm_alloc 0 PMM_FLAG_ZERO pmm_demo = Some (s', b) \<and> pmm_inv s' {4096, 4097} {b} \<and> zeroed s' b \<and>
    free_pages s' ZONE_NORMAL + 1 = free_pages pmm_demo ZONE_NORMAL"
  using pmm_alloc_correct[OF pmm_demo_inv, of 0 1 PMM_FLAG_ZERO]
  by (simp add: pmm_demo_def alloc_zone_def PMM_FLAG_ZERO_def PMM_FLAG_ZONE_LOW_def) blast

text \<open>
  (C8) \<^verbatim>\<open>pmm_alloc\<close> fails (a failed assertion or the panic for lack of memory) exactly when the order is
  above \<^verbatim>\<open>PMM_MAX_ORDER\<close> or the zone has no free block of that order or a higher one.
\<close>

theorem pmm_alloc_fails_iff:
  assumes "pmm_inv s M A"
  shows "pmm_alloc order flags s = None \<longleftrightarrow>
    unat order > PMM_MAX_ORDER \<or> (\<forall>k \<ge> unat order. lists s (alloc_zone flags) k = [])"
proof
  assume "pmm_alloc order flags s = None"
  then show "unat order > PMM_MAX_ORDER \<or> (\<forall>k \<ge> unat order. lists s (alloc_zone flags) k = [])"
    using pmm_alloc_inv[OF assms, of order _ flags] by (metis linorder_not_less option.distinct(1))
next
  assume r: "unat order > PMM_MAX_ORDER \<or> (\<forall>k \<ge> unat order. lists s (alloc_zone flags) k = [])"
  show "pmm_alloc order flags s = None"
  proof (rule ccontr)
    assume "pmm_alloc order flags s \<noteq> None"
    then obtain s' b where "pmm_alloc order flags s = Some (s', b)" by fastforce
    from pmm_alloc_SomeD[OF this] r show False by auto
  qed
qed

theorem pmm_alloc_fails_iff_witness: "pmm_alloc 2 0 pmm_demo = None"
  using pmm_alloc_fails_iff[OF pmm_demo_inv, of 2 0] by (simp add: pmm_demo_def)

text \<open>
  (C2) \<^verbatim>\<open>pmm_free\<close> of an allocated block returns, also when it merges through several orders: the buddy
  it takes off a list is always on that list. The invariant holds without the block, so its pages
  are free again and fully coalesced, the free page counter grows by the size of the block, and
  the other allocated blocks keep their headers.
\<close>

theorem pmm_free_correct:
  assumes "pmm_inv s M (insert b A)" and "b \<notin> A"
  shows "\<exists>s'. pmm_free b s = Some s' \<and> pmm_inv s' M A \<and> (\<forall>a \<in> A. page_db s' a = page_db s a) \<and>
    (\<forall>z. free_pages s' z = free_pages s z + (if z = zone_of b then 2 ^ ord s b else 0)) \<and> phys_mem s' = phys_mem s"
  using assms by (rule pmm_free_inv)

theorem pmm_free_correct_witness:
  "\<exists>s b s'. pmm_alloc 0 0 pmm_demo = Some (s, b) \<and> pmm_free b s = Some s' \<and> pmm_inv s' {4096, 4097} {}"
proof -
  obtain s b where s: "pmm_alloc 0 0 pmm_demo = Some (s, b)" "pmm_inv s {4096, 4097} (insert b {})"
    using pmm_alloc_inv[OF pmm_demo_inv, of 0 1 0]
    by (auto simp: pmm_demo_def alloc_zone_def PMM_FLAG_ZONE_LOW_def)
  with pmm_free_correct[OF s(2)] show ?thesis by blast
qed

text \<open>
  (C7) Bringing memory up: \<^verbatim>\<open>pmm_region_add\<close> of a page aligned region, as the kernel's initialisation
  calls it, followed by \<^verbatim>\<open>pmm_free\<close> of each page, runs without a failed assertion or a corrupted list,
  and ends with all pages of the region (page 0 excepted) free, coalesced and counted.
\<close>

theorem pmm_bring_up:
  assumes "4096 dvd unat base" "4096 dvd unat size'" "unat base + unat size' < 2 ^ 64 - 4096"
    and "distinct ps" "set ps = region_pages base size'"
  shows "\<exists>s s'. pmm_region_add base size' False (pmm_boot db mem) = Some s \<and> pmm_free_all ps s = Some s' \<and>
    pmm_inv s' (region_pages base size') {}"
proof -
  obtain s where s: "pmm_region_add base size' False (pmm_boot db mem) = Some s"
    "pmm_inv s (region_pages base size') (set ps \<union> {})"
    using pmm_region_add_inv[OF pmm_boot_inv[of db mem] assms(1-3)] assms(5) by auto
  from pmm_free_all_inv[OF s(2) assms(4)] s(1) show ?thesis by auto
qed

theorem pmm_bring_up_witness:
  "\<exists>s s'. pmm_region_add 0x1000000 0x3000 False (pmm_boot (\<lambda>_. undefined) (\<lambda>_. 0)) = Some s \<and>
    pmm_free_all [4098, 4096, 4097] s = Some s' \<and> pmm_inv s' {4096, 4097, 4098} {}"
proof -
  have "region_pages 0x1000000 0x3000 = {4096, 4097, 4098}" by (auto simp: region_pages_def)
  then show ?thesis
    using pmm_bring_up[of "0x1000000" "0x3000" "[4098, 4096, 4097]"] by (simp add: insert_commute)
qed

text \<open>
  \<^verbatim>\<open>pagecount_to_order\<close> is the binary logarithm rounded up: the block of that order holds the pages,
  and the next smaller one does not.
\<close>

theorem pagecount_to_order_correct:
  assumes "pages \<noteq> 0"
  shows "unat pages \<le> 2 ^ unat (pagecount_to_order pages) \<and>
    (\<forall>k < unat (pagecount_to_order pages). 2 ^ k < unat pages)"
proof (intro conjI allI impI)
  show "unat pages \<le> 2 ^ unat (pagecount_to_order pages)" by (rule pagecount_to_order_ceil(1)[OF assms])
  fix k assume k: "k < unat (pagecount_to_order pages)"
  then have "(2 :: nat) ^ k \<le> 2 ^ (unat (pagecount_to_order pages) - 1)" by simp
  also have "\<dots> < unat pages" using pagecount_to_order_ceil(2)[OF assms] k by simp
  finally show "2 ^ k < unat pages" .
qed

theorem pagecount_to_order_correct_witness:
  "pagecount_to_order 5 = 3 \<and> unat (5 :: u64) \<le> 2 ^ unat (pagecount_to_order 5) \<and> 2 ^ 2 < unat (5 :: u64)"
proof -
  have "pagecount_to_order 5 = 3" by code_simp
  then show ?thesis using pagecount_to_order_correct[of 5] by simp
qed

text \<open>
  (C9) Safety of every sequence of allocations and frees: whatever order the calls come in, the
  blocks allocated at the end are pairwise disjoint and lie in the managed memory.
\<close>

theorem pmm_calls_safe:
  assumes "pmm_inv s M A" "frame_calls pmm_alloc pmm_free cs s A = Some (s', A')"
  shows "\<forall>a \<in> A'. block_pages s' a \<subseteq> M \<and> (\<forall>b \<in> A'. a \<noteq> b \<longrightarrow> block_pages s' a \<inter> block_pages s' b = {})"
  using fa.calls_inv[OF assms] fa.pages_disjoint[of s' M A'] fa.pages_managed[of s' M A'] by blast

lemmas pmm_eval = pmm_alloc_def alloc_zone_def PMM_FLAG_ZONE_LOW_def PMM_FLAG_ZERO_def find_order.simps split_block.simps
  seq_pop_def seq_push_def split_add PMM_MAX_ORDER_def ASSERT_def Let_def

theorem pmm_calls_safe_witness:
  "\<exists>s'. frame_calls pmm_alloc pmm_free [Alloc 0 0, Alloc 0 0] pmm_demo {} = Some (s', {4097, 4096}) \<and>
    block_pages s' 4097 \<inter> block_pages s' 4096 = {}"
proof -
  have "\<exists>s'. frame_calls pmm_alloc pmm_free [Alloc 0 0, Alloc 0 0] pmm_demo {} = Some (s', {4097, 4096})"
    by (simp add: pmm_eval pmm_demo_def)
  then obtain s' where "frame_calls pmm_alloc pmm_free [Alloc 0 0, Alloc 0 0] pmm_demo {} = Some (s', {4097, 4096})" ..
  with pmm_calls_safe[OF pmm_demo_inv this] show ?thesis by auto
qed

text \<open>
  \<^verbatim>\<open>pmm_region_add\<close> with \<^verbatim>\<open>is_free\<close> set does not give a usable allocator: it puts every page of a block,
  not the block, on the list of the block's order, and counts none of them. After adding two pages
  as free memory both are on the list of order 1, so they stand for overlapping blocks of two pages
  (the second one leaves the region), and the free page count is 0. The kernel's only caller passes \<^verbatim>\<open>false\<close>.
\<close>

theorem pmm_region_add_free_overlaps:
  "\<exists>s. pmm_region_add 0x1000000 0x2000 True (pmm_boot db mem) = Some s \<and>
    lists s ZONE_NORMAL 1 = [4097, 4096] \<and> free_page_count (zones s ZONE_NORMAL) = 0"
proof -
  have o: "pagecount_to_order 2 = 1" by code_simp
  have al: "(16777216 :: nat) AND 8191 = 0" by simp
  have u: "[0..<2] = [0, Suc 0]" by (simp add: upt_rec)
  let ?s0 = "pmm_boot db mem"
  have z: "region_add_zone ZONE_LOW 0x1000000 0x2000 True ?s0 = Some ?s0"
    by (simp add: region_add_zone_def ARCH_MEM_LOW_SIZE_def)
  have ro: "region_order 16777216 2 0 = Some (Suc 0)"
    using al by (simp add: region_order_def o PMM_ORDER_TO_PAGECOUNT_def PMM_MAX_ORDER_def ARCH_PAGE_GRANULARITY_def)
  let ?s1 = "upd_zone ZONE_NORMAL (\<lambda>zn. zn\<lparr>total_page_count := total_page_count zn + 2\<rparr>) ?s0"
  have "\<exists>s. init_pages ZONE_NORMAL (Suc 0) True [4096, 4097] ?s1 = Some s \<and>
      lists s ZONE_NORMAL 1 = [4097, 4096] \<and> free_page_count (zones s ZONE_NORMAL) = 0"
    by (simp add: init_page_def seq_push_def) (simp add: pmm_boot_def)
  then obtain s where s: "init_pages ZONE_NORMAL (Suc 0) True [4096, 4097] ?s1 = Some s"
    "lists s ZONE_NORMAL 1 = [4097, 4096]" "free_page_count (zones s ZONE_NORMAL) = 0" by blast
  have loop: "region_loop ZONE_NORMAL 16777216 4096 2 True 0 ?s1 = Some s"
    using s(1) by (simp add: region_loop.simps ro PMM_ORDER_TO_PAGECOUNT_def u del: init_pages.simps)
  have e: "\<not> (18446744073709547520 :: u64) \<le> 16777216" "zone_end ZONE_NORMAL = 18446744073709547520"
    unfolding zone_end.simps ARCH_PAGE_GRANULARITY_def of_nat_numeral by code_simp+
  have "pmm_region_add 0x1000000 0x2000 True ?s0 = Some s"
    using loop by (simp add: pmm_region_add_def z region_add_zone_def[of ZONE_NORMAL] e ARCH_MEM_LOW_SIZE_def
      ARCH_PAGE_GRANULARITY_def del: zone_end.simps)
  with s(2,3) show ?thesis by blast
qed

end
