(* ===== verification/LibMem.thy ===== *)
theory LibMem
  imports Prelude
begin

text \<open>
  The memory and string routines of \<^verbatim>\<open>lib/mem.c\<close> and \<^verbatim>\<open>lib/string.c\<close>, on a byte memory. Addresses
  are naturals: no object of the kernel wraps around the end of the address space. A \<^verbatim>\<open>for\<close> loop over
  an index is a fold over its values; the string loops, which run until they meet the terminator, are
  \<^theory_text>\<open>partial_function (option)\<close>, so a string without terminator is \<open>None\<close>.
\<close>

section \<open>Memory routines\<close>

type_synonym memory = "nat \<Rightarrow> u8"

definition mem_set :: "nat \<Rightarrow> u32 \<Rightarrow> nat \<Rightarrow> memory \<Rightarrow> memory" where
  "mem_set dest ch n m = fold (\<lambda>i m. m(dest + i := ucast ch)) [0..<n] m"

definition copy_byte :: "nat \<Rightarrow> nat \<Rightarrow> nat \<Rightarrow> memory \<Rightarrow> memory" where
  "copy_byte dest src i m = m(dest + i := m (src + i))"

definition mem_copy :: "nat \<Rightarrow> nat \<Rightarrow> nat \<Rightarrow> memory \<Rightarrow> memory" where
  "mem_copy dest src n m = fold (copy_byte dest src) [0..<n] m"

definition mem_move :: "nat \<Rightarrow> nat \<Rightarrow> nat \<Rightarrow> memory \<Rightarrow> memory" where
  "mem_move dest src n m =
    (if src = dest then m
     else if src > dest then fold (copy_byte dest src) [0..<n] m
     else fold (copy_byte dest src) (rev [0..<n]) m)"

definition mem_clear :: "nat \<Rightarrow> nat \<Rightarrow> memory \<Rightarrow> memory" where
  "mem_clear dest n m = mem_set dest 0 n m"

fun mem_compare_loop :: "memory \<Rightarrow> nat \<Rightarrow> nat \<Rightarrow> nat list \<Rightarrow> int" where
  "mem_compare_loop m lhs rhs [] = 0"
| "mem_compare_loop m lhs rhs (i # is) =
    (if m (lhs + i) > m (rhs + i) then - 1
     else if m (lhs + i) < m (rhs + i) then 1
     else mem_compare_loop m lhs rhs is)"

definition mem_compare :: "memory \<Rightarrow> nat \<Rightarrow> nat \<Rightarrow> nat \<Rightarrow> int" where
  "mem_compare m lhs rhs n = mem_compare_loop m lhs rhs [0..<n]"

definition bytes_at :: "memory \<Rightarrow> nat \<Rightarrow> nat \<Rightarrow> u8 list" where
  "bytes_at m a n = map (\<lambda>i. m (a + i)) [0..<n]"

lemma fold_set: "fold (\<lambda>i m. m(dest + i := c)) [0..<n] m = (\<lambda>a. if dest \<le> a \<and> a < dest + n then c else m a)"
  by (induction n) (auto simp: fun_eq_iff)

lemma mem_set_eq: "mem_set dest ch n m = (\<lambda>a. if dest \<le> a \<and> a < dest + n then ucast ch else m a)"
  by (simp add: mem_set_def fold_set)

lemma mem_clear_eq: "mem_clear dest n m = (\<lambda>a. if dest \<le> a \<and> a < dest + n then 0 else m a)"
  by (simp add: mem_clear_def mem_set_eq cong: if_cong)

lemma copy_up:
  assumes "dest \<le> src \<or> src + n \<le> dest \<or> dest + n \<le> src"
  shows "fold (copy_byte dest src) [0..<n] m =
    (\<lambda>a. if dest \<le> a \<and> a < dest + n then m (src + (a - dest)) else m a)"
  using assms
proof (induction n)
  case (Suc n)
  let ?f = "fold (copy_byte dest src) [0..<n] m"
  have f: "?f = (\<lambda>a. if dest \<le> a \<and> a < dest + n then m (src + (a - dest)) else m a)"
    by (rule Suc.IH) (use Suc.prems in auto)
  have "?f (src + n) = m (src + n)" using Suc.prems unfolding f by auto
  moreover have "fold (copy_byte dest src) [0..<Suc n] m = ?f(dest + n := ?f (src + n))" by (simp add: copy_byte_def)
  ultimately show ?case unfolding f by (auto simp: fun_eq_iff)
qed (auto simp: fun_eq_iff)

lemma copy_down_from:
  assumes "src \<le> dest" "j \<le> n"
  shows "fold (copy_byte dest src) (rev [j..<n]) m =
    (\<lambda>a. if dest + j \<le> a \<and> a < dest + n then m (src + (a - dest)) else m a)"
  using assms(2)
proof (induction "n - j" arbitrary: j)
  case (Suc k)
  then have j: "[j..<n] = j # [Suc j..<n]" "k = n - Suc j" "Suc j \<le> n" by (auto simp: upt_rec)
  let ?f = "fold (copy_byte dest src) (rev [Suc j..<n]) m"
  have f: "?f = (\<lambda>a. if dest + Suc j \<le> a \<and> a < dest + n then m (src + (a - dest)) else m a)"
    using Suc.hyps(1)[OF j(2,3)] .
  have "?f (src + j) = m (src + j)" using assms(1) unfolding f by auto
  moreover have "fold (copy_byte dest src) (rev [j..<n]) m = ?f(dest + j := ?f (src + j))"
    unfolding j(1) by (simp add: copy_byte_def)
  ultimately show ?case using j(3) unfolding f by (auto simp: fun_eq_iff)
qed (auto simp: fun_eq_iff)

lemma mem_copy_eq:
  assumes "dest \<le> src \<or> src + n \<le> dest \<or> dest + n \<le> src"
  shows "mem_copy dest src n m = (\<lambda>a. if dest \<le> a \<and> a < dest + n then m (src + (a - dest)) else m a)"
  unfolding mem_copy_def by (rule copy_up[OF assms])

lemma mem_compare_loop_iff:
  "mem_compare_loop m l r is = 0 \<longleftrightarrow> (\<forall>i \<in> set is. m (l + i) = m (r + i))"
  by (induction "is") auto

lemma mem_compare_loop_neg:
  "mem_compare_loop m l r is = - 1 \<longleftrightarrow>
    (\<exists>us i vs. is = us @ i # vs \<and> (\<forall>k \<in> set us. m (l + k) = m (r + k)) \<and> m (l + i) > m (r + i))"
proof (induction "is")
  case (Cons j js)
  consider "m (l + j) > m (r + j)" | "m (l + j) < m (r + j)" | "m (l + j) = m (r + j)" by (rule linorder_cases)
  then show ?case
  proof cases
    case 1
    then show ?thesis by (auto intro!: exI[of _ "[]"])
  next
    case 2
    then show ?thesis by (auto simp: Cons_eq_append_conv)
  next
    case 3
    have "(\<exists>us i vs. j # js = us @ i # vs \<and> (\<forall>k \<in> set us. m (l + k) = m (r + k)) \<and> m (l + i) > m (r + i)) \<longleftrightarrow>
        (\<exists>us i vs. js = us @ i # vs \<and> (\<forall>k \<in> set us. m (l + k) = m (r + k)) \<and> m (l + i) > m (r + i))" (is "?L \<longleftrightarrow> ?R")
    proof
      assume ?L
      then obtain us i vs where u: "j # js = us @ i # vs" "\<forall>k \<in> set us. m (l + k) = m (r + k)" "m (l + i) > m (r + i)" by blast
      then obtain us' where "us = j # us'" using 3 by (cases us) auto
      with u show ?R by auto
    next
      assume ?R
      then obtain us i vs where "js = us @ i # vs" "\<forall>k \<in> set us. m (l + k) = m (r + k)" "m (l + i) > m (r + i)" by blast
      with 3 show ?L by (intro exI[of _ "j # us"] exI[of _ i] exI[of _ vs]) simp
    qed
    then show ?thesis using Cons 3 by simp
  qed
qed simp

lemma upt_split: "[0..<n] = us @ i # vs \<longleftrightarrow> i < n \<and> us = [0..<i] \<and> vs = [Suc i..<n]"
proof
  assume e: "[0..<n] = us @ i # vs"
  then have i: "i = length us" "i < n"
    by (metis add.left_neutral length_append length_upt less_add_Suc1 list.size(4) minus_nat.diff_0 nth_append_length nth_upt add_Suc_right)+
  then have "us = [0..<i]" using e by (metis append_eq_conv_conj less_imp_le_nat take_upt add.left_neutral)
  moreover have "vs = [Suc i..<n]" using e i by (metis append_eq_conv_conj drop_Suc_Cons drop_append drop_upt i(1) length_append_singleton
        append.assoc append_Cons append_Nil add_0)
  ultimately show "i < n \<and> us = [0..<i] \<and> vs = [Suc i..<n]" using i by simp
next
  assume "i < n \<and> us = [0..<i] \<and> vs = [Suc i..<n]"
  then show "[0..<n] = us @ i # vs" using upt_add_eq_append[of 0 i "n - i"] by (simp add: upt_conv_Cons)
qed

section \<open>Strings\<close>

partial_function (option) string_length_loop :: "memory \<Rightarrow> nat \<Rightarrow> nat \<Rightarrow> nat option" where
  "string_length_loop m str i = (if m (str + i) \<noteq> 0 then string_length_loop m str (i + 1) else Some i)"

definition string_length :: "memory \<Rightarrow> nat \<Rightarrow> nat option" where
  "string_length m str = string_length_loop m str 0"

text \<open>\<^verbatim>\<open>char\<close> is signed on the target: the order of two different characters is that of signed bytes.\<close>

partial_function (option) string_cmp_loop :: "memory \<Rightarrow> nat \<Rightarrow> nat \<Rightarrow> nat \<Rightarrow> int option" where
  "string_cmp_loop m lhs rhs i =
    (if m (lhs + i) = m (rhs + i)
     then (if m (lhs + i) = 0 then Some 0 else string_cmp_loop m lhs rhs (i + 1))
     else Some (if sint (m (lhs + i)) < sint (m (rhs + i)) then - 1 else 1))"

definition string_cmp :: "memory \<Rightarrow> nat \<Rightarrow> nat \<Rightarrow> int option" where
  "string_cmp m lhs rhs = string_cmp_loop m lhs rhs 0"

definition string_eq :: "memory \<Rightarrow> nat \<Rightarrow> nat \<Rightarrow> bool option" where
  "string_eq m lhs rhs = map_option (\<lambda>c. c = 0) (string_cmp m lhs rhs)"

partial_function (option) string_copy_loop :: "nat \<Rightarrow> nat \<Rightarrow> nat \<Rightarrow> memory \<Rightarrow> memory option" where
  "string_copy_loop dest src i m =
    (if m (src + i) \<noteq> 0 then string_copy_loop dest src (i + 1) (m(dest + i := m (src + i)))
     else Some (m(dest + i := m (src + i))))"

definition string_copy :: "nat \<Rightarrow> nat \<Rightarrow> memory \<Rightarrow> memory option" where
  "string_copy dest src m = string_copy_loop dest src 0 m"

function string_ncopy_loop :: "nat \<Rightarrow> nat \<Rightarrow> nat \<Rightarrow> nat \<Rightarrow> memory \<Rightarrow> nat \<times> memory" where
  "string_ncopy_loop dest src n i m =
    (if i < n \<and> m (src + i) \<noteq> 0 then string_ncopy_loop dest src n (i + 1) (m(dest + i := m (src + i))) else (i, m))"
  by pat_completeness auto
termination by (relation "measure (\<lambda>(d, s, n, i, m). n - i)") auto

declare string_ncopy_loop.simps [simp del]

definition string_ncopy :: "nat \<Rightarrow> nat \<Rightarrow> nat \<Rightarrow> memory \<Rightarrow> memory" where
  "string_ncopy dest src n m =
    (case string_ncopy_loop dest src n 0 m of (i, m) \<Rightarrow> fold (\<lambda>i m. m(dest + i := 0)) [i..<n] m)"

text \<open>A terminated string in memory.\<close>

definition cstring :: "memory \<Rightarrow> nat \<Rightarrow> u8 list \<Rightarrow> bool" where
  "cstring m p xs \<longleftrightarrow> (\<forall>i < length xs. m (p + i) = xs ! i) \<and> 0 \<notin> set xs \<and> m (p + length xs) = 0"

lemma cstring_nz: "cstring m p xs \<Longrightarrow> i < length xs \<Longrightarrow> m (p + i) \<noteq> 0"
  by (metis cstring_def nth_mem)

lemma string_length_loop_correct:
  assumes "cstring m p xs" "i \<le> length xs"
  shows "string_length_loop m p i = Some (length xs)"
  using assms(2)
proof (induction "length xs - i" arbitrary: i)
  case 0
  then show ?case using assms(1) by (simp add: string_length_loop.simps cstring_def)
next
  case (Suc k)
  then have "string_length_loop m p (i + 1) = Some (length xs)" by simp
  then show ?case using cstring_nz[OF assms(1), of i] Suc by (simp add: string_length_loop.simps[of m p i])
qed

lemma string_cmp_loop_correct:
  assumes x: "cstring m p xs" and y: "cstring m q ys" and i: "i \<le> length xs" "take i xs = take i ys" "i \<le> length ys"
  shows "\<exists>c. string_cmp_loop m p q i = Some c \<and> (c = 0 \<longleftrightarrow> xs = ys)"
  using i
proof (induction "length xs - i" arbitrary: i)
  case 0
  then have ix: "i = length xs" and m0: "m (p + i) = 0" using x by (simp_all add: cstring_def)
  show ?case
  proof (cases "i = length ys")
    case True
    then have "m (q + i) = 0" "xs = ys" using y ix 0 by (simp_all add: cstring_def)
    then show ?thesis using m0 by (simp add: string_cmp_loop.simps)
  next
    case False
    then have "m (q + i) \<noteq> 0" "xs \<noteq> ys" using cstring_nz[OF y, of i] 0 ix by auto
    then show ?thesis using m0 by (auto simp: string_cmp_loop.simps)
  qed
next
  case (Suc k)
  then have ix: "i < length xs" by simp
  have px: "m (p + i) = xs ! i" "m (p + i) \<noteq> 0" using x ix cstring_nz[OF x ix] by (simp_all add: cstring_def)
  show ?case
  proof (cases "i < length ys \<and> xs ! i = ys ! i")
    case True
    then have "m (q + i) = m (p + i)" using y px by (simp add: cstring_def)
    moreover have "take (i + 1) xs = take (i + 1) ys" using True ix Suc.prems(2) by (simp add: take_Suc_conv_app_nth)
    ultimately show ?thesis
      using Suc.hyps(1)[of "i + 1"] Suc.hyps(2) True ix px(2) by (simp add: string_cmp_loop.simps[of m p q i])
  next
    case False
    have "m (q + i) \<noteq> m (p + i)"
    proof (cases "i < length ys")
      case True
      then show ?thesis using False y px by (simp add: cstring_def)
    next
      case False
      then have "m (q + i) = 0" using y Suc.prems(3) by (simp add: cstring_def)
      then show ?thesis using px by simp
    qed
    moreover have "xs \<noteq> ys" using False ix by auto
    ultimately show ?thesis by (auto simp: string_cmp_loop.simps)
  qed
qed

lemma string_copy_loop_correct:
  assumes "cstring m src xs" "i \<le> length xs" "dest + length xs < src \<or> src + length xs < dest"
    and "\<And>a. \<not> (dest \<le> a \<and> a < dest + i) \<Longrightarrow> m' a = m a" "\<And>j. j < i \<Longrightarrow> m' (dest + j) = xs ! j"
  shows "\<exists>m2. string_copy_loop dest src i m' = Some m2 \<and> cstring m2 dest xs \<and>
    (\<forall>a. \<not> (dest \<le> a \<and> a \<le> dest + length xs) \<longrightarrow> m2 a = m a)"
  using assms(2,4,5)
proof (induction "length xs - i" arbitrary: i m')
  case 0
  then have i: "i = length xs" by simp
  have e: "m' (src + i) = 0" using 0 assms(1,3) i by (auto simp: cstring_def)
  have "cstring (m'(dest + i := 0)) dest xs" using assms(1) 0 i by (auto simp: cstring_def)
  moreover have "\<forall>a. \<not> (dest \<le> a \<and> a \<le> dest + length xs) \<longrightarrow> (m'(dest + i := 0)) a = m a" using 0 i by auto
  ultimately show ?case using e by (simp add: string_copy_loop.simps del: fun_upd_apply)
next
  case (Suc k)
  then have i: "i < length xs" by simp
  have e: "m' (src + i) = xs ! i" "m' (src + i) \<noteq> 0"
    using Suc.prems(2)[of "src + i"] assms(1,3) i cstring_nz[OF assms(1) i] by (auto simp: cstring_def)
  have "\<exists>m2. string_copy_loop dest src (i + 1) (m'(dest + i := m' (src + i))) = Some m2 \<and> cstring m2 dest xs \<and>
      (\<forall>a. \<not> (dest \<le> a \<and> a \<le> dest + length xs) \<longrightarrow> m2 a = m a)"
  proof (rule Suc.hyps(1))
    show "(m'(dest + i := m' (src + i))) a = m a" if "\<not> (dest \<le> a \<and> a < dest + (i + 1))" for a
      using that Suc.prems(2)[of a] by auto
    show "(m'(dest + i := m' (src + i))) (dest + j) = xs ! j" if "j < i + 1" for j
      using that Suc.prems(3)[of j] e by (cases "j = i") auto
  qed (use Suc i in auto)
  then show ?case using e(2) by (simp add: string_copy_loop.simps[of dest src i])
qed

section \<open>Properties\<close>

text \<open>
  \<^verbatim>\<open>mem_move\<close> copies correctly for every pair of areas, overlapping or not: the destination holds
  what the source held before the call, and no other byte changes.
\<close>

theorem mem_move_correct:
  "mem_move dest src n m = (\<lambda>a. if dest \<le> a \<and> a < dest + n then m (src + (a - dest)) else m a)"
  using copy_up[of dest src n m] copy_down_from[of src dest 0 n m]
  by (auto simp: mem_move_def fun_eq_iff)

text \<open>
  \<^verbatim>\<open>mem_compare\<close> gives 0 exactly for equal areas; for different ones the sign is the opposite of
  what the \<^verbatim>\<open>memcmp\<close> it is an alias of gives: \<open>- 1\<close> when the first differing byte of the left area is the
  greater one.
\<close>

theorem mem_compare_correct:
  "(mem_compare m l r n = 0 \<longleftrightarrow> bytes_at m l n = bytes_at m r n) \<and>
   (mem_compare m l r n = - 1 \<longleftrightarrow>
      (\<exists>i < n. bytes_at m l i = bytes_at m r i \<and> m (l + i) > m (r + i)))"
proof
  show "mem_compare m l r n = 0 \<longleftrightarrow> bytes_at m l n = bytes_at m r n"
    by (auto simp: mem_compare_def mem_compare_loop_iff bytes_at_def)
  show "mem_compare m l r n = - 1 \<longleftrightarrow> (\<exists>i < n. bytes_at m l i = bytes_at m r i \<and> m (l + i) > m (r + i))"
    unfolding mem_compare_def mem_compare_loop_neg upt_split by (auto simp: bytes_at_def)
qed

text \<open>
  The string routines on terminated strings: \<^verbatim>\<open>string_length\<close> returns the length and
  \<^verbatim>\<open>string_eq\<close> returns whether the strings are equal; both loops end.
\<close>

theorem string_routines_correct:
  assumes "cstring m p xs" and "cstring m q ys"
  shows "string_length m p = Some (length xs) \<and> string_eq m p q = Some (xs = ys)"
  using string_length_loop_correct[OF assms(1), of 0] string_cmp_loop_correct[OF assms, of 0]
  by (auto simp: string_length_def string_eq_def string_cmp_def)

theorem string_routines_correct_witness:
  "string_length (\<lambda>a. if a = 0 then 104 else if a = 4 then 104 else if a = 5 then 105 else 0) 4 = Some 2 \<and>
   string_eq (\<lambda>a. if a = 0 then 104 else if a = 4 then 104 else if a = 5 then 105 else 0) 4 0 = Some False"
  using string_routines_correct[of "\<lambda>a. if a = 0 then 104 else if a = 4 then 104 else if a = 5 then 105 else 0" 4 "[104, 105]" 0 "[104]"]
  by (simp add: cstring_def less_Suc_eq)

text \<open>
  \<^verbatim>\<open>string_copy\<close> between areas that do not overlap ends, leaves the string at the destination and
  changes no byte outside of the copy and its terminator.
\<close>

theorem string_copy_correct:
  assumes "cstring m src xs" and "dest + length xs < src \<or> src + length xs < dest"
  shows "\<exists>m'. string_copy dest src m = Some m' \<and> cstring m' dest xs \<and>
    (\<forall>a. \<not> (dest \<le> a \<and> a \<le> dest + length xs) \<longrightarrow> m' a = m a)"
  unfolding string_copy_def using assms by (intro string_copy_loop_correct) auto

theorem string_copy_correct_witness:
  "\<exists>m'. string_copy 16 0 (\<lambda>a. if a = 0 then 104 else 0) = Some m' \<and> cstring m' 16 [104]"
  using string_copy_correct[of "\<lambda>a. if a = 0 then 104 else 0" 0 "[104]" 16] by (auto simp: cstring_def)

end
