(* ===== verification/Earlymem.thy ===== *)
theory Earlymem
  imports LibMem
begin

text \<open>
  The boot time page allocator of \<^verbatim>\<open>memory/earlymem.c\<close>. A region keeps its bitmap in its own memory,
  behind the region header; the model keeps the bytes of the bitmap in the region, the bytes that
  \<^verbatim>\<open>earlymem_region_add\<close> does not clear being what memory held before (\<open>junk\<close>). The list of regions has
  the most recently added one first. Running out of memory panics, which is \<open>None\<close>.
\<close>

section \<open>State\<close>

record earlymem_region =
  er_base :: nat
  er_length :: nat
  er_hint :: nat
  er_bitmap :: "nat \<Rightarrow> u8"

record earlymem =
  em_regions :: "earlymem_region list"
  em_alloc_page :: nat
  em_alloc_offset :: nat

definition PAGE_GRANULARITY :: nat where "PAGE_GRANULARITY = 4096"

definition region_pagecount :: "earlymem_region \<Rightarrow> nat" where
  "region_pagecount r = er_length r div PAGE_GRANULARITY"

definition BITMAP_SIZE :: "earlymem_region \<Rightarrow> nat" where
  "BITMAP_SIZE r = er_length r div PAGE_GRANULARITY div 8"

definition MATH_DIV_CEIL :: "nat \<Rightarrow> nat \<Rightarrow> nat" where
  "MATH_DIV_CEIL dividend divisor = (dividend + divisor - 1) div divisor"

definition bitmap_set :: "earlymem_region \<Rightarrow> nat \<Rightarrow> bool \<Rightarrow> earlymem_region" where
  "bitmap_set r i value =
    (let mask = push_bit (i mod 8) (1 :: u8) in
     if value then r\<lparr>er_bitmap := (er_bitmap r)(i div 8 := er_bitmap r (i div 8) OR mask)\<rparr>
     else r\<lparr>er_bitmap := (er_bitmap r)(i div 8 := er_bitmap r (i div 8) AND NOT mask)\<rparr>)"

definition bitmap_get :: "earlymem_region \<Rightarrow> nat \<Rightarrow> bool" where
  "bitmap_get r i \<longleftrightarrow> er_bitmap r (i div 8) AND push_bit (i mod 8) 1 \<noteq> 0"

section \<open>Operations\<close>

definition earlymem_region_add :: "(nat \<Rightarrow> u8) \<Rightarrow> nat \<Rightarrow> nat \<Rightarrow> earlymem \<Rightarrow> earlymem" where
  "earlymem_region_add junk address length' s =
    (let r = \<lparr>er_base = address, er_length = length', er_hint = 0, er_bitmap = junk\<rparr>;
         r = r\<lparr>er_bitmap := mem_set 0 0 (BITMAP_SIZE r) (er_bitmap r)\<rparr>;
         r = fold (\<lambda>i r. bitmap_set r i True) [0..<MATH_DIV_CEIL (BITMAP_SIZE r) PAGE_GRANULARITY] r
     in s\<lparr>em_regions := r # em_regions s\<rparr>)"

definition earlymem_region_isfree :: "earlymem_region \<Rightarrow> nat \<Rightarrow> bool option" where
  "earlymem_region_isfree r offset = do {
     ASSERT (offset < er_length r);
     Some (\<not> bitmap_get r (offset div PAGE_GRANULARITY))
   }"

text \<open>The inner loop over the pages of a region, from \<open>i\<close> on, which moves the hint along.\<close>

function region_scan :: "earlymem_region \<Rightarrow> nat \<Rightarrow> earlymem_region \<times> nat option" where
  "region_scan r i =
    (if i < region_pagecount r then
       (let r = r\<lparr>er_hint := i\<rparr> in
        if bitmap_get r i then region_scan r (i + 1)
        else (bitmap_set r i True, Some (er_base r + i * PAGE_GRANULARITY)))
     else (r, None))"
  by pat_completeness auto
termination
  by (relation "measure (\<lambda>(r, i). region_pagecount r - i)") (auto simp: region_pagecount_def)

declare region_scan.simps [simp del]

text \<open>The two passes over the list of regions: from the hints, then from the start.\<close>

fun scan_hints :: "earlymem_region list \<Rightarrow> earlymem_region list \<times> nat option" where
  "scan_hints [] = ([], None)"
| "scan_hints (r # rs) =
    (if er_hint r = region_pagecount r then (case scan_hints rs of (rs, a) \<Rightarrow> (r # rs, a))
     else (case region_scan r (er_hint r) of
         (r, Some a) \<Rightarrow> (r # rs, Some a)
       | (r, None) \<Rightarrow> (case scan_hints rs of (rs, a) \<Rightarrow> (r # rs, a))))"

fun scan_all :: "earlymem_region list \<Rightarrow> earlymem_region list \<times> nat option" where
  "scan_all [] = ([], None)"
| "scan_all (r # rs) =
    (case region_scan r 0 of
       (r, Some a) \<Rightarrow> (r # rs, Some a)
     | (r, None) \<Rightarrow> (case scan_all rs of (rs, a) \<Rightarrow> (r # rs, a)))"

definition earlymem_alloc_page :: "earlymem \<Rightarrow> (earlymem \<times> nat) option" where
  "earlymem_alloc_page s =
    (case scan_hints (em_regions s) of
       (rs, Some a) \<Rightarrow> Some (s\<lparr>em_regions := rs\<rparr>, a)
     | (rs, None) \<Rightarrow>
         (case scan_all rs of
            (rs, Some a) \<Rightarrow> Some (s\<lparr>em_regions := rs\<rparr>, a)
          | (rs, None) \<Rightarrow> None))"

definition earlymem_free_page :: "nat \<Rightarrow> earlymem \<Rightarrow> earlymem" where
  "earlymem_free_page address s = s\<lparr>em_regions := map (\<lambda>r.
     if address < er_base r \<or> address \<ge> er_base r + er_length r then r
     else bitmap_set r ((address - er_base r) div PAGE_GRANULARITY) False) (em_regions s)\<rparr>"

definition earlymem_alloc :: "nat \<Rightarrow> earlymem \<Rightarrow> (earlymem \<times> nat) option" where
  "earlymem_alloc size' s = do {
     ASSERT (size' > 0 \<and> size' \<le> PAGE_GRANULARITY);
     s \<leftarrow> (if em_alloc_offset s = 0 \<or> PAGE_GRANULARITY - em_alloc_offset s < size' then do {
              (s, page) \<leftarrow> earlymem_alloc_page s;
              Some (s\<lparr>em_alloc_page := page, em_alloc_offset := 0\<rparr>)
            } else Some s);
     let offset = em_alloc_offset s;
     Some (s\<lparr>em_alloc_offset := em_alloc_offset s + size'\<rparr>, em_alloc_page s + offset)
   }"

section \<open>The bitmap\<close>

lemma bitmap_get_bit: "bitmap_get r i \<longleftrightarrow> bit (er_bitmap r (i div 8)) (i mod 8)"
  by (simp add: bitmap_get_def push_bit_of_1 and_exp_eq_0_iff_not_bit)

lemma bitmap_get_set [simp]: "bitmap_get (bitmap_set r i v) j = (if j = i then v else bitmap_get r j)"
proof -
  have "j div 8 = i div 8 \<Longrightarrow> j mod 8 = i mod 8 \<Longrightarrow> j = i" by (metis div_mult_mod_eq)
  then show ?thesis
    by (auto simp: bitmap_get_bit bitmap_set_def Let_def bit_simps)
qed

lemma bitmap_set_fields [simp]:
  "er_base (bitmap_set r i v) = er_base r" "er_length (bitmap_set r i v) = er_length r"
  "er_hint (bitmap_set r i v) = er_hint r" "region_pagecount (bitmap_set r i v) = region_pagecount r"
  by (simp_all add: bitmap_set_def Let_def region_pagecount_def)

lemma hint_fields [simp]:
  "bitmap_get (r\<lparr>er_hint := h\<rparr>) i = bitmap_get r i" "region_pagecount (r\<lparr>er_hint := h\<rparr>) = region_pagecount r"
  by (simp_all add: bitmap_get_def region_pagecount_def)

section \<open>Scanning\<close>

text \<open>What a region is apart from its hint, and that view with one page taken.\<close>

definition view :: "earlymem_region \<Rightarrow> nat \<times> nat \<times> (nat \<Rightarrow> bool)" where
  "view r = (er_base r, er_length r, bitmap_get r)"

definition take_page :: "nat \<Rightarrow> nat \<times> nat \<times> (nat \<Rightarrow> bool) \<Rightarrow> nat \<times> nat \<times> (nat \<Rightarrow> bool)" where
  "take_page i v = (case v of (b, l, g) \<Rightarrow> (b, l, g(i := True)))"

definition taken :: "earlymem_region list \<Rightarrow> earlymem_region list \<Rightarrow> nat \<Rightarrow> nat \<Rightarrow> nat \<Rightarrow> bool" where
  "taken rs rs' a k i \<longleftrightarrow> k < length rs \<and> i < region_pagecount (rs ! k) \<and> \<not> bitmap_get (rs ! k) i \<and>
     a = er_base (rs ! k) + i * PAGE_GRANULARITY \<and> map view rs' = (map view rs)[k := take_page i (view (rs ! k))]"

lemma view_hint [simp]: "view (r\<lparr>er_hint := h\<rparr>) = view r"
  by (simp add: view_def fun_eq_iff)

lemma view_set [simp]: "view (bitmap_set r i True) = take_page i (view r)"
  by (auto simp: view_def take_page_def fun_eq_iff)

lemma view_eqD: "view r' = view r \<Longrightarrow> er_base r' = er_base r \<and> region_pagecount r' = region_pagecount r \<and> bitmap_get r' = bitmap_get r"
  by (simp add: view_def region_pagecount_def)

lemma region_scan_correct:
  "case region_scan r i of
     (r', Some a) \<Rightarrow> \<exists>j \<ge> i. j < region_pagecount r \<and> \<not> bitmap_get r j \<and> a = er_base r + j * PAGE_GRANULARITY \<and>
        view r' = take_page j (view r)
   | (r', None) \<Rightarrow> view r' = view r \<and> (\<forall>j \<ge> i. j < region_pagecount r \<longrightarrow> bitmap_get r j)"
proof (induction r i rule: region_scan.induct)
  case (1 r i)
  show ?case
  proof (cases "i < region_pagecount r")
    case False
    then show ?thesis by (simp add: region_scan.simps)
  next
    case True
    show ?thesis
    proof (cases "bitmap_get r i")
      case get: False
      with True show ?thesis by (auto simp: region_scan.simps[of r i])
    next
      case get: True
      let ?r = "r\<lparr>er_hint := i\<rparr>"
      have step: "region_scan r i = region_scan ?r (i + 1)" using True get by (simp add: region_scan.simps[of r i])
      have IH: "case region_scan ?r (i + 1) of
          (r', Some a) \<Rightarrow> \<exists>j \<ge> Suc i. j < region_pagecount r \<and> \<not> bitmap_get r j \<and> a = er_base r + j * PAGE_GRANULARITY \<and>
             view r' = take_page j (view r)
        | (r', None) \<Rightarrow> view r' = view r \<and> (\<forall>j \<ge> Suc i. j < region_pagecount r \<longrightarrow> bitmap_get r j)"
        using "1.IH"[OF True refl] get by simp
      obtain r' res where rs: "region_scan ?r (i + 1) = (r', res)" by fastforce
      show ?thesis
      proof (cases res)
        case None
        with IH rs have f: "view r' = view r" "\<forall>j \<ge> Suc i. j < region_pagecount r \<longrightarrow> bitmap_get r j" by simp_all
        have "\<forall>j \<ge> i. j < region_pagecount r \<longrightarrow> bitmap_get r j"
          using f(2) get by (metis le_neq_implies_less Suc_leI)
        with f(1) rs step None show ?thesis by simp
      next
        case (Some a)
        with IH rs step show ?thesis by (auto dest: Suc_leD)
      qed
    qed
  qed
qed

lemma taken_Cons: "taken rs rs' a k i \<Longrightarrow> view r' = view r \<Longrightarrow> taken (r # rs) (r' # rs') a (Suc k) i"
  by (simp add: taken_def)

lemma scan_hints_correct:
  "case scan_hints rs of (rs', Some a) \<Rightarrow> \<exists>k i. taken rs rs' a k i | (rs', None) \<Rightarrow> map view rs' = map view rs"
proof (induction rs)
  case (Cons r rs)
  obtain rs' res where s: "scan_hints rs = (rs', res)" by fastforce
  have tl: "case res of Some a \<Rightarrow> \<exists>k i. taken (r # rs) (r' # rs') a k i | None \<Rightarrow> map view (r' # rs') = map view (r # rs)"
    if "view r' = view r" for r'
  proof (cases res)
    case None
    with Cons s that show ?thesis by simp
  next
    case (Some a)
    with Cons s obtain k i where "taken rs rs' a k i" by auto
    from taken_Cons[OF this that] Some show ?thesis by auto
  qed
  show ?case
  proof (cases "er_hint r = region_pagecount r")
    case True
    then show ?thesis using s tl[of r] by (cases res) auto
  next
    case False
    obtain r' p where p: "region_scan r (er_hint r) = (r', p)" by fastforce
    show ?thesis
    proof (cases p)
      case None
      then have "view r' = view r" using region_scan_correct[of r "er_hint r"] p by simp
      then show ?thesis using tl[of r'] p None s False by (cases res) auto
    next
      case (Some a)
      then obtain j where "j < region_pagecount r" "\<not> bitmap_get r j" "a = er_base r + j * PAGE_GRANULARITY"
        "view r' = take_page j (view r)" using region_scan_correct[of r "er_hint r"] p by auto
      then have "taken (r # rs) (r' # rs) a 0 j" by (simp add: taken_def)
      then show ?thesis using p Some False by auto
    qed
  qed
qed simp

lemma scan_all_correct:
  "case scan_all rs of (rs', Some a) \<Rightarrow> \<exists>k i. taken rs rs' a k i
   | (rs', None) \<Rightarrow> (\<forall>r \<in> set rs. \<forall>i < region_pagecount r. bitmap_get r i)"
proof (induction rs)
  case (Cons r rs)
  obtain rs' res where s: "scan_all rs = (rs', res)" by fastforce
  obtain r' p where p: "region_scan r 0 = (r', p)" by fastforce
  show ?case
  proof (cases p)
    case None
    then have v: "view r' = view r" "\<forall>j < region_pagecount r. bitmap_get r j"
      using region_scan_correct[of r 0] p by simp_all
    show ?thesis
    proof (cases res)
      case None
      with v Cons s p \<open>p = None\<close> show ?thesis by auto
    next
      case (Some a)
      with v taken_Cons[OF _ v(1), of rs rs' a] Cons s p \<open>p = None\<close> show ?thesis by fastforce
    qed
  next
    case (Some a)
    then obtain j where "j < region_pagecount r" "\<not> bitmap_get r j" "a = er_base r + j * PAGE_GRANULARITY"
      "view r' = take_page j (view r)" using region_scan_correct[of r 0] p by auto
    then have "taken (r # rs) (r' # rs) a 0 j" by (simp add: taken_def)
    then show ?thesis using p Some by auto
  qed
qed simp

lemma taken_view: "map view rs = map view qs \<Longrightarrow> taken rs rs' a k i \<Longrightarrow> taken qs rs' a k i"
proof -
  assume v: "map view rs = map view qs" and t: "taken rs rs' a k i"
  then have "length rs = length qs" "view (rs ! k) = view (qs ! k)"
    by (metis length_map) (metis v t taken_def length_map nth_map)
  with v t view_eqD[of "rs ! k" "qs ! k"] show ?thesis by (simp add: taken_def)
qed

lemma earlymem_alloc_page_taken:
  "case earlymem_alloc_page s of
     Some (s', a) \<Rightarrow> em_alloc_page s' = em_alloc_page s \<and> em_alloc_offset s' = em_alloc_offset s \<and>
       (\<exists>k i. taken (em_regions s) (em_regions s') a k i)
   | None \<Rightarrow> (\<forall>r \<in> set (em_regions s). \<forall>i < region_pagecount r. bitmap_get r i)"
proof -
  obtain rs res where s: "scan_hints (em_regions s) = (rs, res)" by fastforce
  show ?thesis
  proof (cases res)
    case (Some a)
    then show ?thesis using s scan_hints_correct[of "em_regions s"] by (simp add: earlymem_alloc_page_def)
  next
    case None
    then have v: "map view rs = map view (em_regions s)" using s scan_hints_correct[of "em_regions s"] by simp
    obtain rs2 res2 where s2: "scan_all rs = (rs2, res2)" by fastforce
    show ?thesis
    proof (cases res2)
      case None
      have full: "\<forall>r \<in> set rs. \<forall>i < region_pagecount r. bitmap_get r i" using scan_all_correct[of rs] s2 None by simp
      have "\<forall>i < region_pagecount r. bitmap_get r i" if "r \<in> set (em_regions s)" for r
      proof -
        from that v obtain r' where "r' \<in> set rs" "view r' = view r" by (metis (no_types, lifting) imageE image_eqI image_set)
        with full view_eqD[of r' r] show ?thesis by metis
      qed
      with s s2 \<open>res = None\<close> None show ?thesis by (simp add: earlymem_alloc_page_def)
    next
      case (Some a)
      then show ?thesis
        using s s2 \<open>res = None\<close> scan_all_correct[of rs] taken_view[OF v] by (fastforce simp: earlymem_alloc_page_def)
    qed
  qed
qed

section \<open>Registering a region\<close>

lemma fold_bitmap_set:
  "bitmap_get (fold (\<lambda>i r. bitmap_set r i True) is r) j \<longleftrightarrow> j \<in> set is \<or> bitmap_get r j"
  "er_base (fold (\<lambda>i r. bitmap_set r i True) is r) = er_base r"
  "er_length (fold (\<lambda>i r. bitmap_set r i True) is r) = er_length r"
  "er_hint (fold (\<lambda>i r. bitmap_set r i True) is r) = er_hint r"
  by (induction "is" arbitrary: r) auto

lemma region_add_bits:
  assumes "i < 8 * (length' div PAGE_GRANULARITY div 8)"
  shows "bitmap_get (hd (em_regions (earlymem_region_add junk address length' s))) i \<longleftrightarrow>
    i < MATH_DIV_CEIL (length' div PAGE_GRANULARITY div 8) PAGE_GRANULARITY"
proof -
  have "i div 8 < length' div PAGE_GRANULARITY div 8" using assms by (simp add: less_mult_imp_div_less mult.commute)
  then show ?thesis
    by (simp add: earlymem_region_add_def Let_def fold_bitmap_set BITMAP_SIZE_def)
      (simp add: bitmap_get_bit mem_set_eq)
qed

section \<open>Properties\<close>

text \<open>
  (C12) \<^verbatim>\<open>earlymem_alloc_page\<close> returns the address of a page whose bit was clear, in one of the regions,
  and sets exactly that bit; no other bit of any region changes. It panics only when no region has a
  clear bit left.
\<close>

theorem earlymem_alloc_page_correct:
  "case earlymem_alloc_page s of
     Some (s', a) \<Rightarrow> \<exists>k i. taken (em_regions s) (em_regions s') a k i
   | None \<Rightarrow> (\<forall>r \<in> set (em_regions s). \<forall>i < region_pagecount r. bitmap_get r i)"
  using earlymem_alloc_page_taken[of s] by (auto split: option.splits)

theorem earlymem_alloc_page_correct_witness:
  "\<exists>s' k i. earlymem_alloc_page \<lparr>em_regions = [\<lparr>er_base = 8192, er_length = 8192, er_hint = 1, er_bitmap = (\<lambda>_. 2)\<rparr>],
      em_alloc_page = 0, em_alloc_offset = 0\<rparr> = Some (s', 8192) \<and>
     taken [\<lparr>er_base = 8192, er_length = 8192, er_hint = 1, er_bitmap = (\<lambda>_. 2)\<rparr>] (em_regions s') 8192 k i"
proof -
  let ?s = "\<lparr>em_regions = [\<lparr>er_base = 8192, er_length = 8192, er_hint = 1, er_bitmap = (\<lambda>_. 2)\<rparr>],
      em_alloc_page = 0, em_alloc_offset = 0\<rparr>"
  have "\<exists>s'. earlymem_alloc_page ?s = Some (s', 8192)"
    by (simp add: earlymem_alloc_page_def region_scan.simps region_pagecount_def PAGE_GRANULARITY_def bitmap_get_def)
  then obtain s' where "earlymem_alloc_page ?s = Some (s', 8192)" ..
  with earlymem_alloc_page_correct[of ?s] show ?thesis by auto
qed

text \<open>
  A region shorter than eight pages gets no bitmap bytes: \<^verbatim>\<open>BITMAP_SIZE\<close> rounds down to 0, so nothing
  is cleared and no page is reserved for the region header. On zeroed memory the first allocation
  hands out the page that holds the header and the bitmap themselves.
\<close>

theorem earlymem_small_region_header_allocated:
  assumes "0 < n" and "n < 8"
  shows "\<exists>s'. earlymem_alloc_page (earlymem_region_add (\<lambda>_. 0) address (n * PAGE_GRANULARITY)
      \<lparr>em_regions = [], em_alloc_page = 0, em_alloc_offset = 0\<rparr>) = Some (s', address)"
  using assms
  by (simp add: earlymem_region_add_def Let_def BITMAP_SIZE_def MATH_DIV_CEIL_def PAGE_GRANULARITY_def mem_set_eq
    earlymem_alloc_page_def region_scan.simps region_pagecount_def bitmap_get_def)

theorem earlymem_small_region_header_allocated_witness:
  "\<exists>s'. earlymem_alloc_page (earlymem_region_add (\<lambda>_. 0) 0x2000 (4 * PAGE_GRANULARITY)
      \<lparr>em_regions = [], em_alloc_page = 0, em_alloc_offset = 0\<rparr>) = Some (s', 0x2000)"
  by (rule earlymem_small_region_header_allocated) simp_all

text \<open>
  \<^verbatim>\<open>earlymem_alloc\<close> hands out pieces of pages: when it returns, the piece lies inside the page it
  allocates from, behind everything handed out from that page before.
\<close>

theorem earlymem_alloc_in_page:
  assumes "earlymem_alloc size' s = Some (s', a)" and "em_alloc_offset s \<le> PAGE_GRANULARITY"
  shows "em_alloc_page s' \<le> a \<and> a + size' = em_alloc_page s' + em_alloc_offset s' \<and>
    em_alloc_offset s' \<le> PAGE_GRANULARITY \<and>
    (em_alloc_page s' = em_alloc_page s \<and> a = em_alloc_page s + em_alloc_offset s \<or>
     (\<exists>k i. taken (em_regions s) (em_regions s') (em_alloc_page s') k i) \<and> a = em_alloc_page s')"
  using assms earlymem_alloc_page_taken[of s]
  by (auto simp: earlymem_alloc_def ASSERT_def Let_def split: if_splits option.splits Option.bind_splits)

theorem earlymem_alloc_in_page_witness:
  "\<exists>s'. earlymem_alloc 16 \<lparr>em_regions = [], em_alloc_page = 4096, em_alloc_offset = 32\<rparr> = Some (s', 4128) \<and>
     em_alloc_offset s' \<le> PAGE_GRANULARITY"
proof -
  have "\<exists>s'. earlymem_alloc 16 \<lparr>em_regions = [], em_alloc_page = 4096, em_alloc_offset = 32\<rparr> = Some (s', 4128)"
    by (simp add: earlymem_alloc_def PAGE_GRANULARITY_def)
  then obtain s' where s': "earlymem_alloc 16 \<lparr>em_regions = [], em_alloc_page = 4096, em_alloc_offset = 32\<rparr> = Some (s', 4128)" ..
  from earlymem_alloc_in_page[OF this] s' show ?thesis by (simp add: PAGE_GRANULARITY_def)
qed

end
