(* ===== verification/VmBase.thy ===== *)
theory VmBase
  imports RbSpec LibList
begin

text \<open>
  The data of \<^verbatim>\<open>include/memory/vm.h\<close> and the interface of the architecture's page table manager
  (\<^verbatim>\<open>include/arch/ptm.h\<close>) as the virtual memory manager calls it. The interface is a record of
  operations on a state \<open>'e\<close> that holds the page tables and the frames they are made of; theory
  \<open>Ptm\<close> provides the x86-64 operations, and a recording of the calls serves for concrete runs.
\<close>

section \<open>Data\<close>

record vm_protection =
  prot_read :: bool
  prot_write :: bool
  prot_exec :: bool

datatype vm_privilege = VM_PRIVILEGE_KERNEL | VM_PRIVILEGE_USER
datatype vm_cache = VM_CACHE_STANDARD | VM_CACHE_WRITE_COMBINE | VM_CACHE_NONE
datatype vm_fault = VM_FAULT_UNKNOWN | VM_FAULT_NOT_PRESENT
datatype vm_region_type = VM_REGION_TYPE_ANON | VM_REGION_TYPE_DIRECT

type_synonym vm_flags = u64
type_synonym space_id = nat

definition VM_FLAG_FIXED :: vm_flags where "VM_FLAG_FIXED = 2"
definition VM_FLAG_DYNAMICALLY_BACKED :: vm_flags where "VM_FLAG_DYNAMICALLY_BACKED = 4"
definition VM_FLAG_ZERO :: vm_flags where "VM_FLAG_ZERO = 1024"

definition VM_PROT_NONE :: vm_protection where
  "VM_PROT_NONE = \<lparr>prot_read = False, prot_write = False, prot_exec = False\<rparr>"
definition VM_PROT_RW :: vm_protection where
  "VM_PROT_RW = \<lparr>prot_read = True, prot_write = True, prot_exec = False\<rparr>"

text \<open>
  A region. The two members of the union \<^verbatim>\<open>type_data\<close> are separate fields here: each is only
  read where \<open>r_type\<close> selects it.
\<close>

record vm_region =
  r_space :: space_id
  r_base :: u64
  r_length :: u64
  r_type :: vm_region_type
  r_prot :: vm_protection
  r_cache :: vm_cache
  r_dynamic :: bool
  r_back_zeroed :: bool
  r_physical :: u64

record vm_address_space =
  as_regions :: rb_tree
  as_start :: u64
  as_end :: u64

definition PAGE_SIZE :: u64 where "PAGE_SIZE = 4096"

definition page_aligned :: "u64 \<Rightarrow> bool" where
  "page_aligned a \<longleftrightarrow> a mod PAGE_SIZE = 0"

section \<open>The interface to the architecture\<close>

text \<open>
  \<open>e_alloc_page flags\<close> is the physical address of the page \<^verbatim>\<open>pmm_alloc_page(flags)\<close> gives. A panic or
  a failed assertion of an operation is \<open>None\<close>. \<open>e_store\<close> and \<open>e_load\<close> are \<^verbatim>\<open>mem_copy\<close> to and from
  the direct map (\<^verbatim>\<open>HHDM\<close>) of a physical address.
\<close>

record 'e vm_env =
  e_alloc_page :: "u8 \<Rightarrow> 'e \<Rightarrow> ('e \<times> u64) option"
  e_map :: "space_id \<Rightarrow> u64 \<Rightarrow> u64 \<Rightarrow> u64 \<Rightarrow> vm_protection \<Rightarrow> vm_cache \<Rightarrow> vm_privilege \<Rightarrow> bool \<Rightarrow> 'e \<Rightarrow> 'e option"
  e_rewrite :: "space_id \<Rightarrow> u64 \<Rightarrow> u64 \<Rightarrow> vm_protection \<Rightarrow> vm_cache \<Rightarrow> vm_privilege \<Rightarrow> bool \<Rightarrow> 'e \<Rightarrow> 'e option"
  e_unmap :: "space_id \<Rightarrow> u64 \<Rightarrow> u64 \<Rightarrow> 'e \<Rightarrow> 'e option"
  e_physical :: "space_id \<Rightarrow> u64 \<Rightarrow> 'e \<Rightarrow> u64 option option"
  e_store :: "u64 \<Rightarrow> u8 list \<Rightarrow> 'e \<Rightarrow> 'e"
  e_load :: "u64 \<Rightarrow> nat \<Rightarrow> 'e \<Rightarrow> u8 list"

text \<open>
  The recording environment: every call succeeds and is appended to the log; pages come from an
  ascending supply of frames.
\<close>

datatype vm_call =
    CallAllocPage u8 u64
  | CallMap space_id u64 u64 u64 vm_protection vm_cache vm_privilege bool
  | CallRewrite space_id u64 u64 vm_protection vm_cache vm_privilege bool
  | CallUnmap space_id u64 u64

definition recording :: "(u64 \<times> vm_call list) vm_env" where
  "recording = \<lparr>
     e_alloc_page = (\<lambda>flags (next', log). Some ((next' + PAGE_SIZE, log @ [CallAllocPage flags next']), next')),
     e_map = (\<lambda>k v p l pr c pv g (n, log). Some (n, log @ [CallMap k v p l pr c pv g])),
     e_rewrite = (\<lambda>k v l pr c pv g (n, log). Some (n, log @ [CallRewrite k v l pr c pv g])),
     e_unmap = (\<lambda>k v l (n, log). Some (n, log @ [CallUnmap k v l])),
     e_physical = (\<lambda>k v (n, log). Some None),
     e_store = (\<lambda>_ _ e. e), e_load = (\<lambda>_ n _. replicate n 0)\<rparr>"

section \<open>Machine arithmetic on segments\<close>

text \<open>The addresses of a segment, as naturals: a segment past the end of the address space does not wrap.\<close>

definition seg :: "u64 \<Rightarrow> u64 \<Rightarrow> nat set" where
  "seg b l = {unat b ..< unat b + unat l}"

lemma unat_lt64 [simp]: "unat (w :: u64) < 2 ^ 64"
  using unsigned_less[of w, where 'a = nat] by simp

lemma add_fits: "unat (b :: u64) + unat l < 2 ^ 64 \<Longrightarrow> unat (b + l) = unat b + unat l"
  by (simp add: unat_plus_if')

lemma seg_nonempty: "l \<noteq> 0 \<Longrightarrow> unat b \<in> seg b l"
  by (simp add: seg_def unat_gt_0)

lemma seg_disjoint:
  "l1 \<noteq> 0 \<Longrightarrow> l2 \<noteq> 0 \<Longrightarrow>
   seg b1 l1 \<inter> seg b2 l2 = {} \<longleftrightarrow> unat b1 + unat l1 \<le> unat b2 \<or> unat b2 + unat l2 \<le> unat b1"
proof -
  assume "l1 \<noteq> 0" "l2 \<noteq> 0"
  then have "0 < unat l1" "0 < unat l2" by (simp_all add: unat_gt_0)
  then show ?thesis unfolding seg_def by (auto simp: min_def max_def split: if_splits)
qed

lemma seg_join: "unat b + unat l = unat c \<Longrightarrow> unat l + unat m = unat n \<Longrightarrow> seg b l \<union> seg c m = seg b n"
  unfolding seg_def by auto

lemma page_aligned_iff: "page_aligned a \<longleftrightarrow> 4096 dvd unat a"
  by (simp add: page_aligned_def PAGE_SIZE_def word_unat_eq_iff unat_mod dvd_eq_mod_eq_0)

end
