(* ===== verification/Vm.thy ===== *)
theory Vm
  imports VmBase
begin

text \<open>
  The virtual memory manager of \<^verbatim>\<open>memory/vm.c\<close>: address spaces made of regions, kept in a red black
  tree by base address, and the pool the region structures come from.

  A region pointer is its address; \<open>regions\<close> is the memory of all region structures, whose embedded
  tree nodes are the nodes of the trees in \<open>spaces\<close>. An address space is named by a number, the
  global one being \<open>GLOBAL_SPACE\<close>. The page tables and the frame allocator are the environment \<open>E\<close> of
  theory \<open>VmBase\<close>. \<open>None\<close> is a panic, a failed assertion, a null pointer or a loop without end; an
  address result of \<open>Some None\<close> is a returned \<^verbatim>\<open>nullptr\<close>. The spinlocks are held over each operation
  as a whole and are not part of the state.
\<close>

section \<open>State\<close>

record 'e vm =
  env :: 'e
  regions :: "addr \<Rightarrow> vm_region"
  region_cache :: "addr list"
  spaces :: "space_id \<Rightarrow> vm_address_space"

datatype rewrite_type = REWRITE_TYPE_DELETE | REWRITE_TYPE_PROTECTION | REWRITE_TYPE_CACHE

definition GLOBAL_SPACE :: space_id where "GLOBAL_SPACE = 0"

text \<open>\<^verbatim>\<open>sizeof(vm_region_t)\<close> and the number of regions that fit in a page.\<close>

definition REGION_SIZE :: nat where "REGION_SIZE = 96"
definition REGIONS_PER_PAGE :: nat where "REGIONS_PER_PAGE = 42"

definition ARCH_MEM_PHYS_MAX :: u64 where "ARCH_MEM_PHYS_MAX = 0xFFFFFFFFFFFFF"

definition ADDRESS_IN_BOUNDS :: "u64 \<Rightarrow> u64 \<Rightarrow> u64 \<Rightarrow> bool" where
  "ADDRESS_IN_BOUNDS address start end' \<longleftrightarrow> address \<ge> start \<and> address < end'"

definition SEGMENT_IN_BOUNDS :: "u64 \<Rightarrow> u64 \<Rightarrow> u64 \<Rightarrow> u64 \<Rightarrow> bool" where
  "SEGMENT_IN_BOUNDS base len start end' \<longleftrightarrow> ADDRESS_IN_BOUNDS base start end' \<and> end' - base \<ge> len"

definition ADDRESS_IN_SEGMENT :: "u64 \<Rightarrow> u64 \<Rightarrow> u64 \<Rightarrow> bool" where
  "ADDRESS_IN_SEGMENT address base len \<longleftrightarrow> address \<ge> base \<and> address < base + len"

definition PROT_EQUALS :: "vm_protection \<Rightarrow> vm_protection \<Rightarrow> bool" where
  "PROT_EQUALS p q \<longleftrightarrow> prot_read p = prot_read q \<and> prot_write p = prot_write q \<and> prot_exec p = prot_exec q"

definition region_node_value :: "'e vm \<Rightarrow> addr \<Rightarrow> u64" where
  "region_node_value s a = r_base (regions s a)"

definition vm_create_regions :: "(addr \<Rightarrow> rb_node) \<Rightarrow> rb_tree" where
  "vm_create_regions h = RB_TREE_INIT h"

abbreviation tree :: "'e vm \<Rightarrow> space_id \<Rightarrow> rb_tree" where "tree s k \<equiv> as_regions (spaces s k)"

definition set_tree :: "space_id \<Rightarrow> rb_tree \<Rightarrow> 'e vm \<Rightarrow> 'e vm" where
  "set_tree k t s = s\<lparr>spaces := (spaces s)(k := (spaces s k)\<lparr>as_regions := t\<rparr>)\<rparr>"

definition upd_region :: "addr \<Rightarrow> (vm_region \<Rightarrow> vm_region) \<Rightarrow> 'e vm \<Rightarrow> 'e vm" where
  "upd_region a f s = s\<lparr>regions := (regions s)(a := f (regions s a))\<rparr>"

definition rb_find :: "space_id \<Rightarrow> u64 \<Rightarrow> rb_search_type \<Rightarrow> 'e vm \<Rightarrow> ptr option" where
  "rb_find k v ty s = rb_search (region_node_value s) (tree s k) v ty"

definition rb_add :: "space_id \<Rightarrow> addr \<Rightarrow> 'e vm \<Rightarrow> 'e vm option" where
  "rb_add k a s = do { t \<leftarrow> rb_insert (region_node_value s) (tree s k) a; Some (set_tree k t s) }"

definition rb_del :: "space_id \<Rightarrow> addr \<Rightarrow> 'e vm \<Rightarrow> 'e vm option" where
  "rb_del k a s = do { t \<leftarrow> rb_remove (tree s k) a; Some (set_tree k t s) }"

definition env_call :: "('e \<Rightarrow> 'e option) \<Rightarrow> 'e vm \<Rightarrow> 'e vm option" where
  "env_call f s = do { e \<leftarrow> f (env s); Some (s\<lparr>env := e\<rparr>) }"

section \<open>Holes\<close>

definition find_region :: "space_id \<Rightarrow> u64 \<Rightarrow> u64 \<Rightarrow> 'e vm \<Rightarrow> ptr option" where
  "find_region k address len s = do {
     node \<leftarrow> rb_find k (address + len) RB_SEARCH_NEAREST_LT s;
     Some (case node of
         None \<Rightarrow> None
       | Some a \<Rightarrow> (if r_base (regions s a) + r_length (regions s a) > address then Some a else None))
   }"

partial_function (option) find_hole_loop :: "space_id \<Rightarrow> u64 \<Rightarrow> 'e vm \<Rightarrow> u64 \<Rightarrow> u64 option option" where
  "find_hole_loop k len s address =
    (if \<not> SEGMENT_IN_BOUNDS address len (as_start (spaces s k)) (as_end (spaces s k)) then Some None
     else do {
       region \<leftarrow> find_region k address len s;
       (case region of
          None \<Rightarrow> Some (Some address)
        | Some a \<Rightarrow> find_hole_loop k len s (r_base (regions s a) + r_length (regions s a)))
     })"

definition find_hole :: "space_id \<Rightarrow> u64 \<Rightarrow> u64 \<Rightarrow> 'e vm \<Rightarrow> u64 option option" where
  "find_hole k address len s = do {
     fits \<leftarrow> (if SEGMENT_IN_BOUNDS address len (as_start (spaces s k)) (as_end (spaces s k))
              then do { region \<leftarrow> find_region k address len s; Some (region = None) } else Some False);
     if fits then Some (Some address) else find_hole_loop k len s (as_start (spaces s k))
   }"

section \<open>Regions\<close>

definition privilege_of :: "vm_region \<Rightarrow> vm_privilege" where
  "privilege_of r = (if r_space r = GLOBAL_SPACE then VM_PRIVILEGE_KERNEL else VM_PRIVILEGE_USER)"

text \<open>The loop over the pages of an anonymous region; \<open>is\<close> lists the offsets.\<close>

fun region_map_pages :: "'e vm_env \<Rightarrow> vm_region \<Rightarrow> u64 \<Rightarrow> u64 list \<Rightarrow> 'e vm \<Rightarrow> 'e vm option" where
  "region_map_pages E r address [] s = Some s"
| "region_map_pages E r address (i # is) s = do {
     let virtual_address = address + i;
     (e, physical_address) \<leftarrow> e_alloc_page E (if r_back_zeroed r then 1 else 0) (env s);
     s \<leftarrow> env_call (e_map E (r_space r) virtual_address physical_address PAGE_SIZE (r_prot r) (r_cache r)
            (privilege_of r) (r_space r = GLOBAL_SPACE)) (s\<lparr>env := e\<rparr>);
     region_map_pages E r address is s
   }"

definition page_offsets :: "u64 \<Rightarrow> u64 list" where
  "page_offsets len = map (\<lambda>i. of_nat i * PAGE_SIZE) [0..<unat (len div PAGE_SIZE)]"

definition region_map :: "'e vm_env \<Rightarrow> addr \<Rightarrow> u64 \<Rightarrow> u64 \<Rightarrow> 'e vm \<Rightarrow> 'e vm option" where
  "region_map E a address len s = do {
     ASSERT (address mod PAGE_SIZE = 0 \<and> len mod PAGE_SIZE = 0);
     let r = regions s a;
     (case r_type r of
        VM_REGION_TYPE_ANON \<Rightarrow> region_map_pages E r address (page_offsets len) s
      | VM_REGION_TYPE_DIRECT \<Rightarrow>
          env_call (e_map E (r_space r) address (r_physical r + (address - r_base r)) len (r_prot r) (r_cache r)
            (privilege_of r) (r_space r = GLOBAL_SPACE)) s)
   }"

definition region_unmap :: "'e vm_env \<Rightarrow> addr \<Rightarrow> u64 \<Rightarrow> u64 \<Rightarrow> 'e vm \<Rightarrow> 'e vm option" where
  "region_unmap E a address len s = do {
     ASSERT (address mod PAGE_SIZE = 0 \<and> len mod PAGE_SIZE = 0);
     let r = regions s a;
     ASSERT (address \<ge> r_base r \<and> address + len \<le> r_base r + r_length r);
     env_call (e_unmap E (r_space r) address len) s
   }"

definition regions_mergeable :: "vm_region \<Rightarrow> vm_region \<Rightarrow> bool" where
  "regions_mergeable left right \<longleftrightarrow>
     r_type left = r_type right \<and> r_base left + r_length left = r_base right \<and>
     PROT_EQUALS (r_prot left) (r_prot right) \<and> r_cache left = r_cache right \<and> r_dynamic left = r_dynamic right \<and>
     (case r_type left of
        VM_REGION_TYPE_ANON \<Rightarrow> r_back_zeroed left = r_back_zeroed right
      | VM_REGION_TYPE_DIRECT \<Rightarrow>
          SEGMENT_IN_BOUNDS (r_physical left) (r_length left) 0 ARCH_MEM_PHYS_MAX \<and>
          r_physical left + r_length left = r_physical right)"

definition region_free :: "addr \<Rightarrow> 'e vm \<Rightarrow> 'e vm option" where
  "region_free a s = do { xs \<leftarrow> seq_push (region_cache s) a; Some (s\<lparr>region_cache := xs\<rparr>) }"

definition region_insert :: "space_id \<Rightarrow> addr \<Rightarrow> 'e vm \<Rightarrow> ('e vm \<times> addr) option" where
  "region_insert k a s = do {
     right_node \<leftarrow> rb_find k (r_base (regions s a)) RB_SEARCH_NEAREST_GT s;
     s \<leftarrow> (case right_node of
         Some right \<Rightarrow>
           if regions_mergeable (regions s a) (regions s right) then do {
             let s = upd_region a (\<lambda>r. r\<lparr>r_length := r_length r + r_length (regions s right)\<rparr>) s;
             s \<leftarrow> rb_del k right s;
             region_free right s
           } else Some s
       | None \<Rightarrow> Some s);
     s \<leftarrow> rb_add k a s;
     left_node \<leftarrow> rb_find k (r_base (regions s a)) RB_SEARCH_NEAREST_LT s;
     (case left_node of
        Some left \<Rightarrow>
          if regions_mergeable (regions s left) (regions s a) then do {
            let s = upd_region left (\<lambda>r. r\<lparr>r_length := r_length r + r_length (regions s a)\<rparr>) s;
            s \<leftarrow> rb_del k a s;
            s \<leftarrow> region_free a s;
            Some (s, left)
          } else Some (s, a)
      | None \<Rightarrow> Some (s, a))
   }"

text \<open>
  A region whose bytes are all zero, as in the page \<^verbatim>\<open>PMM_FLAG_ZERO\<close> gives, and the addresses of the
  regions in a page.
\<close>

definition zero_region :: vm_region where
  "zero_region = \<lparr>r_space = 0, r_base = 0, r_length = 0, r_type = VM_REGION_TYPE_ANON, r_prot = VM_PROT_NONE,
     r_cache = VM_CACHE_STANDARD, r_dynamic = False, r_back_zeroed = False, r_physical = 0\<rparr>"

definition page_regions :: "u64 \<Rightarrow> nat \<Rightarrow> addr list" where
  "page_regions address n = map (\<lambda>i. address + of_nat (i * REGION_SIZE)) [n..<REGIONS_PER_PAGE]"

fun push_regions :: "addr list \<Rightarrow> 'e vm \<Rightarrow> 'e vm option" where
  "push_regions [] s = Some s"
| "push_regions (a # as) s = do { s \<leftarrow> region_free a s; push_regions as s }"

definition region_refill :: "'e vm_env \<Rightarrow> 'e vm \<Rightarrow> 'e vm option" where
  "region_refill E s = do {
     (e, page) \<leftarrow> e_alloc_page E 1 (env s);
     let s = s\<lparr>env := e\<rparr>;
     hole \<leftarrow> find_hole GLOBAL_SPACE 0 PAGE_SIZE s;
     address \<leftarrow> hole;
     s \<leftarrow> env_call (e_map E GLOBAL_SPACE address page PAGE_SIZE VM_PROT_RW VM_CACHE_STANDARD VM_PRIVILEGE_KERNEL True) s;
     let s = s\<lparr>regions := (\<lambda>a. if a \<in> set (page_regions address 0) then zero_region else regions s a)\<rparr>;
     let s = upd_region address (\<lambda>r. r\<lparr>r_space := GLOBAL_SPACE, r_type := VM_REGION_TYPE_ANON, r_base := address,
       r_length := PAGE_SIZE, r_prot := VM_PROT_RW, r_cache := VM_CACHE_STANDARD, r_dynamic := False\<rparr>) s;
     (s, _) \<leftarrow> region_insert GLOBAL_SPACE address s;
     push_regions (page_regions address 1) s
   }"

definition region_alloc :: "'e vm_env \<Rightarrow> 'e vm \<Rightarrow> ('e vm \<times> addr) option" where
  "region_alloc E s = do {
     s \<leftarrow> (if length (region_cache s) = 0 then region_refill E s else Some s);
     let (rest, node) = seq_pop (region_cache s);
     a \<leftarrow> node;
     Some (s\<lparr>region_cache := rest\<rparr>, a)
   }"

definition clone_to :: "'e vm_env \<Rightarrow> u64 \<Rightarrow> u64 \<Rightarrow> addr \<Rightarrow> 'e vm \<Rightarrow> ('e vm \<times> addr) option" where
  "clone_to E base len from s = do {
     (s, a) \<leftarrow> region_alloc E s;
     let f = regions s from;
     let s = upd_region a (\<lambda>r. r\<lparr>r_type := r_type f, r_space := r_space f, r_cache := r_cache f, r_prot := r_prot f,
       r_dynamic := r_dynamic f\<rparr>) s;
     s \<leftarrow> (case r_type f of
         VM_REGION_TYPE_ANON \<Rightarrow> Some (upd_region a (\<lambda>r. r\<lparr>r_back_zeroed := r_back_zeroed f\<rparr>) s)
       | VM_REGION_TYPE_DIRECT \<Rightarrow>
           if base > r_base f then do {
             ASSERT (- 1 - r_physical f > base - r_base f);
             Some (upd_region a (\<lambda>r. r\<lparr>r_physical := r_physical f + (base - r_base f)\<rparr>) s)
           } else do {
             ASSERT (r_physical f > r_base f - base);
             Some (upd_region a (\<lambda>r. r\<lparr>r_physical := r_physical f - (r_base f - base)\<rparr>) s)
           });
     Some (upd_region a (\<lambda>r. r\<lparr>r_base := base, r_length := len\<rparr>) s, a)
   }"

definition addr_to_region :: "space_id \<Rightarrow> u64 \<Rightarrow> 'e vm \<Rightarrow> ptr option" where
  "addr_to_region k address s =
    (if \<not> ADDRESS_IN_BOUNDS address (as_start (spaces s k)) (as_end (spaces s k)) then Some None
     else do {
       node \<leftarrow> rb_find k address RB_SEARCH_NEAREST_LTE s;
       Some (case node of
           None \<Rightarrow> None
         | Some a \<Rightarrow>
             if \<not> ADDRESS_IN_SEGMENT address (r_base (regions s a)) (r_length (regions s a)) then None else Some a)
     })"

definition MATH_FLOOR :: "u64 \<Rightarrow> u64 \<Rightarrow> u64" where
  "MATH_FLOOR v precision = (v div precision) * precision"

definition address_space_fix_page :: "'e vm_env \<Rightarrow> space_id \<Rightarrow> u64 \<Rightarrow> 'e vm \<Rightarrow> ('e vm \<times> bool) option" where
  "address_space_fix_page E k vaddr s = do {
     region \<leftarrow> addr_to_region k vaddr s;
     (case region of
        None \<Rightarrow> Some (s, False)
      | Some a \<Rightarrow>
          if \<not> r_dynamic (regions s a) then Some (s, False)
          else do { s \<leftarrow> region_map E a (MATH_FLOOR vaddr PAGE_SIZE) PAGE_SIZE s; Some (s, True) })
   }"

partial_function (option) memory_exists_loop :: "space_id \<Rightarrow> u64 \<Rightarrow> 'e vm \<Rightarrow> u64 \<Rightarrow> bool option" where
  "memory_exists_loop k address s top' =
    (if top' > address then do {
       node \<leftarrow> rb_find k top' RB_SEARCH_NEAREST_LT s;
       (case node of
          None \<Rightarrow> Some False
        | Some a \<Rightarrow>
            if r_base (regions s a) + r_length (regions s a) < top' then Some False
            else memory_exists_loop k address s (r_base (regions s a)))
     } else Some True)"

definition memory_exists :: "space_id \<Rightarrow> u64 \<Rightarrow> u64 \<Rightarrow> 'e vm \<Rightarrow> bool option" where
  "memory_exists k address len s =
    (if \<not> ADDRESS_IN_BOUNDS address (as_start (spaces s k)) (as_end (spaces s k)) \<or>
        \<not> ADDRESS_IN_BOUNDS (address + len) (as_start (spaces s k)) (as_end (spaces s k)) then Some False
     else memory_exists_loop k address s (address + len))"

section \<open>Mapping\<close>

definition map_common :: "'e vm_env \<Rightarrow> space_id \<Rightarrow> u64 \<Rightarrow> u64 \<Rightarrow> vm_protection \<Rightarrow> vm_cache \<Rightarrow> vm_flags \<Rightarrow>
    vm_region_type \<Rightarrow> u64 \<Rightarrow> 'e vm \<Rightarrow> ('e vm \<times> ptr) option" where
  "map_common E k hint len prot cache flags type direct_physical_address s =
    (if len = 0 \<or> len mod PAGE_SIZE \<noteq> 0 then Some (s, None)
     else if hint mod PAGE_SIZE \<noteq> 0 \<and> flags AND VM_FLAG_FIXED \<noteq> 0 then Some (s, None)
     else do {
       let address = (if hint mod PAGE_SIZE \<noteq> 0 then hint + (PAGE_SIZE - hint mod PAGE_SIZE) else hint);
       (s, a) \<leftarrow> region_alloc E s;
       result \<leftarrow> find_hole k address len s;
       (case result of
          None \<Rightarrow> do { s \<leftarrow> region_free a s; Some (s, None) }
        | Some address \<Rightarrow>
            if hint \<noteq> address \<and> flags AND VM_FLAG_FIXED \<noteq> 0 then do { s \<leftarrow> region_free a s; Some (s, None) }
            else do {
              ASSERT (SEGMENT_IN_BOUNDS address len (as_start (spaces s k)) (as_end (spaces s k)));
              ASSERT (address mod PAGE_SIZE = 0 \<and> len mod PAGE_SIZE = 0);
              let s = upd_region a (\<lambda>r. r\<lparr>r_space := k, r_type := type, r_base := address, r_length := len,
                r_prot := prot, r_cache := cache, r_dynamic := (flags AND VM_FLAG_DYNAMICALLY_BACKED \<noteq> 0)\<rparr>) s;
              s \<leftarrow> (case type of
                  VM_REGION_TYPE_ANON \<Rightarrow> Some (upd_region a (\<lambda>r. r\<lparr>r_back_zeroed := (flags AND VM_FLAG_ZERO \<noteq> 0)\<rparr>) s)
                | VM_REGION_TYPE_DIRECT \<Rightarrow> do {
                    ASSERT (direct_physical_address mod PAGE_SIZE = 0);
                    Some (upd_region a (\<lambda>r. r\<lparr>r_physical := direct_physical_address\<rparr>) s)
                  });
              s \<leftarrow> (if \<not> r_dynamic (regions s a)
                    then region_map E a (r_base (regions s a)) (r_length (regions s a)) s else Some s);
              (s, _) \<leftarrow> region_insert k a s;
              Some (s, Some address)
            })
     })"

definition vm_map_anon :: "'e vm_env \<Rightarrow> space_id \<Rightarrow> u64 \<Rightarrow> u64 \<Rightarrow> vm_protection \<Rightarrow> vm_cache \<Rightarrow> vm_flags \<Rightarrow>
    'e vm \<Rightarrow> ('e vm \<times> ptr) option" where
  "vm_map_anon E k hint len prot cache flags s = map_common E k hint len prot cache flags VM_REGION_TYPE_ANON 0 s"

definition vm_map_direct :: "'e vm_env \<Rightarrow> space_id \<Rightarrow> u64 \<Rightarrow> u64 \<Rightarrow> vm_protection \<Rightarrow> vm_cache \<Rightarrow> u64 \<Rightarrow> vm_flags \<Rightarrow>
    'e vm \<Rightarrow> ('e vm \<times> ptr) option" where
  "vm_map_direct E k hint len prot cache physical_address flags s =
     map_common E k hint len prot cache flags VM_REGION_TYPE_DIRECT physical_address s"

section \<open>Unmapping and rewriting\<close>

text \<open>The test of the two switches: the region already has what is asked for.\<close>

definition rewrite_done :: "rewrite_type \<Rightarrow> vm_protection \<Rightarrow> vm_cache \<Rightarrow> vm_region \<Rightarrow> bool" where
  "rewrite_done type prot cache r \<longleftrightarrow>
     (case type of
        REWRITE_TYPE_DELETE \<Rightarrow> False
      | REWRITE_TYPE_CACHE \<Rightarrow> r_cache r = cache
      | REWRITE_TYPE_PROTECTION \<Rightarrow> PROT_EQUALS (r_prot r) prot)"

definition rewrite_region :: "rewrite_type \<Rightarrow> vm_protection \<Rightarrow> vm_cache \<Rightarrow> vm_region \<Rightarrow> vm_region" where
  "rewrite_region type prot cache r =
     (case type of
        REWRITE_TYPE_DELETE \<Rightarrow> r
      | REWRITE_TYPE_CACHE \<Rightarrow> r\<lparr>r_cache := cache\<rparr>
      | REWRITE_TYPE_PROTECTION \<Rightarrow> r\<lparr>r_prot := prot\<rparr>)"

text \<open>The end of both parts: the new region is changed, inserted and its page table entries follow.\<close>

definition rewrite_finish :: "'e vm_env \<Rightarrow> space_id \<Rightarrow> rewrite_type \<Rightarrow> vm_protection \<Rightarrow> vm_cache \<Rightarrow> addr \<Rightarrow>
    u64 \<Rightarrow> u64 \<Rightarrow> 'e vm \<Rightarrow> 'e vm option" where
  "rewrite_finish E k type prot cache a split_base split_length s = do {
     let s = upd_region a (rewrite_region type prot cache) s;
     (s, a) \<leftarrow> region_insert k a s;
     let r = regions s a;
     env_call (e_rewrite E (r_space r) split_base split_length (r_prot r) (r_cache r) (privilege_of r)
       (r_space r = GLOBAL_SPACE)) s
   }"

text \<open>What remains of the split region behind and before the range (label \<^verbatim>\<open>l_no_clone\<close>).\<close>

definition split_right :: "'e vm_env \<Rightarrow> space_id \<Rightarrow> addr \<Rightarrow> u64 \<Rightarrow> u64 \<Rightarrow> 'e vm \<Rightarrow> 'e vm option" where
  "split_right E k sr split_base split_length s =
    (if r_base (regions s sr) + r_length (regions s sr) > split_base + split_length then do {
       let new_base = split_base + split_length;
       let new_length = (r_base (regions s sr) + r_length (regions s sr)) - (split_base + split_length);
       (s, a) \<leftarrow> clone_to E new_base new_length sr s;
       rb_add k a s
     } else Some s)"

definition split_left :: "space_id \<Rightarrow> addr \<Rightarrow> u64 \<Rightarrow> 'e vm \<Rightarrow> 'e vm option" where
  "split_left k sr split_base s =
    (if split_base > r_base (regions s sr)
     then Some (upd_region sr (\<lambda>r. r\<lparr>r_length := split_base - r_base r\<rparr>) s)
     else do { s \<leftarrow> rb_del k sr s; region_free sr s })"

text \<open>The part before the loop, for the region that holds \<open>address\<close>; the result is \<^verbatim>\<open>current_address\<close>.\<close>

definition rewrite_first :: "'e vm_env \<Rightarrow> space_id \<Rightarrow> u64 \<Rightarrow> u64 \<Rightarrow> rewrite_type \<Rightarrow> vm_protection \<Rightarrow> vm_cache \<Rightarrow>
    'e vm \<Rightarrow> ('e vm \<times> u64) option" where
  "rewrite_first E k address len type prot cache s = do {
     node \<leftarrow> rb_find k address RB_SEARCH_NEAREST_LTE s;
     (case node of
        None \<Rightarrow> Some (s, address)
      | Some sr \<Rightarrow>
          if r_base (regions s sr) + r_length (regions s sr) > address then do {
            let split_base = address;
            let split_length = (r_base (regions s sr) + r_length (regions s sr)) - split_base;
            let split_length = (if split_length > len then len else split_length);
            if rewrite_done type prot cache (regions s sr) then Some (s, split_base + split_length)
            else do {
              (s, region) \<leftarrow> (if type = REWRITE_TYPE_DELETE
                 then do { s \<leftarrow> region_unmap E sr split_base split_length s; Some (s, None) }
                 else do { (s, a) \<leftarrow> clone_to E split_base split_length sr s; Some (s, Some a) });
              s \<leftarrow> split_right E k sr split_base split_length s;
              s \<leftarrow> split_left k sr split_base s;
              s \<leftarrow> (case region of
                  None \<Rightarrow> Some s
                | Some a \<Rightarrow> rewrite_finish E k type prot cache a split_base split_length s);
              Some (s, split_base + split_length)
            }
          } else Some (s, address))
   }"

text \<open>
  One iteration of the loop, for the region at or behind \<^verbatim>\<open>current_address\<close>; the result is \<open>None\<close> at
  the \<^verbatim>\<open>break\<close>. With \<open>REWRITE_TYPE_DELETE\<close> the code jumps over the initialisation of \<^verbatim>\<open>split_base\<close>:
  what is read then is \<open>junk\<close>.
\<close>

definition rewrite_step :: "(u64 \<Rightarrow> u64) \<Rightarrow> 'e vm_env \<Rightarrow> space_id \<Rightarrow> u64 \<Rightarrow> u64 \<Rightarrow> rewrite_type \<Rightarrow> vm_protection \<Rightarrow>
    vm_cache \<Rightarrow> u64 \<Rightarrow> 'e vm \<Rightarrow> ('e vm \<times> u64 option) option" where
  "rewrite_step junk E k address len type prot cache current_address s = do {
     node \<leftarrow> rb_find k current_address RB_SEARCH_NEAREST_GTE s;
     (case node of
        None \<Rightarrow> Some (s, None)
      | Some sr \<Rightarrow> do {
          let current_address = r_base (regions s sr) + r_length (regions s sr);
          let split_length = (address + len) - r_base (regions s sr);
          let split_length = (if split_length > r_length (regions s sr) then r_length (regions s sr) else split_length);
          if rewrite_done type prot cache (regions s sr) then Some (s, Some current_address)
          else do {
            (s, region, split_base) \<leftarrow> (if type = REWRITE_TYPE_DELETE
               then do {
                 s \<leftarrow> region_unmap E sr (r_base (regions s sr)) split_length s;
                 Some (s, None, junk (r_base (regions s sr)))
               } else do {
                 let split_base = r_base (regions s sr);
                 (s, a) \<leftarrow> clone_to E split_base split_length sr s;
                 Some (s, Some a, split_base)
               });
            s \<leftarrow> (if r_length (regions s sr) > split_length then do {
               (s, a) \<leftarrow> clone_to E (split_base + split_length) (r_length (regions s sr) - split_length) sr s;
               rb_add k a s
             } else Some s);
            s \<leftarrow> rb_del k sr s;
            s \<leftarrow> region_free sr s;
            s \<leftarrow> (case region of
                None \<Rightarrow> Some s
              | Some a \<Rightarrow> rewrite_finish E k type prot cache a split_base split_length s);
            Some (s, Some current_address)
          }
        })
   }"

partial_function (option) rewrite_loop :: "(u64 \<Rightarrow> u64) \<Rightarrow> 'e vm_env \<Rightarrow> space_id \<Rightarrow> u64 \<Rightarrow> u64 \<Rightarrow> rewrite_type \<Rightarrow>
    vm_protection \<Rightarrow> vm_cache \<Rightarrow> u64 \<Rightarrow> 'e vm \<Rightarrow> 'e vm option" where
  "rewrite_loop junk E k address len type prot cache current_address s =
    (if current_address < address + len then do {
       (s, next') \<leftarrow> rewrite_step junk E k address len type prot cache current_address s;
       (case next' of
          None \<Rightarrow> Some s
        | Some current_address \<Rightarrow> rewrite_loop junk E k address len type prot cache current_address s)
     } else Some s)"

definition rewrite_common :: "(u64 \<Rightarrow> u64) \<Rightarrow> 'e vm_env \<Rightarrow> space_id \<Rightarrow> u64 \<Rightarrow> u64 \<Rightarrow> rewrite_type \<Rightarrow> vm_protection \<Rightarrow>
    vm_cache \<Rightarrow> 'e vm \<Rightarrow> 'e vm option" where
  "rewrite_common junk E k address len type prot cache s =
    (if len = 0 then Some s
     else do {
       ASSERT (address mod PAGE_SIZE = 0 \<and> len mod PAGE_SIZE = 0);
       ASSERT (SEGMENT_IN_BOUNDS address len (as_start (spaces s k)) (as_end (spaces s k)));
       (s, current_address) \<leftarrow> rewrite_first E k address len type prot cache s;
       rewrite_loop junk E k address len type prot cache current_address s
     })"

definition vm_unmap :: "(u64 \<Rightarrow> u64) \<Rightarrow> 'e vm_env \<Rightarrow> space_id \<Rightarrow> u64 \<Rightarrow> u64 \<Rightarrow> 'e vm \<Rightarrow> 'e vm option" where
  "vm_unmap junk E k address len s =
     rewrite_common junk E k address len REWRITE_TYPE_DELETE VM_PROT_NONE VM_CACHE_STANDARD s"

definition vm_rewrite_prot :: "(u64 \<Rightarrow> u64) \<Rightarrow> 'e vm_env \<Rightarrow> space_id \<Rightarrow> u64 \<Rightarrow> u64 \<Rightarrow> vm_protection \<Rightarrow> 'e vm \<Rightarrow> 'e vm option" where
  "vm_rewrite_prot junk E k address len prot s =
     rewrite_common junk E k address len REWRITE_TYPE_PROTECTION prot VM_CACHE_STANDARD s"

definition vm_rewrite_cache :: "(u64 \<Rightarrow> u64) \<Rightarrow> 'e vm_env \<Rightarrow> space_id \<Rightarrow> u64 \<Rightarrow> u64 \<Rightarrow> vm_cache \<Rightarrow> 'e vm \<Rightarrow> 'e vm option" where
  "vm_rewrite_cache junk E k address len cache s =
     rewrite_common junk E k address len REWRITE_TYPE_CACHE VM_PROT_NONE cache s"

section \<open>Faults\<close>

text \<open>
  The part of \<^verbatim>\<open>thread_t\<close> a fault uses: the address space of its process, if it has one, and \<^verbatim>\<open>vm_fault\<close>.
\<close>

record vm_thread =
  vt_proc :: "space_id option"
  vt_in_flight :: bool
  vt_address :: u64

definition vm_fault_soft :: "'e vm_env \<Rightarrow> vm_thread \<Rightarrow> 'e vm \<Rightarrow> ('e vm \<times> vm_thread) option" where
  "vm_fault_soft E t s = do {
     k \<leftarrow> vt_proc t;
     (s, ok) \<leftarrow> address_space_fix_page E k (vt_address t) s;
     ASSERT ok;
     Some (s, t\<lparr>vt_in_flight := False\<rparr>)
   }"

text \<open>The result is the thread, whether \<open>vm_fault_soft\<close> was queued as deferred work, and the returned value.\<close>

definition vm_fault :: "u64 \<Rightarrow> vm_fault \<Rightarrow> vm_thread \<Rightarrow> 'e vm \<Rightarrow> (vm_thread \<times> bool \<times> bool) option" where
  "vm_fault address fault t s =
    (if fault \<noteq> VM_FAULT_NOT_PRESENT then Some (t, False, False)
     else if ADDRESS_IN_BOUNDS address (as_start (spaces s GLOBAL_SPACE)) (as_end (spaces s GLOBAL_SPACE))
     then Some (t, False, False)
     else do {
       ASSERT (\<not> vt_in_flight t);
       (case vt_proc t of
          None \<Rightarrow> Some (t, False, False)
        | Some k \<Rightarrow> Some (t\<lparr>vt_in_flight := True, vt_address := address\<rparr>, True, True))
     })"

section \<open>Copying between address spaces\<close>

definition physical_or_fix :: "'e vm_env \<Rightarrow> space_id \<Rightarrow> u64 \<Rightarrow> 'e vm \<Rightarrow> ('e vm \<times> u64 option) option" where
  "physical_or_fix E k vaddr s = do {
     phys \<leftarrow> e_physical E k vaddr (env s);
     (case phys of
        Some p \<Rightarrow> Some (s, Some p)
      | None \<Rightarrow> do {
          (s, fixed) \<leftarrow> address_space_fix_page E k vaddr s;
          if \<not> fixed then Some (s, None)
          else do {
            phys \<leftarrow> e_physical E k vaddr (env s);
            ASSERT (phys \<noteq> None);
            Some (s, phys)
          }
        })
   }"

definition chunk :: "u64 \<Rightarrow> u64 \<Rightarrow> u64 \<Rightarrow> u64" where
  "chunk address n i = (let offset = (address + i) mod PAGE_SIZE in
     if n - i < PAGE_SIZE - offset then n - i else PAGE_SIZE - offset)"

partial_function (option) vm_copy_to_loop :: "'e vm_env \<Rightarrow> space_id \<Rightarrow> u64 \<Rightarrow> u8 list \<Rightarrow> u64 \<Rightarrow> u64 \<Rightarrow> 'e vm \<Rightarrow>
    ('e vm \<times> u64) option" where
  "vm_copy_to_loop E k dest_addr src n i s =
    (if i < n then do {
       (s, phys) \<leftarrow> physical_or_fix E k (dest_addr + i) s;
       (case phys of
          None \<Rightarrow> Some (s, i)
        | Some p \<Rightarrow>
            let len = chunk dest_addr n i;
                s = s\<lparr>env := e_store E p (take (unat len) src) (env s)\<rparr>
            in vm_copy_to_loop E k dest_addr (drop (unat len) src) n (i + len) s)
     } else Some (s, i))"

definition vm_copy_to :: "'e vm_env \<Rightarrow> space_id \<Rightarrow> u64 \<Rightarrow> u8 list \<Rightarrow> u64 \<Rightarrow> 'e vm \<Rightarrow> ('e vm \<times> u64) option" where
  "vm_copy_to E k dest_addr src n s = do {
     exists \<leftarrow> memory_exists k dest_addr n s;
     if \<not> exists then Some (s, 0) else vm_copy_to_loop E k dest_addr src n 0 s
   }"

partial_function (option) vm_copy_from_loop :: "'e vm_env \<Rightarrow> u8 list \<Rightarrow> space_id \<Rightarrow> u64 \<Rightarrow> u64 \<Rightarrow> u64 \<Rightarrow> 'e vm \<Rightarrow>
    ('e vm \<times> u8 list \<times> u64) option" where
  "vm_copy_from_loop E dest k src_addr n i s =
    (if i < n then do {
       (s, phys) \<leftarrow> physical_or_fix E k (src_addr + i) s;
       (case phys of
          None \<Rightarrow> Some (s, dest, i)
        | Some p \<Rightarrow>
            let len = chunk src_addr n i
            in vm_copy_from_loop E (dest @ e_load E p (unat len) (env s)) k src_addr n (i + len) s)
     } else Some (s, dest, i))"

definition vm_copy_from :: "'e vm_env \<Rightarrow> space_id \<Rightarrow> u64 \<Rightarrow> u64 \<Rightarrow> 'e vm \<Rightarrow> ('e vm \<times> u8 list \<times> u64) option" where
  "vm_copy_from E k src_addr n s = do {
     exists \<leftarrow> memory_exists k src_addr n s;
     if \<not> exists then Some (s, [], 0) else vm_copy_from_loop E [] k src_addr n 0 s
   }"

end
