(* ===== verification/VmInv.thy ===== *)
theory VmInv
  imports Vm
begin

text \<open>
  The invariant of an address space and what it stands for: \<open>img s ys\<close> is the set of addresses the
  regions \<open>ys\<close> map, each with its attributes. Merging and splitting regions is invisible in it.
\<close>

section \<open>What a region maps\<close>

definition rseg :: "vm_region \<Rightarrow> nat set" where
  "rseg r = seg (r_base r) (r_length r)"

text \<open>The attributes of one mapped address: for direct memory, the physical address is one of them.\<close>

type_synonym vm_attr = "vm_region_type \<times> vm_protection \<times> vm_cache \<times> bool \<times> bool \<times> nat"

definition attr_at :: "vm_region \<Rightarrow> nat \<Rightarrow> vm_attr" where
  "attr_at r p = (r_type r, r_prot r, r_cache r, r_dynamic r,
     (case r_type r of
        VM_REGION_TYPE_ANON \<Rightarrow> (r_back_zeroed r, 0)
      | VM_REGION_TYPE_DIRECT \<Rightarrow> (False, unat (r_physical r) + (p - unat (r_base r)))))"

definition rimg :: "vm_region \<Rightarrow> (nat \<times> vm_attr) set" where
  "rimg r = {(p, attr_at r p) | p. p \<in> rseg r}"

definition img :: "'e vm \<Rightarrow> addr list \<Rightarrow> (nat \<times> vm_attr) set" where
  "img s ys = (\<Union>a \<in> set ys. rimg (regions s a))"

definition cov :: "'e vm \<Rightarrow> addr list \<Rightarrow> nat set" where
  "cov s ys = (\<Union>a \<in> set ys. rseg (regions s a))"

lemma fst_rimg [simp]: "fst ` rimg r = rseg r"
  by (force simp: rimg_def)

lemma cov_img: "cov s ys = fst ` img s ys"
  by (simp add: cov_def img_def image_UN)

lemma PROT_EQUALS_eq [simp]: "PROT_EQUALS p q \<longleftrightarrow> p = q"
  by (auto simp: PROT_EQUALS_def)

section \<open>The invariant of an address space\<close>

definition region_ok :: "vm_address_space \<Rightarrow> space_id \<Rightarrow> vm_region \<Rightarrow> bool" where
  "region_ok S k r \<longleftrightarrow> r_space r = k \<and> r_length r \<noteq> 0 \<and> page_aligned (r_base r) \<and> page_aligned (r_length r) \<and>
     as_start S \<le> r_base r \<and> unat (r_base r) + unat (r_length r) \<le> unat (as_end S)"

definition space_ok :: "'e vm \<Rightarrow> space_id \<Rightarrow> addr list \<Rightarrow> bool" where
  "space_ok s k ys \<longleftrightarrow> rb_inv (region_node_value s) (tree s k) ys \<and> page_aligned (as_start (spaces s k)) \<and>
     (\<forall>a \<in> set ys. region_ok (spaces s k) k (regions s a)) \<and>
     (\<forall>a \<in> set ys. \<forall>b \<in> set ys. a \<noteq> b \<longrightarrow> rseg (regions s a) \<inter> rseg (regions s b) = {})"

lemma space_okD:
  assumes "space_ok s k ys"
  shows "rb_inv (region_node_value s) (tree s k) ys" "page_aligned (as_start (spaces s k))"
    "\<And>a. a \<in> set ys \<Longrightarrow> region_ok (spaces s k) k (regions s a)"
    "\<And>a b. a \<in> set ys \<Longrightarrow> b \<in> set ys \<Longrightarrow> a \<noteq> b \<Longrightarrow> rseg (regions s a) \<inter> rseg (regions s b) = {}"
  using assms by (auto simp: space_ok_def)

lemma region_ok_end:
  assumes "region_ok S k r"
  shows "unat (r_base r + r_length r) = unat (r_base r) + unat (r_length r)"
    "unat (r_base r) < unat (r_base r + r_length r)" "unat (r_base r + r_length r) \<le> unat (as_end S)"
proof -
  have "unat (r_base r) + unat (r_length r) < 2 ^ 64"
    using assms unat_lt64[of "as_end S"] unfolding region_ok_def by linarith
  then show "unat (r_base r + r_length r) = unat (r_base r) + unat (r_length r)" by (rule add_fits)
  with assms show "unat (r_base r) < unat (r_base r + r_length r)" "unat (r_base r + r_length r) \<le> unat (as_end S)"
    by (simp_all add: region_ok_def unat_gt_0)
qed

lemma rseg_iff: "region_ok S k r \<Longrightarrow> p \<in> rseg r \<longleftrightarrow> unat (r_base r) \<le> p \<and> p < unat (r_base r + r_length r)"
  using region_ok_end(1) by (simp add: rseg_def seg_def)

lemma space_ok_find:
  "space_ok s k ys \<Longrightarrow> \<exists>r. rb_find k v ty s = Some r \<and> search_spec (region_node_value s) v ty ys r"
  unfolding rb_find_def by (rule rb_inv_search) (simp add: space_ok_def)

text \<open>Regions do not overlap: the one of lower base ends before the other begins.\<close>

lemma space_ok_apart:
  assumes ok: "space_ok s k ys" and a: "a \<in> set ys" and b: "b \<in> set ys" and lt: "r_base (regions s a) < r_base (regions s b)"
  shows "r_base (regions s a) + r_length (regions s a) \<le> r_base (regions s b)"
proof -
  note ra = space_okD(3)[OF ok a] and rb = space_okD(3)[OF ok b]
  have "a \<noteq> b" using lt by auto
  then have "rseg (regions s a) \<inter> rseg (regions s b) = {}" using space_okD(4)[OF ok a b] by blast
  then have "unat (r_base (regions s b)) \<notin> rseg (regions s a)"
    using seg_nonempty[of "r_length (regions s b)"] rb by (auto simp: rseg_def region_ok_def)
  with lt show ?thesis unfolding rseg_iff[OF ra] by (simp add: word_le_nat_alt word_less_nat_alt)
qed

lemma space_ok_inj:
  assumes ok: "space_ok s k ys" and a: "a \<in> set ys" and b: "b \<in> set ys" and eq: "r_base (regions s a) = r_base (regions s b)"
  shows "a = b"
proof (rule ccontr)
  assume "a \<noteq> b"
  then have "rseg (regions s a) \<inter> rseg (regions s b) = {}" using space_okD(4)[OF ok a b] by blast
  moreover have "unat (r_base (regions s a)) \<in> rseg (regions s a)" "unat (r_base (regions s a)) \<in> rseg (regions s b)"
    using space_okD(3)[OF ok a] space_okD(3)[OF ok b] eq seg_nonempty by (auto simp: rseg_def region_ok_def)
  ultimately show False by blast
qed

section \<open>Updates\<close>

lemma regions_upd [simp]: "regions (upd_region a f s) b = (if b = a then f (regions s a) else regions s b)"
  by (simp add: upd_region_def)

lemma upd_region_other [simp]:
  "env (upd_region a f s) = env s" "region_cache (upd_region a f s) = region_cache s" "spaces (upd_region a f s) = spaces s"
  by (simp_all add: upd_region_def)

lemma set_tree_other [simp]:
  "env (set_tree k t s) = env s" "region_cache (set_tree k t s) = region_cache s" "regions (set_tree k t s) = regions s"
  "spaces (set_tree k t s) j = (if j = k then (spaces s k)\<lparr>as_regions := t\<rparr> else spaces s j)"
  by (simp_all add: set_tree_def)

lemma value_set_tree [simp]: "region_node_value (set_tree k t s) = region_node_value s"
  by (simp add: region_node_value_def fun_eq_iff)

lemma region_ok_start_end:
  "as_start S' = as_start S \<Longrightarrow> as_end S' = as_end S \<Longrightarrow> region_ok S' k r = region_ok S k r"
  by (simp add: region_ok_def)

lemma img_cong: "(\<And>a. a \<in> set ys \<Longrightarrow> regions s' a = regions s a) \<Longrightarrow> img s' ys = img s ys"
  by (simp add: img_def)

text \<open>The invariant looks at a state through the regions and the space alone.\<close>

lemma space_ok_cong:
  assumes ok: "space_ok s k ys" and sp: "spaces s' k = spaces s k"
    and r: "\<And>a. a \<in> set ys \<Longrightarrow> regions s' a = regions s a"
  shows "space_ok s' k ys"
proof -
  have "rb_inv (region_node_value s') (tree s k) ys"
    using space_okD(1)[OF ok] by (rule rb_inv_cong) (simp add: region_node_value_def r)
  with ok show ?thesis by (simp add: space_ok_def sp r)
qed

lemma space_ok_del:
  assumes ok: "space_ok s k ys" and b: "b \<in> set ys"
  shows "\<exists>t. rb_remove (tree s k) b = Some t \<and> rb_del k b s = Some (set_tree k t s) \<and> space_ok (set_tree k t s) k (remove1 b ys) \<and> b \<notin> set (remove1 b ys)"
proof -
  obtain t where t: "rb_remove (tree s k) b = Some t" "rb_inv (region_node_value s) t (remove1 b ys)"
    using rb_inv_remove[OF space_okD(1)[OF ok] b] by blast
  have "distinct ys" using rb_inv_wf[OF space_okD(1)[OF ok]] by simp
  then have "space_ok (set_tree k t s) k (remove1 b ys)"
    using ok t(2) by (auto simp: space_ok_def region_ok_def)
  with t(1) \<open>distinct ys\<close> show ?thesis by (auto simp: rb_del_def)
qed

lemma space_ok_add:
  assumes ok: "space_ok s k ys" and a: "a \<notin> set ys" and r: "region_ok (spaces s k) k (regions s a)"
    and d: "\<And>b. b \<in> set ys \<Longrightarrow> rseg (regions s a) \<inter> rseg (regions s b) = {}"
  shows "\<exists>t. rb_add k a s = Some (set_tree k t s) \<and> space_ok (set_tree k t s) k (ins_val (region_node_value s) a ys)"
proof -
  obtain t where t: "rb_insert (region_node_value s) (tree s k) a = Some t"
    "rb_inv (region_node_value s) t (ins_val (region_node_value s) a ys)"
    using rb_inv_insert[OF space_okD(1)[OF ok] a] by blast
  have "space_ok (set_tree k t s) k (ins_val (region_node_value s) a ys)"
    using ok t(2) r d unfolding space_ok_def by (auto simp: region_ok_def)
  with t(1) show ?thesis by (auto simp: rb_add_def)
qed

section \<open>Merging\<close>

text \<open>Two mergeable regions and the left one grown over both map the same.\<close>

lemma merge_ok:
  assumes m: "regions_mergeable l r" and l: "region_ok S k l" and r: "region_ok S k r"
  shows "region_ok S k (l\<lparr>r_length := r_length l + r_length r\<rparr>)"
    "rseg (l\<lparr>r_length := r_length l + r_length r\<rparr>) = rseg l \<union> rseg r"
    "rimg (l\<lparr>r_length := r_length l + r_length r\<rparr>) = rimg l \<union> rimg r"
proof -
  have adj: "unat (r_base r) = unat (r_base l) + unat (r_length l)"
    using m region_ok_end(1)[OF l] by (simp add: regions_mergeable_def)
  have e: "unat (r_base l) + (unat (r_length l) + unat (r_length r)) \<le> unat (as_end S)"
    using r adj by (simp add: region_ok_def)
  have len: "unat (r_length l + r_length r) = unat (r_length l) + unat (r_length r)"
    by (rule add_fits) (use e unat_lt64[of "as_end S"] in linarith)
  show "region_ok S k (l\<lparr>r_length := r_length l + r_length r\<rparr>)"
    using l r e len unfolding region_ok_def page_aligned_iff
    by (simp add: word_unat_eq_iff[of "r_length l + r_length r"] word_unat_eq_iff[of "r_length l"])
  show segs: "rseg (l\<lparr>r_length := r_length l + r_length r\<rparr>) = rseg l \<union> rseg r"
    unfolding rseg_def using seg_join[OF adj[symmetric] len[symmetric]] by simp
  have at: "attr_at (l\<lparr>r_length := n\<rparr>) = attr_at l" for n
    by (simp add: attr_at_def fun_eq_iff split: vm_region_type.split)
  have "attr_at l p = attr_at r p" if "p \<in> rseg r" for p
  proof (cases "r_type l")
    case VM_REGION_TYPE_ANON
    with m show ?thesis by (simp add: attr_at_def regions_mergeable_def)
  next
    case VM_REGION_TYPE_DIRECT
    then have ph: "SEGMENT_IN_BOUNDS (r_physical l) (r_length l) 0 ARCH_MEM_PHYS_MAX" "r_physical l + r_length l = r_physical r"
      using m by (simp_all add: regions_mergeable_def)
    then have "unat (r_physical l) + unat (r_length l) < 2 ^ 64"
      unfolding SEGMENT_IN_BOUNDS_def ADDRESS_IN_BOUNDS_def ARCH_MEM_PHYS_MAX_def
      by (auto simp: word_le_nat_alt word_less_nat_alt unat_sub_if' split: if_splits)
    from add_fits[OF this] ph(2) have "unat (r_physical r) = unat (r_physical l) + unat (r_length l)" by simp
    with that adj VM_REGION_TYPE_DIRECT m show ?thesis
      by (simp add: attr_at_def regions_mergeable_def rseg_def seg_def)
  qed
  then show "rimg (l\<lparr>r_length := r_length l + r_length r\<rparr>) = rimg l \<union> rimg r"
    unfolding rimg_def segs at by auto
qed

text \<open>A region in hand: set up, not yet in the tree, not in the pool, and clear of all others.\<close>

definition in_hand :: "'e vm \<Rightarrow> space_id \<Rightarrow> addr list \<Rightarrow> addr \<Rightarrow> bool" where
  "in_hand s k ys a \<longleftrightarrow> space_ok s k ys \<and> a \<notin> set ys \<and> region_ok (spaces s k) k (regions s a) \<and>
     (\<forall>b \<in> set ys. rseg (regions s a) \<inter> rseg (regions s b) = {}) \<and>
     distinct (region_cache s) \<and> a \<notin> set (region_cache s) \<and> set (region_cache s) \<inter> set ys = {}"

text \<open>What an operation on space \<open>k\<close> that only moves the regions \<open>X\<close> leaves alone.\<close>

definition vm_frame :: "space_id \<Rightarrow> addr set \<Rightarrow> 'e vm \<Rightarrow> 'e vm \<Rightarrow> bool" where
  "vm_frame k X s s' \<longleftrightarrow> env s' = env s \<and> (\<forall>j. j \<noteq> k \<longrightarrow> spaces s' j = spaces s j) \<and>
     as_start (spaces s' k) = as_start (spaces s k) \<and> as_end (spaces s' k) = as_end (spaces s k) \<and>
     (\<forall>x. x \<notin> X \<longrightarrow> regions s' x = regions s x)"

lemma vm_frame_trans: "vm_frame k X s s1 \<Longrightarrow> vm_frame k X s1 s2 \<Longrightarrow> vm_frame k X s s2"
  by (simp add: vm_frame_def)

lemma in_handD:
  assumes "in_hand s k ys a"
  shows "space_ok s k ys" "a \<notin> set ys" "region_ok (spaces s k) k (regions s a)"
    "\<And>b. b \<in> set ys \<Longrightarrow> rseg (regions s a) \<inter> rseg (regions s b) = {}"
    "distinct (region_cache s)" "a \<notin> set (region_cache s)" "set (region_cache s) \<inter> set ys = {}"
  using assms by (auto simp: in_hand_def)

lemma img_split: "b \<in> set ys \<Longrightarrow> distinct ys \<Longrightarrow> img s ys = img s (remove1 b ys) \<union> rimg (regions s b)"
  by (auto simp: img_def)

lemma space_ok_distinct: "space_ok s k ys \<Longrightarrow> distinct ys"
  using rb_inv_wf space_okD(1) by blast

text \<open>The first half of \<^verbatim>\<open>region_insert\<close>: the region in hand takes over its right neighbour.\<close>

lemma merge_right:
  assumes h: "in_hand s k ys a" and b: "b \<in> set ys" and m: "regions_mergeable (regions s a) (regions s b)"
  shows "\<exists>s'. (do { s1 \<leftarrow> rb_del k b (upd_region a (\<lambda>r. r\<lparr>r_length := r_length r + r_length (regions s b)\<rparr>) s);
      region_free b s1 }) = Some s' \<and> in_hand s' k (remove1 b ys) a \<and>
    img s' (remove1 b ys) \<union> rimg (regions s' a) = img s ys \<union> rimg (regions s a) \<and>
    region_cache s' = b # region_cache s \<and> vm_frame k {a} s s' \<and>
    (\<exists>l. regions s' a = (regions s a)\<lparr>r_length := l\<rparr>)"
proof -
  note H = in_handD[OF h]
  let ?s = "upd_region a (\<lambda>r. r\<lparr>r_length := r_length r + r_length (regions s b)\<rparr>) s"
  have ok: "space_ok ?s k ys" by (rule space_ok_cong[OF H(1)]) (use H(2) in auto)
  obtain t where t: "rb_del k b ?s = Some (set_tree k t ?s)" "space_ok (set_tree k t ?s) k (remove1 b ys)" "b \<notin> set (remove1 b ys)"
    using space_ok_del[OF ok b] by blast
  let ?s' = "(set_tree k t ?s)\<lparr>region_cache := b # region_cache s\<rparr>"
  have bf: "b \<notin> set (region_cache s)" "b \<noteq> a" using H(2,7) b by auto
  note mo = merge_ok[OF m H(3) space_okD(3)[OF H(1) b]]
  have sub: "set (remove1 b ys) \<subseteq> set ys" by (rule set_remove1_subset)
  have ok': "space_ok ?s' k (remove1 b ys)" by (rule space_ok_cong[OF t(2)]) auto
  have dj: "rseg (regions ?s' a) \<inter> rseg (regions ?s' c) = {}" if "c \<in> set (remove1 b ys)" for c
  proof -
    have "c \<in> set ys" "c \<noteq> b" "c \<noteq> a" using that sub t(3) H(2) by auto
    then show ?thesis using H(4)[of c] space_okD(4)[OF H(1) b, of c] mo(2) by auto
  qed
  have "in_hand ?s' k (remove1 b ys) a"
    unfolding in_hand_def using ok' dj H(2,5,6,7) mo(1) bf sub t(3)
    by (auto simp: region_ok_def)
  moreover have "img ?s' (remove1 b ys) = img s (remove1 b ys)" by (rule img_cong) (use H(2) sub in auto)
  ultimately show ?thesis
    using t(1) bf mo(3) img_split[OF b space_ok_distinct[OF H(1)], of s]
    by (auto simp: region_free_def seq_push_def vm_frame_def)
qed

text \<open>The second half: the left neighbour takes over the region, which is in the tree by now.\<close>

lemma merge_left:
  assumes ok: "space_ok s k ys" and a: "a \<in> set ys" and l: "l \<in> set ys"
    and c: "distinct (region_cache s)" "set (region_cache s) \<inter> set ys = {}"
    and m: "regions_mergeable (regions s l) (regions s a)"
  shows "\<exists>s'. (do { s1 \<leftarrow> rb_del k a (upd_region l (\<lambda>r. r\<lparr>r_length := r_length r + r_length (regions s a)\<rparr>) s);
      region_free a s1 }) = Some s' \<and> space_ok s' k (remove1 a ys) \<and> img s' (remove1 a ys) = img s ys \<and>
    region_cache s' = a # region_cache s \<and> vm_frame k {l} s s' \<and> l \<in> set (remove1 a ys) \<and> l \<noteq> a \<and>
    (\<exists>n. regions s' l = (regions s l)\<lparr>r_length := n\<rparr>)"
proof -
  note rl = space_okD(3)[OF ok l] and ra = space_okD(3)[OF ok a]
  note mo = merge_ok[OF m rl ra]
  have la: "l \<noteq> a"
    using m region_ok_end(2)[OF ra] by (auto simp: regions_mergeable_def)
  let ?s = "upd_region l (\<lambda>r. r\<lparr>r_length := r_length r + r_length (regions s a)\<rparr>) s"
  obtain t where t: "rb_remove (tree s k) a = Some t" "space_ok (set_tree k t s) k (remove1 a ys)" "a \<notin> set (remove1 a ys)"
    using space_ok_del[OF ok a] by blast
  let ?s' = "(set_tree k t ?s)\<lparr>region_cache := a # region_cache s\<rparr>"
  have del: "rb_del k a ?s = Some (set_tree k t ?s)"
    using t(1) by (simp add: rb_del_def)
  have sub: "set (remove1 a ys) \<subseteq> set ys" by (rule set_remove1_subset)
  have lr: "l \<in> set (remove1 a ys)" using l la by simp
  have segs: "rseg (regions ?s' c) \<inter> rseg (regions ?s' d) = {}"
    if "c \<in> set (remove1 a ys)" "d \<in> set (remove1 a ys)" "c \<noteq> d" for c d
  proof -
    have cd: "c \<in> set ys" "d \<in> set ys" "c \<noteq> a" "d \<noteq> a" using that sub t(3) by auto
    have x: "rseg (regions s e) \<inter> rseg (regions s a) = {}" if "e \<in> set ys" "e \<noteq> a" for e
      using space_okD(4)[OF ok that(1) a that(2)] .
    show ?thesis
      using mo(2) x[OF cd(1,3)] x[OF cd(2,4)] space_okD(4)[OF ok cd(1,2) that(3)] that(3)
      by (cases "c = l"; cases "d = l") (auto simp: Int_Un_distrib Int_Un_distrib2 Int_commute)
  qed
  have "rb_inv (region_node_value ?s') t (remove1 a ys)"
    using space_okD(1)[OF t(2)] by (auto intro!: rb_inv_cong[of "region_node_value s"] simp: region_node_value_def)
  moreover have "\<forall>c \<in> set (remove1 a ys). region_ok (spaces ?s' k) k (regions ?s' c)"
    using mo(1) space_okD(3)[OF ok] sub by (auto simp: region_ok_def)
  ultimately have ok': "space_ok ?s' k (remove1 a ys)"
    using segs space_okD(2)[OF ok] by (simp add: space_ok_def)
  have "img ?s' (remove1 a ys) = img s ys"
    unfolding img_split[OF lr distinct_remove1[OF space_ok_distinct[OF ok]], of ?s']
      img_split[OF a space_ok_distinct[OF ok], of s] img_split[OF lr distinct_remove1[OF space_ok_distinct[OF ok]], of s]
    using mo(3) la distinct_remove1[OF space_ok_distinct[OF ok]] by (auto simp: img_def)
  with ok' del c a lr la show ?thesis
    by (auto simp: region_free_def seq_push_def vm_frame_def)
qed

text \<open>
  The contract of \<^verbatim>\<open>region_insert\<close>: it returns, the space stays well formed, exactly what the region
  maps is added, and the region structures it frees go to the pool.
\<close>

lemma region_insert_ok:
  assumes h: "in_hand s k ys a"
  shows "\<exists>s' b ys'. region_insert k a s = Some (s', b) \<and> space_ok s' k ys' \<and> b \<in> set ys' \<and>
    img s' ys' = img s ys \<union> rimg (regions s a) \<and> distinct (region_cache s') \<and>
    set (region_cache s') \<inter> set ys' = {} \<and> set ys' \<union> set (region_cache s') = insert a (set ys \<union> set (region_cache s)) \<and>
    set (region_cache s) \<subseteq> set (region_cache s') \<and> vm_frame k (insert a (set ys)) s s' \<and>
    r_prot (regions s' b) = r_prot (regions s a) \<and> r_cache (regions s' b) = r_cache (regions s a)"
proof -
  note H = in_handD[OF h]
  obtain rn where rn: "rb_find k (r_base (regions s a)) RB_SEARCH_NEAREST_GT s = Some rn"
    "search_spec (region_node_value s) (r_base (regions s a)) RB_SEARCH_NEAREST_GT ys rn"
    using space_ok_find[OF H(1)] by blast
  define right where "right = (case rn of
         Some right \<Rightarrow>
           if regions_mergeable (regions s a) (regions s right) then do {
             let s = upd_region a (\<lambda>r. r\<lparr>r_length := r_length r + r_length (regions s right)\<rparr>) s;
             s \<leftarrow> rb_del k right s;
             region_free right s
           } else Some s
       | None \<Rightarrow> Some s)"
  have "\<exists>s1 ys1. right = Some s1 \<and> in_hand s1 k ys1 a \<and> img s1 ys1 \<union> rimg (regions s1 a) = img s ys \<union> rimg (regions s a) \<and>
     set ys1 \<union> set (region_cache s1) = set ys \<union> set (region_cache s) \<and> set (region_cache s) \<subseteq> set (region_cache s1) \<and>
     set ys1 \<subseteq> set ys \<and> vm_frame k {a} s s1 \<and> (\<exists>l. regions s1 a = (regions s a)\<lparr>r_length := l\<rparr>)"
  proof (cases "\<exists>b. rn = Some b \<and> regions_mergeable (regions s a) (regions s b)")
    case True
    then obtain b where b: "rn = Some b" "regions_mergeable (regions s a) (regions s b)" by blast
    then have bs: "b \<in> set ys" using rn(2) by simp
    have "set ys = insert b (set (remove1 b ys))" using bs space_ok_distinct[OF H(1)] by auto
    moreover from merge_right[OF h bs b(2)] obtain s1 l where
      "right = Some s1" "in_hand s1 k (remove1 b ys) a" "region_cache s1 = b # region_cache s" "vm_frame k {a} s s1"
      "img s1 (remove1 b ys) \<union> rimg (regions s1 a) = img s ys \<union> rimg (regions s a)"
      "regions s1 a = (regions s a)\<lparr>r_length := l\<rparr>"
      by (auto simp: right_def b Let_def)
    ultimately show ?thesis
      by (intro exI[of _ s1] exI[of _ "remove1 b ys"]) auto
  next
    case False
    then have "right = Some s" by (auto simp: right_def split: option.splits)
    with h show ?thesis
      by (intro exI[of _ s] exI[of _ ys]) (auto simp: vm_frame_def intro!: exI[of _ "r_length (regions s a)"])
  qed
  then obtain s1 ys1 l where s1: "right = Some s1" "in_hand s1 k ys1 a"
    "img s1 ys1 \<union> rimg (regions s1 a) = img s ys \<union> rimg (regions s a)"
    "set ys1 \<union> set (region_cache s1) = set ys \<union> set (region_cache s)" "set (region_cache s) \<subseteq> set (region_cache s1)"
    "set ys1 \<subseteq> set ys" "vm_frame k {a} s s1" "regions s1 a = (regions s a)\<lparr>r_length := l\<rparr>" by blast
  note H1 = in_handD[OF s1(2)]
  let ?ys2 = "ins_val (region_node_value s1) a ys1"
  obtain t where t: "rb_add k a s1 = Some (set_tree k t s1)" "space_ok (set_tree k t s1) k ?ys2"
    using space_ok_add[OF H1(1,2,3)] H1(4) by blast
  let ?s2 = "set_tree k t s1"
  have img2: "img ?s2 ?ys2 = img s ys \<union> rimg (regions s a)"
    using s1(3) by (simp add: img_def Un_commute)
  have f2: "vm_frame k (insert a (set ys)) s ?s2" using s1(7) by (auto simp: vm_frame_def)
  obtain ln where ln: "rb_find k (r_base (regions s a)) RB_SEARCH_NEAREST_LT ?s2 = Some ln"
    "search_spec (region_node_value ?s2) (r_base (regions s a)) RB_SEARCH_NEAREST_LT ?ys2 ln"
    using space_ok_find[OF t(2)] by blast
  have run: "region_insert k a s = (case ln of
        Some left \<Rightarrow>
          if regions_mergeable (regions ?s2 left) (regions ?s2 a) then do {
            s \<leftarrow> (do { s1 \<leftarrow> rb_del k a (upd_region left (\<lambda>r. r\<lparr>r_length := r_length r + r_length (regions ?s2 a)\<rparr>) ?s2);
                 region_free a s1 });
            Some (s, left)
          } else Some (?s2, a)
      | None \<Rightarrow> Some (?s2, a))"
    unfolding region_insert_def rn(1) right_def[symmetric] Option.bind_lunit s1(1) t(1)
    by (simp add: s1(8) ln(1)[unfolded s1(8)] Let_def rn(1) right_def[symmetric] s1(1) t(1) cong: option.case_cong if_cong)
  show ?thesis
  proof (cases "\<exists>b. ln = Some b \<and> regions_mergeable (regions ?s2 b) (regions ?s2 a)")
    case False
    then have "region_insert k a s = Some (?s2, a)" unfolding run by (auto split: option.splits)
    with t(2) img2 H1 s1 f2 show ?thesis
      by (intro exI[of _ ?s2] exI[of _ a] exI[of _ ?ys2]) auto
  next
    case True
    then obtain b where b: "ln = Some b" "regions_mergeable (regions ?s2 b) (regions ?s2 a)" by blast
    have bs: "b \<in> set ?ys2" using ln(2) b(1) by simp
    from merge_left[OF t(2) _ bs _ _ b(2)] H1(2,5,6,7) obtain s3 n where s3:
      "(do { s1 \<leftarrow> rb_del k a (upd_region b (\<lambda>r. r\<lparr>r_length := r_length r + r_length (regions ?s2 a)\<rparr>) ?s2);
         region_free a s1 }) = Some s3"
      "space_ok s3 k (remove1 a ?ys2)" "img s3 (remove1 a ?ys2) = img ?s2 ?ys2"
      "region_cache s3 = a # region_cache ?s2" "vm_frame k {b} ?s2 s3" "b \<in> set (remove1 a ?ys2)" "b \<noteq> a"
      "regions s3 b = (regions ?s2 b)\<lparr>r_length := n\<rparr>" by auto
    have rm: "set (remove1 a ?ys2) = set ys1"
      using space_ok_distinct[OF t(2)] H1(2) by auto
    have "region_insert k a s = Some (s3, b)" unfolding run b(1) using b(2) s3(1) by simp
    moreover have "vm_frame k (insert a (set ys)) s s3"
      using f2 s3(5) bs s1(6) by (auto simp: vm_frame_def)
    moreover have "r_prot (regions s3 b) = r_prot (regions s a)" "r_cache (regions s3 b) = r_cache (regions s a)"
      using b(2) s3(8) s1(8) by (simp_all add: regions_mergeable_def)
    ultimately show ?thesis
      using s3 img2 H1 s1(4,5) rm
      by (intro exI[of _ s3] exI[of _ b] exI[of _ "remove1 a ?ys2"]) auto
  qed
qed

end
