(* ===== verification/VmSearch.thy ===== *)
theory VmSearch
  imports VmInv
begin

text \<open>
  The searches of the virtual memory manager over a well formed address space: for a hole, for the
  region of an address, and for the presence of a whole range.
\<close>

section \<open>Holes\<close>

lemma SEGMENT_IN_BOUNDS_iff:
  "SEGMENT_IN_BOUNDS b l st en \<longleftrightarrow> st \<le> b \<and> b < en \<and> unat b + unat l \<le> unat en"
  unfolding SEGMENT_IN_BOUNDS_def ADDRESS_IN_BOUNDS_def
  by (auto simp: word_le_nat_alt word_less_nat_alt unat_sub_if' split: if_splits)

lemma SEGMENT_IN_BOUNDS_fits: "SEGMENT_IN_BOUNDS b l st en \<Longrightarrow> unat b + unat l < 2 ^ 64"
  unfolding SEGMENT_IN_BOUNDS_iff using unat_lt64[of en] by linarith

text \<open>The region of greatest base below \<open>v\<close> decides what is mapped right below \<open>v\<close>.\<close>

lemma nearest_lt:
  assumes ok: "space_ok s k ys" and a: "search_spec (region_node_value s) v RB_SEARCH_NEAREST_LT ys r"
    and p: "p < unat v" "p \<in> cov s ys"
  shows "\<exists>a. r = Some a \<and> a \<in> set ys \<and> (p \<in> rseg (regions s a) \<or> p < unat (r_base (regions s a)))"
proof -
  obtain b where b: "b \<in> set ys" "p \<in> rseg (regions s b)" using p(2) by (auto simp: cov_def)
  note rb = space_okD(3)[OF ok b(1)]
  have lt: "r_base (regions s b) < v" using b(2) p(1) unfolding rseg_iff[OF rb] by (simp add: word_less_nat_alt)
  then obtain a where r: "r = Some a" "a \<in> set ys" "r_base (regions s b) \<le> r_base (regions s a)"
    using a b(1) by (cases r) (auto simp: region_node_value_def)
  show ?thesis
  proof (cases "r_base (regions s b) = r_base (regions s a)")
    case True
    with space_ok_inj[OF ok b(1) r(2)] b(2) r show ?thesis by blast
  next
    case False
    with r(3) have "r_base (regions s b) < r_base (regions s a)" by simp
    from space_ok_apart[OF ok b(1) r(2) this] b(2) have "p < unat (r_base (regions s a))"
      unfolding rseg_iff[OF rb] by (simp add: word_le_nat_alt)
    with r show ?thesis by blast
  qed
qed

lemma find_region_ok:
  assumes ok: "space_ok s k ys" and fits: "unat address + unat len < 2 ^ 64"
  shows "\<exists>r. find_region k address len s = Some r \<and>
    (case r of
       None \<Rightarrow> cov s ys \<inter> seg address len = {}
     | Some a \<Rightarrow> a \<in> set ys \<and> r_base (regions s a) < address + len \<and>
         address < r_base (regions s a) + r_length (regions s a))"
proof -
  obtain r where r: "rb_find k (address + len) RB_SEARCH_NEAREST_LT s = Some r"
    "search_spec (region_node_value s) (address + len) RB_SEARCH_NEAREST_LT ys r"
    using space_ok_find[OF ok] by blast
  show ?thesis
  proof (cases "\<exists>a. r = Some a \<and> address < r_base (regions s a) + r_length (regions s a)")
    case True
    with r show ?thesis by (auto simp: find_region_def region_node_value_def)
  next
    case False
    then have "find_region k address len s = Some None" using r(1) by (auto simp: find_region_def split: option.splits)
    moreover have "p \<notin> cov s ys" if p: "p \<in> seg address len" for p
    proof
      assume c: "p \<in> cov s ys"
      have "p < unat (address + len)" using p by (simp add: add_fits[OF fits] seg_def)
      from nearest_lt[OF ok r(2) this c] obtain a where a: "r = Some a" "a \<in> set ys"
        "p \<in> rseg (regions s a) \<or> p < unat (r_base (regions s a))" by blast
      note ra = space_okD(3)[OF ok a(2)]
      have "unat (r_base (regions s a) + r_length (regions s a)) \<le> unat address"
        using False a(1) by (simp add: word_less_nat_alt)
      with a(3) p region_ok_end(2)[OF ra] show False by (auto simp: rseg_iff[OF ra] seg_def)
    qed
    ultimately show ?thesis by auto
  qed
qed

text \<open>A hole of \<open>n\<close> addresses at \<open>h\<close> in the bounds of a space.\<close>

definition hole_at :: "'e vm \<Rightarrow> space_id \<Rightarrow> addr list \<Rightarrow> nat \<Rightarrow> nat \<Rightarrow> bool" where
  "hole_at s k ys n h \<longleftrightarrow> unat (as_start (spaces s k)) \<le> h \<and> h + n \<le> unat (as_end (spaces s k)) \<and> cov s ys \<inter> {h ..< h + n} = {}"

definition hole_result :: "'e vm \<Rightarrow> space_id \<Rightarrow> addr list \<Rightarrow> u64 \<Rightarrow> u64 option \<Rightarrow> bool" where
  "hole_result s k ys len r \<longleftrightarrow>
     (case r of
        Some h \<Rightarrow> SEGMENT_IN_BOUNDS h len (as_start (spaces s k)) (as_end (spaces s k)) \<and> hole_at s k ys (unat len) (unat h)
      | None \<Rightarrow> (\<forall>h. \<not> hole_at s k ys (unat len) h))"

lemma find_hole_loop_ok:
  assumes ok: "space_ok s k ys" and len: "len \<noteq> 0"
    and "as_start (spaces s k) \<le> address" "page_aligned address" "\<And>h. h < unat address \<Longrightarrow> \<not> hole_at s k ys (unat len) h"
  shows "\<exists>r. find_hole_loop k len s address = Some r \<and> hole_result s k ys len r \<and> (\<forall>h. r = Some h \<longrightarrow> page_aligned h)"
  using assms(3-)
proof (induction "2 ^ 64 - unat address" arbitrary: address rule: less_induct)
  case less
  let ?S = "spaces s k"
  show ?case
  proof (cases "SEGMENT_IN_BOUNDS address len (as_start ?S) (as_end ?S)")
    case False
    then have "unat (as_end ?S) < unat address + unat len"
      using less.prems(1) len by (auto simp: SEGMENT_IN_BOUNDS_iff not_le not_less word_less_nat_alt word_le_nat_alt unat_gt_0 intro: le_less_trans)
    then have "\<not> hole_at s k ys (unat len) h" for h
      using less.prems(3)[of h] by (cases "h < unat address") (auto simp: hole_at_def)
    with False show ?thesis by (simp add: find_hole_loop.simps hole_result_def)
  next
    case True
    note fits = SEGMENT_IN_BOUNDS_fits[OF True]
    obtain r where r: "find_region k address len s = Some r"
      "case r of None \<Rightarrow> cov s ys \<inter> seg address len = {}
       | Some a \<Rightarrow> a \<in> set ys \<and> r_base (regions s a) < address + len \<and>
           address < r_base (regions s a) + r_length (regions s a)"
      using find_region_ok[OF ok fits] by blast
    show ?thesis
    proof (cases r)
      case None
      with r True less.prems(2) show ?thesis
        by (auto simp: find_hole_loop.simps hole_result_def hole_at_def SEGMENT_IN_BOUNDS_iff seg_def word_le_nat_alt)
    next
      case (Some a)
      with r(2) have a: "a \<in> set ys" "r_base (regions s a) < address + len"
        "address < r_base (regions s a) + r_length (regions s a)" by simp_all
      note ra = space_okD(3)[OF ok a(1)]
      let ?n = "r_base (regions s a) + r_length (regions s a)"
      have "page_aligned ?n" using ra by (auto simp: page_aligned_iff region_ok_end(1)[OF ra] region_ok_def)
      moreover have "\<not> hole_at s k ys (unat len) h" if h: "h < unat ?n" for h
      proof (cases "h < unat address")
        case True
        then show ?thesis by (rule less.prems(3))
      next
        case False
        show ?thesis
        proof
          assume hole: "hole_at s k ys (unat len) h"
          let ?p = "max h (unat (r_base (regions s a)))"
          have "?p \<in> rseg (regions s a)" using h region_ok_end(2)[OF ra] by (simp add: rseg_iff[OF ra])
          then have "?p \<in> cov s ys" using a(1) by (auto simp: cov_def)
          moreover have "?p < h + unat len"
            using False a(2) len by (auto simp: word_less_nat_alt add_fits[OF fits] unat_gt_0)
          ultimately show False using hole by (auto simp: hole_at_def)
        qed
      qed
      moreover have "as_start ?S \<le> ?n" using a(3) less.prems(1) by simp
      moreover have "2 ^ 64 - unat ?n < 2 ^ 64 - unat address"
        using a(3) unat_lt64[of ?n] by (simp add: word_less_nat_alt)
      ultimately show ?thesis
        using less.hyps[of ?n] r(1) Some True by (simp add: find_hole_loop.simps[of k len s address])
    qed
  qed
qed

lemma find_hole_ok:
  assumes ok: "space_ok s k ys" and len: "len \<noteq> 0"
  shows "\<exists>r. find_hole k address len s = Some r \<and> hole_result s k ys len r \<and>
    (page_aligned address \<longrightarrow> (\<forall>h. r = Some h \<longrightarrow> page_aligned h)) \<and>
    (SEGMENT_IN_BOUNDS address len (as_start (spaces s k)) (as_end (spaces s k)) \<longrightarrow> hole_at s k ys (unat len) (unat address) \<longrightarrow>
       r = Some address)"
proof -
  let ?S = "spaces s k"
  have loop: "\<exists>r. find_hole_loop k len s (as_start ?S) = Some r \<and> hole_result s k ys len r \<and> (\<forall>h. r = Some h \<longrightarrow> page_aligned h)"
    by (rule find_hole_loop_ok[OF ok len]) (auto simp: space_okD(2)[OF ok] hole_at_def)
  show ?thesis
  proof (cases "SEGMENT_IN_BOUNDS address len (as_start ?S) (as_end ?S)")
    case False
    with loop show ?thesis by (auto simp: find_hole_def)
  next
    case True
    obtain r where r: "find_region k address len s = Some r"
      "case r of None \<Rightarrow> cov s ys \<inter> seg address len = {}
       | Some a \<Rightarrow> a \<in> set ys \<and> r_base (regions s a) < address + len \<and>
           address < r_base (regions s a) + r_length (regions s a)"
      using find_region_ok[OF ok SEGMENT_IN_BOUNDS_fits[OF True]] by blast
    show ?thesis
    proof (cases r)
      case None
      with r True show ?thesis
        by (auto simp: find_hole_def hole_result_def hole_at_def SEGMENT_IN_BOUNDS_iff seg_def word_le_nat_alt)
    next
      case (Some a)
      then have a: "a \<in> set ys" "r_base (regions s a) < address + len"
        "address < r_base (regions s a) + r_length (regions s a)" using r(2) by simp_all
      note ra = space_okD(3)[OF ok a(1)]
      let ?p = "max (unat address) (unat (r_base (regions s a)))"
      have "?p \<in> rseg (regions s a)" "?p \<in> {unat address ..< unat address + unat len}"
        using a(2,3) region_ok_end(2)[OF ra] len
        by (auto simp: rseg_iff[OF ra] word_less_nat_alt add_fits[OF SEGMENT_IN_BOUNDS_fits[OF True]] unat_gt_0)
      then have "\<not> hole_at s k ys (unat len) (unat address)" using a(1) by (auto simp: hole_at_def cov_def)
      with loop r(1) Some True show ?thesis by (auto simp: find_hole_def)
    qed
  qed
qed

section \<open>Presence\<close>

lemma memory_exists_loop_ok:
  assumes ok: "space_ok s k ys"
  shows "\<exists>b. memory_exists_loop k address s top' = Some b \<and> (b \<longleftrightarrow> {unat address ..< unat top'} \<subseteq> cov s ys)"
proof (induction "unat top'" arbitrary: top' rule: less_induct)
  case less
  show ?case
  proof (cases "address < top'")
    case False
    then show ?thesis by (auto simp: memory_exists_loop.simps word_less_nat_alt)
  next
    case True
    obtain r where r: "rb_find k top' RB_SEARCH_NEAREST_LT s = Some r"
      "search_spec (region_node_value s) top' RB_SEARCH_NEAREST_LT ys r" using space_ok_find[OF ok] by blast
    have last: "unat top' - 1 < unat top'" "unat top' - 1 \<in> {unat address ..< unat top'}"
      using True by (auto simp: word_less_nat_alt)
    note near = nearest_lt[OF ok r(2) last(1)]
    show ?thesis
    proof (cases r)
      case None
      then have "unat top' - 1 \<notin> cov s ys" using near by blast
      with last(2) r(1) None True show ?thesis by (auto simp: memory_exists_loop.simps)
    next
      case (Some a)
      then have a: "a \<in> set ys" "r_base (regions s a) < top'" using r(2) by (simp_all add: region_node_value_def)
      note ra = space_okD(3)[OF ok a(1)]
      show ?thesis
      proof (cases "r_base (regions s a) + r_length (regions s a) < top'")
        case lt: True
        then have "unat top' - 1 \<notin> rseg (regions s a)" "\<not> unat top' - 1 < unat (r_base (regions s a))"
          using region_ok_end(2)[OF ra] by (auto simp: rseg_iff[OF ra] word_less_nat_alt)
        then have "unat top' - 1 \<notin> cov s ys" using near Some by blast
        with last(2) r(1) Some True lt show ?thesis by (auto simp: memory_exists_loop.simps)
      next
        case False
        have IH: "\<exists>b. memory_exists_loop k address s (r_base (regions s a)) = Some b \<and>
            (b \<longleftrightarrow> {unat address ..< unat (r_base (regions s a))} \<subseteq> cov s ys)"
          using less a(2) by (simp add: word_less_nat_alt)
        have "{unat (r_base (regions s a)) ..< unat top'} \<subseteq> rseg (regions s a)"
          using False by (auto simp: rseg_iff[OF ra] word_less_nat_alt)
        then have "{unat (r_base (regions s a)) ..< unat top'} \<subseteq> cov s ys" using a(1) by (auto simp: cov_def)
        moreover have "{unat address ..< unat top'} \<subseteq>
            {unat address ..< unat (r_base (regions s a))} \<union> {unat (r_base (regions s a)) ..< unat top'}" by auto
        moreover have "{unat address ..< unat (r_base (regions s a))} \<subseteq> {unat address ..< unat top'}"
          using a(2) by (auto simp: word_less_nat_alt)
        ultimately have "{unat address ..< unat top'} \<subseteq> cov s ys \<longleftrightarrow>
            {unat address ..< unat (r_base (regions s a))} \<subseteq> cov s ys" by blast
        with IH r(1) Some True False show ?thesis by (simp add: memory_exists_loop.simps[of k address s top'])
      qed
    qed
  qed
qed

lemma nearest_lte:
  assumes ok: "space_ok s k ys" and r: "search_spec (region_node_value s) address RB_SEARCH_NEAREST_LTE ys r"
    and b: "b \<in> set ys" "unat address \<in> rseg (regions s b)"
  shows "r = Some b"
proof -
  note rb = space_okD(3)[OF ok b(1)]
  have lb: "r_base (regions s b) \<le> address" using b(2) by (simp add: rseg_iff[OF rb] word_le_nat_alt)
  then obtain a where a: "r = Some a" "a \<in> set ys" "r_base (regions s b) \<le> r_base (regions s a)" "r_base (regions s a) \<le> address"
    using r b(1) by (cases r) (auto simp: region_node_value_def)
  have "r_base (regions s b) = r_base (regions s a)"
  proof (rule ccontr)
    assume "r_base (regions s b) \<noteq> r_base (regions s a)"
    with a(3) have "r_base (regions s b) < r_base (regions s a)" by simp
    from space_ok_apart[OF ok b(1) a(2) this] a(4) b(2) show False
      by (simp add: rseg_iff[OF rb] word_le_nat_alt)
  qed
  with space_ok_inj[OF ok b(1) a(2)] a(1) show ?thesis by simp
qed

lemma addr_to_region_ok:
  assumes ok: "space_ok s k ys"
  shows "\<exists>r. addr_to_region k address s = Some r \<and>
    (case r of None \<Rightarrow> unat address \<notin> cov s ys | Some a \<Rightarrow> a \<in> set ys \<and> unat address \<in> rseg (regions s a))"
proof (cases "ADDRESS_IN_BOUNDS address (as_start (spaces s k)) (as_end (spaces s k))")
  case False
  have "unat address \<notin> cov s ys"
  proof
    assume "unat address \<in> cov s ys"
    then obtain a where a: "a \<in> set ys" "unat address \<in> rseg (regions s a)" by (auto simp: cov_def)
    note ra = space_okD(3)[OF ok a(1)]
    have "unat (as_start (spaces s k)) \<le> unat (r_base (regions s a))" using ra by (simp add: region_ok_def word_le_nat_alt)
    with a(2) region_ok_end(3)[OF ra] False show False
      by (auto simp: rseg_iff[OF ra] ADDRESS_IN_BOUNDS_def word_le_nat_alt word_less_nat_alt)
  qed
  with False show ?thesis by (simp add: addr_to_region_def)
next
  case True
  obtain r where r: "rb_find k address RB_SEARCH_NEAREST_LTE s = Some r"
    "search_spec (region_node_value s) address RB_SEARCH_NEAREST_LTE ys r" using space_ok_find[OF ok] by blast
  have in_seg: "ADDRESS_IN_SEGMENT address (r_base (regions s a)) (r_length (regions s a)) \<longleftrightarrow> unat address \<in> rseg (regions s a)"
    if "a \<in> set ys" for a
    using rseg_iff[OF space_okD(3)[OF ok that]] by (simp add: ADDRESS_IN_SEGMENT_def word_le_nat_alt word_less_nat_alt)
  have near: "\<exists>a. r = Some a \<and> a \<in> set ys \<and> unat address \<in> rseg (regions s a)" if c: "unat address \<in> cov s ys"
    using c nearest_lte[OF ok r(2)] by (auto simp: cov_def)
  show ?thesis
  proof (cases r)
    case None
    with r(1) True near show ?thesis by (auto simp: addr_to_region_def)
  next
    case (Some a)
    then have as: "a \<in> set ys" using r(2) by simp
    with r(1) True near Some in_seg[OF as] show ?thesis by (auto simp: addr_to_region_def)
  qed
qed

end
