(* ===== verification/VmState.thy ===== *)
theory VmState
  imports VmSearch
begin

text \<open>
  The invariant of the whole virtual memory manager: every address space is well formed, a region
  structure is in one space or in the pool or in the hands of an operation and nowhere else, and
  every region structure lies in memory that the global address space maps. Region allocation and
  mapping keep it.

  The environment may refuse a call, for lack of memory. \<open>ok_or E r Q\<close> says that a routine with the
  result \<open>r\<close> either returned and \<open>Q\<close> holds, or did not because an operation of \<open>E\<close> can fail.
\<close>

section \<open>Outcomes\<close>

definition env_total :: "'e vm_env \<Rightarrow> bool" where
  "env_total E \<longleftrightarrow> (\<forall>f e. e_alloc_page E f e \<noteq> None) \<and> (\<forall>k v p l pr c pv g e. e_map E k v p l pr c pv g e \<noteq> None) \<and>
     (\<forall>k v l pr c pv g e. e_rewrite E k v l pr c pv g e \<noteq> None) \<and> (\<forall>k v l e. e_unmap E k v l e \<noteq> None)"

definition ok_or :: "'e vm_env \<Rightarrow> 'r option \<Rightarrow> ('r \<Rightarrow> bool) \<Rightarrow> bool" where
  "ok_or E r Q \<longleftrightarrow> (case r of None \<Rightarrow> \<not> env_total E | Some x \<Rightarrow> Q x)"

lemma ok_or_Some [simp]: "ok_or E (Some x) Q = Q x"
  by (simp add: ok_or_def)

lemma ok_or_bind: "ok_or E m P \<Longrightarrow> (\<And>x. P x \<Longrightarrow> ok_or E (f x) Q) \<Longrightarrow> ok_or E (m \<bind> f) Q"
  by (cases m) (auto simp: ok_or_def)

lemma ok_or_mono: "ok_or E m P \<Longrightarrow> (\<And>x. P x \<Longrightarrow> Q x) \<Longrightarrow> ok_or E m Q"
  by (cases m) (auto simp: ok_or_def)

lemma env_totalD:
  "env_total E \<Longrightarrow> e_alloc_page E f e \<noteq> None" "env_total E \<Longrightarrow> e_map E k v p l pr c pv g e \<noteq> None"
  "env_total E \<Longrightarrow> e_rewrite E k v l pr c pv g e \<noteq> None" "env_total E \<Longrightarrow> e_unmap E k v l e \<noteq> None"
  unfolding env_total_def by (simp_all del: not_None_eq)

lemma ok_or_env_call:
  "(env_total E \<Longrightarrow> f (env s) \<noteq> None) \<Longrightarrow> ok_or E (env_call f s) (\<lambda>s'. \<exists>e. s' = s\<lparr>env := e\<rparr>)"
  by (cases "f (env s)") (auto simp: ok_or_def env_call_def)

lemma ok_or_call:
  "ok_or E (env_call (e_map E k v p l pr c pv g) s) (\<lambda>s'. \<exists>e. s' = s\<lparr>env := e\<rparr>)"
  "ok_or E (env_call (e_rewrite E k v l pr c pv g) s) (\<lambda>s'. \<exists>e. s' = s\<lparr>env := e\<rparr>)"
  "ok_or E (env_call (e_unmap E k v l) s) (\<lambda>s'. \<exists>e. s' = s\<lparr>env := e\<rparr>)"
  "ok_or E (e_alloc_page E f e) (\<lambda>_. True)"
proof -
  show "ok_or E (e_alloc_page E f e) (\<lambda>_. True)"
    using env_totalD(1)[of E f e] by (auto simp: ok_or_def split: option.splits)
qed (rule ok_or_env_call, erule env_totalD)+

lemma env_total_recording: "env_total recording"
  by (auto simp: env_total_def recording_def)

section \<open>The invariant\<close>

definition nodes :: "'e vm \<Rightarrow> (space_id \<Rightarrow> addr list) \<Rightarrow> addr set \<Rightarrow> addr set" where
  "nodes s xs H = set (region_cache s) \<union> H \<union> (\<Union>k. set (xs k))"

lemma UN_spaces: "(\<Union>j. set (xs j)) = set (xs k) \<union> (\<Union>j \<in> - {k}. set (xs j))"
  by auto

definition vm_wf :: "'e vm \<Rightarrow> (space_id \<Rightarrow> addr list) \<Rightarrow> addr set \<Rightarrow> bool" where
  "vm_wf s xs H \<longleftrightarrow> (\<forall>k. space_ok s k (xs k)) \<and> (\<forall>j k. j \<noteq> k \<longrightarrow> set (xs j) \<inter> set (xs k) = {}) \<and>
     distinct (region_cache s) \<and> (\<forall>k. set (region_cache s) \<inter> set (xs k) = {}) \<and>
     H \<inter> set (region_cache s) = {} \<and> (\<forall>k. H \<inter> set (xs k) = {})"

definition vm_inv :: "'e vm \<Rightarrow> (space_id \<Rightarrow> addr list) \<Rightarrow> addr set \<Rightarrow> bool" where
  "vm_inv s xs H \<longleftrightarrow> vm_wf s xs H \<and> (\<forall>a \<in> nodes s xs H. unat a \<in> cov s (xs GLOBAL_SPACE))"

lemma vm_wfD:
  assumes "vm_wf s xs H"
  shows "space_ok s k (xs k)" "j \<noteq> k \<Longrightarrow> set (xs j) \<inter> set (xs k) = {}" "distinct (region_cache s)"
    "set (region_cache s) \<inter> set (xs k) = {}" "H \<inter> set (region_cache s) = {}" "H \<inter> set (xs k) = {}"
  using assms by (auto simp: vm_wf_def)

lemma vm_wf_cong:
  assumes wf: "vm_wf s xs H" and "spaces s' = spaces s" "region_cache s' = region_cache s"
    and r: "\<And>k a. a \<in> set (xs k) \<Longrightarrow> regions s' a = regions s a"
  shows "vm_wf s' xs H"
proof -
  have "space_ok s' k (xs k)" for k
    by (rule space_ok_cong[OF vm_wfD(1)[OF wf]]) (use assms in auto)
  with wf assms(2,3) show ?thesis by (simp add: vm_wf_def)
qed

lemma img_env [simp]: "img (s\<lparr>env := e\<rparr>) ys = img s ys" "cov (s\<lparr>env := e\<rparr>) ys = cov s ys"
  by (simp_all add: img_def cov_def)

lemma vm_wf_env [simp]: "vm_wf s xs H \<Longrightarrow> vm_wf (s\<lparr>env := e\<rparr>) xs H"
  by (rule vm_wf_cong) auto

lemma vm_inv_env [simp]: "vm_inv s xs H \<Longrightarrow> vm_inv (s\<lparr>env := e\<rparr>) xs H"
  by (auto simp: vm_inv_def nodes_def)

lemma vm_wf_upd: "vm_wf s xs H \<Longrightarrow> (\<And>k. a \<notin> set (xs k)) \<Longrightarrow> vm_wf (upd_region a f s) xs H"
  by (rule vm_wf_cong) auto

lemma img_upd: "a \<notin> set ys \<Longrightarrow> img (upd_region a f s) ys = img s ys"
  by (rule img_cong) auto

lemma vm_wf_in_hand:
  assumes "vm_wf s xs H" "a \<in> H" "region_ok (spaces s k) k (regions s a)" "rseg (regions s a) \<inter> cov s (xs k) = {}"
  shows "in_hand s k (xs k) a"
  using vm_wfD(1)[OF assms(1), of k] vm_wfD(3,5)[OF assms(1)] vm_wfD(4,6)[OF assms(1), of k] assms(2-)
  unfolding in_hand_def cov_def by blast

text \<open>\<^verbatim>\<open>region_insert\<close> in the whole state.\<close>

lemma region_insert_wf:
  assumes wf: "vm_wf s xs (insert a H)" and a: "a \<notin> H"
    and r: "region_ok (spaces s k) k (regions s a)" "rseg (regions s a) \<inter> cov s (xs k) = {}"
  shows "\<exists>s' b ys. region_insert k a s = Some (s', b) \<and> vm_wf s' (xs(k := ys)) H \<and> b \<in> set ys \<and>
    img s' ys = img s (xs k) \<union> rimg (regions s a) \<and> nodes s' (xs(k := ys)) H = nodes s xs (insert a H) \<and>
    (\<forall>j. j \<noteq> k \<longrightarrow> img s' (xs j) = img s (xs j)) \<and> set (region_cache s) \<subseteq> set (region_cache s') \<and>
    (\<forall>x \<in> H. regions s' x = regions s x) \<and> vm_frame k (insert a (set (xs k))) s s' \<and>
    r_prot (regions s' b) = r_prot (regions s a) \<and> r_cache (regions s' b) = r_cache (regions s a)"
proof -
  note W = vm_wfD[OF wf]
  have "in_hand s k (xs k) a" by (rule vm_wf_in_hand[OF wf _ r]) simp
  from region_insert_ok[OF this] obtain s' b ys where R: "region_insert k a s = Some (s', b)" "space_ok s' k ys" "b \<in> set ys"
    "img s' ys = img s (xs k) \<union> rimg (regions s a)" "distinct (region_cache s')" "set (region_cache s') \<inter> set ys = {}"
    "set ys \<union> set (region_cache s') = insert a (set (xs k) \<union> set (region_cache s))"
    "set (region_cache s) \<subseteq> set (region_cache s')" "vm_frame k (insert a (set (xs k))) s s'"
    "r_prot (regions s' b) = r_prot (regions s a)" "r_cache (regions s' b) = r_cache (regions s a)" by blast
  have out: "x \<notin> insert a (set (xs k))" if "j \<noteq> k" "x \<in> set (xs j)" for j x
    using that W(2)[of j k] W(6)[of j] by auto
  have same: "regions s' x = regions s x" if "j \<noteq> k" "x \<in> set (xs j)" for j x
    using R(9) out[OF that] by (simp add: vm_frame_def)
  have sp: "space_ok s' j (xs j)" if "j \<noteq> k" for j
    by (rule space_ok_cong[OF W(1)]) (use R(9) that same in \<open>auto simp: vm_frame_def\<close>)
  have part: "set ys \<subseteq> insert a (set (xs k) \<union> set (region_cache s))"
    "set (region_cache s') \<subseteq> insert a (set (xs k) \<union> set (region_cache s))" using R(7) by auto
  have dj: "set (xs j) \<inter> (insert a (set (xs k) \<union> set (region_cache s))) = {}" if "j \<noteq> k" for j
    using W(2)[OF that] W(4)[of j] W(6)[of j] by auto
  have hj: "H \<inter> (insert a (set (xs k) \<union> set (region_cache s))) = {}" using W(5) W(6)[of k] a by auto
  have "vm_wf s' (xs(k := ys)) H"
    unfolding vm_wf_def
  proof (intro conjI allI impI)
    show "space_ok s' j ((xs(k := ys)) j)" for j using R(2) sp by simp
    show "set ((xs(k := ys)) i) \<inter> set ((xs(k := ys)) j) = {}" if "i \<noteq> j" for i j
      using that part(1) dj[of i] dj[of j] W(2)[OF that] by (auto 0 3)
    show "set (region_cache s') \<inter> set ((xs(k := ys)) j) = {}" for j
      using R(6) part(2) dj[of j] by (auto 0 3)
    show "H \<inter> set (region_cache s') = {}" using part(2) hj by auto
    show "H \<inter> set ((xs(k := ys)) j) = {}" for j using part(1) hj W(6)[of j] by (auto 0 3)
  qed (rule R(5))
  moreover have "nodes s' (xs(k := ys)) H = nodes s xs (insert a H)"
    unfolding nodes_def UN_spaces[of "xs(k := ys)" k] UN_spaces[of xs k] using R(7) by auto
  moreover have "\<forall>j. j \<noteq> k \<longrightarrow> img s' (xs j) = img s (xs j)" using img_cong same by blast
  moreover have "\<forall>x \<in> H. regions s' x = regions s x" using R(9) hj by (auto simp: vm_frame_def)
  ultimately show ?thesis using R by blast
qed

section \<open>The pool of regions\<close>

lemma unat_region_addr:
  "unat (address :: u64) + 4096 < 2 ^ 64 \<Longrightarrow> i < REGIONS_PER_PAGE \<Longrightarrow>
   unat (address + of_nat (i * REGION_SIZE)) = unat address + i * REGION_SIZE \<and> i * REGION_SIZE < 4096"
proof -
  assume a: "unat address + 4096 < 2 ^ 64" and i: "i < REGIONS_PER_PAGE"
  then have lt: "i * REGION_SIZE < 4096" by (simp add: REGIONS_PER_PAGE_def REGION_SIZE_def)
  then have "unat (of_nat (i * REGION_SIZE) :: u64) = i * REGION_SIZE"
    by (simp add: unat_of_nat take_bit_nat_eq_self del: of_nat_mult)
  with a lt show ?thesis using add_fits[of address "of_nat (i * REGION_SIZE)"] by simp
qed

lemma page_regions_in:
  assumes "unat address + 4096 < 2 ^ 64" "a \<in> set (page_regions address n)"
  shows "unat a \<in> {unat address ..< unat address + 4096}"
  using assms unat_region_addr[OF assms(1)] by (auto simp: page_regions_def)

lemma page_regions_distinct:
  assumes "unat address + 4096 < 2 ^ 64"
  shows "distinct (page_regions address n)"
  unfolding page_regions_def
proof (subst distinct_map, intro conjI inj_onI)
  fix i j assume "i \<in> set [n..<REGIONS_PER_PAGE]" "j \<in> set [n..<REGIONS_PER_PAGE]"
    and eq: "address + of_nat (i * REGION_SIZE) = address + of_nat (j * REGION_SIZE)"
  then have "unat address + i * REGION_SIZE = unat address + j * REGION_SIZE"
    using unat_region_addr[OF assms, of i] unat_region_addr[OF assms, of j] by (metis atLeastLessThan_iff set_upt)
  then show "i = j" by (simp add: REGION_SIZE_def)
qed simp

lemma page_regions_0: "page_regions address 0 = address # page_regions address 1"
  unfolding page_regions_def by (subst upt_conv_Cons) (simp_all add: REGIONS_PER_PAGE_def)

lemma push_regions_ok:
  "distinct as \<Longrightarrow> set as \<inter> set (region_cache s) = {} \<Longrightarrow>
   push_regions as s = Some (s\<lparr>region_cache := rev as @ region_cache s\<rparr>)"
proof (induction as arbitrary: s)
  case (Cons a as)
  then show ?case using Cons.IH[of "s\<lparr>region_cache := a # region_cache s\<rparr>"] by (simp add: region_free_def seq_push_def)
qed simp

text \<open>What the page of regions at \<open>h\<close> adds to the global address space.\<close>

definition pool_page :: "nat \<Rightarrow> (nat \<times> vm_attr) set" where
  "pool_page h = {(p, VM_REGION_TYPE_ANON, VM_PROT_RW, VM_CACHE_STANDARD, False, False, 0) | p. p \<in> {h ..< h + 4096}}"

text \<open>The effect of a region allocation on everything but the pool: at most one page is added to the global space.\<close>

definition grown :: "'e vm \<Rightarrow> (space_id \<Rightarrow> addr list) \<Rightarrow> addr set \<Rightarrow> 'e vm \<Rightarrow> (space_id \<Rightarrow> addr list) \<Rightarrow> bool" where
  "grown s xs H s' xs' \<longleftrightarrow>
     (\<forall>j. as_start (spaces s' j) = as_start (spaces s j) \<and> as_end (spaces s' j) = as_end (spaces s j)) \<and>
     (\<forall>j. j \<noteq> GLOBAL_SPACE \<longrightarrow> xs' j = xs j \<and> (\<forall>x \<in> set (xs j). regions s' x = regions s x)) \<and>
     (\<forall>x \<in> H. regions s' x = regions s x) \<and>
     (img s' (xs' GLOBAL_SPACE) = img s (xs GLOBAL_SPACE) \<or>
      (\<exists>h. hole_at s GLOBAL_SPACE (xs GLOBAL_SPACE) 4096 h \<and>
         img s' (xs' GLOBAL_SPACE) = img s (xs GLOBAL_SPACE) \<union> pool_page h))"

lemma grown_img: "grown s xs H s' xs' \<Longrightarrow> k \<noteq> GLOBAL_SPACE \<Longrightarrow> img s' (xs' k) = img s (xs k)"
  unfolding grown_def using img_cong[of "xs k" s' s] by auto

definition can_refill :: "'e vm \<Rightarrow> (space_id \<Rightarrow> addr list) \<Rightarrow> bool" where
  "can_refill s xs \<longleftrightarrow> (\<exists>h. hole_at s GLOBAL_SPACE (xs GLOBAL_SPACE) 4096 h)"

lemma grown_env [simp]: "grown (s\<lparr>env := e\<rparr>) xs H s' xs' = grown s xs H s' xs'" "can_refill (s\<lparr>env := e\<rparr>) xs = can_refill s xs"
  by (simp_all add: grown_def can_refill_def hole_at_def)

text \<open>The page at the hole \<open>h\<close> with its first region set up, as \<^verbatim>\<open>region_alloc\<close> leaves it before the insertion.\<close>

definition new_page :: "u64 \<Rightarrow> 'e vm \<Rightarrow> 'e vm" where
  "new_page h s = upd_region h (\<lambda>r. r\<lparr>r_space := GLOBAL_SPACE, r_type := VM_REGION_TYPE_ANON, r_base := h,
       r_length := PAGE_SIZE, r_prot := VM_PROT_RW, r_cache := VM_CACHE_STANDARD, r_dynamic := False\<rparr>)
     (s\<lparr>regions := (\<lambda>a. if a \<in> set (page_regions h 0) then zero_region else regions s a)\<rparr>)"

lemma refill_hole:
  assumes inv: "vm_inv s xs H" and room: "can_refill s xs"
  shows "\<exists>h. find_hole GLOBAL_SPACE 0 PAGE_SIZE s = Some (Some h) \<and> page_aligned h \<and>
    hole_at s GLOBAL_SPACE (xs GLOBAL_SPACE) 4096 (unat h)"
proof -
  have P: "PAGE_SIZE \<noteq> 0" "unat PAGE_SIZE = 4096" "page_aligned 0"
    by (simp_all add: PAGE_SIZE_def page_aligned_def)
  have "space_ok s GLOBAL_SPACE (xs GLOBAL_SPACE)" using inv by (simp add: vm_inv_def vm_wf_def)
  from find_hole_ok[OF this P(1), of 0] obtain r where
    r: "find_hole GLOBAL_SPACE 0 PAGE_SIZE s = Some r" "hole_result s GLOBAL_SPACE (xs GLOBAL_SPACE) PAGE_SIZE r"
      "\<forall>h. r = Some h \<longrightarrow> page_aligned h"
    using P(3) by blast
  from r(2) room obtain h where h: "r = Some h" by (cases r) (auto simp: hole_result_def can_refill_def P)
  with r show ?thesis by (simp add: hole_result_def P)
qed

lemma refill_insert:
  assumes inv: "vm_inv s xs H" and al: "page_aligned h" and hole: "hole_at s GLOBAL_SPACE (xs GLOBAL_SPACE) 4096 (unat h)"
  shows "\<exists>s2 b s' xs'. region_insert GLOBAL_SPACE h (new_page h s) = Some (s2, b) \<and>
    push_regions (page_regions h 1) s2 = Some s' \<and> vm_inv s' xs' H \<and> grown s xs H s' xs' \<and> 41 \<le> length (region_cache s')"
proof -
  let ?G = GLOBAL_SPACE
  have wf: "vm_wf s xs H" and bk: "\<And>a. a \<in> nodes s xs H \<Longrightarrow> unat a \<in> cov s (xs ?G)"
    using inv by (auto simp: vm_inv_def)
  have P: "PAGE_SIZE \<noteq> 0" "unat PAGE_SIZE = 4096" "page_aligned 0" "page_aligned PAGE_SIZE"
    by (simp_all add: PAGE_SIZE_def page_aligned_def)
  have fits: "unat h + 4096 < 2 ^ 64" using hole unat_lt64[of "as_end (spaces s ?G)"] unfolding hole_at_def by linarith
  have new: "a \<notin> nodes s xs H" if "a \<in> set (page_regions h 0)" for a
    using bk[of a] page_regions_in[OF fits that] hole by (auto simp: hole_at_def)
  let ?b = "new_page h s"
  have b: "spaces ?b = spaces s" "region_cache ?b = region_cache s" by (simp_all add: new_page_def)
  have same: "regions ?b x = regions s x" if "x \<notin> set (page_regions h 0)" for x
    using that by (auto simp: new_page_def page_regions_0)
  have same': "regions ?b x = regions s x" if "x \<in> nodes s xs H" for x using same new that by blast
  have inx: "x \<in> nodes s xs H" if "x \<in> set (xs k)" for k x using that by (auto simp: nodes_def)
  have cv: "cov ?b (xs k) = cov s (xs k)" "img ?b (xs k) = img s (xs k)" for k
    using same'[OF inx] by (auto simp: cov_def intro!: img_cong)
  have hn: "h \<notin> nodes s xs H" by (rule new) (simp add: page_regions_0)
  have "vm_wf ?b xs H" by (rule vm_wf_cong[OF wf b]) (rule same'[OF inx])
  then have wf': "vm_wf ?b xs (insert h H)" using hn unfolding vm_wf_def nodes_def b by auto
  have rh: "regions ?b h = \<lparr>r_space = ?G, r_base = h, r_length = PAGE_SIZE, r_type = VM_REGION_TYPE_ANON, r_prot = VM_PROT_RW,
      r_cache = VM_CACHE_STANDARD, r_dynamic = False, r_back_zeroed = False, r_physical = 0\<rparr>"
    by (simp add: new_page_def zero_region_def page_regions_0)
  have segh: "rseg (regions ?b h) = {unat h ..< unat h + 4096}" by (simp add: rh rseg_def seg_def P)
  have imgh: "rimg (regions ?b h) = pool_page (unat h)"
    unfolding rimg_def segh pool_page_def by (simp add: rh attr_at_def)
  have ok: "region_ok (spaces ?b ?G) ?G (regions ?b h)"
    using hole al P by (simp add: region_ok_def rh b hole_at_def word_le_nat_alt)
  have clear: "rseg (regions ?b h) \<inter> cov ?b (xs ?G) = {}"
    unfolding cv segh using hole by (auto simp: hole_at_def)
  have "h \<notin> H" using hn by (auto simp: nodes_def)
  from region_insert_wf[OF wf' this ok clear] obtain s2 c ys where
    s2: "region_insert ?G h ?b = Some (s2, c)" "vm_wf s2 (xs(?G := ys)) H" "img s2 ys = img ?b (xs ?G) \<union> rimg (regions ?b h)"
    "nodes s2 (xs(?G := ys)) H = nodes ?b xs (insert h H)"
    "\<forall>x \<in> H. regions s2 x = regions ?b x" "vm_frame ?G (insert h (set (xs ?G))) ?b s2" by blast
  let ?xs = "xs(?G := ys)" and ?as = "page_regions h 1"
  have nb: "nodes ?b xs (insert h H) = insert h (nodes s xs H)" by (auto simp: nodes_def b)
  have fresh: "a \<notin> nodes s2 ?xs H" if "a \<in> set ?as" for a
    using new[of a] that page_regions_distinct[OF fits, of 0] unfolding s2(4) nb page_regions_0 by auto
  have "set ?as \<inter> set (region_cache s2) = {}" using fresh by (auto simp: nodes_def)
  from push_regions_ok[OF page_regions_distinct[OF fits] this] have
    p: "push_regions ?as s2 = Some (s2\<lparr>region_cache := rev ?as @ region_cache s2\<rparr>)" .
  let ?s' = "s2\<lparr>region_cache := rev ?as @ region_cache s2\<rparr>"
  have wf2: "vm_wf ?s' ?xs H"
  proof -
    have "space_ok ?s' k (?xs k)" for k by (rule space_ok_cong[OF vm_wfD(1)[OF s2(2)]]) auto
    moreover have "set ?as \<inter> H = {}" "\<And>k. set ?as \<inter> set (?xs k) = {}" using fresh unfolding nodes_def by blast+
    moreover have "distinct (rev ?as @ region_cache s2)"
      using page_regions_distinct[OF fits, of 1] vm_wfD(3)[OF s2(2)] \<open>set ?as \<inter> set (region_cache s2) = {}\<close> by simp
    ultimately show ?thesis
      using s2(2) unfolding vm_wf_def by (simp add: Int_Un_distrib Int_Un_distrib2 Int_commute)
  qed
  have cov2: "cov ?s' (?xs ?G) = cov s (xs ?G) \<union> {unat h ..< unat h + 4096}"
    using arg_cong[OF s2(3), of "image fst"] segh unfolding image_Un cov_img[symmetric] cv by (simp add: cov_def)
  have "nodes ?s' ?xs H = set (page_regions h 0) \<union> nodes s xs H"
    using s2(4) unfolding nb page_regions_0 by (auto simp: nodes_def)
  then have "vm_inv ?s' ?xs H"
    unfolding vm_inv_def cov2 using wf2 bk page_regions_in[OF fits] by blast
  moreover have "grown s xs H ?s' ?xs"
    unfolding grown_def
  proof (intro conjI allI impI ballI)
    fix j
    have f: "(j \<noteq> ?G \<longrightarrow> spaces s2 j = spaces s j) \<and> as_start (spaces s2 ?G) = as_start (spaces s ?G) \<and> as_end (spaces s2 ?G) = as_end (spaces s ?G)"
      using s2(6) b by (simp add: vm_frame_def)
    show "as_start (spaces ?s' j) = as_start (spaces s j)" "as_end (spaces ?s' j) = as_end (spaces s j)"
      using f by (cases "j = ?G"; simp)+
  next
    fix j x assume "j \<noteq> ?G" "x \<in> set (xs j)"
    then have "x \<noteq> h" "x \<notin> set (xs ?G)" using hn inx vm_wfD(2)[OF wf, of j ?G] by auto
    then show "regions ?s' x = regions s x" using s2(6) same'[OF inx[OF \<open>x \<in> set (xs j)\<close>]] by (simp add: vm_frame_def)
  next
    fix x assume "x \<in> H"
    then show "regions ?s' x = regions s x" using s2(5) same'[of x] by (simp add: nodes_def)
  next
    have "img ?s' ys = img s2 ys" by (simp add: img_def)
    then have "img ?s' (?xs ?G) = img s (xs ?G) \<union> pool_page (unat h)" using s2(3) unfolding cv imgh by simp
    then show "img ?s' (?xs ?G) = img s (xs ?G) \<or> (\<exists>h. hole_at s ?G (xs ?G) 4096 h \<and>
        img ?s' (?xs ?G) = img s (xs ?G) \<union> pool_page h)" using hole by blast
  qed simp
  moreover have "41 \<le> length (region_cache ?s')" by (simp add: page_regions_def REGIONS_PER_PAGE_def)
  ultimately show ?thesis using s2(1) p by blast
qed

lemma region_refill_ok:
  assumes inv: "vm_inv s xs H" and room: "can_refill s xs"
  shows "ok_or E (region_refill E s) (\<lambda>s'. \<exists>xs'. vm_inv s' xs' H \<and> grown s xs H s' xs' \<and> 41 \<le> length (region_cache s'))"
  unfolding region_refill_def
proof (rule ok_or_bind[OF ok_or_call(4)], clarify)
  fix e page
  let ?s = "s\<lparr>env := e\<rparr>"
  obtain h where h: "find_hole GLOBAL_SPACE 0 PAGE_SIZE ?s = Some (Some h)" "page_aligned h"
    "hole_at ?s GLOBAL_SPACE (xs GLOBAL_SPACE) 4096 (unat h)"
    using refill_hole[of ?s xs H] inv room by auto
  have "ok_or E (region_insert GLOBAL_SPACE h (new_page h s1) \<bind> (\<lambda>(s, _). push_regions (page_regions h 1) s))
     (\<lambda>s'. \<exists>xs'. vm_inv s' xs' H \<and> grown s xs H s' xs' \<and> 41 \<le> length (region_cache s'))" if ex: "\<exists>e'. s1 = ?s\<lparr>env := e'\<rparr>" for s1
  proof -
    obtain e' where s1: "s1 = ?s\<lparr>env := e'\<rparr>" using ex by blast
    have "vm_inv s1 xs H" "hole_at s1 GLOBAL_SPACE (xs GLOBAL_SPACE) 4096 (unat h)"
      using inv h(3) by (simp_all add: s1 hole_at_def)
    from refill_insert[OF this(1) h(2) this(2)] obtain s2 b s' xs' where
      "region_insert GLOBAL_SPACE h (new_page h s1) = Some (s2, b)" "push_regions (page_regions h 1) s2 = Some s'"
      "vm_inv s' xs' H" "grown s1 xs H s' xs'" "41 \<le> length (region_cache s')" by blast
    moreover have "grown s xs H s' xs'" using \<open>grown s1 xs H s' xs'\<close> unfolding s1 grown_env .
    ultimately show ?thesis by (auto simp del: One_nat_def)
  qed
  then show "ok_or E (let s = ?s in find_hole GLOBAL_SPACE 0 PAGE_SIZE s \<bind> (\<lambda>hole. hole \<bind> (\<lambda>address.
     env_call (e_map E GLOBAL_SPACE address page PAGE_SIZE VM_PROT_RW VM_CACHE_STANDARD VM_PRIVILEGE_KERNEL True) s \<bind> (\<lambda>s.
     let s = s\<lparr>regions := (\<lambda>a. if a \<in> set (page_regions address 0) then zero_region else regions s a)\<rparr>;
         s = upd_region address (\<lambda>r. r\<lparr>r_space := GLOBAL_SPACE, r_type := VM_REGION_TYPE_ANON, r_base := address,
       r_length := PAGE_SIZE, r_prot := VM_PROT_RW, r_cache := VM_CACHE_STANDARD, r_dynamic := False\<rparr>) s
     in region_insert GLOBAL_SPACE address s \<bind> (\<lambda>(s, _). push_regions (page_regions address 1) s)))))
     (\<lambda>s'. \<exists>xs'. vm_inv s' xs' H \<and> grown s xs H s' xs' \<and> 41 \<le> length (region_cache s'))"
    unfolding Let_def h(1) Option.bind_lunit new_page_def[symmetric]
    by (rule ok_or_bind[OF ok_or_call(1)])
qed

end
