(* ===== verification/VmMap.thy ===== *)
theory VmMap
  imports VmState
begin

text \<open>
  Region allocation and mapping keep the invariant of the virtual memory manager, and mapping adds
  exactly the mapped range to the address space.
\<close>

section \<open>Allocating a region\<close>

lemma grown_refl: "(\<And>j x. x \<in> set (xs j) \<Longrightarrow> regions s' x = regions s x) \<Longrightarrow> (\<And>x. x \<in> H \<Longrightarrow> regions s' x = regions s x) \<Longrightarrow>
   spaces s' = spaces s \<Longrightarrow> grown s xs H s' xs"
  unfolding grown_def using img_cong[of "xs GLOBAL_SPACE" s' s] by auto

lemma region_alloc_pop:
  assumes inv: "vm_inv s xs H" and c: "region_cache s = a # as"
  shows "vm_inv (s\<lparr>region_cache := as\<rparr>) xs (insert a H)" "a \<notin> H" "a \<notin> set (xs k)"
proof -
  have wf: "vm_wf s xs H" using inv by (simp add: vm_inv_def)
  have "space_ok (s\<lparr>region_cache := as\<rparr>) k (xs k)" for k by (rule space_ok_cong[OF vm_wfD(1)[OF wf]]) auto
  moreover have cv: "cov (s\<lparr>region_cache := as\<rparr>) ys = cov s ys" for ys by (simp add: cov_def)
  moreover have "nodes (s\<lparr>region_cache := as\<rparr>) xs (insert a H) = nodes s xs H" by (auto simp: nodes_def c)
  moreover show "a \<notin> H" "a \<notin> set (xs k)" for k using vm_wfD(5)[OF wf] vm_wfD(4)[OF wf, of k] by (auto simp: c)
  ultimately show "vm_inv (s\<lparr>region_cache := as\<rparr>) xs (insert a H)"
    using inv unfolding vm_inv_def vm_wf_def by (auto simp: c)
qed

lemma grown_cache [simp]: "grown s xs H (s'\<lparr>region_cache := as\<rparr>) xs' = grown s xs H s' xs'"
  by (simp add: grown_def img_def)

lemma region_alloc_ok:
  assumes inv: "vm_inv s xs H" and room: "region_cache s \<noteq> [] \<or> can_refill s xs"
  shows "ok_or E (region_alloc E s) (\<lambda>(s', a). \<exists>xs'. vm_inv s' xs' (insert a H) \<and> a \<notin> H \<and> grown s xs H s' xs' \<and>
    (region_cache s \<noteq> [] \<longrightarrow> s' = s\<lparr>region_cache := tl (region_cache s)\<rparr> \<and> xs' = xs) \<and>
    (region_cache s = [] \<longrightarrow> 40 \<le> length (region_cache s')))"
proof (cases "region_cache s")
  case (Cons a as)
  then show ?thesis
    using region_alloc_pop[OF inv Cons] by (auto simp: region_alloc_def seq_pop_def intro!: grown_refl)
next
  case Nil
  then have "can_refill s xs" using room by simp
  then show ?thesis
    unfolding region_alloc_def Nil list.size if_P[OF refl]
  proof (rule ok_or_bind[OF region_refill_ok[OF inv]], clarify)
    fix s1 xs1 assume s1: "vm_inv s1 xs1 H" "grown s xs H s1 xs1" "41 \<le> length (region_cache s1)"
    then obtain a as where c: "region_cache s1 = a # as" by (cases "region_cache s1") auto
    show "ok_or E (let (rest, node) = seq_pop (region_cache s1) in node \<bind> (\<lambda>a. Some (s1\<lparr>region_cache := rest\<rparr>, a)))
       (\<lambda>(s', a). \<exists>xs'. vm_inv s' xs' (insert a H) \<and> a \<notin> H \<and> grown s xs H s' xs' \<and>
         (([] :: addr list) \<noteq> [] \<longrightarrow> s' = s\<lparr>region_cache := tl []\<rparr> \<and> xs' = xs) \<and> (([] :: addr list) = [] \<longrightarrow> 40 \<le> length (region_cache s')))"
      using region_alloc_pop[OF s1(1) c] s1(2,3) by (auto simp: seq_pop_def c)
  qed
qed

section \<open>The calls of the environment\<close>

text \<open>
  What backing a range with memory asks of the environment: for anonymous memory a page and its mapping
  for each page of the range in turn, for direct memory one mapping of the whole.
\<close>

fun back_pages :: "'e vm_env \<Rightarrow> space_id \<Rightarrow> vm_protection \<Rightarrow> vm_cache \<Rightarrow> bool \<Rightarrow> u64 list \<Rightarrow> 'e \<Rightarrow> 'e option" where
  "back_pages E k prot cache zero [] e = Some e"
| "back_pages E k prot cache zero (v # vs) e =
     (case e_alloc_page E (if zero then 1 else 0) e of
        None \<Rightarrow> None
      | Some (e1, p) \<Rightarrow>
          (case e_map E k v p PAGE_SIZE prot cache
                  (if k = GLOBAL_SPACE then VM_PRIVILEGE_KERNEL else VM_PRIVILEGE_USER) (k = GLOBAL_SPACE) e1 of
             None \<Rightarrow> None
           | Some e2 \<Rightarrow> back_pages E k prot cache zero vs e2))"

definition pages_of :: "u64 \<Rightarrow> u64 \<Rightarrow> u64 list" where
  "pages_of address len = map (\<lambda>i. address + of_nat i * PAGE_SIZE) [0..<unat len div 4096]"

definition back_range :: "'e vm_env \<Rightarrow> space_id \<Rightarrow> u64 \<Rightarrow> u64 \<Rightarrow> vm_protection \<Rightarrow> vm_cache \<Rightarrow> vm_flags \<Rightarrow> vm_region_type \<Rightarrow> u64 \<Rightarrow>
    'e \<Rightarrow> 'e option" where
  "back_range E k address len prot cache flags type phys e =
     (if flags AND VM_FLAG_DYNAMICALLY_BACKED \<noteq> 0 then Some e
      else case type of
        VM_REGION_TYPE_ANON \<Rightarrow> back_pages E k prot cache (flags AND VM_FLAG_ZERO \<noteq> 0) (pages_of address len) e
      | VM_REGION_TYPE_DIRECT \<Rightarrow> e_map E k address phys len prot cache
          (if k = GLOBAL_SPACE then VM_PRIVILEGE_KERNEL else VM_PRIVILEGE_USER) (k = GLOBAL_SPACE) e)"

text \<open>The calls for one more page of region structures: a zeroed page, mapped in the global space.\<close>

definition pool_calls :: "'e vm_env \<Rightarrow> 'e \<Rightarrow> 'e \<Rightarrow> bool" where
  "pool_calls E e e' \<longleftrightarrow> (\<exists>h. back_range E GLOBAL_SPACE h PAGE_SIZE VM_PROT_RW VM_CACHE_STANDARD VM_FLAG_ZERO VM_REGION_TYPE_ANON 0 e = Some e')"

lemma ok_or_conj: "ok_or E m P \<Longrightarrow> (\<And>x. m = Some x \<Longrightarrow> R x) \<Longrightarrow> ok_or E m (\<lambda>x. P x \<and> R x)"
  by (cases m) (auto simp: ok_or_def)

lemma env_upd [simp]: "env (upd_region a f s) = env s" "env (set_tree k t s) = env s"
  by (simp_all add: upd_region_def set_tree_def)

lemma env_call_env: "env_call f s = Some s' \<Longrightarrow> f (env s) = Some (env s')"
  by (auto simp: env_call_def bind_eq_Some_conv)

lemma region_free_env: "region_free a s = Some s' \<Longrightarrow> env s' = env s"
  by (auto simp: region_free_def bind_eq_Some_conv)

lemma rb_calls_env: "rb_add k a s = Some s' \<Longrightarrow> env s' = env s" "rb_del k a s = Some s' \<Longrightarrow> env s' = env s"
  by (auto simp: rb_add_def rb_del_def bind_eq_Some_conv)

lemma region_insert_env: "region_insert k a s = Some (s', b) \<Longrightarrow> env s' = env s"
  unfolding region_insert_def
  by (fastforce simp: bind_eq_Some_conv Let_def dest!: region_free_env rb_calls_env split: option.splits if_splits)

lemma push_regions_env: "push_regions as s = Some s' \<Longrightarrow> env s' = env s"
  by (induction as arbitrary: s) (auto simp: bind_eq_Some_conv dest!: region_free_env)

lemma region_map_pages_env:
  "region_map_pages E r address is s = Some s' \<Longrightarrow>
   back_pages E (r_space r) (r_prot r) (r_cache r) (r_back_zeroed r) (map (\<lambda>i. address + i) is) (env s) = Some (env s')"
proof (induction "is" arbitrary: s)
  case (Cons i "is")
  then obtain e p s1 where R: "e_alloc_page E (if r_back_zeroed r then 1 else 0) (env s) = Some (e, p)"
    "env_call (e_map E (r_space r) (address + i) p PAGE_SIZE (r_prot r) (r_cache r) (privilege_of r) (r_space r = GLOBAL_SPACE))
       (s\<lparr>env := e\<rparr>) = Some s1" "region_map_pages E r address is s1 = Some s'"
    by (auto simp: bind_eq_Some_conv Let_def)
  show ?case using R(1) env_call_env[OF R(2)] Cons.IH[OF R(3)] by (simp add: privilege_of_def)
qed simp

lemma pages_of_offsets: "map (\<lambda>i. address + i) (page_offsets len) = pages_of address len"
  by (simp add: page_offsets_def pages_of_def PAGE_SIZE_def unat_div)

lemma region_map_env:
  "region_map E a address len s = Some s' \<Longrightarrow>
   (case r_type (regions s a) of
      VM_REGION_TYPE_ANON \<Rightarrow> back_pages E (r_space (regions s a)) (r_prot (regions s a)) (r_cache (regions s a))
        (r_back_zeroed (regions s a)) (pages_of address len) (env s)
    | VM_REGION_TYPE_DIRECT \<Rightarrow> e_map E (r_space (regions s a)) address (r_physical (regions s a) + (address - r_base (regions s a)))
        len (r_prot (regions s a)) (r_cache (regions s a)) (privilege_of (regions s a)) (r_space (regions s a) = GLOBAL_SPACE) (env s))
   = Some (env s')"
  unfolding region_map_def pages_of_offsets[symmetric]
  by (auto simp: bind_eq_Some_conv Let_def dest!: env_call_env region_map_pages_env split: vm_region_type.splits)

lemma region_refill_env:
  assumes "region_refill E s = Some s'"
  shows "pool_calls E (env s) (env s')"
proof -
  obtain e page h s1 s2 b where R: "e_alloc_page E 1 (env s) = Some (e, page)"
    "env_call (e_map E GLOBAL_SPACE h page PAGE_SIZE VM_PROT_RW VM_CACHE_STANDARD VM_PRIVILEGE_KERNEL True) (s\<lparr>env := e\<rparr>) = Some s1"
    "region_insert GLOBAL_SPACE h (new_page h s1) = Some (s2, b)" "push_regions (page_regions h 1) s2 = Some s'"
    using assms unfolding region_refill_def new_page_def by (auto simp: bind_eq_Some_conv Let_def)
  have "env (new_page h s1) = env s1" by (simp add: new_page_def Let_def)
  then have "env s' = env s1" using region_insert_env[OF R(3)] push_regions_env[OF R(4)] by simp
  moreover have "VM_FLAG_ZERO AND VM_FLAG_DYNAMICALLY_BACKED = 0" "VM_FLAG_ZERO AND VM_FLAG_ZERO \<noteq> 0"
    "pages_of h PAGE_SIZE = [h]"
    by (simp_all add: VM_FLAG_ZERO_def VM_FLAG_DYNAMICALLY_BACKED_def pages_of_def PAGE_SIZE_def)
  ultimately show ?thesis
    unfolding pool_calls_def back_range_def using R(1) env_call_env[OF R(2)] by (auto intro!: exI[of _ h])
qed

lemma region_alloc_env:
  assumes "region_alloc E s = Some (s', a)"
  shows "if region_cache s = [] then pool_calls E (env s) (env s') else env s' = env s \<and> region_cache s' = tl (region_cache s)"
proof -
  obtain s1 where s1: "(if length (region_cache s) = 0 then region_refill E s else Some s) = Some s1"
    "(let (rest, node) = seq_pop (region_cache s1) in node \<bind> (\<lambda>a. Some (s1\<lparr>region_cache := rest\<rparr>, a))) = Some (s', a)"
    using assms unfolding region_alloc_def by (auto simp: bind_eq_Some_conv)
  then have "s' = s1\<lparr>region_cache := tl (region_cache s1)\<rparr>" by (cases "region_cache s1") (auto simp: seq_pop_def)
  then show ?thesis using s1(1) region_refill_env[of E s s1] by (auto split: if_splits)
qed

section \<open>Populating page tables\<close>

lemma region_map_pages_ok: "ok_or E (region_map_pages E r address is s) (\<lambda>s'. \<exists>e. s' = s\<lparr>env := e\<rparr>)"
proof (induction "is" arbitrary: s)
  case Nil
  show ?case by simp (metis vm.surjective vm.update_convs(1))
next
  case (Cons i "is")
  show ?case
    unfolding region_map_pages.simps Let_def
  proof (rule ok_or_bind[OF ok_or_call(4)], clarify)
    fix e p
    show "ok_or E (env_call (e_map E (r_space r) (address + i) p PAGE_SIZE (r_prot r) (r_cache r) (privilege_of r)
       (r_space r = GLOBAL_SPACE)) (s\<lparr>env := e\<rparr>) \<bind> region_map_pages E r address is) (\<lambda>s'. \<exists>e. s' = s\<lparr>env := e\<rparr>)"
      by (rule ok_or_bind[OF ok_or_call(1)], rule ok_or_mono[OF Cons.IH]) auto
  qed
qed

lemma region_map_ok:
  "page_aligned address \<Longrightarrow> page_aligned len \<Longrightarrow> ok_or E (region_map E a address len s) (\<lambda>s'. \<exists>e. s' = s\<lparr>env := e\<rparr>)"
  by (simp add: region_map_def page_aligned_def Let_def region_map_pages_ok ok_or_call(1) split: vm_region_type.split)

section \<open>Mapping\<close>

text \<open>The region a call of \<^verbatim>\<open>map_common\<close> sets up.\<close>

definition mapped_region :: "space_id \<Rightarrow> u64 \<Rightarrow> u64 \<Rightarrow> vm_protection \<Rightarrow> vm_cache \<Rightarrow> vm_flags \<Rightarrow> vm_region_type \<Rightarrow> u64 \<Rightarrow>
    vm_region \<Rightarrow> vm_region" where
  "mapped_region k address len prot cache flags type phys r =
     (let r = r\<lparr>r_space := k, r_type := type, r_base := address, r_length := len, r_prot := prot, r_cache := cache,
        r_dynamic := (flags AND VM_FLAG_DYNAMICALLY_BACKED \<noteq> 0)\<rparr>
      in (case type of
            VM_REGION_TYPE_ANON \<Rightarrow> r\<lparr>r_back_zeroed := (flags AND VM_FLAG_ZERO \<noteq> 0)\<rparr>
          | VM_REGION_TYPE_DIRECT \<Rightarrow> r\<lparr>r_physical := phys\<rparr>))"

text \<open>The attributes of the mapped addresses.\<close>

definition mapping :: "u64 \<Rightarrow> u64 \<Rightarrow> vm_protection \<Rightarrow> vm_cache \<Rightarrow> vm_flags \<Rightarrow> vm_region_type \<Rightarrow> u64 \<Rightarrow> (nat \<times> vm_attr) set" where
  "mapping address len prot cache flags type phys =
     {(p, type, prot, cache, flags AND VM_FLAG_DYNAMICALLY_BACKED \<noteq> 0,
        (case type of
           VM_REGION_TYPE_ANON \<Rightarrow> (flags AND VM_FLAG_ZERO \<noteq> 0, 0)
         | VM_REGION_TYPE_DIRECT \<Rightarrow> (False, unat phys + (p - unat address)))) | p. p \<in> seg address len}"

lemma rimg_mapped: "rimg (mapped_region k address len prot cache flags type phys r) = mapping address len prot cache flags type phys"
  by (cases type) (simp_all add: rimg_def mapped_region_def mapping_def rseg_def attr_at_def)

lemma mapped_region_fields [simp]:
  "r_space (mapped_region k address len prot cache flags type phys r) = k"
  "r_base (mapped_region k address len prot cache flags type phys r) = address"
  "r_length (mapped_region k address len prot cache flags type phys r) = len"
  "r_dynamic (mapped_region k address len prot cache flags type phys r) = (flags AND VM_FLAG_DYNAMICALLY_BACKED \<noteq> 0)"
  by (cases type; simp add: mapped_region_def)+

text \<open>The part of \<^verbatim>\<open>map_common\<close> after the hole is found.\<close>

definition map_finish :: "'e vm_env \<Rightarrow> space_id \<Rightarrow> u64 \<Rightarrow> u64 \<Rightarrow> vm_protection \<Rightarrow> vm_cache \<Rightarrow> vm_flags \<Rightarrow>
    vm_region_type \<Rightarrow> u64 \<Rightarrow> addr \<Rightarrow> 'e vm \<Rightarrow> ('e vm \<times> ptr) option" where
  "map_finish E k address len prot cache flags type phys a s = do {
     let s = upd_region a (mapped_region k address len prot cache flags type phys) s;
     s \<leftarrow> (if \<not> r_dynamic (regions s a)
           then region_map E a (r_base (regions s a)) (r_length (regions s a)) s else Some s);
     (s, _) \<leftarrow> region_insert k a s;
     Some (s, Some address)
   }"

lemma upd_mapped_region:
  "upd_region a (\<lambda>r. r\<lparr>r_back_zeroed := (flags AND VM_FLAG_ZERO \<noteq> 0)\<rparr>) (upd_region a (\<lambda>r. r\<lparr>r_space := k, r_type := VM_REGION_TYPE_ANON,
      r_base := h, r_length := len, r_prot := prot, r_cache := cache, r_dynamic := (flags AND VM_FLAG_DYNAMICALLY_BACKED \<noteq> 0)\<rparr>) s)
   = upd_region a (mapped_region k h len prot cache flags VM_REGION_TYPE_ANON phys) s"
  "upd_region a (\<lambda>r. r\<lparr>r_physical := phys\<rparr>) (upd_region a (\<lambda>r. r\<lparr>r_space := k, r_type := VM_REGION_TYPE_DIRECT,
      r_base := h, r_length := len, r_prot := prot, r_cache := cache, r_dynamic := (flags AND VM_FLAG_DYNAMICALLY_BACKED \<noteq> 0)\<rparr>) s)
   = upd_region a (mapped_region k h len prot cache flags VM_REGION_TYPE_DIRECT phys) s"
  by (simp_all add: upd_region_def mapped_region_def fun_upd_def if_distrib cong: if_cong)

lemma map_tail:
  "(do {
     ASSERT (SEGMENT_IN_BOUNDS h len (as_start (spaces s k)) (as_end (spaces s k)));
     ASSERT (h mod PAGE_SIZE = 0 \<and> len mod PAGE_SIZE = 0);
     let s = upd_region a (\<lambda>r. r\<lparr>r_space := k, r_type := type, r_base := h, r_length := len,
       r_prot := prot, r_cache := cache, r_dynamic := (flags AND VM_FLAG_DYNAMICALLY_BACKED \<noteq> 0)\<rparr>) s;
     s \<leftarrow> (case type of
         VM_REGION_TYPE_ANON \<Rightarrow> Some (upd_region a (\<lambda>r. r\<lparr>r_back_zeroed := (flags AND VM_FLAG_ZERO \<noteq> 0)\<rparr>) s)
       | VM_REGION_TYPE_DIRECT \<Rightarrow> do {
           ASSERT (phys mod PAGE_SIZE = 0);
           Some (upd_region a (\<lambda>r. r\<lparr>r_physical := phys\<rparr>) s)
         });
     s \<leftarrow> (if \<not> r_dynamic (regions s a)
           then region_map E a (r_base (regions s a)) (r_length (regions s a)) s else Some s);
     (s, _) \<leftarrow> region_insert k a s;
     Some (s, Some h)
   }) = (if SEGMENT_IN_BOUNDS h len (as_start (spaces s k)) (as_end (spaces s k)) \<and> page_aligned h \<and> page_aligned len \<and>
     (type = VM_REGION_TYPE_DIRECT \<longrightarrow> page_aligned phys) then map_finish E k h len prot cache flags type phys a s else None)"
  unfolding map_finish_def Let_def page_aligned_def
  by (cases type) (simp_all add: ASSERT_def upd_mapped_region(1)[where phys = phys] upd_mapped_region(2))

lemma map_finish_run:
  "map_finish E k address len prot cache flags type phys a s = (if flags AND VM_FLAG_DYNAMICALLY_BACKED = 0
      then region_map E a address len (upd_region a (mapped_region k address len prot cache flags type phys) s)
      else Some (upd_region a (mapped_region k address len prot cache flags type phys) s)) \<bind>
    (\<lambda>s. region_insert k a s \<bind> (\<lambda>(s, _). Some (s, Some address)))"
  by (simp add: map_finish_def Let_def cong: if_cong)

lemma map_finish_ok:
  assumes inv: "vm_inv s xs (insert a H)" and a: "a \<notin> H" and al: "page_aligned address" "page_aligned len" and len: "len \<noteq> 0"
    and hole: "hole_at s k (xs k) (unat len) (unat address)"
  shows "ok_or E (map_finish E k address len prot cache flags type phys a s)
    (\<lambda>(s', r). r = Some address \<and> (\<exists>ys. vm_inv s' (xs(k := ys)) H \<and>
       img s' ys = img s (xs k) \<union> mapping address len prot cache flags type phys \<and>
       (\<forall>j. j \<noteq> k \<longrightarrow> img s' (xs j) = img s (xs j))))"
proof -
  have wf: "vm_wf s xs (insert a H)" and bk: "\<And>x. x \<in> nodes s xs (insert a H) \<Longrightarrow> unat x \<in> cov s (xs GLOBAL_SPACE)"
    using inv by (auto simp: vm_inv_def)
  let ?r = "mapped_region k address len prot cache flags type phys (regions s a)"
  let ?s = "upd_region a (mapped_region k address len prot cache flags type phys) s"
  have out: "a \<notin> set (xs j)" for j using vm_wfD(6)[OF wf, of j] by auto
  have im: "img ?s (xs j) = img s (xs j)" "cov ?s (xs j) = cov s (xs j)" for j
    unfolding cov_img img_upd[OF out[of j]] by simp_all
  have ins: "\<exists>s' b ys. region_insert k a s1 = Some (s', b) \<and> vm_inv s' (xs(k := ys)) H \<and>
      img s' ys = img s (xs k) \<union> mapping address len prot cache flags type phys \<and> (\<forall>j. j \<noteq> k \<longrightarrow> img s' (xs j) = img s (xs j))"
    if ex: "\<exists>e. s1 = ?s\<lparr>env := e\<rparr>" for s1
  proof -
    obtain e where s1: "s1 = ?s\<lparr>env := e\<rparr>" using ex by blast
    have wf1: "vm_wf s1 xs (insert a H)" unfolding s1 using vm_wf_upd[OF wf out] by simp
    have r1: "regions s1 a = ?r" "spaces s1 = spaces s" by (simp_all add: s1)
    have ok: "region_ok (spaces s1 k) k (regions s1 a)"
      unfolding r1 using al len hole by (simp add: region_ok_def hole_at_def word_le_nat_alt)
    have clear: "rseg (regions s1 a) \<inter> cov s1 (xs k) = {}"
      unfolding r1 using hole by (auto simp: s1 im rseg_def seg_def hole_at_def)
    from region_insert_wf[OF wf1 a ok clear] obtain s' b ys where R: "region_insert k a s1 = Some (s', b)"
      "vm_wf s' (xs(k := ys)) H" "img s' ys = img s1 (xs k) \<union> rimg (regions s1 a)"
      "nodes s' (xs(k := ys)) H = nodes s1 xs (insert a H)" "\<forall>j. j \<noteq> k \<longrightarrow> img s' (xs j) = img s1 (xs j)" by blast
    have im1: "img s1 (xs j) = img s (xs j)" for j by (simp add: s1 im)
    have "cov s (xs j) \<subseteq> cov s' ((xs(k := ys)) j)" for j
      using R(3,5) im1 by (auto simp: cov_img)
    moreover have "nodes s1 xs (insert a H) = nodes s xs (insert a H)" by (simp add: nodes_def s1)
    ultimately have "vm_inv s' (xs(k := ys)) H" using R(2,4) bk unfolding vm_inv_def by blast
    with R im1 show ?thesis by (auto simp: r1 rimg_mapped)
  qed
  have "ok_or E (if flags AND VM_FLAG_DYNAMICALLY_BACKED = 0 then region_map E a address len ?s else Some ?s)
      (\<lambda>s1. \<exists>e. s1 = ?s\<lparr>env := e\<rparr>)"
    using region_map_ok[OF al] by (auto intro!: exI[of _ "env s"] simp: upd_region_def)
  then show ?thesis
    unfolding map_finish_run
  proof (rule ok_or_bind)
    fix s1 assume "\<exists>e. s1 = ?s\<lparr>env := e\<rparr>"
    from ins[OF this] obtain s' b ys where "region_insert k a s1 = Some (s', b)" "vm_inv s' (xs(k := ys)) H"
      "img s' ys = img s (xs k) \<union> mapping address len prot cache flags type phys" "\<forall>j. j \<noteq> k \<longrightarrow> img s' (xs j) = img s (xs j)"
      by blast
    then show "ok_or E (region_insert k a s1 \<bind> (\<lambda>(s, _). Some (s, Some address)))
      (\<lambda>(s', r). r = Some address \<and> (\<exists>ys. vm_inv s' (xs(k := ys)) H \<and>
         img s' ys = img s (xs k) \<union> mapping address len prot cache flags type phys \<and>
         (\<forall>j. j \<noteq> k \<longrightarrow> img s' (xs j) = img s (xs j))))"
      by auto
  qed
qed

text \<open>When a mapping request can be met.\<close>

definition map_possible :: "'e vm \<Rightarrow> space_id \<Rightarrow> addr list \<Rightarrow> u64 \<Rightarrow> u64 \<Rightarrow> vm_flags \<Rightarrow> bool" where
  "map_possible s k ys hint len flags \<longleftrightarrow> len \<noteq> 0 \<and> page_aligned len \<and>
     (if flags AND VM_FLAG_FIXED \<noteq> 0 then page_aligned hint \<and> hole_at s k ys (unat len) (unat hint)
      else (\<exists>h. hole_at s k ys (unat len) h))"

lemma aligned_up: "page_aligned (hint + (PAGE_SIZE - hint mod PAGE_SIZE))"
proof -
  have "hint + (PAGE_SIZE - hint mod PAGE_SIZE) = (hint - hint mod PAGE_SIZE) + PAGE_SIZE" by simp
  also have "hint - hint mod PAGE_SIZE = hint div PAGE_SIZE * PAGE_SIZE" by (simp add: minus_mod_eq_div_mult)
  finally have "hint + (PAGE_SIZE - hint mod PAGE_SIZE) = (hint div PAGE_SIZE + 1) * PAGE_SIZE" by (simp add: algebra_simps)
  moreover have "4096 dvd unat (w * PAGE_SIZE)" for w
  proof -
    have "unat (w * PAGE_SIZE) = (unat w * 4096) mod 2 ^ 64"
      by (simp add: unat_word_ariths PAGE_SIZE_def)
    then show ?thesis by (simp add: dvd_mod)
  qed
  ultimately show ?thesis by (simp add: page_aligned_iff)
qed

lemma hole_at_bounds:
  assumes "hole_at s k ys (unat len) (unat address)" "len \<noteq> 0"
  shows "SEGMENT_IN_BOUNDS address len (as_start (spaces s k)) (as_end (spaces s k))"
  using assms unat_gt_0[of len] by (simp add: SEGMENT_IN_BOUNDS_iff hole_at_def word_le_nat_alt word_less_nat_alt)

lemma region_free_hand:
  assumes inv: "vm_inv s xs (insert a H)" and a: "a \<notin> H"
  shows "region_free a s = Some (s\<lparr>region_cache := a # region_cache s\<rparr>)"
    "vm_inv (s\<lparr>region_cache := a # region_cache s\<rparr>) xs H"
proof -
  have wf: "vm_wf s xs (insert a H)" using inv by (simp add: vm_inv_def)
  have "space_ok (s\<lparr>region_cache := a # region_cache s\<rparr>) k (xs k)" for k
    by (rule space_ok_cong[OF vm_wfD(1)[OF wf]]) auto
  moreover have "cov (s\<lparr>region_cache := a # region_cache s\<rparr>) ys = cov s ys" for ys by (simp add: cov_def)
  moreover have "nodes (s\<lparr>region_cache := a # region_cache s\<rparr>) xs H = nodes s xs (insert a H)" by (auto simp: nodes_def)
  ultimately show "vm_inv (s\<lparr>region_cache := a # region_cache s\<rparr>) xs H"
    using inv a unfolding vm_inv_def vm_wf_def by auto
  show "region_free a s = Some (s\<lparr>region_cache := a # region_cache s\<rparr>)"
    using vm_wfD(5)[OF wf] by (simp add: region_free_def seq_push_def)
qed

text \<open>\<^verbatim>\<open>map_common\<close> after its argument checks, with the region in hand.\<close>

lemma map_common_found:
  assumes inv: "vm_inv s xs (insert a H)" and a: "a \<notin> H" and al: "page_aligned address" and len: "page_aligned len" "len \<noteq> 0"
    and phys: "type = VM_REGION_TYPE_DIRECT \<longrightarrow> page_aligned phys"
    and hint: "page_aligned hint \<Longrightarrow> address = hint" "flags AND VM_FLAG_FIXED \<noteq> 0 \<Longrightarrow> page_aligned hint"
  shows "ok_or E (do {
       result \<leftarrow> find_hole k address len s;
       (case result of
          None \<Rightarrow> do { s \<leftarrow> region_free a s; Some (s, None) }
        | Some address \<Rightarrow>
            if hint \<noteq> address \<and> flags AND VM_FLAG_FIXED \<noteq> 0 then do { s \<leftarrow> region_free a s; Some (s, None) }
            else do {
              ASSERT (SEGMENT_IN_BOUNDS address len (as_start (spaces s k)) (as_end (spaces s k)));
              ASSERT (address mod PAGE_SIZE = 0 \<and> len mod PAGE_SIZE = 0);
              let s = upd_region a (\<lambda>r. r\<lparr>r_space := k, r_type := type, r_base := address, r_length := len,
                r_prot := prot, r_cache := cache, r_dynamic := (flags AND VM_FLAG_DYNAMICALLY_BACKED \<noteq> 0)\<rparr>) s;
              s \<leftarrow> (case type of
                  VM_REGION_TYPE_ANON \<Rightarrow> Some (upd_region a (\<lambda>r. r\<lparr>r_back_zeroed := (flags AND VM_FLAG_ZERO \<noteq> 0)\<rparr>) s)
                | VM_REGION_TYPE_DIRECT \<Rightarrow> do {
                    ASSERT (phys mod PAGE_SIZE = 0);
                    Some (upd_region a (\<lambda>r. r\<lparr>r_physical := phys\<rparr>) s)
                  });
              s \<leftarrow> (if \<not> r_dynamic (regions s a)
                    then region_map E a (r_base (regions s a)) (r_length (regions s a)) s else Some s);
              (s, _) \<leftarrow> region_insert k a s;
              Some (s, Some address)
            })
     }) (\<lambda>(s', r). \<exists>xs'. vm_inv s' xs' H \<and> (\<forall>j. j \<noteq> k \<longrightarrow> img s' (xs' j) = img s (xs j)) \<and>
       (case r of
          None \<Rightarrow> img s' (xs' k) = img s (xs k) \<and> \<not> map_possible s k (xs k) hint len flags
        | Some address \<Rightarrow> map_possible s k (xs k) hint len flags \<and> page_aligned address \<and>
            hole_at s k (xs k) (unat len) (unat address) \<and>
            (page_aligned hint \<and> hole_at s k (xs k) (unat len) (unat hint) \<longrightarrow> address = hint) \<and>
            img s' (xs' k) = img s (xs k) \<union> mapping address len prot cache flags type phys))"
proof -
  have ok: "space_ok s k (xs k)" using inv by (simp add: vm_inv_def vm_wf_def)
  obtain r where r: "find_hole k address len s = Some r" "hole_result s k (xs k) len r"
    "\<forall>h. r = Some h \<longrightarrow> page_aligned h"
    "hole_at s k (xs k) (unat len) (unat address) \<longrightarrow> r = Some address"
    using find_hole_ok[OF ok len(2), of address] al hole_at_bounds[OF _ len(2)] by blast
  let ?s0 = "s\<lparr>region_cache := a # region_cache s\<rparr>"
  note fr = region_free_hand[OF inv a]
  have im0: "img ?s0 (xs j) = img s (xs j)" for j by (simp add: img_def)
  show ?thesis
  proof (cases r)
    case None
    then have "\<not> map_possible s k (xs k) hint len flags" using r(2) by (auto simp: hole_result_def map_possible_def)
    with None r(1) fr im0 show ?thesis by auto
  next
    case (Some h)
    have hole: "hole_at s k (xs k) (unat len) (unat h)" "page_aligned h" using r(2,3) Some by (auto simp: hole_result_def)
    have hh: "h = hint" if "page_aligned hint" "hole_at s k (xs k) (unat len) (unat hint)"
      using that hint(1) r(4) Some by simp
    show ?thesis
    proof (cases "hint \<noteq> h \<and> flags AND VM_FLAG_FIXED \<noteq> 0")
      case True
      then have "\<not> map_possible s k (xs k) hint len flags" using hh hint(2) by (auto simp: map_possible_def)
      with Some True r(1) fr im0 show ?thesis by auto
    next
      case False
      then have poss: "map_possible s k (xs k) hint len flags" using len hole hint(2) by (auto simp: map_possible_def)
      have ready: "SEGMENT_IN_BOUNDS h len (as_start (spaces s k)) (as_end (spaces s k)) \<and> page_aligned h \<and> page_aligned len \<and>
          (type = VM_REGION_TYPE_DIRECT \<longrightarrow> page_aligned phys)"
        using hole_at_bounds[OF hole(1) len(2)] hole(2) len(1) phys by blast
      show ?thesis
        unfolding r(1) Some Option.bind_lunit option.case if_not_P[OF False] map_tail if_P[OF ready]
        by (rule ok_or_mono[OF map_finish_ok[OF inv a hole(2) len(1,2) hole(1)]])
          (use poss hole hh in \<open>fastforce simp: fun_upd_def\<close>)
    qed
  qed
qed

text \<open>The calls a mapping makes, whatever the state of the address spaces.\<close>

lemma map_finish_env:
  assumes "map_finish E k address len prot cache flags type phys a s = Some (s', r)"
  shows "back_range E k address len prot cache flags type phys (env s) = Some (env s') \<and> r = Some address"
proof -
  let ?s = "upd_region a (mapped_region k address len prot cache flags type phys) s"
  obtain s1 b where R: "(if flags AND VM_FLAG_DYNAMICALLY_BACKED = 0 then region_map E a address len ?s else Some ?s) = Some s1"
    "region_insert k a s1 = Some (s', b)" "r = Some address"
    using assms unfolding map_finish_run by (auto simp: bind_eq_Some_conv)
  have "back_range E k address len prot cache flags type phys (env s) = Some (env s1)"
  proof (cases "flags AND VM_FLAG_DYNAMICALLY_BACKED = 0")
    case True
    then show ?thesis
      using R(1) region_map_env[of E a address len ?s s1]
      by (cases type) (simp_all add: back_range_def mapped_region_def privilege_of_def)
  next
    case False
    then show ?thesis using R(1) by (auto simp: back_range_def)
  qed
  with region_insert_env[OF R(2)] R(3) show ?thesis by simp
qed

lemma map_common_env:
  assumes "map_common E k hint len prot cache flags type phys s = Some (s', r)"
  shows "case r of
      None \<Rightarrow> env s' = env s \<or> region_cache s = [] \<and> pool_calls E (env s) (env s')
    | Some address \<Rightarrow> \<exists>e. (if region_cache s = [] then pool_calls E (env s) e else e = env s) \<and>
        back_range E k address len prot cache flags type phys e = Some (env s')"
proof (cases "len = 0 \<or> len mod PAGE_SIZE \<noteq> 0 \<or> hint mod PAGE_SIZE \<noteq> 0 \<and> flags AND VM_FLAG_FIXED \<noteq> 0")
  case True
  then have "map_common E k hint len prot cache flags type phys s = Some (s, None)" by (auto simp: map_common_def)
  then show ?thesis using assms by simp
next
  case False
  then have nF: "\<not> (len = 0 \<or> len mod PAGE_SIZE \<noteq> 0)" "\<not> (hint mod PAGE_SIZE \<noteq> 0 \<and> flags AND VM_FLAG_FIXED \<noteq> 0)" by blast+
  let ?address = "if hint mod PAGE_SIZE \<noteq> 0 then hint + (PAGE_SIZE - hint mod PAGE_SIZE) else hint"
  note run = assms[unfolded map_common_def if_not_P[OF nF(1)] if_not_P[OF nF(2)] Let_def[of ?address] map_tail]
  obtain s1 a where R1: "region_alloc E s = Some (s1, a)" using run by (cases "region_alloc E s") auto
  note run1 = run[unfolded R1 Option.bind_lunit prod.case]
  obtain res where R2: "find_hole k ?address len s1 = Some res" using run1 by (cases "find_hole k ?address len s1") auto
  have R: "(case res of
        None \<Rightarrow> do { s \<leftarrow> region_free a s1; Some (s, None) }
      | Some address \<Rightarrow>
          if hint \<noteq> address \<and> flags AND VM_FLAG_FIXED \<noteq> 0 then do { s \<leftarrow> region_free a s1; Some (s, None) }
          else map_finish E k address len prot cache flags type phys a s1) = Some (s', r)"
    using run1[unfolded R2 Option.bind_lunit] by (cases res) (auto split: if_splits)
  have e1: "if region_cache s = [] then pool_calls E (env s) (env s1) else env s1 = env s"
    using region_alloc_env[OF R1] by (auto split: if_splits)
  show ?thesis
  proof (cases r)
    case None
    then have "env s' = env s1"
      using R by (auto simp: bind_eq_Some_conv dest: region_free_env map_finish_env split: option.splits if_splits)
    with None e1 show ?thesis by (auto split: if_splits)
  next
    case (Some address)
    then have "map_finish E k address len prot cache flags type phys a s1 = Some (s', r)"
      using R by (auto simp: bind_eq_Some_conv dest: map_finish_env split: option.splits if_splits)
    from map_finish_env[OF this] Some e1 show ?thesis by auto
  qed
qed

lemma map_common_ok:
  assumes inv: "vm_inv s xs H" and room: "region_cache s \<noteq> [] \<or> k \<noteq> GLOBAL_SPACE \<and> can_refill s xs"
    and phys: "type = VM_REGION_TYPE_DIRECT \<longrightarrow> page_aligned phys"
  shows "ok_or E (map_common E k hint len prot cache flags type phys s)
    (\<lambda>(s', r). \<exists>xs'. vm_inv s' xs' H \<and>
       (\<forall>j. j \<noteq> k \<longrightarrow> j \<noteq> GLOBAL_SPACE \<or> region_cache s \<noteq> [] \<longrightarrow> img s' (xs' j) = img s (xs j)) \<and>
       (case r of
          None \<Rightarrow> img s' (xs' k) = img s (xs k) \<and> \<not> map_possible s k (xs k) hint len flags
        | Some address \<Rightarrow> map_possible s k (xs k) hint len flags \<and> page_aligned address \<and>
            hole_at s k (xs k) (unat len) (unat address) \<and>
            (page_aligned hint \<and> hole_at s k (xs k) (unat len) (unat hint) \<longrightarrow> address = hint) \<and>
            img s' (xs' k) = img s (xs k) \<union> mapping address len prot cache flags type phys))"
proof (cases "len = 0 \<or> len mod PAGE_SIZE \<noteq> 0 \<or> hint mod PAGE_SIZE \<noteq> 0 \<and> flags AND VM_FLAG_FIXED \<noteq> 0")
  case True
  then have "map_common E k hint len prot cache flags type phys s = Some (s, None)" by (auto simp: map_common_def)
  moreover have "\<not> map_possible s k (xs k) hint len flags" using True by (auto simp: map_possible_def page_aligned_def)
  ultimately show ?thesis using inv by auto
next
  case False
  let ?address = "if hint mod PAGE_SIZE \<noteq> 0 then hint + (PAGE_SIZE - hint mod PAGE_SIZE) else hint"
  have al: "page_aligned ?address" using aligned_up[of hint] by (auto simp: page_aligned_def)
  have len: "page_aligned len" "len \<noteq> 0" using False by (auto simp: page_aligned_def)
  have hint: "page_aligned hint \<Longrightarrow> ?address = hint" "flags AND VM_FLAG_FIXED \<noteq> 0 \<Longrightarrow> page_aligned hint"
    using False by (auto simp: page_aligned_def)
  have nF: "\<not> (len = 0 \<or> len mod PAGE_SIZE \<noteq> 0)" "\<not> (hint mod PAGE_SIZE \<noteq> 0 \<and> flags AND VM_FLAG_FIXED \<noteq> 0)" using False by blast+
  have room': "region_cache s \<noteq> [] \<or> can_refill s xs" using room by blast
  show ?thesis
    unfolding map_common_def if_not_P[OF nF(1)] if_not_P[OF nF(2)] Let_def[of ?address]
  proof (rule ok_or_bind[OF region_alloc_ok[OF inv room']], clarify, goal_cases)
    case (1 s1 a xs1)
    have gi: "img s1 (xs1 j) = img s (xs j)" if "j \<noteq> GLOBAL_SPACE \<or> region_cache s \<noteq> []" for j
      using that grown_img[OF 1(3), of j] 1(4) by (cases "region_cache s \<noteq> []") (auto simp: img_def)
    have k: "k \<noteq> GLOBAL_SPACE \<or> region_cache s \<noteq> []" using room by blast
    have h: "hole_at s1 k (xs1 k) = hole_at s k (xs k)"
      using gi[OF k] 1(3) by (intro ext) (simp add: hole_at_def cov_img grown_def)
    then have mp: "map_possible s1 k (xs1 k) hint len flags = map_possible s k (xs k) hint len flags" by (simp add: map_possible_def)
    show ?case
      by (rule ok_or_mono[OF map_common_found[OF 1(1,2) al len phys hint, where k = k]])
        (auto simp: h mp gi[OF k] split: option.splits, (metis gi)+)
  qed
qed

end
