(* ===== verification/VmRewrite.thy ===== *)
theory VmRewrite
  imports VmMap
begin

text \<open>
  Unmapping and rewriting a range that lies in one region: the region is split, and exactly the
  range loses its mapping or changes its attributes.
\<close>

section \<open>Pieces of a region\<close>

text \<open>\<open>q\<close> is the part of region \<open>r\<close> at \<open>b\<close> of length \<open>l\<close>, as \<^verbatim>\<open>clone_to\<close> and the splitting make it.\<close>

definition piece_of :: "vm_region \<Rightarrow> u64 \<Rightarrow> u64 \<Rightarrow> vm_region \<Rightarrow> bool" where
  "piece_of r b l q \<longleftrightarrow> r_space q = r_space r \<and> r_type q = r_type r \<and> r_prot q = r_prot r \<and> r_cache q = r_cache r \<and>
     r_dynamic q = r_dynamic r \<and> r_base q = b \<and> r_length q = l \<and>
     (case r_type r of
        VM_REGION_TYPE_ANON \<Rightarrow> r_back_zeroed q = r_back_zeroed r
      | VM_REGION_TYPE_DIRECT \<Rightarrow> r_physical q = r_physical r + (b - r_base r))"

text \<open>A direct region whose physical range neither starts at 0 nor reaches the end of the address space.\<close>

definition direct_ok :: "vm_region \<Rightarrow> bool" where
  "direct_ok r \<longleftrightarrow> (r_type r = VM_REGION_TYPE_DIRECT \<longrightarrow> r_physical r \<noteq> 0 \<and> unat (r_physical r) + unat (r_length r) < 2 ^ 64)"

definition within :: "vm_address_space \<Rightarrow> vm_region \<Rightarrow> u64 \<Rightarrow> u64 \<Rightarrow> bool" where
  "within S r b l \<longleftrightarrow> l \<noteq> 0 \<and> page_aligned b \<and> page_aligned l \<and> r_base r \<le> b \<and>
     unat b + unat l \<le> unat (r_base r) + unat (r_length r)"

lemma piece_ok:
  assumes r: "region_ok S k r" and w: "within S r b l" and d: "direct_ok r" and q: "piece_of r b l q"
  shows "region_ok S k q" "rseg q = seg b l" "rseg q \<subseteq> rseg r" "rimg q = {x \<in> rimg r. fst x \<in> seg b l}"
proof -
  show "region_ok S k q" using r w q unfolding region_ok_def within_def piece_of_def by auto
  show sq: "rseg q = seg b l" using q by (simp add: rseg_def piece_of_def)
  show sub: "rseg q \<subseteq> rseg r" using w unfolding sq by (auto simp: rseg_def seg_def within_def word_le_nat_alt)
  have "attr_at q p = attr_at r p" if "p \<in> seg b l" for p
  proof (cases "r_type r")
    case VM_REGION_TYPE_ANON
    with q show ?thesis by (simp add: attr_at_def piece_of_def)
  next
    case VM_REGION_TYPE_DIRECT
    have o: "unat (b - r_base r) = unat b - unat (r_base r)" using w by (simp add: within_def unat_sub word_le_nat_alt)
    have "unat (r_physical r + (b - r_base r)) = unat (r_physical r) + (unat b - unat (r_base r))"
      using d w VM_REGION_TYPE_DIRECT o add_fits[of "r_physical r" "b - r_base r"]
      unfolding direct_ok_def within_def by linarith
    with q that VM_REGION_TYPE_DIRECT w show ?thesis
      by (simp add: attr_at_def piece_of_def seg_def within_def word_le_nat_alt)
  qed
  with sub show "rimg q = {x \<in> rimg r. fst x \<in> seg b l}" unfolding rimg_def sq by auto
qed

lemma clone_to_ok:
  assumes inv: "vm_inv s xs H" and k: "k \<noteq> GLOBAL_SPACE" and sr: "sr \<in> set (xs k)" and room: "region_cache s \<noteq> [] \<or> can_refill s xs"
    and w: "within (spaces s k) (regions s sr) b l" and d: "direct_ok (regions s sr)"
  shows "ok_or E (clone_to E b l sr s) (\<lambda>(s', a). \<exists>xs'. vm_inv s' xs' (insert a H) \<and> a \<notin> H \<and> grown s xs H s' xs' \<and>
    piece_of (regions s sr) b l (regions s' a) \<and>
    (2 \<le> length (region_cache s) \<or> can_refill s xs \<longrightarrow> region_cache s' \<noteq> [] \<or> can_refill s' xs'))"
  unfolding clone_to_def
proof (rule ok_or_bind[OF region_alloc_ok[OF inv room]], clarify, goal_cases)
  case (1 s1 a xs1)
  let ?f = "regions s sr"
  have f: "regions s1 sr = ?f" using 1(3) k sr by (simp add: grown_def)
  have wf: "vm_wf s1 xs1 (insert a H)" using 1(1) by (simp add: vm_inv_def)
  have out: "a \<notin> set (xs1 j)" for j using vm_wfD(6)[OF wf, of j] by auto
  have room2: "2 \<le> length (region_cache s) \<or> can_refill s xs \<Longrightarrow> region_cache s1 \<noteq> [] \<or> can_refill s1 xs1"
    using 1(4,5) by (cases "region_cache s") (auto simp: can_refill_def hole_at_def cov_def)
  have keep: "vm_inv s' xs1 (insert a H) \<and> grown s xs H s' xs1 \<and> (can_refill s1 xs1 \<longrightarrow> can_refill s' xs1)"
    if "s' = s1\<lparr>regions := (regions s1)(a := q)\<rparr>" for s' q
  proof -
    have same: "img s' (xs1 j) = img s1 (xs1 j)" "cov s' (xs1 j) = cov s1 (xs1 j)" for j
      using out[of j] img_cong[of "xs1 j" s' s1] unfolding cov_img that by (metis fun_upd_other simps(2) vm.select_convs(2) vm.surjective vm.update_convs(2))+
    have "vm_wf s' xs1 (insert a H)" by (rule vm_wf_cong[OF wf]) (use out in \<open>auto simp: that\<close>)
    moreover have "nodes s' xs1 (insert a H) = nodes s1 xs1 (insert a H)" by (simp add: nodes_def that)
    moreover have "\<forall>x \<in> H. x \<noteq> a" using 1(2) by blast
    moreover have "\<forall>j x. j \<noteq> GLOBAL_SPACE \<longrightarrow> x \<in> set (xs j) \<longrightarrow> x \<noteq> a" using 1(3) out unfolding grown_def by metis
    ultimately show ?thesis
      using 1(1,3) out same unfolding vm_inv_def grown_def can_refill_def hole_at_def by (auto simp: that)
  qed
  have o: "unat (b - r_base ?f) = unat b - unat (r_base ?f)" using w by (simp add: within_def unat_sub word_le_nat_alt)
  have lt: "unat b - unat (r_base ?f) < unat (r_length ?f)"
    using w unat_gt_0[of l] unfolding within_def word_le_nat_alt by linarith
  have as1: "- 1 - r_physical ?f > b - r_base ?f" if "r_type ?f = VM_REGION_TYPE_DIRECT"
  proof -
    have "unat (- 1 - r_physical ?f) = 2 ^ 64 - 1 - unat (r_physical ?f)"
      using unat_sub[of "r_physical ?f" "- 1"] by (simp add: unsigned_minus_1_eq_mask mask_eq_exp_minus_1)
    moreover have "unat (r_physical ?f) + unat (r_length ?f) < 2 ^ 64" using d that by (simp add: direct_ok_def)
    ultimately show ?thesis using o lt unfolding word_less_nat_alt by linarith
  qed
  have as2: "r_physical ?f > r_base ?f - b" if "r_type ?f = VM_REGION_TYPE_DIRECT" "\<not> r_base ?f < b"
    using d that w unfolding direct_ok_def within_def by (simp add: word_gt_0)
  show ?case
  proof (cases "r_type ?f")
    case VM_REGION_TYPE_ANON
    then show ?thesis
      using keep[OF refl] 1(2) room2 by (auto simp: f Let_def piece_of_def upd_region_def)
  next
    case VM_REGION_TYPE_DIRECT
    have b: "\<not> r_base ?f < b \<Longrightarrow> b = r_base ?f" using w by (simp add: within_def)
    show ?thesis
      using keep[OF refl] 1(2) room2 VM_REGION_TYPE_DIRECT as1[OF VM_REGION_TYPE_DIRECT] as2[OF VM_REGION_TYPE_DIRECT] b
      by (cases "r_base ?f < b") (auto simp: f Let_def piece_of_def upd_region_def ASSERT_def)
  qed
qed

section \<open>Splitting\<close>

text \<open>Replacing a region by pieces of it keeps a space well formed.\<close>

lemma split_space:
  assumes ok: "space_ok s k ys" and sr: "sr \<in> set ys"
    and rb: "rb_inv (region_node_value s') (tree s' k) zs" and zs: "set zs = (set ys - {sr}) \<union> N"
    and b: "as_start (spaces s' k) = as_start (spaces s k)" "as_end (spaces s' k) = as_end (spaces s k)"
    and old: "\<And>x. x \<in> set ys - {sr} \<Longrightarrow> regions s' x = regions s x"
    and new: "\<And>x. x \<in> N \<Longrightarrow> x \<notin> set ys - {sr} \<and> region_ok (spaces s k) k (regions s' x) \<and> rseg (regions s' x) \<subseteq> rseg (regions s sr)"
    and dj: "\<And>x y. x \<in> N \<Longrightarrow> y \<in> N \<Longrightarrow> x \<noteq> y \<Longrightarrow> rseg (regions s' x) \<inter> rseg (regions s' y) = {}"
  shows "space_ok s' k zs" "img s' zs = (img s ys - rimg (regions s sr)) \<union> (\<Union>x \<in> N. rimg (regions s' x))"
proof -
  have on: "rseg (regions s' x) \<inter> rseg (regions s' y) = {}" if "x \<in> set ys - {sr}" "y \<in> N" for x y
    using old[OF that(1)] new[OF that(2)] space_okD(4)[OF ok, of x sr] that(1) sr by auto
  have "rseg (regions s' x) \<inter> rseg (regions s' y) = {}" if xy: "x \<in> set zs" "y \<in> set zs" "x \<noteq> y" for x y
  proof -
    consider "x \<in> N" "y \<in> N" | "x \<in> N" "y \<in> set ys - {sr}" | "x \<in> set ys - {sr}" "y \<in> N"
      | "x \<in> set ys - {sr}" "y \<in> set ys - {sr}" using xy(1,2) unfolding zs by blast
    then show ?thesis
    proof cases
      case 1
      then show ?thesis using dj xy(3) by blast
    next
      case 2
      then show ?thesis using on[of y x] by blast
    next
      case 3
      then show ?thesis by (rule on)
    next
      case 4
      then show ?thesis using old[of x] old[of y] space_okD(4)[OF ok, of x y] xy(3) by auto
    qed
  qed
  moreover have "region_ok (spaces s' k) k (regions s' x)" if "x \<in> set zs" for x
    using that new[of x] old[of x] space_okD(3)[OF ok, of x] unfolding zs region_ok_start_end[OF b] by auto
  ultimately show "space_ok s' k zs"
    using rb space_okD(2)[OF ok] b unfolding space_ok_def by auto
  have "img s ys - rimg (regions s sr) = (\<Union>x \<in> set ys - {sr}. rimg (regions s x))"
  proof -
    have "rimg (regions s x) \<inter> rimg (regions s sr) = {}" if "x \<in> set ys - {sr}" for x
      using space_okD(4)[OF ok, of x sr] that sr by (fastforce simp: rimg_def)
    then show ?thesis using sr unfolding img_def by blast
  qed
  then show "img s' zs = (img s ys - rimg (regions s sr)) \<union> (\<Union>x \<in> N. rimg (regions s' x))"
    using old unfolding img_def zs by auto
qed

text \<open>What is left of a region when a range is cut out of it.\<close>

lemma cut_out:
  assumes ok: "space_ok s k ys" and sr: "sr \<in> set ys"
    and l: "L = {x \<in> rimg (regions s sr). fst x < unat b}" and r: "R = {x \<in> rimg (regions s sr). unat b + unat l \<le> fst x}"
    and sub: "seg b l \<subseteq> rseg (regions s sr)"
  shows "(img s ys - rimg (regions s sr)) \<union> (L \<union> R) = {x \<in> img s ys. fst x \<notin> seg b l}"
proof -
  have "fst x \<notin> rseg (regions s sr)" if "x \<in> img s ys - rimg (regions s sr)" for x
  proof
    assume a: "fst x \<in> rseg (regions s sr)"
    from that obtain y where y: "y \<in> set ys" "x \<in> rimg (regions s y)" "x \<notin> rimg (regions s sr)" by (auto simp: img_def)
    then have "y \<noteq> sr" "fst x \<in> rseg (regions s y)" by (auto simp: rimg_def)
    with space_okD(4)[OF ok y(1) sr] a show False by blast
  qed
  moreover have "rimg (regions s sr) \<subseteq> img s ys" using sr by (auto simp: img_def)
  ultimately show ?thesis unfolding l r using sub by (auto simp: seg_def)
qed

text \<open>
  The end of the split: \<open>N\<close> holds the region for the part behind the range, if there is one, which is
  in the tree already while the split region still covers it.
\<close>

lemma split_left_ok:
  assumes inv: "vm_inv s xs (N \<union> H)" and k: "k \<noteq> GLOBAL_SPACE" and sr: "sr \<in> set (xs k)"
    and w: "within (spaces s k) (regions s sr) b l" and d: "direct_ok (regions s sr)"
    and t: "rb_inv (region_node_value s) t ws" "set ws = set (xs k) \<union> N" and N: "N \<inter> H = {}" "N \<subseteq> {a}"
    and R: "\<And>x. x \<in> N \<Longrightarrow> region_ok (spaces s k) k (regions s x) \<and> rseg (regions s x) \<subseteq> rseg (regions s sr) \<and>
      rseg (regions s x) \<inter> {..< unat b + unat l} = {}"
    and RI: "(\<Union>x \<in> N. rimg (regions s x)) = {x \<in> rimg (regions s sr). unat b + unat l \<le> fst x}"
  shows "\<exists>s' ys. split_left k sr b (set_tree k t s) = Some s' \<and> vm_inv s' (xs(k := ys)) H \<and>
    img s' ys = {x \<in> img s (xs k). fst x \<notin> seg b l} \<and> (\<forall>x. x \<noteq> sr \<longrightarrow> regions s' x = regions s x) \<and>
    (\<forall>j. as_start (spaces s' j) = as_start (spaces s j) \<and> as_end (spaces s' j) = as_end (spaces s j)) \<and> env s' = env s"
proof -
  let ?r = "regions s sr"
  have wf: "vm_wf s xs (N \<union> H)" and bk: "\<And>x. x \<in> nodes s xs (N \<union> H) \<Longrightarrow> unat x \<in> cov s (xs GLOBAL_SPACE)"
    using inv by (auto simp: vm_inv_def)
  note W = vm_wfD[OF wf] and ok = vm_wfD(1)[OF wf, of k]
  note ro = space_okD(3)[OF ok sr]
  have NX: "N \<inter> set (xs j) = {}" "N \<inter> set (region_cache s) = {}" for j using W(5) W(6)[of j] by auto
  have srs: "sr \<notin> set (region_cache s)" "sr \<notin> H" "sr \<notin> N" "\<And>j. j \<noteq> k \<Longrightarrow> sr \<notin> set (xs j)"
    using sr W(4)[of k] W(6)[of k] NX(1)[of k] W(2) by blast+
  have sub: "seg b l \<subseteq> rseg ?r" using w by (auto simp: rseg_def seg_def within_def word_le_nat_alt)
  have o: "unat (b - r_base ?r) = unat b - unat (r_base ?r)" using w by (simp add: within_def unat_sub word_le_nat_alt)
  have bl: "unat (r_base ?r) \<le> unat b" using w by (simp add: within_def word_le_nat_alt)
  have main: ?thesis
    if s': "split_left k sr b (set_tree k t s) = Some s'" and rb: "rb_inv (region_node_value s') (tree s' k) zs"
      and zs: "set zs = (set (xs k) - {sr}) \<union> N'" and N': "N' = (if unat (r_base ?r) < unat b then insert sr N else N)"
      and c: "region_cache s' = (if unat (r_base ?r) < unat b then region_cache s else sr # region_cache s)"
      and same: "\<And>x. x \<noteq> sr \<Longrightarrow> regions s' x = regions s x" and e: "env s' = env s"
      and sp: "\<And>j. j \<noteq> k \<Longrightarrow> spaces s' j = spaces s j"
      and bd: "as_start (spaces s' k) = as_start (spaces s k)" "as_end (spaces s' k) = as_end (spaces s k)"
      and left: "unat (r_base ?r) < unat b \<Longrightarrow> regions s' sr = ?r\<lparr>r_length := b - r_base ?r\<rparr>" for s' zs N'
  proof -
    have pl: "region_ok (spaces s k) k (regions s' sr) \<and> rseg (regions s' sr) \<subseteq> rseg ?r \<and>
        rseg (regions s' sr) = {unat (r_base ?r) ..< unat b} \<and> rimg (regions s' sr) = {x \<in> rimg ?r. fst x < unat b}"
      if lt: "unat (r_base ?r) < unat b"
    proof -
      have "b - r_base ?r \<noteq> 0" using lt by auto
      moreover have "page_aligned (r_base ?r)" "page_aligned (b - r_base ?r)"
        using ro w o by (auto simp: page_aligned_iff region_ok_def within_def)
      moreover have "unat (r_base ?r) + unat (b - r_base ?r) \<le> unat (r_base ?r) + unat (r_length ?r)"
        using w lt o unfolding within_def by linarith
      ultimately have wl: "within (spaces s k) ?r (r_base ?r) (b - r_base ?r)" by (simp add: within_def)
      have pc: "piece_of ?r (r_base ?r) (b - r_base ?r) (regions s' sr)"
        unfolding left[OF lt] piece_of_def by (simp split: vm_region_type.split)
      have sg: "seg (r_base ?r) (b - r_base ?r) = {unat (r_base ?r) ..< unat b}" using lt o by (auto simp: seg_def)
      from piece_ok[OF ro wl d pc] show ?thesis
        unfolding sg by (auto simp: rimg_def rseg_def seg_def)
    qed
    have new: "x \<notin> set (xs k) - {sr} \<and> region_ok (spaces s k) k (regions s' x) \<and> rseg (regions s' x) \<subseteq> rseg ?r" if "x \<in> N'" for x
    proof (cases "x = sr")
      case True
      then show ?thesis using that srs(3) pl unfolding N' by (auto split: if_splits)
    next
      case False
      then have xN: "x \<in> N" using that unfolding N' by (auto split: if_splits)
      then show ?thesis using R[OF xN] NX(1)[of k] same[OF False] by auto
    qed
    have dj: "rseg (regions s' x) \<inter> rseg (regions s' y) = {}" if xy: "x \<in> N'" "y \<in> N'" "x \<noteq> y" for x y
    proof -
      have aux: "rseg (regions s' sr) \<inter> rseg (regions s' y) = {}" if y: "y \<in> N" "unat (r_base ?r) < unat b" for y
      proof -
        have "y \<noteq> sr" using y(1) srs(3) by auto
        then show ?thesis using R[OF y(1)] pl[OF y(2)] same by fastforce
      qed
      have "\<not> (x \<in> N \<and> y \<in> N)" using N(2) xy(3) by blast
      then show ?thesis using xy aux[of x] aux[of y] unfolding N' by (auto split: if_splits)
    qed
    note ss = split_space[OF ok sr rb zs bd same new dj]
    have "(\<Union>x \<in> N'. rimg (regions s' x)) = {x \<in> rimg ?r. fst x < unat b} \<union> {x \<in> rimg ?r. unat b + unat l \<le> fst x}"
    proof -
      have NI: "(\<Union>x \<in> N. rimg (regions s' x)) = {x \<in> rimg ?r. unat b + unat l \<le> fst x}"
        using RI same srs(3) by (metis (no_types, lifting) SUP_cong)
      show ?thesis
      proof (cases "unat (r_base ?r) < unat b")
        case True
        then show ?thesis using pl NI unfolding N' by auto
      next
        case False
        then have em: "{x \<in> rimg ?r. fst x < unat b} = {}" by (auto simp: rimg_def rseg_def seg_def)
        show ?thesis unfolding N' if_not_P[OF False] NI em by simp
      qed
    qed
    with ss(2) cut_out[OF ok sr refl refl sub] have im: "img s' zs = {x \<in> img s (xs k). fst x \<notin> seg b l}"
      by auto
    have zN: "set zs \<union> set (region_cache s') = set (xs k) \<union> N \<union> set (region_cache s)" "set zs \<inter> set (region_cache s') = {}"
      "distinct (region_cache s')"
      using sr srs NX(1)[of k] NX(2) W(3) W(4)[of k] unfolding zs N' c by auto
    have ok': "space_ok s' j (xs j)" if "j \<noteq> k" for j
      by (rule space_ok_cong[OF W(1)]) (use sp that in simp, metis that same srs(4))
    have dk: "set (xs j) \<inter> (set (xs k) \<union> N \<union> set (region_cache s)) = {}" if "j \<noteq> k" for j
      using W(2)[OF that] W(4)[of j] NX(1)[of j] by auto
    have dh: "H \<inter> (set (xs k) \<union> N \<union> set (region_cache s)) = {}" using W(5) W(6)[of k] N(1) by auto
    have "vm_wf s' (xs(k := zs)) H"
      unfolding vm_wf_def
    proof (intro conjI allI impI)
      show "space_ok s' j ((xs(k := zs)) j)" for j using ss(1) ok' by simp
      show "set ((xs(k := zs)) i) \<inter> set ((xs(k := zs)) j) = {}" if "i \<noteq> j" for i j
        using that zN(1) dk[of i] dk[of j] W(2)[OF that] by (auto 0 3)
      show "set (region_cache s') \<inter> set ((xs(k := zs)) j) = {}" for j
        using zN dk[of j] by (auto 0 3)
      show "H \<inter> set (region_cache s') = {}" using zN(1) dh by auto
      show "H \<inter> set ((xs(k := zs)) j) = {}" for j using zN(1) dh W(6)[of j] by (auto 0 3)
    qed (rule zN(3))
    moreover have "nodes s' (xs(k := zs)) H = nodes s xs (N \<union> H)"
      unfolding nodes_def UN_spaces[of "xs(k := zs)" k] UN_spaces[of xs k] using zN(1) by auto
    moreover have "cov s' (xs GLOBAL_SPACE) = cov s (xs GLOBAL_SPACE)"
      using same srs(4)[of GLOBAL_SPACE] k unfolding cov_def by (metis (no_types, lifting) SUP_cong)
    ultimately have "vm_inv s' (xs(k := zs)) H" using bk k unfolding vm_inv_def by simp
    moreover have "\<forall>j. as_start (spaces s' j) = as_start (spaces s j) \<and> as_end (spaces s' j) = as_end (spaces s j)"
      using sp bd by metis
    ultimately show ?thesis using s' im same e by blast
  qed
  show ?thesis
  proof (cases "unat (r_base ?r) < unat b")
    case True
    let ?s' = "upd_region sr (\<lambda>r. r\<lparr>r_length := b - r_base r\<rparr>) (set_tree k t s)"
    have "rb_inv (region_node_value ?s') t ws" by (rule rb_inv_cong[OF t(1)]) (simp add: region_node_value_def)
    then show ?thesis
      using True sr srs(3) t(2) by (intro main[of ?s' ws "insert sr N"]) (auto simp: split_left_def word_less_nat_alt)
  next
    case False
    obtain t' where t': "rb_remove t sr = Some t'" "rb_inv (region_node_value s) t' (remove1 sr ws)"
      using rb_inv_remove[OF t(1), of sr] sr t(2) by auto
    let ?s' = "(set_tree k t' s)\<lparr>region_cache := sr # region_cache s\<rparr>"
    have "region_node_value ?s' = region_node_value s" by (simp add: region_node_value_def fun_eq_iff)
    moreover have "rb_del k sr (set_tree k t s) = Some (set_tree k t' s)" using t'(1) by (simp add: rb_del_def) (simp add: set_tree_def)
    moreover have "set (remove1 sr ws) = set (xs k) - {sr} \<union> N"
      using t(2) rb_inv_wf[OF t(1)] srs(3) by auto
    ultimately show ?thesis
      using False srs(1) t'(2) by (intro main[of ?s' "remove1 sr ws" N]) (auto simp: split_left_def word_less_nat_alt region_free_def seq_push_def)
  qed
qed

text \<open>The effect of a split on the whole state.\<close>

definition split_result :: "'e vm \<Rightarrow> (space_id \<Rightarrow> addr list) \<Rightarrow> addr set \<Rightarrow> space_id \<Rightarrow> u64 \<Rightarrow> u64 \<Rightarrow> 'e vm \<Rightarrow>
    (space_id \<Rightarrow> addr list) \<Rightarrow> bool" where
  "split_result s xs H k b l s' xs' \<longleftrightarrow> vm_inv s' xs' H \<and> img s' (xs' k) = {x \<in> img s (xs k). fst x \<notin> seg b l} \<and>
     (\<forall>j. j \<noteq> k \<longrightarrow> j \<noteq> GLOBAL_SPACE \<longrightarrow> img s' (xs' j) = img s (xs j)) \<and> (\<forall>x \<in> H. regions s' x = regions s x) \<and>
     as_start (spaces s' k) = as_start (spaces s k) \<and> as_end (spaces s' k) = as_end (spaces s k)"

lemma split_ok:
  assumes inv: "vm_inv s xs H" and k: "k \<noteq> GLOBAL_SPACE" and sr: "sr \<in> set (xs k)" and room: "region_cache s \<noteq> [] \<or> can_refill s xs"
    and w: "within (spaces s k) (regions s sr) b l" and d: "direct_ok (regions s sr)"
  shows "ok_or E (split_right E k sr b l s \<bind> split_left k sr b) (\<lambda>s'. \<exists>xs'. split_result s xs H k b l s' xs')"
proof -
  let ?r = "regions s sr"
  have ok: "space_ok s k (xs k)" using inv by (simp add: vm_inv_def vm_wf_def)
  note ro = space_okD(3)[OF ok sr]
  have fits: "unat b + unat l < 2 ^ 64"
    using w region_ok_end(1)[OF ro] unat_lt64[of "r_base ?r + r_length ?r"] unfolding within_def by linarith
  note bl = add_fits[OF fits] and re = region_ok_end(1)[OF ro]
  show ?thesis
  proof (cases "r_base ?r + r_length ?r > b + l")
    case False
    then have eq: "unat b + unat l = unat (r_base ?r) + unat (r_length ?r)"
      using w bl re by (simp add: within_def word_less_nat_alt)
    then have em: "{x \<in> rimg ?r. unat b + unat l \<le> fst x} = {}" by (auto simp: rimg_def rseg_def seg_def)
    have st: "set_tree k (tree s k) s = s" by (simp add: set_tree_def)
    from split_left_ok[of s xs "{}" H k sr b l "tree s k" "xs k"] inv k sr w d space_okD(1)[OF ok] em st
    obtain s' ys where "split_left k sr b s = Some s'" "vm_inv s' (xs(k := ys)) H" "img s' ys = {x \<in> img s (xs k). fst x \<notin> seg b l}"
      "\<forall>x. x \<noteq> sr \<longrightarrow> regions s' x = regions s x"
      "\<forall>j. as_start (spaces s' j) = as_start (spaces s j) \<and> as_end (spaces s' j) = as_end (spaces s j)" by auto
    moreover have "\<forall>j. j \<noteq> k \<longrightarrow> sr \<notin> set (xs j)" "sr \<notin> H" using inv sr unfolding vm_inv_def vm_wf_def by blast+
    moreover from calculation have "\<forall>j. j \<noteq> k \<longrightarrow> img s' (xs j) = img s (xs j)" by (metis img_cong)
    moreover have "split_right E k sr b l s = Some s" using False by (simp add: split_right_def)
    ultimately show ?thesis
      by (auto simp: split_result_def intro!: exI[of _ "xs(k := ys)"])
  next
    case True
    let ?nb = "b + l" and ?nl = "(r_base ?r + r_length ?r) - (b + l)"
    have nl: "unat ?nl = unat (r_base ?r) + unat (r_length ?r) - (unat b + unat l)"
      using True bl re by (simp add: unat_sub word_less_nat_alt word_le_nat_alt)
    have lt: "unat b + unat l < unat (r_base ?r) + unat (r_length ?r)" using True bl re by (simp add: word_less_nat_alt)
    have w2: "within (spaces s k) ?r ?nb ?nl"
      unfolding within_def page_aligned_iff word_le_nat_alt bl nl
    proof (intro conjI)
      show "?nl \<noteq> 0" using nl lt by auto
      show "4096 dvd unat b + unat l" using w by (simp add: within_def page_aligned_iff)
      then show "4096 dvd unat (r_base ?r) + unat (r_length ?r) - (unat b + unat l)"
        using ro by (auto simp: region_ok_def page_aligned_iff)
    qed (use w lt in \<open>auto simp: within_def word_le_nat_alt\<close>)
    have sg: "seg ?nb ?nl = {unat b + unat l ..< unat (r_base ?r) + unat (r_length ?r)}"
      using lt by (auto simp: seg_def bl nl)
    have sr_eq: "split_right E k sr b l s = clone_to E ?nb ?nl sr s \<bind> (\<lambda>(s, a). rb_add k a s)"
      using True by (simp add: split_right_def)
    have "ok_or E (clone_to E ?nb ?nl sr s \<bind> (\<lambda>x. (case x of (s, a) \<Rightarrow> rb_add k a s) \<bind> split_left k sr b))
      (\<lambda>s'. \<exists>xs'. split_result s xs H k b l s' xs')"
    proof (rule ok_or_bind[OF clone_to_ok[OF inv k sr room w2 d]], clarify, goal_cases)
      case (1 s2 a xs2)
      have xk: "xs2 k = xs k" "regions s2 sr = ?r" "as_start (spaces s2 j) = as_start (spaces s j)" "as_end (spaces s2 j) = as_end (spaces s j)" for j
        using 1(3) k sr by (auto simp: grown_def)
      have ok2: "space_ok s2 k (xs k)" using 1(1) xk(1) unfolding vm_inv_def vm_wf_def by metis
      have an: "a \<notin> set (xs k)" using 1(1) unfolding vm_inv_def vm_wf_def xk(1)[symmetric] by blast
      obtain t where t: "rb_insert (region_node_value s2) (tree s2 k) a = Some t"
        "rb_inv (region_node_value s2) t (ins_val (region_node_value s2) a (xs k))"
        using rb_inv_insert[OF space_okD(1)[OF ok2] an] by blast
      have ro2: "region_ok (spaces s2 k) k ?r = region_ok (spaces s k) k ?r" by (rule region_ok_start_end) (simp_all add: xk)
      note pc = piece_ok[OF ro w2 d 1(4)]
      have pk: "region_ok (spaces s2 k) k (regions s2 a)" using pc(1) xk(3,4) by (simp add: region_ok_def)
      have RI: "rimg (regions s2 a) = {x \<in> rimg ?r. unat b + unat l \<le> fst x}"
        unfolding pc(4) sg by (auto simp: rimg_def rseg_def seg_def)
      have w3: "within (spaces s2 k) (regions s2 sr) b l" using w xk(2) by (simp add: within_def)
      have "\<exists>s' ys. split_left k sr b (set_tree k t s2) = Some s' \<and> vm_inv s' (xs2(k := ys)) H \<and>
         img s' ys = {x \<in> img s2 (xs2 k). fst x \<notin> seg b l} \<and> (\<forall>x. x \<noteq> sr \<longrightarrow> regions s' x = regions s2 x) \<and>
         (\<forall>j. as_start (spaces s' j) = as_start (spaces s2 j) \<and> as_end (spaces s' j) = as_end (spaces s2 j)) \<and> env s' = env s2"
      proof (rule split_left_ok[where N = "{a}" and a = a])
        show "vm_inv s2 xs2 ({a} \<union> H)" "{a} \<inter> H = {}" using 1(1,2) by simp_all
        show "sr \<in> set (xs2 k)" "direct_ok (regions s2 sr)" using sr d xk by simp_all
        show "set (ins_val (region_node_value s2) a (xs k)) = set (xs2 k) \<union> {a}" using xk(1) by simp
        show "(\<Union>x \<in> {a}. rimg (regions s2 x)) = {x \<in> rimg (regions s2 sr). unat b + unat l \<le> fst x}"
          unfolding xk(2) using RI by simp
        have "rseg (regions s2 a) \<inter> {..< unat b + unat l} = {}" unfolding pc(2) sg by auto
        then show "region_ok (spaces s2 k) k (regions s2 x) \<and> rseg (regions s2 x) \<subseteq> rseg (regions s2 sr) \<and>
            rseg (regions s2 x) \<inter> {..< unat b + unat l} = {}" if "x \<in> {a}" for x
          using that pk pc(3) unfolding xk(2) by blast
      qed (rule k w3 t(2) subset_refl)+
      then obtain s' ys where s': "split_left k sr b (set_tree k t s2) = Some s'" "vm_inv s' (xs2(k := ys)) H"
        "img s' ys = {x \<in> img s2 (xs2 k). fst x \<notin> seg b l}" "\<forall>x. x \<noteq> sr \<longrightarrow> regions s' x = regions s2 x"
        "\<forall>j. as_start (spaces s' j) = as_start (spaces s2 j) \<and> as_end (spaces s' j) = as_end (spaces s2 j)" by blast
      have wf2: "vm_wf s2 xs2 (insert a H)" using 1(1) by (simp add: vm_inv_def)
      have so: "\<forall>j. j \<noteq> k \<longrightarrow> sr \<notin> set (xs2 j)" "sr \<notin> H"
        using vm_wfD(2)[OF wf2, of _ k] vm_wfD(6)[OF wf2, of k] sr xk(1) by auto
      have "\<forall>j. j \<noteq> k \<longrightarrow> img s' (xs2 j) = img s2 (xs2 j)" using so s'(4) by (metis img_cong)
      moreover have "\<forall>x \<in> H. regions s' x = regions s x" using s'(4) so(2) 1(3) unfolding grown_def by metis
      ultimately have "split_result s xs H k b l s' (xs2(k := ys))"
        using s'(2,5) s'(3)[unfolded grown_img[OF 1(3) k]] grown_img[OF 1(3)] k xk(3,4) unfolding split_result_def by simp
      then show ?case using t(1) s'(1) by (auto simp: rb_add_def)
    qed
    then show ?thesis unfolding sr_eq by (simp add: Option.bind_assoc)
  qed
qed

section \<open>The calls of the environment\<close>

text \<open>
  The calls that refill the pool while at most two region structures are taken from it, of which it
  holds \<open>n\<close> at the beginning.
\<close>

definition refills :: "'e vm_env \<Rightarrow> nat \<Rightarrow> 'e \<Rightarrow> 'e \<Rightarrow> bool" where
  "refills E n e e' \<longleftrightarrow> (if 2 \<le> n then e' = e else (pool_calls E)\<^sup>*\<^sup>* e e')"

text \<open>
  What a call of \<^verbatim>\<open>rewrite_common\<close> on a range of region \<open>r\<close> of user space \<open>k\<close> asks of the environment: nothing
  if the region has the attributes already, else \<^verbatim>\<open>arch_ptm_unmap\<close> or \<^verbatim>\<open>arch_ptm_rewrite\<close> on the range.
\<close>

definition rewrite_calls :: "'e vm_env \<Rightarrow> nat \<Rightarrow> space_id \<Rightarrow> vm_region \<Rightarrow> rewrite_type \<Rightarrow> vm_protection \<Rightarrow> vm_cache \<Rightarrow>
    u64 \<Rightarrow> u64 \<Rightarrow> 'e \<Rightarrow> 'e \<Rightarrow> bool" where
  "rewrite_calls E n k r type prot cache b l e e' \<longleftrightarrow>
     (case type of
        REWRITE_TYPE_DELETE \<Rightarrow> \<exists>e1. e_unmap E k b l e = Some e1 \<and> refills E n e1 e'
      | REWRITE_TYPE_PROTECTION \<Rightarrow>
          if r_prot r = prot then e' = e
          else \<exists>e1. refills E n e e1 \<and> e_rewrite E k b l prot (r_cache r) VM_PRIVILEGE_USER False e1 = Some e'
      | REWRITE_TYPE_CACHE \<Rightarrow>
          if r_cache r = cache then e' = e
          else \<exists>e1. refills E n e e1 \<and> e_rewrite E k b l (r_prot r) cache VM_PRIVILEGE_USER False e1 = Some e')"

lemma clone_to_env:
  assumes "clone_to E b l sr s = Some (s', a)"
  shows "if region_cache s = [] then pool_calls E (env s) (env s') else env s' = env s \<and> region_cache s' = tl (region_cache s)"
proof -
  obtain s1 a1 where R: "region_alloc E s = Some (s1, a1)" using assms by (cases "region_alloc E s") (auto simp: clone_to_def)
  have "env s' = env s1 \<and> region_cache s' = region_cache s1"
    using assms unfolding clone_to_def R
    by (cases "r_type (regions s1 sr)") (auto simp: Let_def bind_eq_Some_conv split: if_splits)
  with region_alloc_env[OF R] show ?thesis by (simp split: if_splits)
qed

lemma clone_to_env':
  "clone_to E b l sr s = Some x \<Longrightarrow> (if region_cache s = [] then pool_calls E (env s) (env (fst x))
     else env (fst x) = env s \<and> region_cache (fst x) = tl (region_cache s))"
  using clone_to_env[of E b l sr s "fst x" "snd x"] by simp

lemma split_env:
  assumes "(split_right E k sr b l s \<bind> split_left k sr b) = Some s'"
  shows "(pool_calls E)\<^sup>*\<^sup>* (env s) (env s') \<and> (region_cache s \<noteq> [] \<longrightarrow> env s' = env s)"
proof -
  obtain s1 where R: "split_right E k sr b l s = Some s1" "split_left k sr b s1 = Some s'"
    using assms by (auto simp: bind_eq_Some_conv)
  have "(pool_calls E)\<^sup>*\<^sup>* (env s) (env s1) \<and> (region_cache s \<noteq> [] \<longrightarrow> env s1 = env s)"
    using R(1) unfolding split_right_def
    by (auto simp: bind_eq_Some_conv Let_def dest!: clone_to_env rb_calls_env split: if_splits)
  moreover have "env s' = env s1"
    using R(2) unfolding split_left_def by (auto simp: bind_eq_Some_conv dest!: region_free_env rb_calls_env split: if_splits)
  ultimately show ?thesis by simp
qed

section \<open>Rewriting a range of one region\<close>

fun rewrite_attr :: "rewrite_type \<Rightarrow> vm_protection \<Rightarrow> vm_cache \<Rightarrow> vm_attr \<Rightarrow> vm_attr" where
  "rewrite_attr REWRITE_TYPE_PROTECTION prot cache (ty, pr, c, r) = (ty, prot, c, r)"
| "rewrite_attr REWRITE_TYPE_CACHE prot cache (ty, pr, c, r) = (ty, pr, cache, r)"
| "rewrite_attr REWRITE_TYPE_DELETE prot cache a = a"

text \<open>What a call of \<^verbatim>\<open>rewrite_common\<close> is to make of the mapped addresses \<open>X\<close>.\<close>

definition rewritten :: "rewrite_type \<Rightarrow> vm_protection \<Rightarrow> vm_cache \<Rightarrow> u64 \<Rightarrow> u64 \<Rightarrow> (nat \<times> vm_attr) set \<Rightarrow> (nat \<times> vm_attr) set" where
  "rewritten type prot cache b l X = {x \<in> X. fst x \<notin> seg b l} \<union>
     (if type = REWRITE_TYPE_DELETE then {} else {(p, rewrite_attr type prot cache t) | p t. (p, t) \<in> X \<and> p \<in> seg b l})"

lemma attr_rewrite: "attr_at (rewrite_region type prot cache r) p = rewrite_attr type prot cache (attr_at r p)"
  by (cases type; cases "r_type r") (simp_all add: rewrite_region_def attr_at_def)

lemma rewrite_region_fields [simp]:
  "r_space (rewrite_region type prot cache r) = r_space r" "r_base (rewrite_region type prot cache r) = r_base r"
  "r_length (rewrite_region type prot cache r) = r_length r"
  by (cases type; simp add: rewrite_region_def)+

lemma rimg_rewrite: "rimg (rewrite_region type prot cache r) = {(p, rewrite_attr type prot cache t) | p t. (p, t) \<in> rimg r}"
  unfolding rimg_def rseg_def attr_rewrite rewrite_region_fields by blast

lemma rewritten_done:
  assumes ok: "space_ok s k ys" and sr: "sr \<in> set ys" "seg b l \<subseteq> rseg (regions s sr)"
    and done': "rewrite_done type prot cache (regions s sr)"
  shows "rewritten type prot cache b l (img s ys) = img s ys"
proof -
  have nd: "type \<noteq> REWRITE_TYPE_DELETE" using done' by (auto simp: rewrite_done_def)
  have id: "rewrite_attr type prot cache t = t" if x: "(p, t) \<in> img s ys" "p \<in> seg b l" for p t
  proof -
    obtain y where y: "y \<in> set ys" "(p, t) \<in> rimg (regions s y)" using x(1) by (auto simp: img_def)
    then have "p \<in> rseg (regions s y)" by (auto simp: rimg_def)
    then have "y = sr" using space_okD(4)[OF ok y(1) sr(1)] x(2) sr(2) by blast
    with y(2) done' show ?thesis by (cases type) (auto simp: rimg_def attr_at_def rewrite_done_def)
  qed
  show ?thesis unfolding rewritten_def using nd id by (auto, metis)
qed

lemma rewritten_img:
  assumes ok: "space_ok s k ys" and sr: "sr \<in> set ys" "seg b l \<subseteq> rseg (regions s sr)"
    and q: "rimg q = {x \<in> rimg (regions s sr). fst x \<in> seg b l}" and nd: "type \<noteq> REWRITE_TYPE_DELETE"
  shows "{x \<in> img s ys. fst x \<notin> seg b l} \<union> rimg (rewrite_region type prot cache q) = rewritten type prot cache b l (img s ys)"
proof -
  have "(p, t) \<in> img s ys \<and> p \<in> seg b l \<longleftrightarrow> (p, t) \<in> rimg q" for p t
  proof
    assume a: "(p, t) \<in> img s ys \<and> p \<in> seg b l"
    then obtain y where y: "y \<in> set ys" "(p, t) \<in> rimg (regions s y)" by (auto simp: img_def)
    then have "p \<in> rseg (regions s y)" by (auto simp: rimg_def)
    then have "y = sr" using space_okD(4)[OF ok y(1) sr(1)] a sr(2) by blast
    with y(2) a show "(p, t) \<in> rimg q" unfolding q by simp
  next
    assume "(p, t) \<in> rimg q"
    then show "(p, t) \<in> img s ys \<and> p \<in> seg b l" using sr(1) unfolding q by (auto simp: img_def)
  qed
  then show ?thesis unfolding rewritten_def rimg_rewrite using nd by auto
qed

lemma region_unmap_ok:
  assumes r: "region_ok S k (regions s sr)" and w: "within S (regions s sr) b l"
  shows "ok_or E (region_unmap E sr b l s) (\<lambda>s'. \<exists>e. s' = s\<lparr>env := e\<rparr> \<and> e_unmap E k b l (env s) = Some e)"
proof -
  let ?r = "regions s sr"
  have sp: "r_space ?r = k" using r by (simp add: region_ok_def)
  have call: "ok_or E (env_call (e_unmap E k b l) s) (\<lambda>s'. \<exists>e. s' = s\<lparr>env := e\<rparr> \<and> e_unmap E k b l (env s) = Some e)"
    by (rule ok_or_mono[OF ok_or_conj[OF ok_or_call(3)[of E k b l s] env_call_env]]) auto
  have "unat b + unat l < 2 ^ 64"
    using w region_ok_end(1)[OF r] unat_lt64[of "r_base ?r + r_length ?r"] unfolding within_def by linarith
  then have "b + l \<le> r_base ?r + r_length ?r"
    using w region_ok_end(1)[OF r] by (simp add: add_fits within_def word_le_nat_alt)
  with w show ?thesis
    by (simp add: region_unmap_def within_def page_aligned_def sp call)
qed

text \<open>The end of a rewrite: the changed piece in hand goes back into the space.\<close>

lemma rewrite_finish_ok:
  assumes inv: "vm_inv s xs (insert a H)" and a: "a \<notin> H" and k: "k \<noteq> GLOBAL_SPACE"
    and r: "region_ok (spaces s k) k (regions s a)" "rseg (regions s a) \<inter> cov s (xs k) = {}"
  shows "ok_or E (rewrite_finish E k type prot cache a b l s) (\<lambda>s'. \<exists>xs'. vm_inv s' xs' H \<and>
    img s' (xs' k) = img s (xs k) \<union> rimg (rewrite_region type prot cache (regions s a)) \<and>
    (\<forall>j. j \<noteq> k \<longrightarrow> img s' (xs' j) = img s (xs j)) \<and>
    e_rewrite E k b l (r_prot (rewrite_region type prot cache (regions s a))) (r_cache (rewrite_region type prot cache (regions s a)))
      VM_PRIVILEGE_USER False (env s) = Some (env s'))"
proof -
  let ?s = "upd_region a (rewrite_region type prot cache) s"
  have wf: "vm_wf s xs (insert a H)" and bk: "\<And>x. x \<in> nodes s xs (insert a H) \<Longrightarrow> unat x \<in> cov s (xs GLOBAL_SPACE)"
    using inv by (auto simp: vm_inv_def)
  have out: "a \<notin> set (xs j)" for j using vm_wfD(6)[OF wf, of j] by auto
  have im: "img ?s (xs j) = img s (xs j)" "cov ?s (xs j) = cov s (xs j)" for j
    unfolding cov_img img_upd[OF out[of j]] by simp_all
  have wf1: "vm_wf ?s xs (insert a H)" by (rule vm_wf_upd[OF wf out])
  have ok: "region_ok (spaces ?s k) k (regions ?s a)" "rseg (regions ?s a) \<inter> cov ?s (xs k) = {}"
    using r by (simp_all add: region_ok_def rseg_def im)
  from region_insert_wf[OF wf1 a ok] obtain s' c ys where R: "region_insert k a ?s = Some (s', c)"
    "vm_wf s' (xs(k := ys)) H" "img s' ys = img ?s (xs k) \<union> rimg (regions ?s a)"
    "nodes s' (xs(k := ys)) H = nodes ?s xs (insert a H)" "\<forall>j. j \<noteq> k \<longrightarrow> img s' (xs j) = img ?s (xs j)" "c \<in> set ys"
    "r_prot (regions s' c) = r_prot (regions ?s a)" "r_cache (regions s' c) = r_cache (regions ?s a)" by blast
  have "r_space (regions s' c) = k"
    using space_okD(3)[of s' k ys c] vm_wfD(1)[OF R(2), of k] R(6) by (simp add: region_ok_def)
  then have c: "privilege_of (regions s' c) = VM_PRIVILEGE_USER" "r_space (regions s' c) = k" "env s' = env s"
    using k region_insert_env[OF R(1)] by (simp_all add: privilege_of_def)
  have "cov s (xs GLOBAL_SPACE) = cov s' ((xs(k := ys)) GLOBAL_SPACE)" using R(5) k im by (simp add: cov_img)
  moreover have "nodes ?s xs (insert a H) = nodes s xs (insert a H)" by (simp add: nodes_def)
  ultimately have "vm_inv s' (xs(k := ys)) H" using R(2,4) bk unfolding vm_inv_def by simp
  then have res: "vm_inv (s'\<lparr>env := e\<rparr>) (xs(k := ys)) H \<and>
      img (s'\<lparr>env := e\<rparr>) ((xs(k := ys)) k) = img s (xs k) \<union> rimg (rewrite_region type prot cache (regions s a)) \<and>
      (\<forall>j. j \<noteq> k \<longrightarrow> img (s'\<lparr>env := e\<rparr>) ((xs(k := ys)) j) = img s (xs j))" for e
    using R(3,5) im by simp
  show ?thesis
    unfolding rewrite_finish_def Let_def R(1) Option.bind_lunit prod.case
    by (rule ok_or_mono[OF ok_or_conj[OF ok_or_call(2) env_call_env]]) (use res R(7,8) k in \<open>auto simp: c intro!: exI[of _ "xs(k := ys)"]\<close>)
qed

lemma notin_empty: "a \<notin> {}"
  by simp

lemma rewrite_first_ok:
  assumes inv: "vm_inv s xs {}" and k: "k \<noteq> GLOBAL_SPACE" and sr: "sr \<in> set (xs k)"
    and room: "2 \<le> length (region_cache s) \<or> can_refill s xs"
    and w: "within (spaces s k) (regions s sr) b l" and d: "direct_ok (regions s sr)"
  shows "ok_or E (rewrite_first E k b l type prot cache s) (\<lambda>(s', c). c = b + l \<and> (\<exists>xs'. vm_inv s' xs' {} \<and>
    img s' (xs' k) = rewritten type prot cache b l (img s (xs k)) \<and>
    (\<forall>j. j \<noteq> k \<longrightarrow> j \<noteq> GLOBAL_SPACE \<longrightarrow> img s' (xs' j) = img s (xs j))) \<and>
          rewrite_calls E (length (region_cache s)) k (regions s sr) type prot cache b l (env s) (env s'))"
proof -
  let ?r = "regions s sr"
  have ok: "space_ok s k (xs k)" using inv by (simp add: vm_inv_def vm_wf_def)
  note ro = space_okD(3)[OF ok sr]
  have sub: "seg b l \<subseteq> rseg ?r" using w by (auto simp: rseg_def seg_def within_def word_le_nat_alt)
  have inb: "unat b \<in> rseg ?r" using sub seg_nonempty[of l b] w by (auto simp: within_def)
  obtain n where n: "rb_find k b RB_SEARCH_NEAREST_LTE s = Some n" "search_spec (region_node_value s) b RB_SEARCH_NEAREST_LTE (xs k) n"
    using space_ok_find[OF ok] by blast
  have n': "n = Some sr" by (rule nearest_lte[OF ok n(2) sr inb])
  have gt: "b < r_base ?r + r_length ?r" using inb by (simp add: rseg_iff[OF ro] word_less_nat_alt)
  have sl: "(if (r_base ?r + r_length ?r) - b > l then l else (r_base ?r + r_length ?r) - b) = l"
  proof -
    have "unat ((r_base ?r + r_length ?r) - b) = unat (r_base ?r) + unat (r_length ?r) - unat b"
      using gt region_ok_end(1)[OF ro] by (simp add: unat_sub word_less_nat_alt word_le_nat_alt)
    then have "l \<le> (r_base ?r + r_length ?r) - b" using w unfolding within_def word_le_nat_alt by linarith
    then show ?thesis by auto
  qed
  have room1: "region_cache s \<noteq> [] \<or> can_refill s xs" using room by auto
  define tail where "tail = (\<lambda>(s1, region). split_right E k sr b l s1 \<bind> (\<lambda>s2. split_left k sr b s2 \<bind> (\<lambda>s3.
     (case region of None \<Rightarrow> Some s3 | Some a \<Rightarrow> rewrite_finish E k type prot cache a b l s3) \<bind> (\<lambda>s4. Some (s4, b + l)))))"
  have run: "rewrite_first E k b l type prot cache s =
    (if rewrite_done type prot cache ?r then Some (s, b + l)
     else (if type = REWRITE_TYPE_DELETE then region_unmap E sr b l s \<bind> (\<lambda>s. Some (s, None))
           else clone_to E b l sr s \<bind> (\<lambda>(s, a). Some (s, Some a))) \<bind> tail)"
    using gt by (simp add: rewrite_first_def n(1) n' Let_def sl tail_def split_beta cong: if_cong)
  show ?thesis
  proof (cases "rewrite_done type prot cache ?r")
    case True
    then have "rewrite_calls E n' k ?r type prot cache b l e e" for n' e
      by (cases type) (auto simp: rewrite_calls_def rewrite_done_def)
    with True show ?thesis using inv rewritten_done[OF ok sr sub True] unfolding run by auto
  next
    case nd: False
    show ?thesis
    proof (cases "type = REWRITE_TYPE_DELETE")
      case True
      have tl: "ok_or E (tail (s1, None)) (\<lambda>(s', c). c = b + l \<and> (\<exists>xs'. vm_inv s' xs' {} \<and>
          img s' (xs' k) = rewritten type prot cache b l (img s (xs k)) \<and>
          (\<forall>j. j \<noteq> k \<longrightarrow> j \<noteq> GLOBAL_SPACE \<longrightarrow> img s' (xs' j) = img s (xs j))) \<and>
          rewrite_calls E (length (region_cache s)) k (regions s sr) type prot cache b l (env s) (env s'))" if s1: "s1 = s\<lparr>env := e\<rparr>" "e_unmap E k b l (env s) = Some e" for s1 e
      proof -
        have "ok_or E (split_right E k sr b l s1 \<bind> split_left k sr b) (\<lambda>s'. \<exists>xs'. split_result s1 xs {} k b l s' xs')"
          by (rule split_ok[where xs = xs and H = "{}"]) (use inv k sr room1 w d in \<open>auto simp: s1\<close>)
        then have sp: "ok_or E (split_right E k sr b l s1 \<bind> split_left k sr b) (\<lambda>s'. (\<exists>xs'. split_result s1 xs {} k b l s' xs') \<and>
            (pool_calls E)\<^sup>*\<^sup>* (env s1) (env s') \<and> (region_cache s1 \<noteq> [] \<longrightarrow> env s' = env s1))"
          by (rule ok_or_conj) (rule split_env)
        from sp have "ok_or E ((split_right E k sr b l s1 \<bind> split_left k sr b) \<bind> (\<lambda>s4. Some (s4, b + l)))
          (\<lambda>(s', c). c = b + l \<and> (\<exists>xs'. vm_inv s' xs' {} \<and>
          img s' (xs' k) = rewritten type prot cache b l (img s (xs k)) \<and>
          (\<forall>j. j \<noteq> k \<longrightarrow> j \<noteq> GLOBAL_SPACE \<longrightarrow> img s' (xs' j) = img s (xs j))) \<and>
          rewrite_calls E (length (region_cache s)) k (regions s sr) type prot cache b l (env s) (env s'))"
          by (rule ok_or_bind) (use True in \<open>auto simp: s1(1) split_result_def rewritten_def rewrite_calls_def s1(2) refills_def split: if_splits\<close>)
        then show ?thesis by (simp add: tail_def Option.bind_assoc)
      qed
      have "ok_or E (region_unmap E sr b l s \<bind> (\<lambda>s. Some (s, None))) (\<lambda>x. \<exists>e. x = (s\<lparr>env := e\<rparr>, None) \<and> e_unmap E k b l (env s) = Some e)"
        by (rule ok_or_bind[OF region_unmap_ok[OF ro w]]) auto
      from ok_or_bind[OF this, of tail] tl show ?thesis unfolding run using nd True by auto
    next
      case False
      have "ok_or E (clone_to E b l sr s \<bind> (\<lambda>(s, a). Some (s, Some a))) (\<lambda>(s1, x). \<exists>a xs1. x = Some a \<and>
          vm_inv s1 xs1 {a} \<and> grown s xs {} s1 xs1 \<and> piece_of ?r b l (regions s1 a) \<and> (region_cache s1 \<noteq> [] \<or> can_refill s1 xs1) \<and>
          (if region_cache s = [] then pool_calls E (env s) (env s1) else env s1 = env s \<and> region_cache s1 = tl (region_cache s)))"
        by (rule ok_or_bind[OF ok_or_conj[OF clone_to_ok[OF inv k sr room1 w d] clone_to_env'[of E b l sr s]]], assumption)
          (use room in \<open>(clarsimp split: if_splits; blast)\<close>)
      then show ?thesis
        unfolding run if_not_P[OF nd] if_not_P[OF False]
      proof (rule ok_or_bind, clarify, goal_cases)
        case (1 s1 x a xs1)
        have xk: "xs1 k = xs k" "regions s1 sr = ?r" "as_start (spaces s1 k) = as_start (spaces s k)" "as_end (spaces s1 k) = as_end (spaces s k)"
          using 1(3) k sr by (auto simp: grown_def)
        note im1 = grown_img[OF 1(3)] and pc = piece_ok[OF ro w d 1(4)]
        have "ok_or E (split_right E k sr b l s1 \<bind> split_left k sr b) (\<lambda>s'. \<exists>xs'. split_result s1 xs1 {a} k b l s' xs')"
          by (rule split_ok[OF 1(2) k _ 1(5)]) (use sr xk w d in \<open>simp_all add: within_def\<close>)
        then have sp: "ok_or E (split_right E k sr b l s1 \<bind> split_left k sr b) (\<lambda>s'. (\<exists>xs'. split_result s1 xs1 {a} k b l s' xs') \<and>
            (pool_calls E)\<^sup>*\<^sup>* (env s1) (env s') \<and> (region_cache s1 \<noteq> [] \<longrightarrow> env s' = env s1))"
          by (rule ok_or_conj) (rule split_env)
        have rf: "refills E (length (region_cache s)) (env s) (env s3)"
          if "(pool_calls E)\<^sup>*\<^sup>* (env s1) (env s3)" "region_cache s1 \<noteq> [] \<longrightarrow> env s3 = env s1" for s3
          using that 1(6) by (cases "region_cache s") (auto simp: refills_def Suc_le_eq split: if_splits)
        have pr: "r_prot (regions s1 a) = r_prot ?r" "r_cache (regions s1 a) = r_cache ?r" using 1(4) by (simp_all add: piece_of_def)
        from sp have "ok_or E ((split_right E k sr b l s1 \<bind> split_left k sr b) \<bind> (\<lambda>s3. rewrite_finish E k type prot cache a b l s3 \<bind> (\<lambda>s4. Some (s4, b + l))))
          (\<lambda>(s', c). c = b + l \<and> (\<exists>xs'. vm_inv s' xs' {} \<and>
          img s' (xs' k) = rewritten type prot cache b l (img s (xs k)) \<and>
          (\<forall>j. j \<noteq> k \<longrightarrow> j \<noteq> GLOBAL_SPACE \<longrightarrow> img s' (xs' j) = img s (xs j))) \<and>
          rewrite_calls E (length (region_cache s)) k (regions s sr) type prot cache b l (env s) (env s'))"
        proof (rule ok_or_bind, clarify, goal_cases)
          case (1 s3 xs3)
          have rf3: "refills E (length (region_cache s)) (env s) (env s3)" by (rule rf) (use 1 in blast)+
          from 1 have S: "vm_inv s3 xs3 (insert a {})" "img s3 (xs3 k) = {x \<in> img s (xs k). fst x \<notin> seg b l}"
            "\<forall>j. j \<noteq> k \<longrightarrow> j \<noteq> GLOBAL_SPACE \<longrightarrow> img s3 (xs3 j) = img s (xs j)" "regions s3 a = regions s1 a"
            "as_start (spaces s3 k) = as_start (spaces s k)" "as_end (spaces s3 k) = as_end (spaces s k)"
            unfolding split_result_def im1[OF k] xk(3,4) using im1 by auto
          have ra: "region_ok (spaces s3 k) k (regions s3 a)" using pc(1) S(4,5,6) by (simp add: region_ok_def)
          have "rseg (regions s3 a) \<inter> cov s3 (xs3 k) = {}" unfolding S(4) pc(2) cov_img S(2) by auto
          from rewrite_finish_ok[OF S(1) notin_empty k ra this, of E type prot cache b l] show ?case
          proof (rule ok_or_bind)
            fix s4 assume "\<exists>xs'. vm_inv s4 xs' {} \<and>
              img s4 (xs' k) = img s3 (xs3 k) \<union> rimg (rewrite_region type prot cache (regions s3 a)) \<and> (\<forall>j. j \<noteq> k \<longrightarrow> img s4 (xs' j) = img s3 (xs3 j)) \<and>
              e_rewrite E k b l (r_prot (rewrite_region type prot cache (regions s3 a))) (r_cache (rewrite_region type prot cache (regions s3 a)))
                VM_PRIVILEGE_USER False (env s3) = Some (env s4)"
            moreover from this rf3 False nd have "rewrite_calls E (length (region_cache s)) k ?r type prot cache b l (env s) (env s4)"
              by (cases type) (auto simp: rewrite_calls_def rewrite_region_def rewrite_done_def S(4) pr)
            ultimately show "ok_or E (Some (s4, b + l)) (\<lambda>(s', c). c = b + l \<and> (\<exists>xs'. vm_inv s' xs' {} \<and>
              img s' (xs' k) = rewritten type prot cache b l (img s (xs k)) \<and>
              (\<forall>j. j \<noteq> k \<longrightarrow> j \<noteq> GLOBAL_SPACE \<longrightarrow> img s' (xs' j) = img s (xs j))) \<and>
          rewrite_calls E (length (region_cache s)) k (regions s sr) type prot cache b l (env s) (env s'))"
              using S(2,3) rewritten_img[OF ok sr sub pc(4) False, of prot cache] unfolding S(4) by auto
          qed
        qed
        then show ?case by (simp add: tail_def Option.bind_assoc)
      qed
    qed
  qed
qed

lemma rewrite_common_ok:
  assumes inv: "vm_inv s xs {}" and k: "k \<noteq> GLOBAL_SPACE" and sr: "sr \<in> set (xs k)"
    and room: "2 \<le> length (region_cache s) \<or> can_refill s xs"
    and w: "within (spaces s k) (regions s sr) b l" and d: "direct_ok (regions s sr)"
  shows "ok_or E (rewrite_common junk E k b l type prot cache s) (\<lambda>s'. \<exists>xs'. vm_inv s' xs' {} \<and>
    img s' (xs' k) = rewritten type prot cache b l (img s (xs k)) \<and>
    (\<forall>j. j \<noteq> k \<longrightarrow> j \<noteq> GLOBAL_SPACE \<longrightarrow> img s' (xs' j) = img s (xs j)) \<and>
    rewrite_calls E (length (region_cache s)) k (regions s sr) type prot cache b l (env s) (env s'))"
proof -
  have "space_ok s k (xs k)" using inv by (simp add: vm_inv_def vm_wf_def)
  note ro = space_okD(3)[OF this sr]
  have "unat b < unat b + unat l" using w unat_gt_0[of l] by (simp add: within_def)
  then have sb: "SEGMENT_IN_BOUNDS b l (as_start (spaces s k)) (as_end (spaces s k))"
    using w ro unfolding SEGMENT_IN_BOUNDS_iff within_def region_ok_def word_le_nat_alt word_less_nat_alt by linarith
  have run: "rewrite_common junk E k b l type prot cache s =
      rewrite_first E k b l type prot cache s \<bind> (\<lambda>(s, c). rewrite_loop junk E k b l type prot cache c s)"
    using w sb by (simp add: rewrite_common_def within_def page_aligned_def)
  show ?thesis
    unfolding run
    by (rule ok_or_bind[OF rewrite_first_ok[OF inv k sr room w d]]) (auto simp: rewrite_loop.simps)
qed

end
