(* ===== verification/VmSpec.thy ===== *)
theory VmSpec
  imports VmRewrite
begin

text \<open>
  The properties of the virtual memory manager. An address space stands for the set of its mapped
  addresses with their attributes (\<open>img\<close>); \<open>vm_inv\<close> is the invariant. Every theorem holds over an
  arbitrary environment: an operation that cannot complete because a call of the environment fails is
  reported as such by \<open>ok_or\<close>.
\<close>

section \<open>Concrete states\<close>

text \<open>No regions at all, as after the page table manager has been initialised.\<close>

definition vm_boot :: "(u64 \<times> vm_call list) vm" where
  "vm_boot = \<lparr>env = (0x200000, []), regions = (\<lambda>_. zero_region), region_cache = [],
     spaces = (\<lambda>k. \<lparr>as_regions = RB_TREE_INIT (\<lambda>_. undefined), as_start = (if k = 0 then 0xFFFF800000000000 else 0x1000),
        as_end = (if k = 0 then 0xFFFFFFFFFFFFEFFF else 0x7FFFFFFFEFFF)\<rparr>)\<rparr>"

lemma vm_boot_inv: "vm_inv vm_boot (\<lambda>_. []) {}"
  by (simp add: vm_inv_def vm_wf_def nodes_def space_ok_def vm_boot_def rb_inv_init page_aligned_def PAGE_SIZE_def)

lemma vm_boot_refill: "can_refill vm_boot (\<lambda>_. [])"
  unfolding can_refill_def hole_at_def
  by (intro exI[of _ "unat (0xFFFF800000000000 :: u64)"]) (simp add: cov_def vm_boot_def GLOBAL_SPACE_def)

text \<open>
  A user space with one anonymous, dynamically backed region of four pages at \<^verbatim>\<open>0x10000\<close>; its structure is the second one in a
  page of regions that the global space maps.
\<close>

definition vm_demo :: "(u64 \<times> vm_call list) vm" where
  "vm_demo = \<lparr>env = (0x200000, []),
     regions = (\<lambda>a. if a = 0xFFFF800000000000
        then zero_region\<lparr>r_base := 0xFFFF800000000000, r_length := 0x1000, r_prot := VM_PROT_RW\<rparr>
        else zero_region\<lparr>r_space := 1, r_base := 0x10000, r_length := 0x4000, r_prot := VM_PROT_RW,
          r_dynamic := True\<rparr>),
     region_cache = [],
     spaces = (\<lambda>k. \<lparr>as_regions = \<lparr>rb_heap = (\<lambda>_. \<lparr>n_red = False, n_parent = None, n_left = None, n_right = None\<rparr>),
          rb_root = (if k = 0 then Some 0xFFFF800000000000 else if k = 1 then Some 0xFFFF800000000060 else None),
          rb_count = (if k \<le> 1 then 1 else 0)\<rparr>,
        as_start = (if k = 0 then 0xFFFF800000000000 else 0x1000),
        as_end = (if k = 0 then 0xFFFFFFFFFFFFEFFF else 0x7FFFFFFFEFFF)\<rparr>)\<rparr>"

definition vm_demo_regions :: "space_id \<Rightarrow> addr list" where
  "vm_demo_regions k = (if k = 0 then [0xFFFF800000000000] else if k = 1 then [0xFFFF800000000060] else [])"

lemma bhgt_single: "Ex (bhgt (Node False Leaf a Leaf))"
  by (rule exI[of _ "Suc 0"]) simp

lemma vm_demo_space: "space_ok vm_demo k (vm_demo_regions k)"
proof -
  have "rb_inv v (tree vm_demo k) (vm_demo_regions k)" for v
    unfolding rb_inv_def
    by (intro exI[of _ "if k = 0 then Node False Leaf 0xFFFF800000000000 Leaf else if k = 1 then Node False Leaf 0xFFFF800000000060 Leaf else Leaf"])
      (auto simp: rep_def rbt_ok_def vm_demo_def vm_demo_regions_def bhgt_single)
  then show ?thesis
    by (simp add: space_ok_def region_ok_def page_aligned_def PAGE_SIZE_def zero_region_def vm_demo_regions_def vm_demo_def word_le_nat_alt)
qed

lemma vm_demo_inv: "vm_inv vm_demo vm_demo_regions {}"
proof -
  have "unat a \<in> cov vm_demo (vm_demo_regions GLOBAL_SPACE)" if "a \<in> nodes vm_demo vm_demo_regions {}" for a
  proof -
    have "a = 0xFFFF800000000000 \<or> a = 0xFFFF800000000060"
      using that by (auto simp: nodes_def vm_demo_regions_def vm_demo_def split: if_splits)
    then show ?thesis by (auto simp: cov_def vm_demo_regions_def GLOBAL_SPACE_def vm_demo_def rseg_def seg_def)
  qed
  then show ?thesis
    using vm_demo_space by (simp add: vm_inv_def vm_wf_def) (auto simp: vm_demo_regions_def vm_demo_def split: if_splits)
qed

lemma vm_demo_pool: "vm_inv (vm_demo\<lparr>region_cache := [0xFFFF8000000000C0]\<rparr>) vm_demo_regions {}"
proof -
  let ?s = "vm_demo\<lparr>region_cache := [0xFFFF8000000000C0]\<rparr>"
  have "space_ok ?s k (vm_demo_regions k)" for k by (rule space_ok_cong[OF vm_demo_space]) auto
  moreover have "unat a \<in> cov ?s (vm_demo_regions GLOBAL_SPACE)" if "a \<in> nodes ?s vm_demo_regions {}" for a
  proof -
    have "a = 0xFFFF800000000000 \<or> a = 0xFFFF800000000060 \<or> a = 0xFFFF8000000000C0"
      using that by (auto simp: nodes_def vm_demo_regions_def split: if_splits)
    then show ?thesis by (auto simp: cov_def vm_demo_regions_def GLOBAL_SPACE_def vm_demo_def rseg_def seg_def)
  qed
  ultimately show ?thesis by (simp add: vm_inv_def vm_wf_def) (auto simp: vm_demo_regions_def split: if_splits)
qed

lemma vm_demo_refill: "can_refill vm_demo vm_demo_regions"
  unfolding can_refill_def hole_at_def
  by (intro exI[of _ "unat (0xFFFF800000001000 :: u64)"])
    (simp add: cov_def vm_demo_def GLOBAL_SPACE_def vm_demo_regions_def rseg_def seg_def)

section \<open>Properties\<close>

text \<open>
  \<^verbatim>\<open>find_hole\<close> returns on every well formed address space. If it reports a hole, the range
  lies in the bounds of the space and no region maps any address of it; if it reports none, there is
  no free range of that length anywhere in the bounds. A requested address that is free is granted.
\<close>

theorem find_hole_correct:
  assumes "space_ok s k ys" and "len \<noteq> 0"
  shows "\<exists>r. find_hole k address len s = Some r \<and>
    (case r of
       Some h \<Rightarrow> SEGMENT_IN_BOUNDS h len (as_start (spaces s k)) (as_end (spaces s k)) \<and> hole_at s k ys (unat len) (unat h)
     | None \<Rightarrow> (\<forall>h. \<not> hole_at s k ys (unat len) h)) \<and>
    (SEGMENT_IN_BOUNDS address len (as_start (spaces s k)) (as_end (spaces s k)) \<longrightarrow> hole_at s k ys (unat len) (unat address) \<longrightarrow>
       r = Some address)"
  using find_hole_ok[OF assms, of address] unfolding hole_result_def by blast

theorem find_hole_correct_witness:
  "\<exists>h. find_hole 1 0x12000 0x2000 vm_demo = Some (Some h) \<and> hole_at vm_demo 1 [0xFFFF800000000060] 0x2000 (unat h)"
proof -
  have ok: "space_ok vm_demo 1 [0xFFFF800000000060]" using vm_demo_space[of 1] by (simp add: vm_demo_regions_def)
  have "hole_at vm_demo 1 [0xFFFF800000000060] 0x2000 0x1000"
    by (auto simp: hole_at_def cov_def vm_demo_def rseg_def seg_def)
  with find_hole_correct[OF ok, of "0x2000" "0x12000"] show ?thesis by (auto split: option.splits)
qed

text \<open>
  (C13) \<^verbatim>\<open>vm_map_anon\<close> and \<^verbatim>\<open>vm_map_direct\<close> (\<^verbatim>\<open>map_common\<close>) on a user address space, and on the global one
  while the pool of region structures is not empty (a refill maps one more page there): the
  invariant holds afterwards, no other user address space changes, and the call fails exactly when the
  length is not a positive number of pages, a fixed address is misaligned or taken, or no hole is
  large enough; then nothing is mapped. On success the returned range was free, is page aligned, is
  the hint when the hint was free, and exactly this range is mapped in addition, with the
  attributes asked for. Unless the range is backed on demand, the page table manager is called for it before
  the return: with a new page for each page of anonymous memory, once for direct memory, after
  the calls of a refill if the pool was empty, and not otherwise.
\<close>

theorem vm_map_correct:
  assumes "vm_inv s xs {}" and "region_cache s \<noteq> [] \<or> k \<noteq> GLOBAL_SPACE \<and> can_refill s xs"
    and "type = VM_REGION_TYPE_DIRECT \<longrightarrow> page_aligned phys"
  shows "ok_or E (map_common E k hint len prot cache flags type phys s)
    (\<lambda>(s', r). (\<exists>xs'. vm_inv s' xs' {} \<and>
       (\<forall>j. j \<noteq> k \<longrightarrow> j \<noteq> GLOBAL_SPACE \<or> region_cache s \<noteq> [] \<longrightarrow> img s' (xs' j) = img s (xs j)) \<and>
       (case r of
          None \<Rightarrow> img s' (xs' k) = img s (xs k) \<and> \<not> map_possible s k (xs k) hint len flags
        | Some address \<Rightarrow> map_possible s k (xs k) hint len flags \<and> page_aligned address \<and>
            hole_at s k (xs k) (unat len) (unat address) \<and>
            (page_aligned hint \<and> hole_at s k (xs k) (unat len) (unat hint) \<longrightarrow> address = hint) \<and>
            img s' (xs' k) = img s (xs k) \<union> mapping address len prot cache flags type phys)) \<and>
       (case r of
          None \<Rightarrow> env s' = env s \<or> region_cache s = [] \<and> pool_calls E (env s) (env s')
        | Some address \<Rightarrow> \<exists>e. (if region_cache s = [] then pool_calls E (env s) e else e = env s) \<and>
            back_range E k address len prot cache flags type phys e = Some (env s')))"
  using ok_or_conj[OF map_common_ok[OF assms] map_common_env[where r = "snd (_ :: _ \<times> _)"]]
  by (rule ok_or_mono) (auto simp: split_beta)

text \<open>The demonstration state with one free region structure: a page of device memory in the global space.\<close>

theorem vm_map_correct_witness:
  "\<exists>s' xs'. vm_map_direct recording 0 0xFFFF900000000000 0x1000 VM_PROT_RW VM_CACHE_NONE 0xFEE00000 0
       (vm_demo\<lparr>region_cache := [0xFFFF8000000000C0]\<rparr>) = Some (s', Some 0xFFFF900000000000) \<and> vm_inv s' xs' {} \<and>
     img s' (xs' 0) = img vm_demo (vm_demo_regions 0) \<union>
       mapping 0xFFFF900000000000 0x1000 VM_PROT_RW VM_CACHE_NONE 0 VM_REGION_TYPE_DIRECT 0xFEE00000 \<and>
     snd (env s') = [CallMap 0 0xFFFF900000000000 0xFEE00000 0x1000 VM_PROT_RW VM_CACHE_NONE VM_PRIVILEGE_KERNEL True]"
proof -
  let ?s = "vm_demo\<lparr>region_cache := [0xFFFF8000000000C0]\<rparr>"
  have im: "img ?s ys = img vm_demo ys" "cov ?s ys = cov vm_demo ys" for ys by (simp_all add: img_def cov_def)
  have h: "hole_at ?s 0 (vm_demo_regions 0) 0x1000 0xFFFF900000000000"
    by (simp add: hole_at_def im) (simp add: cov_def vm_demo_def vm_demo_regions_def rseg_def seg_def zero_region_def)
  have p: "page_aligned 0xFFFF900000000000" "page_aligned 0x1000" "page_aligned 0xFEE00000"
    by (simp_all add: page_aligned_def PAGE_SIZE_def)
  have "map_possible ?s 0 (vm_demo_regions 0) 0xFFFF900000000000 0x1000 0"
    unfolding map_possible_def using h p by auto
  with vm_map_correct[OF vm_demo_pool, of 0 VM_REGION_TYPE_DIRECT "0xFEE00000" recording "0xFFFF900000000000" "0x1000" VM_PROT_RW VM_CACHE_NONE 0]
    env_total_recording h p
  obtain s' xs' where "vm_map_direct recording 0 0xFFFF900000000000 0x1000 VM_PROT_RW VM_CACHE_NONE 0xFEE00000 0 ?s =
      Some (s', Some 0xFFFF900000000000)" "vm_inv s' xs' {}"
    "img s' (xs' 0) = img vm_demo (vm_demo_regions 0) \<union>
       mapping 0xFFFF900000000000 0x1000 VM_PROT_RW VM_CACHE_NONE 0 VM_REGION_TYPE_DIRECT 0xFEE00000"
    and e: "back_range recording 0 0xFFFF900000000000 0x1000 VM_PROT_RW VM_CACHE_NONE 0 VM_REGION_TYPE_DIRECT 0xFEE00000 (env vm_demo) = Some (env s')"
    by (auto simp: ok_or_def vm_map_direct_def im split: option.splits)
  moreover have "snd (env s') = [CallMap 0 0xFFFF900000000000 0xFEE00000 0x1000 VM_PROT_RW VM_CACHE_NONE VM_PRIVILEGE_KERNEL True]"
    using e by (simp add: back_range_def recording_def vm_demo_def GLOBAL_SPACE_def) (metis snd_conv)
  ultimately show ?thesis by blast
qed



text \<open>
  \<^verbatim>\<open>memory_exists\<close> on a range that does not wrap around the end of the address space says
  whether every address of it is mapped, provided the range ends before the last address of the
  space; it always returns.
\<close>

theorem memory_exists_correct:
  assumes "space_ok s k ys" and "unat address + unat len < 2 ^ 64"
  shows "\<exists>b. memory_exists k address len s = Some b \<and>
    (b \<longleftrightarrow> {unat address ..< unat address + unat len} \<subseteq> cov s ys \<and>
      as_start (spaces s k) \<le> address \<and> unat address + unat len < unat (as_end (spaces s k)))"
proof -
  let ?S = "spaces s k"
  have bounds: "ADDRESS_IN_BOUNDS address (as_start ?S) (as_end ?S) \<and> ADDRESS_IN_BOUNDS (address + len) (as_start ?S) (as_end ?S) \<longleftrightarrow>
      as_start ?S \<le> address \<and> unat address + unat len < unat (as_end ?S)"
    using add_fits[OF assms(2)] by (auto simp: ADDRESS_IN_BOUNDS_def word_le_nat_alt word_less_nat_alt)
  show ?thesis
    using bounds memory_exists_loop_ok[OF assms(1), of address "address + len"] add_fits[OF assms(2)]
    unfolding memory_exists_def by auto
qed

theorem memory_exists_correct_witness:
  "memory_exists 1 0x11000 0x2000 vm_demo = Some True"
proof -
  have ok: "space_ok vm_demo 1 [0xFFFF800000000060]" using vm_demo_space[of 1] by (simp add: vm_demo_regions_def)
  have "{unat (0x11000 :: u64) ..< unat (0x11000 :: u64) + unat (0x2000 :: u64)} \<subseteq> cov vm_demo [0xFFFF800000000060]"
    by (auto simp: cov_def vm_demo_def rseg_def seg_def)
  with memory_exists_correct[OF ok, of "0x11000" "0x2000"] show ?thesis
    by (auto simp: vm_demo_def word_le_nat_alt)
qed

text \<open>
  A range that wraps around defeats \<^verbatim>\<open>memory_exists\<close>: \<^verbatim>\<open>address + length\<close> is below \<^verbatim>\<open>address\<close>, the
  loop does not run, and the range counts as mapped although the space has no region at all. \<^verbatim>\<open>vm_copy_to\<close>
  and \<^verbatim>\<open>vm_copy_from\<close> rely on this check.
\<close>

theorem memory_exists_wraps:
  "memory_exists 1 0x10000 (- 0x8000) vm_boot = Some True"
  by (simp add: memory_exists_def memory_exists_loop.simps ADDRESS_IN_BOUNDS_def vm_boot_def)

text \<open>
  (C15) A page fault on an address that a dynamically backed region of the faulting process maps is
  resolved: \<^verbatim>\<open>vm_fault\<close> accepts it and marks the thread, and the deferred \<^verbatim>\<open>vm_fault_soft\<close> maps the page and
  clears the mark. A fault of any other kind, in the bounds of the global address space, or of a thread
  without process is refused and changes nothing.
\<close>

theorem vm_fault_correct:
  assumes "space_ok s k ys" and "a \<in> set ys" and "unat address \<in> rseg (regions s a)" and "r_dynamic (regions s a)"
    and "vt_proc t = Some k" and "\<not> vt_in_flight t"
    and "\<not> ADDRESS_IN_BOUNDS address (as_start (spaces s GLOBAL_SPACE)) (as_end (spaces s GLOBAL_SPACE))"
  shows "\<exists>t'. vm_fault address VM_FAULT_NOT_PRESENT t s = Some (t', True, True) \<and>
    ok_or E (vm_fault_soft E t' s) (\<lambda>(s', t''). (\<exists>e. s' = s\<lparr>env := e\<rparr>) \<and> \<not> vt_in_flight t'' \<and>
      (region_map E a (MATH_FLOOR address PAGE_SIZE) PAGE_SIZE s = Some s'))"
proof -
  obtain r where r: "addr_to_region k address s = Some r"
    "case r of None \<Rightarrow> unat address \<notin> cov s ys | Some b \<Rightarrow> b \<in> set ys \<and> unat address \<in> rseg (regions s b)"
    using addr_to_region_ok[OF assms(1)] by blast
  have "r = Some a"
    using r(2) assms(2,3) space_okD(4)[OF assms(1,2)] by (cases r) (auto simp: cov_def)
  moreover have "page_aligned (MATH_FLOOR address PAGE_SIZE)" "page_aligned PAGE_SIZE"
    using aligned_up[of "address - PAGE_SIZE"]
    by (simp_all add: MATH_FLOOR_def page_aligned_iff PAGE_SIZE_def unat_word_ariths dvd_mod unat_div)
  ultimately show ?thesis
    using region_map_ok[of "MATH_FLOOR address PAGE_SIZE" PAGE_SIZE E a s] r(1) assms
    by (auto simp: vm_fault_def vm_fault_soft_def address_space_fix_page_def ok_or_def split: option.splits)
qed

theorem vm_fault_correct_witness:
  "\<exists>t' s' t''. vm_fault 0x11234 VM_FAULT_NOT_PRESENT \<lparr>vt_proc = Some 1, vt_in_flight = False, vt_address = 0\<rparr> vm_demo = Some (t', True, True) \<and>
     vm_fault_soft recording t' vm_demo = Some (s', t'') \<and> \<not> vt_in_flight t''"
proof -
  have ok: "space_ok vm_demo 1 [0xFFFF800000000060]" using vm_demo_space[of 1] by (simp add: vm_demo_regions_def)
  have "unat (0x11234 :: u64) \<in> rseg (regions vm_demo 0xFFFF800000000060)" "r_dynamic (regions vm_demo 0xFFFF800000000060)"
    "\<not> ADDRESS_IN_BOUNDS 0x11234 (as_start (spaces vm_demo GLOBAL_SPACE)) (as_end (spaces vm_demo GLOBAL_SPACE))"
    by (simp_all add: vm_demo_def rseg_def seg_def ADDRESS_IN_BOUNDS_def GLOBAL_SPACE_def)
  from vm_fault_correct[OF ok _ this(1,2) _ _ this(3), where E = recording and t = "\<lparr>vt_proc = Some 1, vt_in_flight = False, vt_address = 0\<rparr>"]
  show ?thesis using env_total_recording by (auto simp: ok_or_def split: option.splits)
qed


end
