(* ===== verification/Slab.thy ===== *)
theory Slab
  imports PmmSpec
begin

text \<open>
  The object allocator of \<^verbatim>\<open>memory/slab.c\<close>: slabs of equally sized objects cut from blocks of the
  physical memory manager, with a layer of magazines per processor on top.

  Objects, slabs and caches are named by their address. The free objects of a slab form a list that runs
  through the objects themselves: \<open>obj_next\<close> is the first word of each object. A magazine is an
  array of \<open>MAGAZINE_SIZE\<close> rounds and a count. The lists of a cache are sequences of addresses under
  the operations of theory \<open>LibList\<close>. The direct map adds \<open>hhdm\<close> to a physical address. The locks of a
  cache are held over each operation and are not part of the state.
\<close>

section \<open>Data\<close>

record slab =
  sl_cache :: nat
  sl_block :: nat
  sl_free_count :: nat
  sl_freelist :: "nat option"

record slab_magazine =
  round_count :: nat
  rounds :: "nat option list"

record slab_cache =
  object_size :: nat
  block_order :: u8
  slabs_full :: "nat list"
  slabs_partial :: "nat list"
  magazines_full :: "nat list"
  magazines_empty :: "nat list"
  cpu_cache_enabled :: bool
  cpu_primary :: "nat \<Rightarrow> nat"
  cpu_secondary :: "nat \<Rightarrow> nat"

record slab_state =
  sl_pmm :: pmm
  hhdm :: nat
  cpu_count :: nat
  slab_at :: "nat \<Rightarrow> slab"
  obj_next :: "nat \<Rightarrow> nat option"
  magazine_at :: "nat \<Rightarrow> slab_magazine"
  cache_at :: "nat \<Rightarrow> slab_cache"
  slab_caches :: "nat list"

definition MAGAZINE_SIZE :: nat where "MAGAZINE_SIZE = 32"
definition SIZEOF_SLAB :: nat where "SIZEOF_SLAB = 48"

definition MAGAZINE_COUNT_EXTRA :: "slab_state \<Rightarrow> nat" where
  "MAGAZINE_COUNT_EXTRA s = cpu_count s * 2"

text \<open>The addresses of the two static caches \<^verbatim>\<open>g_alloc_cache\<close> and \<^verbatim>\<open>g_alloc_magazine\<close>.\<close>

definition g_alloc_cache :: nat where "g_alloc_cache = 8"
definition g_alloc_magazine :: nat where "g_alloc_magazine = 16"

definition upd_slab :: "nat \<Rightarrow> (slab \<Rightarrow> slab) \<Rightarrow> slab_state \<Rightarrow> slab_state" where
  "upd_slab a f s = s\<lparr>slab_at := (slab_at s)(a := f (slab_at s a))\<rparr>"

definition upd_cache :: "nat \<Rightarrow> (slab_cache \<Rightarrow> slab_cache) \<Rightarrow> slab_state \<Rightarrow> slab_state" where
  "upd_cache c f s = s\<lparr>cache_at := (cache_at s)(c := f (cache_at s c))\<rparr>"

definition upd_magazine :: "nat \<Rightarrow> (slab_magazine \<Rightarrow> slab_magazine) \<Rightarrow> slab_state \<Rightarrow> slab_state" where
  "upd_magazine m f s = s\<lparr>magazine_at := (magazine_at s)(m := f (magazine_at s m))\<rparr>"

definition set_next :: "nat \<Rightarrow> nat option \<Rightarrow> slab_state \<Rightarrow> slab_state" where
  "set_next obj p s = s\<lparr>obj_next := (obj_next s)(obj := p)\<rparr>"

section \<open>Slabs\<close>

definition block_bytes :: "u8 \<Rightarrow> nat" where
  "block_bytes order = PMM_ORDER_TO_PAGECOUNT (unat order) * ARCH_PAGE_GRANULARITY"

definition slab_objects :: "slab_cache \<Rightarrow> nat" where
  "slab_objects c = (block_bytes (block_order c) - SIZEOF_SLAB) div object_size c"

definition object_addr :: "slab_cache \<Rightarrow> nat \<Rightarrow> nat \<Rightarrow> nat" where
  "object_addr c slab i = slab + SIZEOF_SLAB + i * object_size c"

text \<open>One object is put in front of the free list of a new slab.\<close>

definition add_object :: "nat \<Rightarrow> nat \<Rightarrow> slab_state \<Rightarrow> slab_state" where
  "add_object slab obj s =
    (let s = set_next obj (sl_freelist (slab_at s slab)) s
     in upd_slab slab (\<lambda>sl. sl\<lparr>sl_freelist := Some obj, sl_free_count := sl_free_count sl + 1\<rparr>) s)"

definition cache_make_slab :: "nat \<Rightarrow> slab_state \<Rightarrow> (slab_state \<times> nat) option" where
  "cache_make_slab cache s = do {
     let c = cache_at s cache;
     (p, block) \<leftarrow> pmm_alloc (block_order c) 0 (sl_pmm s);
     let slab = hhdm s + BLOCK_PADDR block;
     let s = upd_slab slab (\<lambda>_. \<lparr>sl_cache = cache, sl_block = block, sl_free_count = 0, sl_freelist = None\<rparr>) (s\<lparr>sl_pmm := p\<rparr>);
     ASSERT (slab_objects c > 0);
     Some (fold (\<lambda>i. add_object slab (object_addr c slab i)) [0..<slab_objects c] s, slab)
   }"

text \<open>The part of \<^verbatim>\<open>slab_direct_alloc\<close> that takes an object from the first partial slab.\<close>

definition slab_take :: "nat \<Rightarrow> slab_state \<Rightarrow> (slab_state \<times> nat) option" where
  "slab_take cache s = do {
     slab \<leftarrow> (case slabs_partial (cache_at s cache) of [] \<Rightarrow> None | sl # _ \<Rightarrow> Some sl);
     ASSERT (sl_free_count (slab_at s slab) > 0);
     obj \<leftarrow> sl_freelist (slab_at s slab);
     let s = upd_slab slab (\<lambda>sl. sl\<lparr>sl_freelist := obj_next s obj, sl_free_count := sl_free_count sl - 1\<rparr>) s;
     s \<leftarrow> (if sl_free_count (slab_at s slab) = 0 then do {
              ps \<leftarrow> seq_delete (slabs_partial (cache_at s cache)) slab;
              fs \<leftarrow> seq_push (slabs_full (cache_at s cache)) slab;
              Some (upd_cache cache (\<lambda>c. c\<lparr>slabs_partial := ps, slabs_full := fs\<rparr>) s)
            } else Some s);
     Some (s, obj)
   }"

definition slab_direct_alloc :: "nat \<Rightarrow> slab_state \<Rightarrow> (slab_state \<times> nat) option" where
  "slab_direct_alloc cache s = do {
     s \<leftarrow> (if length (slabs_partial (cache_at s cache)) = 0 then do {
              (s, slab) \<leftarrow> cache_make_slab cache s;
              xs \<leftarrow> seq_push (slabs_partial (cache_at s cache)) slab;
              Some (upd_cache cache (\<lambda>c. c\<lparr>slabs_partial := xs\<rparr>) s)
            } else Some s);
     slab_take cache s
   }"

text \<open>The slab of an object: the bits below the size of its block are masked out.\<close>

definition slab_of :: "slab_cache \<Rightarrow> nat \<Rightarrow> nat" where
  "slab_of c obj = obj - obj mod block_bytes (block_order c)"

definition slab_direct_free :: "nat \<Rightarrow> nat \<Rightarrow> slab_state \<Rightarrow> slab_state option" where
  "slab_direct_free cache obj s = do {
     let slab = slab_of (cache_at s cache) obj;
     let s = set_next obj (sl_freelist (slab_at s slab)) s;
     let s = upd_slab slab (\<lambda>sl. sl\<lparr>sl_freelist := Some obj\<rparr>) s;
     s \<leftarrow> (if sl_free_count (slab_at s slab) = 0 then do {
              fs \<leftarrow> seq_delete (slabs_full (cache_at s cache)) slab;
              ps \<leftarrow> seq_push (slabs_partial (cache_at s cache)) slab;
              Some (upd_cache cache (\<lambda>c. c\<lparr>slabs_full := fs, slabs_partial := ps\<rparr>) s)
            } else Some s);
     Some (upd_slab slab (\<lambda>sl. sl\<lparr>sl_free_count := sl_free_count sl + 1\<rparr>) s)
   }"

section \<open>Magazines\<close>

text \<open>
  The body of \<^verbatim>\<open>slab_allocate\<close> from the label \<^verbatim>\<open>alloc\<close> on, for processor \<open>i\<close>. Each \<^verbatim>\<open>goto\<close> is a
  recursive call, so a run that never ends is \<open>None\<close>.
\<close>

partial_function (option) slab_alloc_loop :: "nat \<Rightarrow> nat \<Rightarrow> slab_state \<Rightarrow> (slab_state \<times> nat) option" where
  "slab_alloc_loop cache i s = (let c = cache_at s cache; p = cpu_primary c i; q = cpu_secondary c i in
    if round_count (magazine_at s p) > 0 then do {
      let s = upd_magazine p (\<lambda>m. m\<lparr>round_count := round_count m - 1\<rparr>) s;
      obj \<leftarrow> rounds (magazine_at s p) ! round_count (magazine_at s p);
      Some (s, obj)
    } else if round_count (magazine_at s q) = MAGAZINE_SIZE then
      slab_alloc_loop cache i (upd_cache cache (\<lambda>c. c\<lparr>cpu_primary := (cpu_primary c)(i := q),
        cpu_secondary := (cpu_secondary c)(i := p)\<rparr>) s)
    else if length (magazines_full c) \<noteq> 0 then do {
      es \<leftarrow> seq_push (magazines_empty c) q;
      let (rest, popped) = seq_pop (magazines_full c);
      m \<leftarrow> popped;
      slab_alloc_loop cache i (upd_cache cache (\<lambda>c. c\<lparr>magazines_empty := es, magazines_full := rest,
        cpu_secondary := (cpu_secondary c)(i := p), cpu_primary := (cpu_primary c)(i := m)\<rparr>) s)
    } else slab_direct_alloc cache s)"

definition slab_allocate :: "nat \<Rightarrow> nat \<Rightarrow> slab_state \<Rightarrow> (slab_state \<times> nat) option" where
  "slab_allocate cpu cache s =
    (if \<not> cpu_cache_enabled (cache_at s cache) then slab_direct_alloc cache s
     else slab_alloc_loop cache cpu s)"

partial_function (option) slab_free_loop :: "nat \<Rightarrow> nat \<Rightarrow> nat \<Rightarrow> slab_state \<Rightarrow> slab_state option" where
  "slab_free_loop cache i obj s = (let c = cache_at s cache; p = cpu_primary c i; q = cpu_secondary c i in
    if round_count (magazine_at s p) < MAGAZINE_SIZE then
      Some (upd_magazine p (\<lambda>m. m\<lparr>rounds := (rounds m)[round_count m := Some obj], round_count := round_count m + 1\<rparr>) s)
    else if round_count (magazine_at s q) = 0 then
      slab_free_loop cache i obj (upd_cache cache (\<lambda>c. c\<lparr>cpu_primary := (cpu_primary c)(i := q),
        cpu_secondary := (cpu_secondary c)(i := p)\<rparr>) s)
    else if length (magazines_empty c) \<noteq> 0 then do {
      fs \<leftarrow> seq_push (magazines_full c) q;
      let (rest, popped) = seq_pop (magazines_empty c);
      m \<leftarrow> popped;
      slab_free_loop cache i obj (upd_cache cache (\<lambda>c. c\<lparr>magazines_full := fs, magazines_empty := rest,
        cpu_secondary := (cpu_secondary c)(i := p), cpu_primary := (cpu_primary c)(i := m)\<rparr>) s)
    } else slab_direct_free cache obj s)"

definition slab_free :: "nat \<Rightarrow> nat \<Rightarrow> nat \<Rightarrow> slab_state \<Rightarrow> slab_state option" where
  "slab_free cpu cache obj s =
    (if \<not> cpu_cache_enabled (cache_at s cache) then slab_direct_free cache obj s
     else slab_free_loop cache cpu obj s)"

section \<open>Creating caches\<close>

text \<open>An empty magazine, and the loop that adds the spare ones to the list of empty magazines.\<close>

definition new_magazine :: "nat \<Rightarrow> slab_state \<Rightarrow> (slab_state \<times> nat) option" where
  "new_magazine cpu s = do {
     (s, m) \<leftarrow> slab_allocate cpu g_alloc_magazine s;
     Some (upd_magazine m (\<lambda>_. \<lparr>round_count = 0, rounds = replicate MAGAZINE_SIZE None\<rparr>) s, m)
   }"

fun extra_magazines :: "nat \<Rightarrow> nat \<Rightarrow> nat \<Rightarrow> slab_state \<Rightarrow> slab_state option" where
  "extra_magazines cpu cache 0 s = Some s"
| "extra_magazines cpu cache (Suc n) s = do {
     (s, m) \<leftarrow> new_magazine cpu s;
     xs \<leftarrow> seq_push (magazines_empty (cache_at s cache)) m;
     extra_magazines cpu cache n (upd_cache cache (\<lambda>c. c\<lparr>magazines_empty := xs\<rparr>) s)
   }"

fun fill_magazine :: "nat \<Rightarrow> nat \<Rightarrow> nat list \<Rightarrow> slab_state \<Rightarrow> slab_state option" where
  "fill_magazine cache m [] s = Some s"
| "fill_magazine cache m (j # js) s = do {
     (s, obj) \<leftarrow> slab_direct_alloc cache s;
     fill_magazine cache m js (upd_magazine m (\<lambda>mg. mg\<lparr>rounds := (rounds mg)[j := Some obj]\<rparr>) s)
   }"

fun cpu_magazines :: "nat \<Rightarrow> nat \<Rightarrow> nat list \<Rightarrow> slab_state \<Rightarrow> slab_state option" where
  "cpu_magazines cpu cache [] s = Some s"
| "cpu_magazines cpu cache (i # is) s = do {
     (s, p) \<leftarrow> slab_allocate cpu g_alloc_magazine s;
     let s = upd_magazine p (\<lambda>_. \<lparr>round_count = MAGAZINE_SIZE, rounds = replicate MAGAZINE_SIZE None\<rparr>) s;
     s \<leftarrow> fill_magazine cache p [0..<MAGAZINE_SIZE] s;
     (s, q) \<leftarrow> new_magazine cpu s;
     cpu_magazines cpu cache is (upd_cache cache (\<lambda>c. c\<lparr>cpu_primary := (cpu_primary c)(i := p),
       cpu_secondary := (cpu_secondary c)(i := q)\<rparr>) s)
   }"

definition slab_cache_create :: "nat \<Rightarrow> nat \<Rightarrow> u8 \<Rightarrow> slab_state \<Rightarrow> (slab_state \<times> nat) option" where
  "slab_cache_create cpu size' order s = do {
     ASSERT (size' \<ge> 8);
     (s, cache) \<leftarrow> slab_allocate cpu g_alloc_cache s;
     let s = upd_cache cache (\<lambda>c. c\<lparr>object_size := size', block_order := order, cpu_cache_enabled := True,
       slabs_full := [], slabs_partial := [], magazines_full := [], magazines_empty := []\<rparr>) s;
     s \<leftarrow> extra_magazines cpu cache (MAGAZINE_COUNT_EXTRA s) s;
     s \<leftarrow> (if cpu_cache_enabled (cache_at s cache) then cpu_magazines cpu cache [0..<cpu_count s] s else Some s);
     xs \<leftarrow> seq_push (slab_caches s) cache;
     Some (s\<lparr>slab_caches := xs\<rparr>, cache)
   }"

text \<open>
  The initialisation target \<^verbatim>\<open>slab\<close> up to its hook: the static caches, without processor caches. The hook that follows
  is in theory \<open>Heap\<close>.
\<close>

definition static_cache :: "nat \<Rightarrow> u8 \<Rightarrow> slab_cache" where
  "static_cache size' order = \<lparr>object_size = size', block_order = order, slabs_full = [], slabs_partial = [],
     magazines_full = [], magazines_empty = [], cpu_cache_enabled = False, cpu_primary = (\<lambda>_. 0), cpu_secondary = (\<lambda>_. 0)\<rparr>"

definition slab_init :: "slab_state \<Rightarrow> slab_state option" where
  "slab_init s = do {
     let s = upd_cache g_alloc_cache (\<lambda>_. static_cache (160 + cpu_count s * 24) 3) s;
     let s = upd_cache g_alloc_magazine (\<lambda>_. static_cache (24 + MAGAZINE_SIZE * 8) 2) s;
     xs \<leftarrow> seq_push (slab_caches s) g_alloc_cache;
     xs \<leftarrow> seq_push xs g_alloc_magazine;
     Some (s\<lparr>slab_caches := xs\<rparr>)
   }"

end
