(* ===== verification/SlabInv.thy ===== *)
theory SlabInv
  imports Slab
begin

text \<open>
  The slab layer: which objects are free is recorded in the chains through the objects, and the
  slabs of all caches lie in disjoint blocks of the physical memory manager. Allocation takes an object
  off a chain, freeing finds its slab by masking the address and puts it back.
\<close>

section \<open>Geometry\<close>

definition slabs :: "slab_state \<Rightarrow> nat \<Rightarrow> nat list" where
  "slabs s c = slabs_partial (cache_at s c) @ slabs_full (cache_at s c)"

definition objects :: "slab_cache \<Rightarrow> nat \<Rightarrow> nat set" where
  "objects c sl = object_addr c sl ` {..< slab_objects c}"

text \<open>A usable cache: the objects have room for the link, and at least one fits in a block.\<close>

definition cache_wf :: "slab_cache \<Rightarrow> bool" where
  "cache_wf c \<longleftrightarrow> 8 \<le> object_size c \<and> unat (block_order c) \<le> PMM_MAX_ORDER \<and> 0 < slab_objects c"

lemma object_addr_inj: "cache_wf c \<Longrightarrow> object_addr c sl i = object_addr c sl j \<Longrightarrow> i = j"
  by (simp add: object_addr_def cache_wf_def)

lemma object_fits:
  assumes "cache_wf c" "i < slab_objects c"
  shows "sl + SIZEOF_SLAB \<le> object_addr c sl i" "object_addr c sl i + object_size c \<le> sl + block_bytes (block_order c)"
proof -
  have "Suc i * object_size c \<le> slab_objects c * object_size c" using assms(2) by (intro mult_le_mono1) simp
  also have "\<dots> \<le> block_bytes (block_order c) - SIZEOF_SLAB" by (simp add: slab_objects_def)
  finally have le: "Suc i * object_size c \<le> block_bytes (block_order c) - SIZEOF_SLAB" .
  moreover have "0 < Suc i * object_size c" using assms(1) by (simp add: cache_wf_def)
  ultimately have "SIZEOF_SLAB + Suc i * object_size c \<le> block_bytes (block_order c)" by linarith
  then show "sl + SIZEOF_SLAB \<le> object_addr c sl i" "object_addr c sl i + object_size c \<le> sl + block_bytes (block_order c)"
    by (simp_all add: object_addr_def add.commute)
qed

lemma object_range: "cache_wf c \<Longrightarrow> x \<in> objects c sl \<Longrightarrow> x \<in> {sl ..< sl + block_bytes (block_order c)}"
  unfolding objects_def using object_fits[of c _ sl] by (fastforce simp: cache_wf_def)

lemma slab_of_object:
  assumes "cache_wf c" "x \<in> objects c sl" "block_bytes (block_order c) dvd sl"
  shows "slab_of c x = sl"
proof -
  let ?n = "block_bytes (block_order c)"
  obtain d where d: "x = sl + d" "d < ?n" using object_range[OF assms(1,2)] by (metis add_less_cancel_left atLeastLessThan_iff le_Suc_ex)
  obtain q where "sl = ?n * q" using assms(3) by (rule dvdE)
  then have "x mod ?n = d" using d by simp
  with d(1) show ?thesis by (simp add: slab_of_def)
qed

section \<open>Chains\<close>

fun chain :: "(nat \<Rightarrow> nat option) \<Rightarrow> nat option \<Rightarrow> nat list \<Rightarrow> bool" where
  "chain nx p [] = (p = None)"
| "chain nx p (x # xs) = (p = Some x \<and> chain nx (nx x) xs)"

lemma chain_upd: "chain nx p xs \<Longrightarrow> x \<notin> set xs \<Longrightarrow> chain (nx(x := q)) p xs"
  by (induction xs arbitrary: p) auto

lemma chain_cong: "chain nx p xs \<Longrightarrow> (\<And>x. x \<in> set xs \<Longrightarrow> nx' x = nx x) \<Longrightarrow> chain nx' p xs"
  by (induction xs arbitrary: p) auto

section \<open>The invariant\<close>

text \<open>
  \<open>M\<close> and \<open>B\<close> are the managed pages and the allocated blocks of the physical memory manager, \<open>C\<close> the caches, and
  \<open>F sl\<close> the free objects of slab \<open>sl\<close>, in the order of its chain.
\<close>

definition slab_ok :: "slab_state \<Rightarrow> nat set \<Rightarrow> nat \<Rightarrow> (nat \<Rightarrow> nat list) \<Rightarrow> nat \<Rightarrow> bool" where
  "slab_ok s B c F sl \<longleftrightarrow>
     sl_block (slab_at s sl) \<in> B \<and> ord (sl_pmm s) (sl_block (slab_at s sl)) = unat (block_order (cache_at s c)) \<and>
     sl = hhdm s + BLOCK_PADDR (sl_block (slab_at s sl)) \<and>
     distinct (F sl) \<and> set (F sl) \<subseteq> objects (cache_at s c) sl \<and>
     chain (obj_next s) (sl_freelist (slab_at s sl)) (F sl) \<and> sl_free_count (slab_at s sl) = length (F sl)"

definition cache_ok :: "slab_state \<Rightarrow> nat set \<Rightarrow> nat \<Rightarrow> (nat \<Rightarrow> nat list) \<Rightarrow> bool" where
  "cache_ok s B c F \<longleftrightarrow> cache_wf (cache_at s c) \<and> distinct (slabs s c) \<and>
     (\<forall>sl \<in> set (slabs_partial (cache_at s c)). F sl \<noteq> []) \<and> (\<forall>sl \<in> set (slabs_full (cache_at s c)). F sl = []) \<and>
     (\<forall>sl \<in> set (slabs s c). slab_ok s B c F sl)"

definition slab_inv :: "slab_state \<Rightarrow> nat set \<Rightarrow> nat set \<Rightarrow> nat set \<Rightarrow> (nat \<Rightarrow> nat list) \<Rightarrow> bool" where
  "slab_inv s M B C F \<longleftrightarrow> pmm_inv (sl_pmm s) M B \<and> 2 ^ 19 dvd hhdm s \<and> (\<forall>c \<in> C. cache_ok s B c F) \<and>
     (\<forall>c \<in> C. \<forall>d \<in> C. c \<noteq> d \<longrightarrow> set (slabs s c) \<inter> set (slabs s d) = {})"

definition allocated :: "slab_state \<Rightarrow> (nat \<Rightarrow> nat list) \<Rightarrow> nat \<Rightarrow> nat set" where
  "allocated s F c = (\<Union>sl \<in> set (slabs s c). objects (cache_at s c) sl - set (F sl))"

lemma pmm_inv_aligned: "pmm_inv p M B \<Longrightarrow> b \<in> B \<Longrightarrow> 2 ^ ord p b dvd b"
  unfolding pmm_inv_def pmm_core_def heads_def by blast

lemma slab_aligned:
  assumes inv: "slab_inv s M B C F" and c: "c \<in> C" "sl \<in> set (slabs s c)"
  shows "block_bytes (block_order (cache_at s c)) dvd sl"
proof -
  have ok: "slab_ok s B c F sl" and w: "cache_wf (cache_at s c)" using inv c by (auto simp: slab_inv_def cache_ok_def)
  let ?o = "unat (block_order (cache_at s c))" and ?b = "sl_block (slab_at s sl)"
  have "2 ^ ?o dvd ?b" using pmm_inv_aligned[of "sl_pmm s" M B ?b] ok inv by (simp add: slab_ok_def slab_inv_def)
  then have "2 ^ ?o * 4096 dvd BLOCK_PADDR ?b"
    by (simp add: BLOCK_PADDR_def ARCH_PAGE_GRANULARITY_def)
  moreover have "2 ^ ?o * 4096 dvd (2 :: nat) ^ 19"
  proof -
    have "?o \<le> 7" using w by (simp add: cache_wf_def PMM_MAX_ORDER_def)
    then have "(2 :: nat) ^ (?o + 12) dvd 2 ^ 19" by (intro le_imp_power_dvd) simp
    then show ?thesis by (simp add: power_add)
  qed
  then have "2 ^ ?o * 4096 dvd hhdm s" using inv dvd_trans by (auto simp: slab_inv_def)
  ultimately show ?thesis
    using ok unfolding slab_ok_def block_bytes_def PMM_ORDER_TO_PAGECOUNT_def ARCH_PAGE_GRANULARITY_def by (metis dvd_add)
qed

text \<open>Different blocks of the physical memory manager have no byte in common.\<close>

lemma blocks_apart:
  assumes inv: "pmm_inv p M B" and ab: "a \<in> B" "b \<in> B" "a \<noteq> b"
  shows "{h + BLOCK_PADDR a ..< h + BLOCK_PADDR a + 2 ^ ord p a * ARCH_PAGE_GRANULARITY} \<inter>
    {h + BLOCK_PADDR b ..< h + BLOCK_PADDR b + 2 ^ ord p b * ARCH_PAGE_GRANULARITY} = {}"
proof -
  have "block_pages p a \<inter> block_pages p b = {}"
    using inv ab by (intro core_pages_disjoint[of p M B]) (auto simp: pmm_inv_def heads_def)
  moreover have "a \<in> block_pages p a" "b \<in> block_pages p b" unfolding block_pages_def by auto
  ultimately have "b \<notin> block_pages p a" "a \<notin> block_pages p b" by blast+
  then have "a + 2 ^ ord p a \<le> b \<or> b + 2 ^ ord p b \<le> a" unfolding block_pages_def by auto
  then have "(a + 2 ^ ord p a) * 4096 \<le> b * 4096 \<or> (b + 2 ^ ord p b) * 4096 \<le> a * 4096" by auto
  then show ?thesis unfolding BLOCK_PADDR_def ARCH_PAGE_GRANULARITY_def by (auto simp: add_mult_distrib)
qed

lemma slab_blocks_apart:
  assumes inv: "slab_inv s M B C F" and c: "c \<in> C" "sl \<in> set (slabs s c)" and d: "d \<in> C" "sk \<in> set (slabs s d)" and ne: "sl \<noteq> sk"
  shows "{sl ..< sl + block_bytes (block_order (cache_at s c))} \<inter> {sk ..< sk + block_bytes (block_order (cache_at s d))} = {}"
proof -
  have ok: "slab_ok s B c F sl" "slab_ok s B d F sk" using inv c d by (auto simp: slab_inv_def cache_ok_def)
  then have "sl_block (slab_at s sl) \<noteq> sl_block (slab_at s sk)" using ne by (auto simp: slab_ok_def)
  then show ?thesis
    using blocks_apart[of "sl_pmm s" M B "sl_block (slab_at s sl)" "sl_block (slab_at s sk)" "hhdm s"] inv ok
    unfolding slab_inv_def slab_ok_def block_bytes_def PMM_ORDER_TO_PAGECOUNT_def by metis
qed

lemma slabs_apart:
  assumes inv: "slab_inv s M B C F" and c: "c \<in> C" "sl \<in> set (slabs s c)" and d: "d \<in> C" "sk \<in> set (slabs s d)" and ne: "sl \<noteq> sk"
  shows "objects (cache_at s c) sl \<inter> objects (cache_at s d) sk = {}"
proof -
  have w: "cache_wf (cache_at s c)" "cache_wf (cache_at s d)" using inv c d by (auto simp: slab_inv_def cache_ok_def)
  show ?thesis using slab_blocks_apart[OF assms] object_range[OF w(1)] object_range[OF w(2)] by blast
qed

section \<open>Frames\<close>

lemma slab_store_simps [simp]:
  "sl_pmm (upd_slab a f s) = sl_pmm s" "hhdm (upd_slab a f s) = hhdm s" "obj_next (upd_slab a f s) = obj_next s"
  "cache_at (upd_slab a f s) = cache_at s" "magazine_at (upd_slab a f s) = magazine_at s" "slab_caches (upd_slab a f s) = slab_caches s"
  "slab_at (upd_slab a f s) b = (if b = a then f (slab_at s a) else slab_at s b)"
  "sl_pmm (upd_cache c g s) = sl_pmm s" "hhdm (upd_cache c g s) = hhdm s" "obj_next (upd_cache c g s) = obj_next s"
  "slab_at (upd_cache c g s) = slab_at s" "magazine_at (upd_cache c g s) = magazine_at s" "slab_caches (upd_cache c g s) = slab_caches s"
  "cache_at (upd_cache c g s) d = (if d = c then g (cache_at s c) else cache_at s d)"
  "sl_pmm (set_next x p s) = sl_pmm s" "hhdm (set_next x p s) = hhdm s" "slab_at (set_next x p s) = slab_at s"
  "cache_at (set_next x p s) = cache_at s" "magazine_at (set_next x p s) = magazine_at s" "slab_caches (set_next x p s) = slab_caches s"
  "obj_next (set_next x p s) = (obj_next s)(x := p)"
  "sl_pmm (upd_magazine m h s) = sl_pmm s" "hhdm (upd_magazine m h s) = hhdm s" "obj_next (upd_magazine m h s) = obj_next s"
  "slab_at (upd_magazine m h s) = slab_at s" "cache_at (upd_magazine m h s) = cache_at s" "slab_caches (upd_magazine m h s) = slab_caches s"
  "magazine_at (upd_magazine m h s) n = (if n = m then h (magazine_at s m) else magazine_at s n)"
  "cpu_count (upd_slab a f s) = cpu_count s" "cpu_count (upd_cache c g s) = cpu_count s" "cpu_count (set_next x p s) = cpu_count s"
  "cpu_count (upd_magazine m h s) = cpu_count s"
  by (simp_all add: upd_slab_def upd_cache_def set_next_def upd_magazine_def)

definition same_shape :: "slab_cache \<Rightarrow> slab_cache \<Rightarrow> bool" where
  "same_shape c d \<longleftrightarrow> object_size c = object_size d \<and> block_order c = block_order d"

lemma same_shapeD:
  assumes "same_shape c d"
  shows "objects c sl = objects d sl" "cache_wf c = cache_wf d" "block_order c = block_order d" "slab_of c x = slab_of d x"
  using assms by (simp_all add: same_shape_def objects_def object_addr_def slab_objects_def cache_wf_def slab_of_def)

lemma slab_ok_cong:
  assumes ok: "slab_ok s B c F sl" and "slab_at s' sl = slab_at s sl" "hhdm s' = hhdm s" "B \<subseteq> B'" "F' sl = F sl"
    and "\<And>b. b \<in> B \<Longrightarrow> page_db (sl_pmm s') b = page_db (sl_pmm s) b"
    and nx: "\<And>x. x \<in> set (F sl) \<Longrightarrow> obj_next s' x = obj_next s x" and sh: "same_shape (cache_at s' c) (cache_at s c)"
  shows "slab_ok s' B' c F' sl"
proof -
  have "chain (obj_next s') (sl_freelist (slab_at s sl)) (F sl)"
    by (rule chain_cong[OF _ nx]) (use ok in \<open>simp add: slab_ok_def\<close>)
  with ok assms(2-6) same_shapeD[OF sh] show ?thesis unfolding slab_ok_def by auto
qed

text \<open>
  A step that works on slab \<open>sl\<close> of cache \<open>c\<close> only: everything else of the invariant carries over. \<open>L\<close> is the
  list of slabs of the cache afterwards.
\<close>

lemma slab_inv_step:
  assumes inv: "slab_inv s M B C F" and c: "c \<in> C" and pm: "pmm_inv (sl_pmm s') M B'" "B \<subseteq> B'"
    and db: "\<And>b. b \<in> B \<Longrightarrow> page_db (sl_pmm s') b = page_db (sl_pmm s) b" and h: "hhdm s' = hhdm s"
    and ca: "\<And>d. d \<noteq> c \<Longrightarrow> cache_at s' d = cache_at s d" and sh: "same_shape (cache_at s' c) (cache_at s c)"
    and sa: "\<And>a. a \<noteq> sl \<Longrightarrow> slab_at s' a = slab_at s a \<and> F' a = F a"
    and nx: "\<And>d sk x. d \<in> C \<Longrightarrow> sk \<in> set (slabs s d) \<Longrightarrow> sk \<noteq> sl \<Longrightarrow> x \<in> set (F sk) \<Longrightarrow> obj_next s' x = obj_next s x"
    and sls: "distinct (slabs s' c)" "set (slabs s' c) = insert sl (set (slabs s c))"
    and pf: "\<And>sk. sk \<in> set (slabs_partial (cache_at s' c)) \<Longrightarrow> F' sk \<noteq> []" "\<And>sk. sk \<in> set (slabs_full (cache_at s' c)) \<Longrightarrow> F' sk = []"
    and ok: "slab_ok s' B' c F' sl" and fresh: "\<And>d. d \<in> C \<Longrightarrow> d \<noteq> c \<Longrightarrow> sl \<notin> set (slabs s d)"
  shows "slab_inv s' M B' C F' \<and> (\<forall>d \<in> C. d \<noteq> c \<longrightarrow> allocated s' F' d = allocated s F d)"
proof (intro conjI ballI impI)
  have sd: "slabs s' d = slabs s d" if "d \<noteq> c" for d using ca[OF that] by (simp add: slabs_def)
  have other: "slab_ok s' B' d F' sk" if "d \<in> C" "sk \<in> set (slabs s d)" "sk \<noteq> sl" for d sk
  proof (rule slab_ok_cong)
    show "slab_ok s B d F sk" using inv that by (auto simp: slab_inv_def cache_ok_def)
    show "same_shape (cache_at s' d) (cache_at s d)" using ca[of d] sh by (cases "d = c") (auto simp: same_shape_def)
  qed (use sa[OF that(3)] h pm(2) db nx[OF that] in auto)
  have "cache_ok s' B' d F'" if d: "d \<in> C" for d
  proof (cases "d = c")
    case True
    have "slab_ok s' B' c F' sk" if "sk \<in> set (slabs s' c)" for sk
      using that ok other[OF c] unfolding sls(2) by (cases "sk = sl") auto
    moreover have "cache_wf (cache_at s' c)" using inv c same_shapeD(2)[OF sh] by (auto simp: slab_inv_def cache_ok_def)
    ultimately show ?thesis using True sls(1) pf by (auto simp: cache_ok_def)
  next
    case False
    then have sk: "sk \<noteq> sl" if "sk \<in> set (slabs s d)" for sk using fresh[OF d False] that by auto
    have "cache_ok s B d F" using inv d by (auto simp: slab_inv_def)
    then show ?thesis
      unfolding cache_ok_def ca[OF False] sd[OF False] using other[OF d] sk sa by (fastforce simp: slabs_def)
  qed
  moreover have "set (slabs s' d) \<inter> set (slabs s' e) = {}" if "d \<in> C" "e \<in> C" "d \<noteq> e" for d e
  proof -
    have "set (slabs s d) \<inter> set (slabs s e) = {}" using inv that by (auto simp: slab_inv_def)
    then show ?thesis using that fresh[of d] fresh[of e] sls(2) sd[of d] sd[of e] by (cases "d = c"; cases "e = c") auto
  qed
  ultimately show "slab_inv s' M B' C F'" using pm(1) h inv by (simp add: slab_inv_def)
  fix d assume d: "d \<in> C" "d \<noteq> c"
  have "F' sk = F sk" if "sk \<in> set (slabs s d)" for sk using sa fresh[OF d] that by metis
  then show "allocated s' F' d = allocated s F d" unfolding allocated_def sd[OF d(2)] ca[OF d(2)] by auto
qed

section \<open>Taking and returning objects\<close>

text \<open>How a step changes the objects in use: only those of cache \<open>c\<close>.\<close>

definition in_use :: "slab_state \<Rightarrow> (nat \<Rightarrow> nat list) \<Rightarrow> nat set \<Rightarrow> nat \<Rightarrow> slab_state \<Rightarrow> (nat \<Rightarrow> nat list) \<Rightarrow> nat set \<Rightarrow> bool" where
  "in_use s F C c s' F' X \<longleftrightarrow> allocated s' F' c = X \<and> (\<forall>d \<in> C. d \<noteq> c \<longrightarrow> allocated s' F' d = allocated s F d) \<and>
     magazine_at s' = magazine_at s \<and> cpu_count s' = cpu_count s \<and> slab_caches s' = slab_caches s \<and> hhdm s' = hhdm s \<and>
     (\<forall>d. d \<noteq> c \<longrightarrow> cache_at s' d = cache_at s d) \<and>
     (\<exists>p f. cache_at s' c = (cache_at s c)\<lparr>slabs_partial := p, slabs_full := f\<rparr>)"

lemma in_useI:
  assumes "allocated s' F' c = X" "\<forall>d \<in> C. d \<noteq> c \<longrightarrow> allocated s' F' d = allocated s F d"
    "cache_at s' c = (cache_at s c)\<lparr>slabs_partial := p, slabs_full := f\<rparr>"
    "magazine_at s' = magazine_at s" "cpu_count s' = cpu_count s" "slab_caches s' = slab_caches s" "hhdm s' = hhdm s"
    "\<And>d. d \<noteq> c \<Longrightarrow> cache_at s' d = cache_at s d"
  shows "in_use s F C c s' F' X"
  using assms unfolding in_use_def by blast

lemma slab_direct_free_ok:
  assumes inv: "slab_inv s M B C F" and c: "c \<in> C" and obj: "obj \<in> allocated s F c"
  shows "\<exists>s' F'. slab_direct_free c obj s = Some s' \<and> slab_inv s' M B C F' \<and> in_use s F C c s' F' (allocated s F c - {obj})"
proof -
  let ?c = "cache_at s c"
  obtain sl where sl: "sl \<in> set (slabs s c)" "obj \<in> objects ?c sl" "obj \<notin> set (F sl)" using obj by (auto simp: allocated_def)
  have co: "cache_ok s B c F" and pm: "pmm_inv (sl_pmm s) M B" using inv c by (auto simp: slab_inv_def)
  then have w: "cache_wf ?c" and ok: "slab_ok s B c F sl" and dist: "distinct (slabs s c)" using sl(1) by (auto simp: cache_ok_def)
  have so: "slab_of ?c obj = sl" using slab_of_object[OF w sl(2) slab_aligned[OF inv c sl(1)]] .
  have cnt: "sl_free_count (slab_at s sl) = length (F sl)" using ok by (simp add: slab_ok_def)
  let ?F = "F(sl := obj # F sl)"
  define s1 where "s1 = upd_slab sl (\<lambda>x. x\<lparr>sl_freelist := Some obj\<rparr>) (set_next obj (sl_freelist (slab_at s sl)) s)"
  define ps where "ps = (if F sl = [] then sl # slabs_partial ?c else slabs_partial ?c)"
  define fs where "fs = (if F sl = [] then remove1 sl (slabs_full ?c) else slabs_full ?c)"
  have in_full: "sl \<in> set (slabs_full ?c) \<and> sl \<notin> set (slabs_partial ?c)" if "F sl = []"
    using sl(1) that co by (auto simp: cache_ok_def slabs_def)
  define s' where "s' = upd_slab sl (\<lambda>x. x\<lparr>sl_free_count := sl_free_count x + 1\<rparr>)
     (upd_cache c (\<lambda>x. x\<lparr>slabs_full := fs, slabs_partial := ps\<rparr>) s1)"
  have id: "upd_cache c (\<lambda>x. x\<lparr>slabs_full := slabs_full ?c, slabs_partial := slabs_partial ?c\<rparr>) s1 = s1"
    by (simp add: upd_cache_def s1_def upd_slab_def set_next_def fun_upd_idem)
  have run: "slab_direct_free c obj s = Some s'"
    using in_full cnt id by (auto simp: slab_direct_free_def so Let_def s1_def s'_def ps_def fs_def seq_delete_def seq_push_def)
  have c': "cache_at s' c = ?c\<lparr>slabs_partial := ps, slabs_full := fs\<rparr>" by (simp add: s'_def s1_def)
  have perm: "mset (ps @ fs) = mset (slabs s c)"
    using in_full by (auto simp: ps_def fs_def slabs_def)
  have sls: "distinct (slabs s' c)" "set (slabs s' c) = insert sl (set (slabs s c))"
  proof -
    have e: "slabs s' c = ps @ fs" by (simp add: slabs_def c')
    show "distinct (slabs s' c)" unfolding e using mset_eq_imp_distinct_iff[OF perm] dist by blast
    show "set (slabs s' c) = insert sl (set (slabs s c))" unfolding e using mset_eq_setD[OF perm] sl(1) by blast
  qed
  have pf: "\<And>sk. sk \<in> set ps \<Longrightarrow> ?F sk \<noteq> []" "\<And>sk. sk \<in> set fs \<Longrightarrow> ?F sk = []"
  proof -
    show "?F sk \<noteq> []" if "sk \<in> set ps" for sk
      using that co by (auto simp: ps_def cache_ok_def split: if_splits)
    show "?F sk = []" if "sk \<in> set fs" for sk
    proof -
      have "sk \<in> set (slabs_full ?c)" "sk \<noteq> sl"
        using that dist co unfolding fs_def slabs_def by (auto simp: cache_ok_def split: if_splits)
      then show ?thesis using co by (simp add: cache_ok_def)
    qed
  qed
  have nx: "obj_next s' x = obj_next s x" if "d \<in> C" "sk \<in> set (slabs s d)" "sk \<noteq> sl" "x \<in> set (F sk)" for d sk x
  proof -
    have "slab_ok s B d F sk" using inv that(1,2) by (auto simp: slab_inv_def cache_ok_def)
    then have "x \<in> objects (cache_at s d) sk" using that(4) by (auto simp: slab_ok_def)
    then have "x \<noteq> obj" using slabs_apart[OF inv that(1,2) c sl(1) that(3)] sl(2) by auto
    then show ?thesis by (simp add: s'_def s1_def)
  qed
  have ok': "slab_ok s' B c ?F sl"
    using ok sl(2,3) chain_upd[of "obj_next s" "sl_freelist (slab_at s sl)" "F sl" obj]
    by (simp add: slab_ok_def s'_def s1_def) (simp add: objects_def object_addr_def slab_objects_def)
  have fresh: "sl \<notin> set (slabs s d)" if "d \<in> C" "d \<noteq> c" for d using inv c that sl(1) by (auto simp: slab_inv_def)
  have step: "slab_inv s' M B C ?F \<and> (\<forall>d \<in> C. d \<noteq> c \<longrightarrow> allocated s' ?F d = allocated s F d)"
  proof (rule slab_inv_step[OF inv c, where sl = sl])
    show "pmm_inv (sl_pmm s') M B" using pm by (simp add: s'_def s1_def)
    show "same_shape (cache_at s' c) (cache_at s c)" by (simp add: c' same_shape_def)
    show "?F sk \<noteq> []" if "sk \<in> set (slabs_partial (cache_at s' c))" for sk using that pf(1) by (simp add: c')
    show "?F sk = []" if "sk \<in> set (slabs_full (cache_at s' c))" for sk using that pf(2) by (simp add: c')
  qed (fact subset_refl sls ok' | erule (3) nx | erule (1) fresh | simp add: s'_def s1_def)+
  have al: "allocated s' ?F c = allocated s F c - {obj}"
  proof -
    have "same_shape (cache_at s' c) ?c" by (simp add: c' same_shape_def)
    note ob = same_shapeD(1)[OF this]
    have "obj \<notin> objects ?c sk" if "sk \<in> set (slabs s c)" "sk \<noteq> sl" for sk
      using slabs_apart[OF inv c that(1) c sl(1) that(2)] sl(2) by auto
    then show ?thesis unfolding allocated_def ob sls(2) using sl(1) by (auto split: if_splits)
  qed
  have "in_use s F C c s' ?F (allocated s F c - {obj})"
    by (rule in_useI[OF al _ c']) (use step in blast, simp_all add: s'_def s1_def)
  with run step show ?thesis by blast
qed

lemma slab_take_ok:
  assumes inv: "slab_inv s M B C F" and c: "c \<in> C" and part: "slabs_partial (cache_at s c) \<noteq> []"
  shows "\<exists>s' obj F'. slab_take c s = Some (s', obj) \<and> slab_inv s' M B C F' \<and> obj \<notin> allocated s F c \<and>
    in_use s F C c s' F' (insert obj (allocated s F c))"
proof -
  let ?c = "cache_at s c"
  obtain sl rest where part: "slabs_partial ?c = sl # rest" using part by (cases "slabs_partial ?c") auto
  have sl: "sl \<in> set (slabs s c)" by (simp add: slabs_def part)
  have co: "cache_ok s B c F" and pm: "pmm_inv (sl_pmm s) M B" using inv c by (auto simp: slab_inv_def)
  then have w: "cache_wf ?c" and ok: "slab_ok s B c F sl" and dist: "distinct (slabs s c)" and ne: "F sl \<noteq> []"
    using sl part by (auto simp: cache_ok_def)
  obtain obj os where F: "F sl = obj # os" using ne by (cases "F sl") auto
  have S: "distinct (obj # os)" "set (obj # os) \<subseteq> objects ?c sl" "sl_freelist (slab_at s sl) = Some obj"
    "chain (obj_next s) (obj_next s obj) os" "sl_free_count (slab_at s sl) = Suc (length os)"
    using ok F by (auto simp: slab_ok_def)
  let ?F = "F(sl := os)"
  define ps where "ps = (if os = [] then rest else sl # rest)"
  define fs where "fs = (if os = [] then sl # slabs_full ?c else slabs_full ?c)"
  define s1 where "s1 = upd_slab sl (\<lambda>x. x\<lparr>sl_freelist := obj_next s obj, sl_free_count := sl_free_count x - 1\<rparr>) s"
  define s' where "s' = upd_cache c (\<lambda>x. x\<lparr>slabs_partial := ps, slabs_full := fs\<rparr>) s1"
  have nf: "sl \<notin> set (slabs_full ?c)" "sl \<notin> set rest" using dist by (auto simp: slabs_def part)
  have id: "upd_cache c (\<lambda>x. x\<lparr>slabs_partial := sl # rest, slabs_full := slabs_full ?c\<rparr>) s1 = s1"
    unfolding part[symmetric] by (simp add: upd_cache_def s1_def upd_slab_def fun_upd_idem)
  have run: "slab_take c s = Some (s', obj)"
    using nf S(3,5) id by (auto simp: slab_take_def part s1_def s'_def ps_def fs_def seq_delete_def seq_push_def)
  have c': "cache_at s' c = ?c\<lparr>slabs_partial := ps, slabs_full := fs\<rparr>" by (simp add: s'_def s1_def)
  have perm: "mset (ps @ fs) = mset (slabs s c)" by (auto simp: ps_def fs_def slabs_def part)
  have sls: "distinct (slabs s' c)" "set (slabs s' c) = insert sl (set (slabs s c))"
  proof -
    have e: "slabs s' c = ps @ fs" by (simp add: slabs_def c')
    show "distinct (slabs s' c)" unfolding e using mset_eq_imp_distinct_iff[OF perm] dist by blast
    show "set (slabs s' c) = insert sl (set (slabs s c))" unfolding e using mset_eq_setD[OF perm] sl by blast
  qed
  have pf: "\<And>sk. sk \<in> set ps \<Longrightarrow> ?F sk \<noteq> []" "\<And>sk. sk \<in> set fs \<Longrightarrow> ?F sk = []"
    using co nf by (auto simp: ps_def fs_def cache_ok_def part split: if_splits)
  have ok': "slab_ok s' B c ?F sl"
    using ok S F by (simp add: slab_ok_def s'_def s1_def) (simp add: objects_def object_addr_def slab_objects_def)
  have fresh: "sl \<notin> set (slabs s d)" if "d \<in> C" "d \<noteq> c" for d using inv c that sl by (auto simp: slab_inv_def)
  have step: "slab_inv s' M B C ?F \<and> (\<forall>d \<in> C. d \<noteq> c \<longrightarrow> allocated s' ?F d = allocated s F d)"
  proof (rule slab_inv_step[OF inv c, where sl = sl])
    show "pmm_inv (sl_pmm s') M B" using pm by (simp add: s'_def s1_def)
    show "same_shape (cache_at s' c) (cache_at s c)" by (simp add: c' same_shape_def)
    show "?F sk \<noteq> []" if "sk \<in> set (slabs_partial (cache_at s' c))" for sk using that pf(1) by (simp add: c')
    show "?F sk = []" if "sk \<in> set (slabs_full (cache_at s' c))" for sk using that pf(2) by (simp add: c')
  qed (fact subset_refl sls ok' | erule (1) fresh | simp add: s'_def s1_def)+
  have sh: "same_shape (cache_at s' c) ?c" by (simp add: c' same_shape_def)
  note ob = same_shapeD(1)[OF sh]
  have out: "obj \<notin> objects ?c sk" if "sk \<in> set (slabs s c)" "sk \<noteq> sl" for sk
    using slabs_apart[OF inv c that(1) c sl that(2)] S(2) by auto
  have "obj \<in> objects ?c sl" "obj \<notin> set os" using S(1,2) by auto
  then have al: "allocated s' ?F c = insert obj (allocated s F c)"
    unfolding allocated_def ob sls(2) using sl F by (auto split: if_splits)
  have "obj \<notin> allocated s F c" using out F unfolding allocated_def by (metis (no_types, lifting) DiffE UN_E list.set_intros(1))
  moreover have "in_use s F C c s' ?F (insert obj (allocated s F c))"
    by (rule in_useI[OF al _ c']) (use step in blast, simp_all add: s'_def s1_def)
  ultimately show ?thesis using run step by blast
qed

section \<open>A new slab\<close>

lemma add_object_fields [simp]:
  "slab_at (add_object sl x s) a = (if a = sl then (slab_at s sl)\<lparr>sl_freelist := Some x, sl_free_count := sl_free_count (slab_at s sl) + 1\<rparr>
     else slab_at s a)"
  "obj_next (add_object sl x s) = (obj_next s)(x := sl_freelist (slab_at s sl))"
  "sl_pmm (add_object sl x s) = sl_pmm s" "hhdm (add_object sl x s) = hhdm s" "cache_at (add_object sl x s) = cache_at s"
  "magazine_at (add_object sl x s) = magazine_at s" "cpu_count (add_object sl x s) = cpu_count s"
  "slab_caches (add_object sl x s) = slab_caches s"
  by (simp_all add: add_object_def Let_def)

lemma fold_objects:
  assumes "cache_wf c" "n \<le> slab_objects c" "sl_freelist (slab_at s sl) = None" "sl_free_count (slab_at s sl) = 0"
  shows "let s' = fold (\<lambda>i. add_object sl (object_addr c sl i)) [0..<n] s in
    chain (obj_next s') (sl_freelist (slab_at s' sl)) (rev (map (object_addr c sl) [0..<n])) \<and>
    sl_free_count (slab_at s' sl) = n \<and> (\<forall>a. a \<noteq> sl \<longrightarrow> slab_at s' a = slab_at s a) \<and>
    sl_block (slab_at s' sl) = sl_block (slab_at s sl) \<and>
    (\<forall>x. x \<notin> objects c sl \<longrightarrow> obj_next s' x = obj_next s x) \<and> sl_pmm s' = sl_pmm s \<and> hhdm s' = hhdm s \<and>
    cache_at s' = cache_at s \<and> magazine_at s' = magazine_at s \<and> cpu_count s' = cpu_count s \<and> slab_caches s' = slab_caches s"
  using assms(2)
proof (induction n)
  case 0
  then show ?case using assms(3,4) by simp
next
  case (Suc n)
  let ?s = "fold (\<lambda>i. add_object sl (object_addr c sl i)) [0..<n] s"
  let ?x = "object_addr c sl n"
  have "?x \<notin> set (rev (map (object_addr c sl) [0..<n]))" using object_addr_inj[OF assms(1)] by fastforce
  moreover have "?x \<in> objects c sl" using Suc.prems by (auto simp: objects_def)
  ultimately show ?case
    using Suc chain_upd[of "obj_next ?s" "sl_freelist (slab_at ?s sl)" "rev (map (object_addr c sl) [0..<n])" ?x]
    by (auto simp: Let_def)
qed

lemma pmm_alloc_client:
  assumes inv: "pmm_inv p M B" and al: "pmm_alloc order flags p = Some (p', b)"
  shows "pmm_inv p' M (insert b B)" "b \<notin> B" "ord p' b = unat order" "\<forall>a \<in> B. page_db p' a = page_db p a"
proof -
  obtain k where k: "k \<ge> unat order" "lists p (alloc_zone flags) k \<noteq> []" using pmm_alloc_SomeD(2)[OF al] by blast
  from pmm_alloc_inv[OF inv pmm_alloc_SomeD(1)[OF al] k] al
  show "pmm_inv p' M (insert b B)" "b \<notin> B" "ord p' b = unat order" "\<forall>a \<in> B. page_db p' a = page_db p a" by auto
qed

text \<open>A cache without partial slabs gets one; no object changes hands.\<close>

lemma make_slab_ok:
  assumes inv: "slab_inv s M B C F" and c: "c \<in> C" and part: "slabs_partial (cache_at s c) = []"
    and al: "pmm_alloc (block_order (cache_at s c)) 0 (sl_pmm s) = Some (p, b)"
  shows "\<exists>s1 sl s' F'. cache_make_slab c s = Some (s1, sl) \<and>
    seq_push (slabs_partial (cache_at s1 c)) sl = Some [sl] \<and> s' = upd_cache c (\<lambda>c. c\<lparr>slabs_partial := [sl]\<rparr>) s1 \<and>
    slab_inv s' M (insert b B) C F' \<and> in_use s F C c s' F' (allocated s F c) \<and> slabs_partial (cache_at s' c) \<noteq> []"
proof -
  let ?c = "cache_at s c" and ?sl = "hhdm s + BLOCK_PADDR b"
  have co: "cache_ok s B c F" and pm: "pmm_inv (sl_pmm s) M B" using inv c by (auto simp: slab_inv_def)
  then have w: "cache_wf ?c" and dist: "distinct (slabs s c)" by (auto simp: cache_ok_def)
  note P = pmm_alloc_client[OF pm al]
  define s0 where "s0 = upd_slab ?sl (\<lambda>_. \<lparr>sl_cache = c, sl_block = b, sl_free_count = 0, sl_freelist = None\<rparr>) (s\<lparr>sl_pmm := p\<rparr>)"
  define s1 where "s1 = fold (\<lambda>i. add_object ?sl (object_addr ?c ?sl i)) [0..<slab_objects ?c] s0"
  define fr where "fr = rev (map (object_addr ?c ?sl) [0..<slab_objects ?c])"
  let ?F = "F(?sl := fr)"
  define s' where "s' = upd_cache c (\<lambda>c. c\<lparr>slabs_partial := [?sl]\<rparr>) s1"
  have "sl_freelist (slab_at s0 ?sl) = None" "sl_free_count (slab_at s0 ?sl) = 0" by (simp_all add: s0_def)
  from fold_objects[OF w order_refl this, folded s1_def fr_def]
  have f: "chain (obj_next s1) (sl_freelist (slab_at s1 ?sl)) fr" "sl_free_count (slab_at s1 ?sl) = slab_objects ?c"
    "\<And>a. a \<noteq> ?sl \<Longrightarrow> slab_at s1 a = slab_at s a" "sl_block (slab_at s1 ?sl) = b"
    "\<And>x. x \<notin> objects ?c ?sl \<Longrightarrow> obj_next s1 x = obj_next s x" "sl_pmm s1 = p" "hhdm s1 = hhdm s" "cache_at s1 = cache_at s"
    "magazine_at s1 = magazine_at s" "cpu_count s1 = cpu_count s" "slab_caches s1 = slab_caches s"
    unfolding Let_def by (auto simp: s0_def)
  have run: "cache_make_slab c s = Some (s1, ?sl)"
    using w by (simp add: cache_make_slab_def al s1_def s0_def cache_wf_def Let_def)
  have new: "?sl \<notin> set (slabs s d)" if "d \<in> C" for d
  proof
    assume "?sl \<in> set (slabs s d)"
    then have "slab_ok s B d F ?sl" using inv that by (auto simp: slab_inv_def cache_ok_def)
    then have "sl_block (slab_at s ?sl) \<in> B" "?sl = hhdm s + BLOCK_PADDR (sl_block (slab_at s ?sl))" by (simp_all add: slab_ok_def)
    then show False using P(2) by (simp add: BLOCK_PADDR_def ARCH_PAGE_GRANULARITY_def)
  qed
  have fr: "distinct fr" "set fr = objects ?c ?sl" "fr \<noteq> []" "length fr = slab_objects ?c"
    using object_addr_inj[OF w] w by (auto simp: fr_def objects_def distinct_map inj_on_def atLeast0LessThan cache_wf_def)
  have c': "cache_at s' c = ?c\<lparr>slabs_partial := [?sl], slabs_full := slabs_full ?c\<rparr>" by (simp add: s'_def f)
  have sh: "same_shape (cache_at s' c) ?c" by (simp add: c' same_shape_def)
  note ob = same_shapeD(1)[OF sh]
  have ok': "slab_ok s' (insert b B) c ?F ?sl"
    unfolding slab_ok_def ob using f P(3) fr same_shapeD(3)[OF sh] by (simp add: s'_def)
  have range: "{?sl ..< ?sl + block_bytes (block_order ?c)} \<inter> {sk ..< sk + block_bytes (block_order (cache_at s d))} = {}"
    if "d \<in> C" "sk \<in> set (slabs s d)" for d sk
  proof -
    have ok: "slab_ok s B d F sk" using inv that by (auto simp: slab_inv_def cache_ok_def)
    let ?b = "sl_block (slab_at s sk)"
    have "?b \<in> B" "sk = hhdm s + BLOCK_PADDR ?b" "ord p ?b = unat (block_order (cache_at s d))"
      using ok P(4) by (auto simp: slab_ok_def)
    moreover have "b \<noteq> ?b" using P(2) \<open>?b \<in> B\<close> by auto
    ultimately show ?thesis
      using blocks_apart[OF P(1), of b ?b "hhdm s"] P(3) unfolding block_bytes_def PMM_ORDER_TO_PAGECOUNT_def by auto
  qed
  have nx: "obj_next s' x = obj_next s x" if "d \<in> C" "sk \<in> set (slabs s d)" "sk \<noteq> ?sl" "x \<in> set (F sk)" for d sk x
  proof -
    have "slab_ok s B d F sk" "cache_wf (cache_at s d)" using inv that(1,2) by (auto simp: slab_inv_def cache_ok_def)
    then have "x \<in> {sk ..< sk + block_bytes (block_order (cache_at s d))}"
      using that(4) object_range by (auto simp: slab_ok_def)
    then have "x \<notin> objects ?c ?sl" using range[OF that(1,2)] object_range[OF w] by blast
    then show ?thesis by (simp add: s'_def f)
  qed
  have full: "slabs s c = slabs_full ?c" by (simp add: slabs_def part)
  have step: "slab_inv s' M (insert b B) C ?F \<and> (\<forall>d \<in> C. d \<noteq> c \<longrightarrow> allocated s' ?F d = allocated s F d)"
  proof (rule slab_inv_step[OF inv c, where sl = ?sl])
    show "pmm_inv (sl_pmm s') M (insert b B)" using P(1) by (simp add: s'_def f)
    show "page_db (sl_pmm s') a = page_db (sl_pmm s) a" if "a \<in> B" for a using that P(4) by (simp add: s'_def f)
    show "distinct (slabs s' c)" "set (slabs s' c) = insert ?sl (set (slabs s c))"
      using dist new[OF c] unfolding full by (simp_all add: slabs_def c')
    show "?F sk \<noteq> []" if "sk \<in> set (slabs_partial (cache_at s' c))" for sk using that fr(3) by (simp add: c')
    show "?F sk = []" if "sk \<in> set (slabs_full (cache_at s' c))" for sk
      using that co new[OF c] full by (auto simp: c' cache_ok_def)
  qed (fact sh ok' subset_insertI | erule (3) nx | erule new | simp add: s'_def f)+
  have "allocated s' ?F c = allocated s F c"
  proof -
    have "slabs s' c = ?sl # slabs s c" by (simp add: slabs_def c' part)
    then show ?thesis unfolding allocated_def ob using fr(2) new[OF c] by (auto split: if_splits)
  qed
  from in_useI[OF this _ c'] step have "in_use s F C c s' ?F (allocated s F c)" by (simp add: s'_def f)
  moreover have "seq_push (slabs_partial (cache_at s1 c)) ?sl = Some [?sl]" by (simp add: f part seq_push_def)
  ultimately show ?thesis using run step s'_def c' by auto
qed

lemma in_use_trans:
  assumes "in_use s F C c s1 F1 X" "in_use s1 F1 C c s2 F2 Y"
  shows "in_use s F C c s2 F2 Y"
proof -
  obtain p f p2 f2 where "cache_at s1 c = (cache_at s c)\<lparr>slabs_partial := p, slabs_full := f\<rparr>"
    "cache_at s2 c = (cache_at s1 c)\<lparr>slabs_partial := p2, slabs_full := f2\<rparr>" using assms by (auto simp: in_use_def)
  then have "cache_at s2 c = (cache_at s c)\<lparr>slabs_partial := p2, slabs_full := f2\<rparr>" by simp
  with assms show ?thesis unfolding in_use_def by auto
qed

text \<open>\<^verbatim>\<open>slab_direct_alloc\<close> fails only when the physical memory manager has no block for a new slab.\<close>

lemma slab_direct_alloc_ok:
  assumes inv: "slab_inv s M B C F" and c: "c \<in> C"
  shows "case slab_direct_alloc c s of
     None \<Rightarrow> slabs_partial (cache_at s c) = [] \<and> pmm_alloc (block_order (cache_at s c)) 0 (sl_pmm s) = None
   | Some (s', obj) \<Rightarrow> \<exists>B' F'. slab_inv s' M B' C F' \<and> B \<subseteq> B' \<and> obj \<notin> allocated s F c \<and>
       in_use s F C c s' F' (insert obj (allocated s F c))"
proof (cases "slabs_partial (cache_at s c) = []")
  case False
  then show ?thesis using slab_take_ok[OF inv c False] by (fastforce simp: slab_direct_alloc_def)
next
  case True
  show ?thesis
  proof (cases "pmm_alloc (block_order (cache_at s c)) 0 (sl_pmm s)")
    case None
    then show ?thesis using True by (simp add: slab_direct_alloc_def cache_make_slab_def)
  next
    case (Some pb)
    obtain p b where pb: "pb = (p, b)" by fastforce
    from make_slab_ok[OF inv c True Some[unfolded pb]] obtain s1 sl s2 F2 where s2: "cache_make_slab c s = Some (s1, sl)"
      "seq_push (slabs_partial (cache_at s1 c)) sl = Some [sl]" "s2 = upd_cache c (\<lambda>c. c\<lparr>slabs_partial := [sl]\<rparr>) s1"
      "slab_inv s2 M (insert b B) C F2" "in_use s F C c s2 F2 (allocated s F c)" "slabs_partial (cache_at s2 c) \<noteq> []" by blast
    have run: "slab_direct_alloc c s = slab_take c s2" using True s2(1,2,3) by (simp add: slab_direct_alloc_def)
    have a2: "allocated s2 F2 c = allocated s F c" using s2(5) by (simp add: in_use_def)
    from slab_take_ok[OF s2(4) c s2(6)] obtain s' obj F' where s': "slab_take c s2 = Some (s', obj)" "slab_inv s' M (insert b B) C F'"
      "obj \<notin> allocated s F c" "in_use s2 F2 C c s' F' (insert obj (allocated s F c))" unfolding a2 by blast
    have "in_use s F C c s' F' (insert obj (allocated s F c))" by (rule in_use_trans[OF s2(5) s'(4)])
    then show ?thesis unfolding run s'(1) using s'(2,3) by auto
  qed
qed

end
