(* ===== verification/SlabSpec.thy ===== *)
theory SlabSpec
  imports SlabInv
begin

text \<open>
  The magazine layer on top of the slabs, and the contract of an object allocator: objects in use are
  pairwise disjoint pieces of memory, and an object is never handed out while it is in use,
  whichever processors allocate and free.
\<close>

section \<open>Magazines\<close>

definition contents :: "slab_magazine \<Rightarrow> nat list" where
  "contents m = map the (take (round_count m) (rounds m))"

definition magazine_ok :: "slab_magazine \<Rightarrow> bool" where
  "magazine_ok m \<longleftrightarrow> length (rounds m) = MAGAZINE_SIZE \<and> round_count m \<le> MAGAZINE_SIZE \<and> None \<notin> set (take (round_count m) (rounds m))"

definition mags :: "slab_state \<Rightarrow> nat \<Rightarrow> nat list" where
  "mags s c = map (cpu_primary (cache_at s c)) [0..<cpu_count s] @ map (cpu_secondary (cache_at s c)) [0..<cpu_count s] @
     magazines_full (cache_at s c) @ magazines_empty (cache_at s c)"

definition stash :: "slab_state \<Rightarrow> nat \<Rightarrow> nat multiset" where
  "stash s c = (\<Sum>m \<in># mset (mags s c). mset (contents (magazine_at s m)))"

definition layer_ok :: "slab_state \<Rightarrow> nat \<Rightarrow> bool" where
  "layer_ok s c \<longleftrightarrow> distinct (mags s c) \<and> (\<forall>m \<in> set (mags s c). magazine_ok (magazine_at s m)) \<and>
     (\<forall>m \<in> set (magazines_full (cache_at s c)). round_count (magazine_at s m) = MAGAZINE_SIZE) \<and>
     (\<forall>m \<in> set (magazines_empty (cache_at s c)). round_count (magazine_at s m) = 0) \<and>
     (\<forall>i < cpu_count s. round_count (magazine_at s (cpu_secondary (cache_at s c) i)) \<in> {0, MAGAZINE_SIZE})"

definition layer_inv :: "slab_state \<Rightarrow> (nat \<Rightarrow> nat list) \<Rightarrow> nat \<Rightarrow> bool" where
  "layer_inv s F c \<longleftrightarrow> layer_ok s c \<and> (\<forall>x. count (stash s c) x \<le> 1) \<and> set_mset (stash s c) \<subseteq> allocated s F c"

definition enabled :: "slab_state \<Rightarrow> nat \<Rightarrow> bool" where
  "enabled s c = cpu_cache_enabled (cache_at s c)"

definition alloc_inv :: "slab_state \<Rightarrow> nat set \<Rightarrow> nat set \<Rightarrow> nat set \<Rightarrow> (nat \<Rightarrow> nat list) \<Rightarrow> bool" where
  "alloc_inv s M B C F \<longleftrightarrow> slab_inv s M B C F \<and> (\<forall>c \<in> C. enabled s c \<longrightarrow> layer_inv s F c) \<and>
     (\<forall>c \<in> C. \<forall>d \<in> C. enabled s c \<longrightarrow> enabled s d \<longrightarrow> c \<noteq> d \<longrightarrow> set (mags s c) \<inter> set (mags s d) = {})"

text \<open>The objects in the hands of the clients of cache \<open>c\<close>.\<close>

definition outstanding :: "slab_state \<Rightarrow> (nat \<Rightarrow> nat list) \<Rightarrow> nat \<Rightarrow> nat set" where
  "outstanding s F c = (if enabled s c then allocated s F c - set_mset (stash s c) else allocated s F c)"

section \<open>Moving magazines\<close>

lemma map_upd: "i < n \<Longrightarrow> map (f(i := q)) [0..<n] = (map f [0..<n])[i := q]"
  by (rule nth_equalityI) (auto simp: nth_list_update)

lemma mset_map_upd: "i < n \<Longrightarrow> mset (map (f(i := q)) [0..<n]) + {#f i#} = mset (map f [0..<n]) + {#q#}"
proof -
  assume i: "i < n"
  then have "f i \<in># mset (map f [0..<n])" by simp
  then show ?thesis unfolding map_upd[OF i] using i by (simp add: mset_update)
qed

text \<open>A step that only rearranges the magazines of cache \<open>c\<close>.\<close>

lemma rearrange:
  assumes inv: "alloc_inv s M B C F" and c: "c \<in> C" and s': "s' = upd_cache c g s"
    and g: "same_shape (g (cache_at s c)) (cache_at s c)" "slabs_partial (g (cache_at s c)) = slabs_partial (cache_at s c)"
      "slabs_full (g (cache_at s c)) = slabs_full (cache_at s c)" "cpu_cache_enabled (g (cache_at s c)) = cpu_cache_enabled (cache_at s c)"
    and m: "mset (mags s' c) = mset (mags s c)" and l: "enabled s c \<Longrightarrow> layer_ok s' c"
  shows "alloc_inv s' M B C F" "\<And>d. outstanding s' F d = outstanding s F d" "\<And>d. allocated s' F d = allocated s F d"
proof -
  have sl: "slabs s' d = slabs s d" for d using g by (simp add: slabs_def s')
  have sh: "same_shape (cache_at s' d) (cache_at s d)" for d using g(1) by (simp add: s' same_shape_def)
  have al: "allocated s' F d = allocated s F d" for d
    unfolding allocated_def sl same_shapeD(1)[OF sh] ..
  have st: "stash s' d = stash s d" for d
    using m by (cases "d = c") (simp_all add: stash_def s' mags_def)
  have en: "enabled s' d = enabled s d" for d using g(4) by (simp add: enabled_def s')
  have mg: "set (mags s' d) = set (mags s d)" for d using mset_eq_setD[OF m] by (cases "d = c") (simp_all add: s' mags_def)
  have si: "slab_inv s' M B C F"
  proof -
    have "cache_ok s' B d F" if "d \<in> C" for d
    proof -
      have co: "cache_ok s B d F" using inv that by (auto simp: alloc_inv_def slab_inv_def)
      have "slab_ok s' B d F sk" if "slab_ok s B d F sk" for sk
        by (rule slab_ok_cong[OF that]) (use sh in \<open>simp_all add: s'\<close>)
      then show ?thesis
        using co same_shapeD(2)[OF sh[of d]] g(2,3) unfolding cache_ok_def sl by (auto simp: s')
    qed
    then show ?thesis using inv sl by (simp add: alloc_inv_def slab_inv_def s')
  qed
  have "layer_inv s' F d" if "d \<in> C" "enabled s d" for d
  proof (cases "d = c")
    case True
    with inv that l show ?thesis by (auto simp: alloc_inv_def layer_inv_def st al)
  next
    case False
    have "layer_inv s F d" using inv that by (auto simp: alloc_inv_def)
    with False show ?thesis unfolding layer_inv_def st al layer_ok_def by (simp add: s' mags_def)
  qed
  then show "alloc_inv s' M B C F" using inv si unfolding alloc_inv_def en mg by auto
  show "\<And>d. outstanding s' F d = outstanding s F d" by (simp add: outstanding_def en al st)
  show "\<And>d. allocated s' F d = allocated s F d" by (rule al)
qed

text \<open>A step on the rounds of magazine \<open>p\<close> of cache \<open>c\<close>.\<close>

lemma stash_upd:
  assumes d: "distinct (mags s c)" and p: "p \<in> set (mags s c)"
  shows "stash (upd_magazine p f s) c + mset (contents (magazine_at s p)) = stash s c + mset (contents (f (magazine_at s p)))"
proof -
  have mg: "mags (upd_magazine p f s) c = mags s c" by (simp add: mags_def)
  obtain R where R: "mset (mags s c) = add_mset p R" using p by (metis insert_DiffM set_mset_mset)
  have "p \<notin># R"
  proof
    assume "p \<in># R"
    then have "2 \<le> count (mset (mags s c)) p" unfolding R by (simp add: Suc_le_eq)
    then show False using d by (metis Suc_1 count_mset_0_iff distinct_count_atmost_1 not_less_eq_eq zero_le le_numeral_extra(4) one_le_numeral order.trans)
  qed
  then have "(\<Sum>m \<in># R. mset (contents (magazine_at (upd_magazine p f s) m))) = (\<Sum>m \<in># R. mset (contents (magazine_at s m)))"
    by (intro arg_cong[of _ _ sum_mset] image_mset_cong) auto
  then show ?thesis unfolding stash_def mg R by simp
qed

lemma layer_okD:
  assumes "layer_ok s c"
  shows "distinct (mags s c)" "\<And>m. m \<in> set (mags s c) \<Longrightarrow> magazine_ok (magazine_at s m)"
    "\<And>m. m \<in> set (magazines_full (cache_at s c)) \<Longrightarrow> round_count (magazine_at s m) = MAGAZINE_SIZE"
    "\<And>m. m \<in> set (magazines_empty (cache_at s c)) \<Longrightarrow> round_count (magazine_at s m) = 0"
    "\<And>i. i < cpu_count s \<Longrightarrow> round_count (magazine_at s (cpu_secondary (cache_at s c) i)) = 0 \<or>
       round_count (magazine_at s (cpu_secondary (cache_at s c) i)) = MAGAZINE_SIZE"
  using assms by (auto simp: layer_ok_def)

lemma primary_step:
  assumes inv: "alloc_inv s M B C F" and c: "c \<in> C" and en: "enabled s c" and i: "i < cpu_count s"
    and p: "p = cpu_primary (cache_at s c) i" and f: "magazine_ok (f (magazine_at s p))"
    and T: "\<And>x. count (stash (upd_magazine p f s) c) x \<le> 1" "set_mset (stash (upd_magazine p f s) c) \<subseteq> allocated s F c"
  shows "alloc_inv (upd_magazine p f s) M B C F"
    "outstanding (upd_magazine p f s) F c = allocated s F c - set_mset (stash (upd_magazine p f s) c)"
    "\<And>d. d \<in> C \<Longrightarrow> d \<noteq> c \<Longrightarrow> outstanding (upd_magazine p f s) F d = outstanding s F d"
proof -
  let ?s = "upd_magazine p f s"
  have lo: "layer_ok s c" using inv c en by (auto simp: alloc_inv_def layer_inv_def)
  note L = layer_okD[OF lo]
  have pm: "p \<in> set (mags s c)" using i by (simp add: mags_def p)
  have po: "p \<notin> set (magazines_full (cache_at s c))" "p \<notin> set (magazines_empty (cache_at s c))"
    "\<And>j. j < cpu_count s \<Longrightarrow> cpu_secondary (cache_at s c) j \<noteq> p"
  proof -
    let ?P = "map (cpu_primary (cache_at s c)) [0..<cpu_count s]" and ?S = "map (cpu_secondary (cache_at s c)) [0..<cpu_count s]"
    have "p \<in> set ?P" using i by (simp add: p)
    moreover have "set ?P \<inter> set (?S @ magazines_full (cache_at s c) @ magazines_empty (cache_at s c)) = {}"
      using L(1) unfolding mags_def distinct_append by blast
    ultimately have n: "p \<notin> set (?S @ magazines_full (cache_at s c) @ magazines_empty (cache_at s c))" by blast
    then show "p \<notin> set (magazines_full (cache_at s c))" "p \<notin> set (magazines_empty (cache_at s c))" by simp_all
    show "cpu_secondary (cache_at s c) j \<noteq> p" if "j < cpu_count s" for j
      using n that by auto
  qed
  have mg: "mags ?s d = mags s d" for d by (simp add: mags_def)
  have al: "allocated ?s F d = allocated s F d" for d by (simp add: allocated_def slabs_def)
  have si: "slab_inv ?s M B C F"
  proof -
    have "slab_ok ?s B d F sk = slab_ok s B d F sk" for d sk by (simp add: slab_ok_def)
    then show ?thesis using inv by (simp add: alloc_inv_def slab_inv_def cache_ok_def slabs_def)
  qed
  have "layer_ok ?s c" unfolding layer_ok_def mg using L po f by auto
  then have lc: "layer_inv ?s F c" using T by (simp add: layer_inv_def al)
  have other: "p \<notin> set (mags s d)" if "d \<in> C" "d \<noteq> c" "enabled s d" for d
    using inv c en that pm unfolding alloc_inv_def by blast
  have sto: "stash ?s d = stash s d" if "d \<in> C" "d \<noteq> c" "enabled s d" for d
    unfolding stash_def mg using other[OF that] by (intro arg_cong[of _ _ sum_mset] image_mset_cong) auto
  have ld: "layer_inv ?s F d" if "d \<in> C" "d \<noteq> c" "enabled s d" for d
  proof -
    have ldo: "layer_inv s F d" using inv that by (auto simp: alloc_inv_def)
    have nm: "magazine_at ?s m = magazine_at s m" if "m \<in> set (mags s d)" for m using other[OF \<open>d \<in> C\<close> \<open>d \<noteq> c\<close> \<open>enabled s d\<close>] that by auto
    have sec: "cpu_secondary (cache_at s d) j \<in> set (mags s d)" if "j < cpu_count s" for j using that by (simp add: mags_def)
    have "layer_ok ?s d"
      unfolding layer_ok_def mg
    proof (intro conjI ballI allI impI)
      have lo: "layer_ok s d" using ldo by (simp add: layer_inv_def)
      show "distinct (mags s d)" by (rule layer_okD(1)[OF lo])
      show "magazine_ok (magazine_at ?s m)" if "m \<in> set (mags s d)" for m using nm[OF that] layer_okD(2)[OF lo that] by simp
      show "round_count (magazine_at ?s m) = MAGAZINE_SIZE" if "m \<in> set (magazines_full (cache_at ?s d))" for m
        using that nm[of m] layer_okD(3)[OF lo, of m] by (simp add: mags_def)
      show "round_count (magazine_at ?s m) = 0" if "m \<in> set (magazines_empty (cache_at ?s d))" for m
        using that nm[of m] layer_okD(4)[OF lo, of m] by (simp add: mags_def)
      show "round_count (magazine_at ?s (cpu_secondary (cache_at ?s d) j)) \<in> {0, MAGAZINE_SIZE}" if "j < cpu_count ?s" for j
        using that nm[OF sec[of j]] layer_okD(5)[OF lo, of j] by simp
    qed
    with ldo show ?thesis by (simp add: layer_inv_def sto[OF that] al)
  qed
  have en': "enabled ?s d = enabled s d" for d by (simp add: enabled_def)
  show "alloc_inv ?s M B C F"
    using inv si lc ld unfolding alloc_inv_def en' mg by blast
  show "outstanding ?s F c = allocated s F c - set_mset (stash ?s c)" by (simp add: outstanding_def en' en al)
  show "\<And>d. d \<in> C \<Longrightarrow> d \<noteq> c \<Longrightarrow> outstanding ?s F d = outstanding s F d" by (auto simp: outstanding_def en' al sto)
qed

section \<open>Rounds\<close>

lemma contents_pop:
  assumes "magazine_ok m" "0 < round_count m"
  shows "\<exists>obj. rounds m ! (round_count m - 1) = Some obj \<and>
    contents m = contents (m\<lparr>round_count := round_count m - 1\<rparr>) @ [obj] \<and> magazine_ok (m\<lparr>round_count := round_count m - 1\<rparr>)"
proof -
  obtain k where k: "round_count m = Suc k" using assms(2) by (cases "round_count m") auto
  have lt: "k < length (rounds m)" using assms(1) k by (simp add: magazine_ok_def)
  then have t: "take (Suc k) (rounds m) = take k (rounds m) @ [rounds m ! k]" by (rule take_Suc_conv_app_nth)
  have "None \<noteq> rounds m ! k" using assms(1) k t unfolding magazine_ok_def by auto
  then obtain obj where o: "rounds m ! k = Some obj" by (cases "rounds m ! k") auto
  with t k assms(1) show ?thesis by (auto simp: contents_def magazine_ok_def)
qed

lemma contents_push:
  assumes "magazine_ok m" "round_count m < MAGAZINE_SIZE"
  shows "contents (m\<lparr>rounds := (rounds m)[round_count m := Some obj], round_count := round_count m + 1\<rparr>) = contents m @ [obj]"
    "magazine_ok (m\<lparr>rounds := (rounds m)[round_count m := Some obj], round_count := round_count m + 1\<rparr>)"
proof -
  have lt: "round_count m < length (rounds m)" using assms by (simp add: magazine_ok_def)
  then have "take (Suc (round_count m)) ((rounds m)[round_count m := Some obj]) = take (round_count m) (rounds m) @ [Some obj]"
    by (simp add: take_Suc_conv_app_nth)
  with assms show "contents (m\<lparr>rounds := (rounds m)[round_count m := Some obj], round_count := round_count m + 1\<rparr>) = contents m @ [obj]"
    "magazine_ok (m\<lparr>rounds := (rounds m)[round_count m := Some obj], round_count := round_count m + 1\<rparr>)"
    by (auto simp: contents_def magazine_ok_def)
qed

text \<open>The result of an allocation and of a release, on all caches.\<close>

definition same_frame :: "slab_state \<Rightarrow> slab_state \<Rightarrow> bool" where
  "same_frame s s' \<longleftrightarrow> cpu_count s' = cpu_count s \<and> (\<forall>d. same_shape (cache_at s' d) (cache_at s d))"

lemma same_frame_trans: "same_frame s s1 \<Longrightarrow> same_frame s1 s2 \<Longrightarrow> same_frame s s2"
  by (simp add: same_frame_def same_shape_def)

definition alloc_result :: "slab_state \<Rightarrow> nat set \<Rightarrow> nat set \<Rightarrow> (nat \<Rightarrow> nat list) \<Rightarrow> nat \<Rightarrow> slab_state \<Rightarrow> nat \<Rightarrow> bool" where
  "alloc_result s M C F c s' obj \<longleftrightarrow> (\<exists>B' F'. alloc_inv s' M B' C F' \<and> same_frame s s' \<and> obj \<notin> outstanding s F c \<and>
     outstanding s' F' c = insert obj (outstanding s F c) \<and> (\<forall>d \<in> C. d \<noteq> c \<longrightarrow> outstanding s' F' d = outstanding s F d))"

definition free_result :: "slab_state \<Rightarrow> nat set \<Rightarrow> nat set \<Rightarrow> (nat \<Rightarrow> nat list) \<Rightarrow> nat \<Rightarrow> slab_state \<Rightarrow> nat \<Rightarrow> bool" where
  "free_result s M C F c s' obj \<longleftrightarrow> (\<exists>B' F'. alloc_inv s' M B' C F' \<and> same_frame s s' \<and>
     outstanding s' F' c = outstanding s F c - {obj} \<and> (\<forall>d \<in> C. d \<noteq> c \<longrightarrow> outstanding s' F' d = outstanding s F d))"

lemma take_round:
  assumes inv: "alloc_inv s M B C F" and c: "c \<in> C" and en: "enabled s c" and i: "i < cpu_count s"
    and p: "p = cpu_primary (cache_at s c) i" "0 < round_count (magazine_at s p)"
  shows "\<exists>s' obj. slab_alloc_loop c i s = Some (s', obj) \<and> alloc_result s M C F c s' obj"
proof -
  let ?f = "\<lambda>m. m\<lparr>round_count := round_count m - 1\<rparr>"
  let ?s = "upd_magazine p ?f s"
  have li: "layer_inv s F c" using inv c en by (auto simp: alloc_inv_def)
  then have lo: "layer_ok s c" by (simp add: layer_inv_def)
  have pm: "p \<in> set (mags s c)" using i by (simp add: mags_def p)
  obtain obj where o: "rounds (magazine_at s p) ! (round_count (magazine_at s p) - 1) = Some obj"
    "contents (magazine_at s p) = contents (?f (magazine_at s p)) @ [obj]" "magazine_ok (?f (magazine_at s p))"
    using contents_pop[OF layer_okD(2)[OF lo pm] p(2)] by blast
  have st: "stash s c = stash ?s c + {#obj#}"
    using stash_upd[OF layer_okD(1)[OF lo] pm, of ?f] unfolding o(2) by simp
  have cnt: "count (stash s c) x \<le> 1" for x using li by (simp add: layer_inv_def)
  have T: "count (stash ?s c) x \<le> 1" for x using cnt[of x] unfolding st by (auto split: if_splits)
  have sub: "set_mset (stash ?s c) \<subseteq> allocated s F c" and oa: "obj \<in> allocated s F c"
    using li unfolding layer_inv_def st by auto
  have "obj \<notin># stash ?s c"
  proof
    assume "obj \<in># stash ?s c"
    then have "2 \<le> count (stash s c) obj" unfolding st by (simp add: Suc_le_eq)
    then show False using cnt[of obj] by simp
  qed
  note no = this
  note ps = primary_step[where f = ?f, OF inv c en i p(1) o(3) T sub]
  have "outstanding s F c = allocated s F c - set_mset (stash s c)" using en by (simp add: outstanding_def)
  then have "outstanding s F c = outstanding ?s F c - {obj}" "obj \<in> outstanding ?s F c"
    using no oa unfolding ps(2) st by auto
  then have "outstanding ?s F c = insert obj (outstanding s F c)" "obj \<notin> outstanding s F c" by auto
  moreover have "same_frame s ?s" by (simp add: same_frame_def same_shape_def)
  ultimately have "alloc_result s M C F c ?s obj" unfolding alloc_result_def using ps(1,3) by blast
  moreover have "slab_alloc_loop c i s = Some (?s, obj)"
    using p o(1) by (simp add: slab_alloc_loop.simps Let_def)
  ultimately show ?thesis by blast
qed

lemma put_round:
  assumes inv: "alloc_inv s M B C F" and c: "c \<in> C" and en: "enabled s c" and i: "i < cpu_count s"
    and p: "p = cpu_primary (cache_at s c) i" "round_count (magazine_at s p) < MAGAZINE_SIZE" and obj: "obj \<in> outstanding s F c"
  shows "\<exists>s'. slab_free_loop c i obj s = Some s' \<and> free_result s M C F c s' obj"
proof -
  let ?f = "\<lambda>m. m\<lparr>rounds := (rounds m)[round_count m := Some obj], round_count := round_count m + 1\<rparr>"
  let ?s = "upd_magazine p ?f s"
  have li: "layer_inv s F c" using inv c en by (auto simp: alloc_inv_def)
  then have lo: "layer_ok s c" by (simp add: layer_inv_def)
  have pm: "p \<in> set (mags s c)" using i by (simp add: mags_def p)
  note o = contents_push[OF layer_okD(2)[OF lo pm] p(2), of obj]
  have st: "stash ?s c = stash s c + {#obj#}"
    using stash_upd[OF layer_okD(1)[OF lo] pm, of ?f] unfolding o(1) by simp
  have oo: "obj \<in> allocated s F c" "obj \<notin># stash s c" using obj en by (auto simp: outstanding_def)
  have cnt: "count (stash s c) x \<le> 1" for x using li by (simp add: layer_inv_def)
  have T: "count (stash ?s c) x \<le> 1" for x using cnt[of x] oo(2) unfolding st by (auto simp: not_in_iff)
  have sub: "set_mset (stash ?s c) \<subseteq> allocated s F c" using li oo(1) unfolding layer_inv_def st by auto
  note ps = primary_step[where f = ?f, OF inv c en i p(1) o(2) T sub]
  have "outstanding ?s F c = outstanding s F c - {obj}" using ps(2) en unfolding st by (auto simp: outstanding_def)
  moreover have "same_frame s ?s" by (simp add: same_frame_def same_shape_def)
  ultimately have "free_result s M C F c ?s obj"
    unfolding free_result_def using ps(1,3) by blast
  moreover have "slab_free_loop c i obj s = Some ?s"
    using p by (simp add: slab_free_loop.simps Let_def)
  ultimately show ?thesis by blast
qed

section \<open>Allocation and release\<close>

lemma direct_keeps:
  assumes inv: "alloc_inv s M B C F" and c: "c \<in> C" and si: "slab_inv s' M B' C F'" and use: "in_use s F C c s' F' X"
    and st: "enabled s c \<Longrightarrow> set_mset (stash s c) \<subseteq> X"
  shows "alloc_inv s' M B' C F'" "outstanding s' F' c = (if enabled s c then X - set_mset (stash s c) else X)"
    "\<And>d. d \<in> C \<Longrightarrow> d \<noteq> c \<Longrightarrow> outstanding s' F' d = outstanding s F d" "same_frame s s'"
proof -
  obtain ps fs where U: "cache_at s' c = (cache_at s c)\<lparr>slabs_partial := ps, slabs_full := fs\<rparr>"
    using use by (auto simp: in_use_def)
  have V: "allocated s' F' c = X" "\<And>d. d \<in> C \<Longrightarrow> d \<noteq> c \<Longrightarrow> allocated s' F' d = allocated s F d"
    "magazine_at s' = magazine_at s" "cpu_count s' = cpu_count s" "\<And>d. d \<noteq> c \<Longrightarrow> cache_at s' d = cache_at s d"
    using use by (auto simp: in_use_def)
  have mg: "mags s' d = mags s d" for d using U V(4,5) by (cases "d = c") (simp_all add: mags_def)
  have stsh: "stash s' d = stash s d" for d by (simp add: stash_def mg V)
  have en: "enabled s' d = enabled s d" for d using U V(5) by (cases "d = c") (simp_all add: enabled_def)
  have lo: "layer_ok s' d = layer_ok s d" for d using U V(3,4,5) unfolding layer_ok_def mg by (cases "d = c") simp_all
  have li: "layer_inv s' F' d" if "d \<in> C" "enabled s d" for d
    using inv that st V(1,2) unfolding alloc_inv_def layer_inv_def lo stsh by (cases "d = c") auto
  show "alloc_inv s' M B' C F'" using inv si li unfolding alloc_inv_def en mg by blast
  show "outstanding s' F' c = (if enabled s c then X - set_mset (stash s c) else X)"
    by (simp add: outstanding_def en V(1) stsh)
  show "\<And>d. d \<in> C \<Longrightarrow> d \<noteq> c \<Longrightarrow> outstanding s' F' d = outstanding s F d" by (simp add: outstanding_def en V(2) stsh)
  have "same_shape (cache_at s' d) (cache_at s d)" for d using U V(5)[of d] by (cases "d = c") (simp_all add: same_shape_def)
  then show "same_frame s s'" using V(4) by (simp add: same_frame_def)
qed

lemma stash_allocated: "alloc_inv s M B C F \<Longrightarrow> c \<in> C \<Longrightarrow> enabled s c \<Longrightarrow> set_mset (stash s c) \<subseteq> allocated s F c"
  by (auto simp: alloc_inv_def layer_inv_def)

definition no_block :: "slab_state \<Rightarrow> nat \<Rightarrow> bool" where
  "no_block s c \<longleftrightarrow> slabs_partial (cache_at s c) = [] \<and> pmm_alloc (block_order (cache_at s c)) 0 (sl_pmm s) = None"

lemma direct_alloc_layer:
  assumes inv: "alloc_inv s M B C F" and c: "c \<in> C"
  shows "case slab_direct_alloc c s of None \<Rightarrow> no_block s c | Some (s', obj) \<Rightarrow> alloc_result s M C F c s' obj"
proof -
  have "slab_inv s M B C F" using inv by (simp add: alloc_inv_def)
  note D = slab_direct_alloc_ok[OF this c]
  show ?thesis
  proof (cases "slab_direct_alloc c s")
    case None
    with D show ?thesis by (simp add: no_block_def)
  next
    case (Some r)
    obtain s' obj where r: "r = (s', obj)" by fastforce
    from D Some r obtain B' F' where d: "slab_inv s' M B' C F'" "obj \<notin> allocated s F c"
      "in_use s F C c s' F' (insert obj (allocated s F c))" by auto
    note st = stash_allocated[OF inv c]
    then have "enabled s c \<Longrightarrow> set_mset (stash s c) \<subseteq> insert obj (allocated s F c)" by blast
    note K = direct_keeps[OF inv c d(1,3) this]
    have "obj \<notin> outstanding s F c" using d(2) by (auto simp: outstanding_def)
    moreover have "outstanding s' F' c = insert obj (outstanding s F c)"
      using K(2) d(2) st by (auto simp: outstanding_def)
    ultimately have "alloc_result s M C F c s' obj" unfolding alloc_result_def using K(1,3,4) by blast
    with Some r show ?thesis by simp
  qed
qed

lemma direct_free_layer:
  assumes inv: "alloc_inv s M B C F" and c: "c \<in> C" and obj: "obj \<in> outstanding s F c"
  shows "\<exists>s'. slab_direct_free c obj s = Some s' \<and> free_result s M C F c s' obj"
proof -
  have si: "slab_inv s M B C F" using inv by (simp add: alloc_inv_def)
  have "obj \<in> allocated s F c" using obj by (auto simp: outstanding_def split: if_splits)
  from slab_direct_free_ok[OF si c this] obtain s' F' where d: "slab_direct_free c obj s = Some s'" "slab_inv s' M B C F'"
    "in_use s F C c s' F' (allocated s F c - {obj})" by blast
  have "set_mset (stash s c) \<subseteq> allocated s F c - {obj}" if "enabled s c"
    using stash_allocated[OF inv c that] obj that by (auto simp: outstanding_def)
  note K = direct_keeps[OF inv c d(2,3) this]
  have "outstanding s' F' c = outstanding s F c - {obj}" using K(2) by (auto simp: outstanding_def)
  with K(1,3,4) d(1) show ?thesis unfolding free_result_def by blast
qed

lemma mset_exchange:
  fixes A :: "'a multiset"
  assumes "A' + P = A + P'" "S' + Q = S + Q'" "X' + (P' + Q') = X + (P + Q)"
  shows "A' + (S' + X') = A + (S + X)"
proof (rule multiset_eqI)
  fix x
  from assms have "count (A' + P) x = count (A + P') x" "count (S' + Q) x = count (S + Q') x"
    "count (X' + (P' + Q')) x = count (X + (P + Q)) x" by simp_all
  then show "count (A' + (S' + X')) x = count (A + (S + X)) x" by simp
qed

text \<open>Processor \<open>i\<close> exchanges magazines: its own two, or one of them with the lists of the cache.\<close>

lemma exchange:
  assumes inv: "alloc_inv s M B C F" and c: "c \<in> C" and en: "enabled s c" and i: "i < cpu_count s"
    and s': "s' = upd_cache c g s"
    and g: "same_shape (g (cache_at s c)) (cache_at s c)" "slabs_partial (g (cache_at s c)) = slabs_partial (cache_at s c)"
      "slabs_full (g (cache_at s c)) = slabs_full (cache_at s c)" "cpu_cache_enabled (g (cache_at s c)) = cpu_cache_enabled (cache_at s c)"
    and pri: "cpu_primary (g (cache_at s c)) = (cpu_primary (cache_at s c))(i := p')"
    and sec: "cpu_secondary (g (cache_at s c)) = (cpu_secondary (cache_at s c))(i := q')"
    and bal: "mset (magazines_full (g (cache_at s c)) @ magazines_empty (g (cache_at s c))) + {#p', q'#} =
      mset (magazines_full (cache_at s c) @ magazines_empty (cache_at s c)) + {#cpu_primary (cache_at s c) i, cpu_secondary (cache_at s c) i#}"
    and full: "\<And>m. m \<in> set (magazines_full (g (cache_at s c))) \<Longrightarrow> round_count (magazine_at s m) = MAGAZINE_SIZE"
    and empty: "\<And>m. m \<in> set (magazines_empty (g (cache_at s c))) \<Longrightarrow> round_count (magazine_at s m) = 0"
    and q': "round_count (magazine_at s q') = 0 \<or> round_count (magazine_at s q') = MAGAZINE_SIZE"
  shows "alloc_inv s' M B C F \<and> (\<forall>d. outstanding s' F d = outstanding s F d) \<and> same_frame s s'"
proof -
  let ?c = "cache_at s c" and ?n = "cpu_count s"
  have "mset (map ((cpu_primary ?c)(i := p')) [0..<?n]) + {#cpu_primary ?c i#} = mset (map (cpu_primary ?c) [0..<?n]) + {#p'#}"
    "mset (map ((cpu_secondary ?c)(i := q')) [0..<?n]) + {#cpu_secondary ?c i#} = mset (map (cpu_secondary ?c) [0..<?n]) + {#q'#}"
    by (rule mset_map_upd[OF i])+
  moreover have "mset (magazines_full (g ?c) @ magazines_empty (g ?c)) + ({#p'#} + {#q'#}) =
      mset (magazines_full ?c @ magazines_empty ?c) + ({#cpu_primary ?c i#} + {#cpu_secondary ?c i#})"
    using bal by (simp add: add_mset_commute)
  ultimately have m: "mset (mags s' c) = mset (mags s c)" using mset_exchange by (simp only: mags_def s' pri sec mset_append slab_store_simps simp_thms if_True)
  have lo: "layer_ok s c" using inv c en by (auto simp: alloc_inv_def layer_inv_def)
  have "layer_ok s' c"
    unfolding layer_ok_def
  proof (intro conjI ballI allI impI)
    show "distinct (mags s' c)" using layer_okD(1)[OF lo] mset_eq_imp_distinct_iff[OF m] by blast
    show "magazine_ok (magazine_at s' k)" if "k \<in> set (mags s' c)" for k
      using layer_okD(2)[OF lo, of k] that mset_eq_setD[OF m] by (simp add: s')
    show "round_count (magazine_at s' k) = MAGAZINE_SIZE" if "k \<in> set (magazines_full (cache_at s' c))" for k
      using that full by (simp add: s')
    show "round_count (magazine_at s' k) = 0" if "k \<in> set (magazines_empty (cache_at s' c))" for k
      using that empty by (simp add: s')
    show "round_count (magazine_at s' (cpu_secondary (cache_at s' c) j)) \<in> {0, MAGAZINE_SIZE}" if "j < cpu_count s'" for j
      using that q' layer_okD(5)[OF lo, of j] by (auto simp: s' sec)
  qed
  moreover have "same_frame s s'" using g(1) by (simp add: s' same_frame_def same_shape_def)
  ultimately show ?thesis using rearrange[OF inv c s' g m] by blast
qed

lemma alloc_result_cong:
  assumes "alloc_result s1 M C F c s' obj" "\<And>d. outstanding s1 F d = outstanding s F d" "same_frame s s1"
  shows "alloc_result s M C F c s' obj"
  using assms(1) same_frame_trans[OF assms(3)] unfolding alloc_result_def assms(2) by blast

lemma free_result_cong:
  assumes "free_result s1 M C F c s' obj" "\<And>d. outstanding s1 F d = outstanding s F d" "same_frame s s1"
  shows "free_result s M C F c s' obj"
  using assms(1) same_frame_trans[OF assms(3)] unfolding free_result_def assms(2) by blast

lemma secondary_own:
  assumes "distinct (mags s c)" "i < cpu_count s"
  shows "cpu_secondary (cache_at s c) i \<notin> set (magazines_full (cache_at s c))"
    "cpu_secondary (cache_at s c) i \<notin> set (magazines_empty (cache_at s c))"
proof -
  let ?S = "map (cpu_secondary (cache_at s c)) [0..<cpu_count s]"
  have "cpu_secondary (cache_at s c) i \<in> set ?S" using assms(2) by simp
  moreover have "set ?S \<inter> set (magazines_full (cache_at s c) @ magazines_empty (cache_at s c)) = {}"
    using assms(1) unfolding mags_def distinct_append by blast
  ultimately show "cpu_secondary (cache_at s c) i \<notin> set (magazines_full (cache_at s c))"
    "cpu_secondary (cache_at s c) i \<notin> set (magazines_empty (cache_at s c))" unfolding set_append by blast+
qed

lemma slab_alloc_loop_ok:
  assumes inv: "alloc_inv s M B C F" and c: "c \<in> C" and en: "enabled s c" and i: "i < cpu_count s"
  shows "case slab_alloc_loop c i s of None \<Rightarrow> no_block s c | Some (s', obj) \<Rightarrow> alloc_result s M C F c s' obj"
proof -
  let ?c = "cache_at s c" and ?p = "cpu_primary (cache_at s c) i" and ?q = "cpu_secondary (cache_at s c) i"
  have lo: "layer_ok s c" using inv c en by (auto simp: alloc_inv_def layer_inv_def)
  note L = layer_okD[OF lo]
  show ?thesis
  proof (cases "0 < round_count (magazine_at s ?p)")
    case True
    from take_round[OF inv c en i refl this] show ?thesis by auto
  next
    case p: False
    show ?thesis
    proof (cases "round_count (magazine_at s ?q) = MAGAZINE_SIZE")
      case q: True
      define s1 where "s1 = upd_cache c (\<lambda>c. c\<lparr>cpu_primary := (cpu_primary c)(i := ?q), cpu_secondary := (cpu_secondary c)(i := ?p)\<rparr>) s"
      have run: "slab_alloc_loop c i s = slab_alloc_loop c i s1"
        using p q by (subst slab_alloc_loop.simps) (simp add: Let_def s1_def)
      have x: "alloc_inv s1 M B C F \<and> (\<forall>d. outstanding s1 F d = outstanding s F d) \<and> same_frame s s1"
        by (rule exchange[OF inv c en i s1_def, where p' = ?q and q' = ?p])
          (use p L in \<open>simp_all add: same_shape_def add_mset_commute\<close>)
      then have "\<exists>s' obj. slab_alloc_loop c i s1 = Some (s', obj) \<and> alloc_result s1 M C F c s' obj"
        by (intro take_round[OF _ c _ _ refl, of _ _ B])
          (use en i q in \<open>auto simp: s1_def enabled_def MAGAZINE_SIZE_def\<close>)
      then show ?thesis unfolding run using x alloc_result_cong by fastforce
    next
      case q: False
      then have q0: "round_count (magazine_at s ?q) = 0" using L(5)[OF i] by blast
      show ?thesis
      proof (cases "magazines_full ?c")
        case Nil
        then have "slab_alloc_loop c i s = slab_direct_alloc c s"
          using p q by (subst slab_alloc_loop.simps) (simp add: Let_def)
        then show ?thesis using direct_alloc_layer[OF inv c] by simp
      next
        case (Cons m rest)
        define s1 where "s1 = upd_cache c (\<lambda>c. c\<lparr>magazines_empty := ?q # magazines_empty ?c, magazines_full := rest,
          cpu_secondary := (cpu_secondary c)(i := ?p), cpu_primary := (cpu_primary c)(i := m)\<rparr>) s"
        have qe: "?q \<notin> set (magazines_empty ?c)" by (rule secondary_own(2)[OF L(1) i])
        then have run: "slab_alloc_loop c i s = slab_alloc_loop c i s1"
          using p q Cons by (subst slab_alloc_loop.simps) (simp add: Let_def s1_def seq_push_def seq_pop_def)
        have x: "alloc_inv s1 M B C F \<and> (\<forall>d. outstanding s1 F d = outstanding s F d) \<and> same_frame s s1"
          by (rule exchange[OF inv c en i s1_def, where p' = m and q' = ?p])
            (use p q0 L Cons in \<open>auto simp: same_shape_def add_mset_commute\<close>)
        then have "\<exists>s' obj. slab_alloc_loop c i s1 = Some (s', obj) \<and> alloc_result s1 M C F c s' obj"
          by (intro take_round[OF _ c _ _ refl, of _ _ B])
            (use en i Cons L(3)[of m] in \<open>auto simp: s1_def enabled_def MAGAZINE_SIZE_def\<close>)
        then show ?thesis unfolding run using x alloc_result_cong by fastforce
      qed
    qed
  qed
qed

lemma slab_free_loop_ok:
  assumes inv: "alloc_inv s M B C F" and c: "c \<in> C" and en: "enabled s c" and i: "i < cpu_count s" and obj: "obj \<in> outstanding s F c"
  shows "\<exists>s'. slab_free_loop c i obj s = Some s' \<and> free_result s M C F c s' obj"
proof -
  let ?c = "cache_at s c" and ?p = "cpu_primary (cache_at s c) i" and ?q = "cpu_secondary (cache_at s c) i"
  have lo: "layer_ok s c" using inv c en by (auto simp: alloc_inv_def layer_inv_def)
  note L = layer_okD[OF lo]
  show ?thesis
  proof (cases "round_count (magazine_at s ?p) < MAGAZINE_SIZE")
    case True
    from put_round[OF inv c en i refl this obj] show ?thesis .
  next
    case p: False
    have "?p \<in> set (mags s c)" using i by (simp add: mags_def)
    then have pf: "round_count (magazine_at s ?p) = MAGAZINE_SIZE" using L(2)[of ?p] p by (simp add: magazine_ok_def)
    show ?thesis
    proof (cases "round_count (magazine_at s ?q) = 0")
      case q: True
      define s1 where "s1 = upd_cache c (\<lambda>c. c\<lparr>cpu_primary := (cpu_primary c)(i := ?q), cpu_secondary := (cpu_secondary c)(i := ?p)\<rparr>) s"
      have run: "slab_free_loop c i obj s = slab_free_loop c i obj s1"
        using p q by (subst slab_free_loop.simps) (simp add: Let_def s1_def)
      have x: "alloc_inv s1 M B C F \<and> (\<forall>d. outstanding s1 F d = outstanding s F d) \<and> same_frame s s1"
        by (rule exchange[OF inv c en i s1_def, where p' = ?q and q' = ?p])
          (use pf L in \<open>simp_all add: same_shape_def add_mset_commute\<close>)
      then have "\<exists>s'. slab_free_loop c i obj s1 = Some s' \<and> free_result s1 M C F c s' obj"
        by (intro put_round[OF _ c _ _ refl, of _ _ B])
          (use en i q obj in \<open>auto simp: s1_def enabled_def MAGAZINE_SIZE_def\<close>)
      then show ?thesis unfolding run using x free_result_cong by fastforce
    next
      case q: False
      then have q0: "round_count (magazine_at s ?q) = MAGAZINE_SIZE" using L(5)[OF i] by simp
      show ?thesis
      proof (cases "magazines_empty ?c")
        case Nil
        then have "slab_free_loop c i obj s = slab_direct_free c obj s"
          using p q by (subst slab_free_loop.simps) (simp add: Let_def)
        then show ?thesis using direct_free_layer[OF inv c obj] by simp
      next
        case (Cons m rest)
        define s1 where "s1 = upd_cache c (\<lambda>c. c\<lparr>magazines_full := ?q # magazines_full ?c, magazines_empty := rest,
          cpu_secondary := (cpu_secondary c)(i := ?p), cpu_primary := (cpu_primary c)(i := m)\<rparr>) s"
        have qe: "?q \<notin> set (magazines_full ?c)" by (rule secondary_own(1)[OF L(1) i])
        then have run: "slab_free_loop c i obj s = slab_free_loop c i obj s1"
          using p q Cons by (subst slab_free_loop.simps) (simp add: Let_def s1_def seq_push_def seq_pop_def)
        have x: "alloc_inv s1 M B C F \<and> (\<forall>d. outstanding s1 F d = outstanding s F d) \<and> same_frame s s1"
          by (rule exchange[OF inv c en i s1_def, where p' = m and q' = ?p])
            (use pf q0 L Cons in \<open>auto simp: same_shape_def add_mset_commute\<close>)
        then have "\<exists>s'. slab_free_loop c i obj s1 = Some s' \<and> free_result s1 M C F c s' obj"
          by (intro put_round[OF _ c _ _ refl, of _ _ B])
            (use en i Cons L(4)[of m] obj in \<open>auto simp: s1_def enabled_def MAGAZINE_SIZE_def\<close>)
        then show ?thesis unfolding run using x free_result_cong by fastforce
      qed
    qed
  qed
qed

lemma slab_allocate_ok:
  assumes "alloc_inv s M B C F" "c \<in> C" "i < cpu_count s"
  shows "case slab_allocate i c s of None \<Rightarrow> no_block s c | Some (s', obj) \<Rightarrow> alloc_result s M C F c s' obj"
  using slab_alloc_loop_ok[OF assms(1,2) _ assms(3)] direct_alloc_layer[OF assms(1,2)]
  by (cases "enabled s c") (simp_all add: slab_allocate_def enabled_def)

lemma slab_free_ok:
  assumes "alloc_inv s M B C F" "c \<in> C" "i < cpu_count s" "obj \<in> outstanding s F c"
  shows "\<exists>s'. slab_free i c obj s = Some s' \<and> free_result s M C F c s' obj"
  using slab_free_loop_ok[OF assms(1,2) _ assms(3,4)] direct_free_layer[OF assms(1,2,4)]
  by (cases "enabled s c") (simp_all add: slab_free_def enabled_def)

text \<open>The objects in use occupy disjoint memory, within one cache and across caches.\<close>

definition extent :: "slab_state \<Rightarrow> nat \<Rightarrow> nat \<Rightarrow> nat set" where
  "extent s c x = {x ..< x + object_size (cache_at s c)}"

lemma object_extent:
  assumes "cache_wf c" "x \<in> objects c sl"
  shows "{x ..< x + object_size c} \<subseteq> {sl ..< sl + block_bytes (block_order c)}"
proof -
  obtain i where i: "i < slab_objects c" "x = object_addr c sl i" using assms(2) by (auto simp: objects_def)
  from object_fits[OF assms(1) i(1), of sl] show ?thesis unfolding i(2) by auto
qed

lemma same_slab_apart:
  assumes "cache_wf c" "x \<in> objects c sl" "y \<in> objects c sl" "x \<noteq> y"
  shows "{x ..< x + object_size c} \<inter> {y ..< y + object_size c} = {}"
proof -
  have apart: "object_addr c sl i + object_size c \<le> object_addr c sl j" if "i < j" for i j
  proof -
    have "Suc i * object_size c \<le> j * object_size c" using that by (intro mult_le_mono1) simp
    then show ?thesis by (simp add: object_addr_def)
  qed
  obtain i j where "x = object_addr c sl i" "y = object_addr c sl j" using assms(2,3) by (auto simp: objects_def)
  then show ?thesis using apart[of i j] apart[of j i] assms(4) by (cases i j rule: linorder_cases) auto
qed

lemma outstanding_apart:
  assumes inv: "alloc_inv s M B C F" and c: "c \<in> C" "x \<in> outstanding s F c" and d: "d \<in> C" "y \<in> outstanding s F d"
    and ne: "c \<noteq> d \<or> x \<noteq> y"
  shows "extent s c x \<inter> extent s d y = {}"
proof -
  have si: "slab_inv s M B C F" using inv by (simp add: alloc_inv_def)
  have w: "cache_wf (cache_at s c)" "cache_wf (cache_at s d)" using si c d by (auto simp: slab_inv_def cache_ok_def)
  obtain sl where sl: "sl \<in> set (slabs s c)" "x \<in> objects (cache_at s c) sl"
    using c(2) by (auto simp: outstanding_def allocated_def split: if_splits)
  obtain sk where sk: "sk \<in> set (slabs s d)" "y \<in> objects (cache_at s d) sk"
    using d(2) by (auto simp: outstanding_def allocated_def split: if_splits)
  show ?thesis
  proof (cases "sl = sk")
    case True
    then have "c = d" using si c(1) d(1) sl(1) sk(1) by (auto simp: slab_inv_def)
    with same_slab_apart[OF w(1) sl(2)] True ne sk(2) show ?thesis unfolding extent_def by auto
  next
    case False
    from slab_blocks_apart[OF si c(1) sl(1) d(1) sk(1) False] object_extent[OF w(1) sl(2)] object_extent[OF w(2) sk(2)]
    show ?thesis unfolding extent_def by blast
  qed
qed

section \<open>The interface of an object allocator\<close>

text \<open>
  A client of the allocator names a processor and a cache. \<open>live c\<close> are the objects of cache \<open>c\<close> it holds.
\<close>

datatype object_call = Get nat nat | Put nat nat nat

locale object_allocator =
  fixes inv :: "'s \<Rightarrow> (nat \<Rightarrow> nat set) \<Rightarrow> bool"
    and alloc :: "nat \<Rightarrow> nat \<Rightarrow> 's \<Rightarrow> ('s \<times> nat) option" and free :: "nat \<Rightarrow> nat \<Rightarrow> nat \<Rightarrow> 's \<Rightarrow> 's option"
    and cpus :: nat and caches :: "nat set" and bytes :: "nat \<Rightarrow> nat \<Rightarrow> nat set"
  assumes alloc_law: "inv s live \<Longrightarrow> c \<in> caches \<Longrightarrow> i < cpus \<Longrightarrow> alloc i c s = Some (s', obj) \<Longrightarrow>
      obj \<notin> live c \<and> inv s' (live(c := insert obj (live c)))"
    and free_law: "inv s live \<Longrightarrow> c \<in> caches \<Longrightarrow> i < cpus \<Longrightarrow> obj \<in> live c \<Longrightarrow>
      \<exists>s'. free i c obj s = Some s' \<and> inv s' (live(c := live c - {obj}))"
    and apart: "inv s live \<Longrightarrow> c \<in> caches \<Longrightarrow> d \<in> caches \<Longrightarrow> x \<in> live c \<Longrightarrow> y \<in> live d \<Longrightarrow> c \<noteq> d \<or> x \<noteq> y \<Longrightarrow>
      bytes c x \<inter> bytes d y = {}"

text \<open>A sequence of calls: \<open>None\<close> when an allocation fails, or a client frees what it does not hold.\<close>

fun object_calls :: "(nat \<Rightarrow> nat \<Rightarrow> 's \<Rightarrow> ('s \<times> nat) option) \<Rightarrow> (nat \<Rightarrow> nat \<Rightarrow> nat \<Rightarrow> 's \<Rightarrow> 's option) \<Rightarrow>
    object_call list \<Rightarrow> 's \<Rightarrow> (nat \<Rightarrow> nat set) \<Rightarrow> ('s \<times> (nat \<Rightarrow> nat set)) option" where
  "object_calls alloc free [] s live = Some (s, live)"
| "object_calls alloc free (Get i c # cs) s live = do {
     (s, obj) \<leftarrow> alloc i c s;
     object_calls alloc free cs s (live(c := insert obj (live c)))
   }"
| "object_calls alloc free (Put i c obj # cs) s live = (if obj \<in> live c then do {
     s \<leftarrow> free i c obj s;
     object_calls alloc free cs s (live(c := live c - {obj}))
   } else None)"

fun call_ok :: "nat \<Rightarrow> nat set \<Rightarrow> object_call \<Rightarrow> bool" where
  "call_ok n C (Get i c) = (i < n \<and> c \<in> C)"
| "call_ok n C (Put i c obj) = (i < n \<and> c \<in> C)"

context object_allocator
begin

lemma calls_inv:
  "inv s live \<Longrightarrow> list_all (call_ok cpus caches) cs \<Longrightarrow> object_calls alloc free cs s live = Some (s', live') \<Longrightarrow> inv s' live'"
proof (induction cs arbitrary: s live)
  case (Cons call cs)
  show ?case
  proof (cases call)
    case (Get i c)
    then obtain s1 obj where a: "alloc i c s = Some (s1, obj)" "object_calls alloc free cs s1 (live(c := insert obj (live c))) = Some (s', live')"
      using Cons.prems(3) by (auto split: bind_splits)
    have ok: "c \<in> caches" "i < cpus" "list_all (call_ok cpus caches) cs" using Cons.prems(2) Get by simp_all
    from alloc_law[OF Cons.prems(1) ok(1,2) a(1)] show ?thesis by (intro Cons.IH[OF _ ok(3) a(2)]) blast
  next
    case (Put i c obj)
    then have obj: "obj \<in> live c" "c \<in> caches" "i < cpus" using Cons.prems by (auto split: if_splits)
    from free_law[OF Cons.prems(1) obj(2,3,1)] obtain s1 where f: "free i c obj s = Some s1" "inv s1 (live(c := live c - {obj}))" by blast
    have "list_all (call_ok cpus caches) cs" "object_calls alloc free cs s1 (live(c := live c - {obj})) = Some (s', live')"
      using Cons.prems(2,3) Put obj(1) f(1) by simp_all
    from Cons.IH[OF f(2) this] show ?thesis .
  qed
qed simp

end

definition slab_live :: "nat \<Rightarrow> nat set \<Rightarrow> nat set \<Rightarrow> (nat \<Rightarrow> nat) \<Rightarrow> slab_state \<Rightarrow> (nat \<Rightarrow> nat set) \<Rightarrow> bool" where
  "slab_live n M C sz s live \<longleftrightarrow> cpu_count s = n \<and> (\<forall>c. object_size (cache_at s c) = sz c) \<and>
     (\<exists>B F. alloc_inv s M B C F \<and> (\<forall>c \<in> C. live c = outstanding s F c))"

lemma same_frame_live:
  assumes "same_frame s s'" "cpu_count s = n" "\<forall>c. object_size (cache_at s c) = sz c"
  shows "cpu_count s' = n" "\<forall>c. object_size (cache_at s' c) = sz c"
  using assms by (auto simp: same_frame_def same_shape_def)

interpretation oa: object_allocator "slab_live n M C sz" slab_allocate slab_free n C "\<lambda>c x. {x ..< x + sz c}" for n M C sz
proof
  fix s live c i s' obj
  assume L: "slab_live n M C sz s live" and c: "c \<in> C" and i: "i < n" and run: "slab_allocate i c s = Some (s', obj)"
  from L obtain B F where inv: "alloc_inv s M B C F" and lv: "\<forall>c \<in> C. live c = outstanding s F c"
    and fr: "cpu_count s = n" "\<forall>c. object_size (cache_at s c) = sz c" by (auto simp: slab_live_def)
  have "alloc_result s M C F c s' obj" using slab_allocate_ok[OF inv c, of i] i fr(1) run by simp
  then obtain B' F' where r: "alloc_inv s' M B' C F'" "same_frame s s'" "obj \<notin> outstanding s F c"
    "outstanding s' F' c = insert obj (outstanding s F c)" "\<forall>d \<in> C. d \<noteq> c \<longrightarrow> outstanding s' F' d = outstanding s F d"
    unfolding alloc_result_def by blast
  have "\<forall>d \<in> C. (live(c := insert obj (live c))) d = outstanding s' F' d" using r(4,5) lv c by auto
  then show "obj \<notin> live c \<and> slab_live n M C sz s' (live(c := insert obj (live c)))"
    using r(1,3) lv c same_frame_live[OF r(2) fr] unfolding slab_live_def by blast
next
  fix s live c i obj
  assume L: "slab_live n M C sz s live" and c: "c \<in> C" and i: "i < n" and obj: "obj \<in> live c"
  from L obtain B F where inv: "alloc_inv s M B C F" and lv: "\<forall>c \<in> C. live c = outstanding s F c"
    and fr: "cpu_count s = n" "\<forall>c. object_size (cache_at s c) = sz c" by (auto simp: slab_live_def)
  obtain s' where s': "slab_free i c obj s = Some s'" "free_result s M C F c s' obj"
    using slab_free_ok[OF inv c, of i obj] i fr(1) obj lv c by auto
  then obtain B' F' where r: "alloc_inv s' M B' C F'" "same_frame s s'"
    "outstanding s' F' c = outstanding s F c - {obj}" "\<forall>d \<in> C. d \<noteq> c \<longrightarrow> outstanding s' F' d = outstanding s F d"
    unfolding free_result_def by blast
  have "\<forall>d \<in> C. (live(c := live c - {obj})) d = outstanding s' F' d" using r(3,4) lv c by auto
  then show "\<exists>s'. slab_free i c obj s = Some s' \<and> slab_live n M C sz s' (live(c := live c - {obj}))"
    using r(1) s'(1) same_frame_live[OF r(2) fr] unfolding slab_live_def by blast
next
  fix s live c d x y
  assume "slab_live n M C sz s live" "c \<in> C" "d \<in> C" "x \<in> live c" "y \<in> live d" "c \<noteq> d \<or> x \<noteq> y"
  then show "{x ..< x + sz c} \<inter> {y ..< y + sz d} = {}"
    unfolding slab_live_def using outstanding_apart[of s M _ C _ c x d y] by (fastforce simp: extent_def)
qed

section \<open>Properties\<close>

text \<open>A concrete state: one cache (100) of 64 byte objects in blocks of order 1, and one processor with two empty magazines.\<close>

definition slab_demo :: slab_state where
  "slab_demo = \<lparr>sl_pmm = pmm_demo, hhdm = 2 ^ 47, cpu_count = 1, slab_at = (\<lambda>_. \<lparr>sl_cache = 0, sl_block = 0, sl_free_count = 0, sl_freelist = None\<rparr>),
     obj_next = (\<lambda>_. None), magazine_at = (\<lambda>_. \<lparr>round_count = 0, rounds = replicate MAGAZINE_SIZE None\<rparr>),
     cache_at = (\<lambda>_. (static_cache 64 1)\<lparr>cpu_cache_enabled := True, cpu_primary := (\<lambda>_. 1), cpu_secondary := (\<lambda>_. 2)\<rparr>), slab_caches = [100]\<rparr>"

lemma slab_demo_objects: "slab_objects (cache_at slab_demo c) = 127"
  by (simp add: slab_objects_def slab_demo_def static_cache_def block_bytes_def PMM_ORDER_TO_PAGECOUNT_def
    ARCH_PAGE_GRANULARITY_def SIZEOF_SLAB_def)

lemma slab_demo_inv: "alloc_inv slab_demo {4096, 4097} {} {100} (\<lambda>_. [])"
proof -
  have "cache_wf (cache_at slab_demo 100)" unfolding cache_wf_def slab_demo_objects
    by (simp add: slab_demo_def static_cache_def PMM_MAX_ORDER_def)
  then have "slab_inv slab_demo {4096, 4097} {} {100} (\<lambda>_. [])"
    using pmm_demo_inv by (simp add: slab_inv_def cache_ok_def slabs_def slab_demo_def static_cache_def)
  moreover have "layer_inv slab_demo (\<lambda>_. []) 100"
    by (simp add: layer_inv_def layer_ok_def mags_def stash_def slab_demo_def static_cache_def magazine_ok_def contents_def)
  ultimately show ?thesis by (simp add: alloc_inv_def)
qed

lemma slab_demo_outstanding: "outstanding slab_demo (\<lambda>_. []) c = {}"
  by (simp add: outstanding_def allocated_def slabs_def slab_demo_def static_cache_def)

lemma slab_demo_alloc:
  "\<exists>s obj. slab_allocate 0 100 slab_demo = Some (s, obj) \<and> alloc_result slab_demo {4096, 4097} {100} (\<lambda>_. []) 100 s obj"
proof -
  have "\<exists>s' b. pmm_alloc 1 0 pmm_demo = Some (s', b)"
    using pmm_alloc_inv[OF pmm_demo_inv, of 1 1 0] by (auto simp: pmm_demo_def alloc_zone_def PMM_FLAG_ZONE_LOW_def PMM_MAX_ORDER_def)
  then have "\<not> no_block slab_demo 100" by (auto simp: no_block_def slab_demo_def static_cache_def)
  moreover have "0 < cpu_count slab_demo" by (simp add: slab_demo_def)
  ultimately show ?thesis using slab_allocate_ok[OF slab_demo_inv, of 100 0] by (auto split: option.splits)
qed

text \<open>
  (C17) \<^verbatim>\<open>slab_allocate\<close>, on any processor, whatever the state of its magazines: the loop over the magazines
  ends, and the call returns an object of the cache that no client holds, which no magazine holds
  any more. The objects of the other caches, the free lists of the slabs and the buddy allocator below
  keep their invariants. It fails only when a new slab is needed and the physical memory manager has no block.
\<close>

theorem slab_allocate_correct:
  assumes "alloc_inv s M B C F" "c \<in> C" "i < cpu_count s"
  shows "case slab_allocate i c s of
      None \<Rightarrow> slabs_partial (cache_at s c) = [] \<and> pmm_alloc (block_order (cache_at s c)) 0 (sl_pmm s) = None
    | Some (s', obj) \<Rightarrow> \<exists>B' F'. alloc_inv s' M B' C F' \<and> obj \<notin> outstanding s F c \<and>
        outstanding s' F' c = insert obj (outstanding s F c) \<and> (\<forall>d \<in> C. d \<noteq> c \<longrightarrow> outstanding s' F' d = outstanding s F d)"
  using slab_allocate_ok[OF assms] unfolding no_block_def alloc_result_def by (auto split: option.splits) 

theorem slab_allocate_correct_witness:
  "\<exists>s' obj B' F'. slab_allocate 0 100 slab_demo = Some (s', obj) \<and> alloc_inv s' {4096, 4097} B' {100} F' \<and> outstanding s' F' 100 = {obj}"
proof -
  have "\<exists>s' b. pmm_alloc 1 0 pmm_demo = Some (s', b)"
    using pmm_alloc_inv[OF pmm_demo_inv, of 1 1 0] by (auto simp: pmm_demo_def alloc_zone_def PMM_FLAG_ZONE_LOW_def PMM_MAX_ORDER_def)
  then have "pmm_alloc (block_order (cache_at slab_demo 100)) 0 (sl_pmm slab_demo) \<noteq> None"
    by (auto simp: slab_demo_def static_cache_def)
  moreover have "0 < cpu_count slab_demo" by (simp add: slab_demo_def)
  ultimately show ?thesis
    using slab_allocate_correct[OF slab_demo_inv, of 100 0] by (auto simp: slab_demo_outstanding split: option.splits)
qed

text \<open>
  (C18) \<^verbatim>\<open>slab_free\<close> of an object a client holds returns, on any processor, and takes exactly this object out of the
  clients' hands; it finds the slab of the object from its address alone. The invariant is kept, so the object can be
  allocated again and no other object is lost.
\<close>

theorem slab_free_correct:
  assumes "alloc_inv s M B C F" "c \<in> C" "i < cpu_count s" "obj \<in> outstanding s F c"
  shows "\<exists>s' B' F'. slab_free i c obj s = Some s' \<and> alloc_inv s' M B' C F' \<and>
    outstanding s' F' c = outstanding s F c - {obj} \<and> (\<forall>d \<in> C. d \<noteq> c \<longrightarrow> outstanding s' F' d = outstanding s F d)"
  using slab_free_ok[OF assms] unfolding free_result_def by blast

theorem slab_free_correct_witness:
  "\<exists>s obj s' B F. slab_allocate 0 100 slab_demo = Some (s, obj) \<and> slab_free 0 100 obj s = Some s' \<and>
    alloc_inv s' {4096, 4097} B {100} F \<and> outstanding s' F 100 = {}"
proof -
  obtain s obj where s: "slab_allocate 0 100 slab_demo = Some (s, obj)" "alloc_result slab_demo {4096, 4097} {100} (\<lambda>_. []) 100 s obj"
    using slab_demo_alloc by blast
  then obtain B F where r: "alloc_inv s {4096, 4097} B {100} F" "same_frame slab_demo s" "outstanding s F 100 = {obj}"
    by (auto simp: alloc_result_def slab_demo_outstanding)
  have "0 < cpu_count s" using r(2) by (simp add: same_frame_def slab_demo_def)
  from slab_free_correct[OF r(1) _ this, of 100 obj] r(3) s(1) show ?thesis by auto
qed

text \<open>
  (C19) Safety of every sequence of allocations and frees from all processors and all caches: the objects held at the end
  occupy pairwise disjoint memory, and each of them can be freed on any processor.
\<close>

theorem slab_calls_safe:
  assumes "alloc_inv s M B C F" "list_all (call_ok (cpu_count s) C) cs"
    and "object_calls slab_allocate slab_free cs s (outstanding s F) = Some (s', live)"
  shows "\<forall>c \<in> C. \<forall>x \<in> live c.
    (\<forall>d \<in> C. \<forall>y \<in> live d. c \<noteq> d \<or> x \<noteq> y \<longrightarrow>
      {x ..< x + object_size (cache_at s c)} \<inter> {y ..< y + object_size (cache_at s d)} = {}) \<and>
    (\<forall>i < cpu_count s. slab_free i c x s' \<noteq> None)"
proof -
  let ?sz = "\<lambda>c. object_size (cache_at s c)" and ?n = "cpu_count s"
  have "slab_live ?n M C ?sz s (outstanding s F)" using assms(1) by (auto simp: slab_live_def)
  from oa.calls_inv[OF this assms(2,3)] have L: "slab_live ?n M C ?sz s' live" .
  show ?thesis
  proof (intro ballI conjI allI impI)
    fix c x i assume "c \<in> C" "x \<in> live c" "i < ?n"
    then show "slab_free i c x s' \<noteq> None" using oa.free_law[OF L, of c i x] by auto
  qed (use oa.apart[OF L] in blast)
qed

theorem slab_calls_safe_witness:
  "\<exists>s obj. object_calls slab_allocate slab_free [Get 0 100] slab_demo (\<lambda>_. {}) = Some (s, (\<lambda>_. {})(100 := {obj})) \<and>
    slab_free 0 100 obj s \<noteq> None"
proof -
  obtain s obj where s: "slab_allocate 0 100 slab_demo = Some (s, obj)" using slab_demo_alloc by blast
  have o: "outstanding slab_demo (\<lambda>_. []) = (\<lambda>_. {})" by (rule ext) (rule slab_demo_outstanding)
  have n: "cpu_count slab_demo = 1" by (simp add: slab_demo_def)
  have "object_calls slab_allocate slab_free [Get 0 100] slab_demo (outstanding slab_demo (\<lambda>_. [])) = Some (s, (\<lambda>_. {})(100 := {obj}))"
    using s by (simp add: o)
  from slab_calls_safe[OF slab_demo_inv _ this] this[unfolded o] show ?thesis
    by (intro exI[of _ s] exI[of _ obj] conjI) (simp_all add: n)
qed

end
