(* ===== verification/Heap.thy ===== *)
theory Heap
  imports SlabSpec LibMem Earlymem
begin

text \<open>
  The kernel heap of \<^verbatim>\<open>memory/heap.c\<close>: requests of up to 2048 bytes go to one of fifteen slab caches,
  larger ones to the physical memory manager. Sizes are 64 bit words. A pointer is an optional
  address; \<open>hp_mem\<close> is the content of the memory the clients of the heap use. The links that
  the slab allocator keeps in free objects are the field \<open>obj_next\<close> of its own state.
\<close>

section \<open>State\<close>

definition g_slab_8x_sizes :: "nat list" where "g_slab_8x_sizes = [8, 16, 24, 32, 40, 48, 56, 64, 72]"
definition g_slab_128x_sizes :: "nat list" where "g_slab_128x_sizes = [128, 256, 384, 512]"
definition g_slab_other_sizes :: "nat list" where "g_slab_other_sizes = [1024, 2048]"

record heap =
  hp_slab :: slab_state
  hp_mem :: memory
  g_8x_slabs :: "nat option list"
  g_128x_slabs :: "nat option list"
  g_other_slabs :: "nat option list"

text \<open>An element of an array of cache pointers: out of bounds, or \<^verbatim>\<open>nullptr\<close>, is \<open>None\<close>.\<close>

definition cache_nth :: "nat option list \<Rightarrow> nat \<Rightarrow> nat option" where
  "cache_nth xs i = (if i < length xs then xs ! i else None)"

text \<open>The index \<^verbatim>\<open>MATH_DIV_CEIL(size, n) - 1\<close>, in 64 bit arithmetic.\<close>

definition size_index :: "u64 \<Rightarrow> u64 \<Rightarrow> nat" where
  "size_index size' n = unat ((size' + n - 1) div n - 1)"

fun find_other :: "nat list \<Rightarrow> nat option list \<Rightarrow> nat \<Rightarrow> nat option" where
  "find_other (z # zs) (c # cs) n = (if z < n then find_other zs cs n else c)"
| "find_other _ _ n = None"

definition find_cache :: "u64 \<Rightarrow> heap \<Rightarrow> nat option" where
  "find_cache size' h =
    (if unat size' \<le> last g_slab_8x_sizes then cache_nth (g_8x_slabs h) (size_index size' 8)
     else if unat size' \<le> last g_slab_128x_sizes then cache_nth (g_128x_slabs h) (size_index size' 128)
     else find_other g_slab_other_sizes (g_other_slabs h) (unat size'))"

section \<open>Operations\<close>

definition heap_alloc :: "nat \<Rightarrow> u64 \<Rightarrow> heap \<Rightarrow> (heap \<times> nat option) option" where
  "heap_alloc cpu size' h =
    (if size' = 0 then Some (h, None)
     else if unat size' > last g_slab_other_sizes then do {
       (p, block) \<leftarrow> pmm_alloc_pages ((size' + of_nat ARCH_PAGE_GRANULARITY - 1) div of_nat ARCH_PAGE_GRANULARITY) 0 (sl_pmm (hp_slab h));
       Some (h\<lparr>hp_slab := (hp_slab h)\<lparr>sl_pmm := p\<rparr>\<rparr>, Some (hhdm (hp_slab h) + BLOCK_PADDR block))
     } else do {
       c \<leftarrow> find_cache size' h;
       (s, obj) \<leftarrow> slab_allocate cpu c (hp_slab h);
       Some (h\<lparr>hp_slab := s\<rparr>, Some obj)
     })"

definition heap_free :: "nat \<Rightarrow> nat option \<Rightarrow> u64 \<Rightarrow> heap \<Rightarrow> heap option" where
  "heap_free cpu address size' h = (case address of None \<Rightarrow> Some h | Some a \<Rightarrow>
     if unat size' > last g_slab_other_sizes then do {
       p \<leftarrow> pmm_free (PAGE (a - hhdm (hp_slab h))) (sl_pmm (hp_slab h));
       Some (h\<lparr>hp_slab := (hp_slab h)\<lparr>sl_pmm := p\<rparr>\<rparr>)
     } else do {
       c \<leftarrow> find_cache size' h;
       s \<leftarrow> slab_free cpu c a (hp_slab h);
       Some (h\<lparr>hp_slab := s\<rparr>)
     })"

text \<open>The copy of \<^verbatim>\<open>heap_realloc\<close> faults when \<^verbatim>\<open>heap_alloc\<close> returned \<^verbatim>\<open>nullptr\<close>.\<close>

definition heap_realloc :: "nat \<Rightarrow> nat option \<Rightarrow> u64 \<Rightarrow> u64 \<Rightarrow> heap \<Rightarrow> (heap \<times> nat option) option" where
  "heap_realloc cpu address current_size new_size h =
    (if current_size = new_size then Some (h, address)
     else if address = None \<and> new_size = 0 then Some (h, address)
     else do {
       (h, new_address) \<leftarrow> heap_alloc cpu new_size h;
       case address of None \<Rightarrow> Some (h, new_address) | Some a \<Rightarrow>
         if current_size = 0 then Some (h, new_address)
         else do {
           n \<leftarrow> new_address;
           let h = h\<lparr>hp_mem := mem_copy n a (if current_size > new_size then unat current_size else unat new_size) (hp_mem h)\<rparr>;
           h \<leftarrow> heap_free cpu address current_size h;
           Some (h, new_address)
         }
     })"

definition heap_reallocarray :: "nat \<Rightarrow> nat option \<Rightarrow> u64 \<Rightarrow> u64 \<Rightarrow> u64 \<Rightarrow> heap \<Rightarrow> (heap \<times> nat option) option" where
  "heap_reallocarray cpu array' element_size current_count new_count h =
    heap_realloc cpu array' (current_count * element_size) (new_count * element_size) h"

text \<open>The hook \<^verbatim>\<open>init_slab_cache\<close>: one cache for each size.\<close>

fun create_caches :: "nat \<Rightarrow> u8 \<Rightarrow> nat list \<Rightarrow> slab_state \<Rightarrow> (slab_state \<times> nat option list) option" where
  "create_caches cpu order [] s = Some (s, [])"
| "create_caches cpu order (z # zs) s = do {
     (s, c) \<leftarrow> slab_cache_create cpu z order s;
     (s, cs) \<leftarrow> create_caches cpu order zs s;
     Some (s, Some c # cs)
   }"

definition heap_init :: "nat \<Rightarrow> heap \<Rightarrow> heap option" where
  "heap_init cpu h = do {
     (s, c8) \<leftarrow> create_caches cpu 2 g_slab_8x_sizes (hp_slab h);
     (s, c128) \<leftarrow> create_caches cpu 3 g_slab_128x_sizes s;
     (s, others) \<leftarrow> create_caches cpu 5 g_slab_other_sizes s;
     Some (h\<lparr>hp_slab := s, g_8x_slabs := c8, g_128x_slabs := c128, g_other_slabs := others\<rparr>)
   }"

text \<open>The initialisation target \<^verbatim>\<open>slab\<close> runs the hook when the static caches are set up.\<close>

definition slab_target :: "nat \<Rightarrow> heap \<Rightarrow> heap option" where
  "slab_target cpu h = do {
     s \<leftarrow> slab_init (hp_slab h);
     heap_init cpu (h\<lparr>hp_slab := s\<rparr>)
   }"

section \<open>The invariant\<close>

text \<open>Every cache pointer is set, to a cache of the allocator with the object size of its slot.\<close>

definition caches_ok :: "slab_state \<Rightarrow> nat set \<Rightarrow> nat list \<Rightarrow> nat option list \<Rightarrow> bool" where
  "caches_ok s C zs cs \<longleftrightarrow> list_all2 (\<lambda>z p. \<exists>c \<in> C. p = Some c \<and> object_size (cache_at s c) = z) zs cs"

definition heap_wf :: "heap \<Rightarrow> nat set \<Rightarrow> bool" where
  "heap_wf h C \<longleftrightarrow> caches_ok (hp_slab h) C g_slab_8x_sizes (g_8x_slabs h) \<and>
     caches_ok (hp_slab h) C g_slab_128x_sizes (g_128x_slabs h) \<and> caches_ok (hp_slab h) C g_slab_other_sizes (g_other_slabs h)"

lemma unat_round_up:
  fixes a n :: u64
  assumes "unat a + unat n < 2 ^ 64" "0 < unat n"
  shows "unat (a + n - 1) = unat a + unat n - 1"
proof -
  have s: "unat (a + n) = unat a + unat n" using assms(1) by (simp add: unat_plus_if')
  with assms(2) have "a + n \<noteq> 0" by (metis add_is_0 less_nat_zero_code unsigned_0)
  from unat_minus_one[OF this] show ?thesis unfolding s .
qed

lemma size_index_eq:
  assumes "0 < unat size'" "unat size' \<le> 2048" "n = 8 \<or> n = 128"
  shows "size_index size' n = (unat size' - 1) div unat n"
proof -
  have n: "0 < unat n" "unat n \<le> 128" using assms(3) by auto
  have "unat (size' + n - 1) = unat size' + unat n - 1" 
  proof (rule unat_round_up)
    have "unat size' + unat n \<le> 2176" using assms(2) n(2) by linarith
    also have "(2176 :: nat) < 2 ^ 64" by simp
    finally show "unat size' + unat n < 2 ^ 64" .
  qed (rule n(1))
  then have q: "unat ((size' + n - 1) div n) = (unat size' + unat n - 1) div unat n" by (simp add: unat_div)
  also have "\<dots> = (unat size' - 1) div unat n + 1"
  proof -
    have "unat size' + unat n - 1 = (unat size' - 1) + unat n" using assms(1) by simp
    then show ?thesis using n(1) div_add_self2[of "unat n" "unat size' - 1"] by (simp only:)
  qed
  finally have "unat ((size' + n - 1) div n) = (unat size' - 1) div unat n + 1" .
  moreover from this have "(size' + n - 1) div n \<noteq> 0" by (metis add_is_0 one_neq_zero unsigned_0)
  ultimately show ?thesis unfolding size_index_def by (simp add: unat_minus_one)
qed

lemma cache_nth_ok:
  assumes "caches_ok s C zs cs" "i < length zs"
  shows "\<exists>c \<in> C. cache_nth cs i = Some c \<and> object_size (cache_at s c) = zs ! i"
  using assms unfolding caches_ok_def cache_nth_def by (auto simp: list_all2_conv_all_nth)

lemma find_other_ok:
  assumes "caches_ok s C zs cs" "\<exists>z \<in> set zs. n \<le> z"
  shows "\<exists>c \<in> C. find_other zs cs n = Some c \<and> n \<le> object_size (cache_at s c)"
  using assms unfolding caches_ok_def
  by (induction zs cs n rule: find_other.induct) (auto simp: list_all2_Cons1)

lemma slot_8: "k < 72 \<Longrightarrow> k div 8 < 9 \<and> k < g_slab_8x_sizes ! (k div 8)"
proof -
  assume k: "k < (72 :: nat)"
  have "g_slab_8x_sizes ! i = 8 * i + 8" if "i < 9" for i
  proof -
    have "i = 0 \<or> i = 1 \<or> i = 2 \<or> i = 3 \<or> i = 4 \<or> i = 5 \<or> i = 6 \<or> i = 7 \<or> i = 8" using that by linarith
    then show ?thesis by (auto simp: g_slab_8x_sizes_def)
  qed
  moreover have "k div 8 < 9" using k by simp
  moreover have "k < 8 * (k div 8) + 8" by presburger
  ultimately show ?thesis by simp
qed

lemma slot_128: "k < 512 \<Longrightarrow> k div 128 < 4 \<and> k < g_slab_128x_sizes ! (k div 128)"
proof -
  assume k: "k < (512 :: nat)"
  have "g_slab_128x_sizes ! i = 128 * i + 128" if "i < 4" for i
  proof -
    have "i = 0 \<or> i = 1 \<or> i = 2 \<or> i = 3" using that by linarith
    then show ?thesis by (auto simp: g_slab_128x_sizes_def)
  qed
  moreover have "k div 128 < 4" using k by simp
  moreover have "k < 128 * (k div 128) + 128" using dividend_less_times_div[of 128 k] by simp
  ultimately show ?thesis by simp
qed

lemma find_cache_ok:
  assumes wf: "heap_wf h C" and sz: "0 < unat size'" "unat size' \<le> 2048"
  shows "\<exists>c \<in> C. find_cache size' h = Some c \<and> unat size' \<le> object_size (cache_at (hp_slab h) c)"
proof -
  let ?n = "unat size'" and ?s = "hp_slab h"
  have l: "last g_slab_8x_sizes = 72" "last g_slab_128x_sizes = 512" "length g_slab_8x_sizes = 9" "length g_slab_128x_sizes = 4"
    by (simp_all add: g_slab_8x_sizes_def g_slab_128x_sizes_def)
  have C: "caches_ok ?s C g_slab_8x_sizes (g_8x_slabs h)" "caches_ok ?s C g_slab_128x_sizes (g_128x_slabs h)"
    "caches_ok ?s C g_slab_other_sizes (g_other_slabs h)" using wf by (simp_all add: heap_wf_def)
  consider "?n \<le> 72" | "72 < ?n" "?n \<le> 512" | "512 < ?n" by linarith
  then show ?thesis
  proof cases
    case 1
    then have k: "?n - 1 < 72" using sz(1) by simp
    have "size_index size' 8 = (?n - 1) div 8" using size_index_eq[OF sz, of 8] by simp
    then have f: "find_cache size' h = cache_nth (g_8x_slabs h) ((?n - 1) div 8)" using 1 l by (simp add: find_cache_def)
    from slot_8[OF k] have "(?n - 1) div 8 < length g_slab_8x_sizes" "?n \<le> g_slab_8x_sizes ! ((?n - 1) div 8)"
      using l by linarith+
    with cache_nth_ok[OF C(1) this(1)] show ?thesis unfolding f by auto
  next
    case 2
    then have k: "?n - 1 < 512" using sz(1) by simp
    have "size_index size' 128 = (?n - 1) div 128" using size_index_eq[OF sz, of 128] by simp
    then have f: "find_cache size' h = cache_nth (g_128x_slabs h) ((?n - 1) div 128)" using 2 l by (simp add: find_cache_def)
    from slot_128[OF k] have "(?n - 1) div 128 < length g_slab_128x_sizes" "?n \<le> g_slab_128x_sizes ! ((?n - 1) div 128)"
      using l by linarith+
    with cache_nth_ok[OF C(2) this(1)] show ?thesis unfolding f by auto
  next
    case 3
    have "\<exists>z \<in> set g_slab_other_sizes. ?n \<le> z" using sz(2) by (simp add: g_slab_other_sizes_def)
    from find_other_ok[OF C(3) this] 3 l show ?thesis by (simp add: find_cache_def)
  qed
qed

lemma heap_wf_frame: "heap_wf h C \<Longrightarrow> same_frame (hp_slab h) s \<Longrightarrow> heap_wf (h\<lparr>hp_slab := s\<rparr>) C"
  by (auto simp: heap_wf_def caches_ok_def same_frame_def same_shape_def elim!: list_all2_mono)

text \<open>A step of the physical memory manager that keeps the blocks of the slabs.\<close>

lemma alloc_inv_pmm:
  assumes inv: "alloc_inv s M B C F" and p: "pmm_inv p M B'"
    and keep: "\<forall>c \<in> C. \<forall>sl \<in> set (slabs s c). sl_block (slab_at s sl) \<in> B' \<and>
      page_db p (sl_block (slab_at s sl)) = page_db (sl_pmm s) (sl_block (slab_at s sl))"
  shows "alloc_inv (s\<lparr>sl_pmm := p\<rparr>) M B' C F" "\<And>c. outstanding (s\<lparr>sl_pmm := p\<rparr>) F c = outstanding s F c"
    "same_frame s (s\<lparr>sl_pmm := p\<rparr>)"
proof -
  let ?s = "s\<lparr>sl_pmm := p\<rparr>"
  have sl: "slabs ?s c = slabs s c" for c by (simp add: slabs_def)
  have "slab_ok ?s B' c F x" if "c \<in> C" "x \<in> set (slabs s c)" for c x
  proof -
    have "slab_ok s B c F x" using inv that by (auto simp: alloc_inv_def slab_inv_def cache_ok_def)
    with keep that show ?thesis by (simp add: slab_ok_def)
  qed
  then have "slab_inv ?s M B' C F" using inv p unfolding alloc_inv_def slab_inv_def cache_ok_def sl by simp
  moreover have al: "allocated ?s F c = allocated s F c" for c by (simp add: allocated_def sl)
  moreover have mg: "mags ?s c = mags s c" and st: "stash ?s c = stash s c" and en: "enabled ?s c = enabled s c" for c
    by (simp_all add: mags_def stash_def enabled_def)
  moreover have "layer_inv ?s F c = layer_inv s F c" for c unfolding layer_inv_def layer_ok_def al mg st by simp
  ultimately show "alloc_inv ?s M B' C F" using inv unfolding alloc_inv_def by simp
  show "\<And>c. outstanding ?s F c = outstanding s F c" by (simp add: outstanding_def al st en)
  show "same_frame s ?s" by (simp add: same_frame_def same_shape_def)
qed

text \<open>The number of bytes of the block behind a large request covers it.\<close>

lemma pages_cover:
  assumes "0 < unat size'" "unat size' + 4096 < 2 ^ 64"
  shows "unat size' \<le> 2 ^ unat (pagecount_to_order ((size' + of_nat ARCH_PAGE_GRANULARITY - 1) div of_nat ARCH_PAGE_GRANULARITY)) * 4096"
proof -
  let ?q = "(size' + of_nat ARCH_PAGE_GRANULARITY - 1) div of_nat ARCH_PAGE_GRANULARITY"
  have "unat (size' + 4096 - 1) = unat size' + 4095"
  proof -
    have u: "unat (4096 :: u64) = 4096" by simp
    show ?thesis using unat_round_up[of size' 4096] assms(2) unfolding u by linarith
  qed
  then have q: "unat ?q = (unat size' + 4095) div 4096" by (simp add: ARCH_PAGE_GRANULARITY_def unat_div)
  moreover have "0 < (unat size' + 4095) div 4096" using assms(1) by (simp add: div_greater_zero_iff)
  ultimately have "0 < unat ?q" by linarith
  then have "?q \<noteq> 0" by auto
  from pagecount_to_order_ceil(1)[OF this] have "(unat size' + 4095) div 4096 \<le> 2 ^ unat (pagecount_to_order ?q)" unfolding q .
  moreover have "unat size' \<le> (unat size' + 4095) div 4096 * 4096"
    using div_mult_mod_eq[of "unat size' + 4095" 4096] mod_less_divisor[of 4096 "unat size' + 4095"] by linarith
  ultimately show ?thesis by (meson le_trans mult_le_mono1)
qed

lemma block_of_address: "PAGE (BLOCK_PADDR b) = b"
  by (simp add: PAGE_def BLOCK_PADDR_def ARCH_PAGE_GRANULARITY_def)

lemma slab_block_in: "alloc_inv s M B C F \<Longrightarrow> c \<in> C \<Longrightarrow> x \<in> set (slabs s c) \<Longrightarrow> sl_block (slab_at s x) \<in> B"
  by (auto simp: alloc_inv_def slab_inv_def cache_ok_def slab_ok_def)

lemma last_other: "last g_slab_other_sizes = 2048"
  by (simp add: g_slab_other_sizes_def)

text \<open>A small request: the object comes from a cache with large enough objects.\<close>

lemma heap_alloc_small:
  assumes inv: "alloc_inv (hp_slab h) M B C F" and wf: "heap_wf h C" and i: "i < cpu_count (hp_slab h)"
    and sz: "size' \<noteq> 0" "unat size' \<le> 2048"
  shows "\<exists>c \<in> C. find_cache size' h = Some c \<and> unat size' \<le> object_size (cache_at (hp_slab h) c) \<and>
    (case heap_alloc i size' h of None \<Rightarrow> no_block (hp_slab h) c
     | Some (h', p) \<Rightarrow> \<exists>a s'. p = Some a \<and> h' = h\<lparr>hp_slab := s'\<rparr> \<and> alloc_result (hp_slab h) M C F c s' a)"
proof -
  have "0 < unat size'" using sz(1) by (simp add: unat_gt_0)
  from find_cache_ok[OF wf this sz(2)] obtain c where c: "c \<in> C" "find_cache size' h = Some c"
    "unat size' \<le> object_size (cache_at (hp_slab h) c)" by blast
  have run: "heap_alloc i size' h = (slab_allocate i c (hp_slab h) \<bind> (\<lambda>(s, obj). Some (h\<lparr>hp_slab := s\<rparr>, Some obj)))"
    using sz c(2) by (simp add: heap_alloc_def last_other)
  from slab_allocate_ok[OF inv c(1) i] c show ?thesis unfolding run
    by (intro bexI[of _ c]) (auto split: option.splits)
qed

lemma heap_alloc_large:
  assumes inv: "alloc_inv (hp_slab h) M B C F" and sz: "2048 < unat size'" and run: "heap_alloc i size' h = Some (h', p)"
  shows "\<exists>q b. h' = h\<lparr>hp_slab := (hp_slab h)\<lparr>sl_pmm := q\<rparr>\<rparr> \<and> p = Some (hhdm (hp_slab h) + BLOCK_PADDR b) \<and> b \<notin> B \<and>
    pmm_inv q M (insert b B) \<and> (\<forall>a \<in> B. page_db q a = page_db (sl_pmm (hp_slab h)) a) \<and>
    ord q b = unat (pagecount_to_order ((size' + of_nat ARCH_PAGE_GRANULARITY - 1) div of_nat ARCH_PAGE_GRANULARITY))"
proof -
  let ?o = "pagecount_to_order ((size' + of_nat ARCH_PAGE_GRANULARITY - 1) div of_nat ARCH_PAGE_GRANULARITY)"
  have "size' \<noteq> 0" using sz by auto
  with run sz obtain q b where q: "pmm_alloc ?o 0 (sl_pmm (hp_slab h)) = Some (q, b)"
    "h' = h\<lparr>hp_slab := (hp_slab h)\<lparr>sl_pmm := q\<rparr>\<rparr>" "p = Some (hhdm (hp_slab h) + BLOCK_PADDR b)"
    by (auto simp: heap_alloc_def last_other pmm_alloc_pages_def split: bind_splits)
  have "pmm_inv (sl_pmm (hp_slab h)) M B" using inv by (simp add: alloc_inv_def slab_inv_def)
  from pmm_alloc_client[OF this q(1)] q(2,3) show ?thesis by blast
qed

section \<open>Properties\<close>

text \<open>
  (C20) \<^verbatim>\<open>heap_alloc\<close> of a nonzero size, when it returns, gives memory of at least that size which no client holds: an
  object of a cache whose objects are large enough, or a block of the buddy allocator with enough pages that was not
  allocated before. The invariants of the slab allocator and of the buddy allocator are kept and the bytes of memory do not change.
\<close>

theorem heap_alloc_correct:
  assumes "alloc_inv (hp_slab h) M B C F" "heap_wf h C" "i < cpu_count (hp_slab h)" "size' \<noteq> 0" "unat size' + 4096 < 2 ^ 64"
    and "heap_alloc i size' h = Some (h', p)"
  shows "\<exists>a B' F'. p = Some a \<and> alloc_inv (hp_slab h') M B' C F' \<and> heap_wf h' C \<and> hp_mem h' = hp_mem h \<and>
    (if unat size' \<le> 2048
     then \<exists>c \<in> C. unat size' \<le> object_size (cache_at (hp_slab h) c) \<and> a \<notin> outstanding (hp_slab h) F c \<and>
       outstanding (hp_slab h') F' c = insert a (outstanding (hp_slab h) F c) \<and>
       (\<forall>d \<in> C. d \<noteq> c \<longrightarrow> outstanding (hp_slab h') F' d = outstanding (hp_slab h) F d)
     else \<exists>b. b \<notin> B \<and> B' = insert b B \<and> a = hhdm (hp_slab h) + BLOCK_PADDR b \<and>
       unat size' \<le> 2 ^ ord (sl_pmm (hp_slab h')) b * 4096 \<and>
       (\<forall>d \<in> C. outstanding (hp_slab h') F' d = outstanding (hp_slab h) F d))"
proof (cases "unat size' \<le> 2048")
  case True
  from heap_alloc_small[OF assms(1-4) True] assms(6) obtain c a s' where c: "c \<in> C"
    "unat size' \<le> object_size (cache_at (hp_slab h) c)" "p = Some a" "h' = h\<lparr>hp_slab := s'\<rparr>"
    "alloc_result (hp_slab h) M C F c s' a" by auto
  then show ?thesis using True heap_wf_frame[OF assms(2)] unfolding alloc_result_def by auto
next
  case False
  then have sz: "2048 < unat size'" "0 < unat size'" by simp_all
  from heap_alloc_large[OF assms(1) sz(1) assms(6)] obtain q b where q: "h' = h\<lparr>hp_slab := (hp_slab h)\<lparr>sl_pmm := q\<rparr>\<rparr>"
    "p = Some (hhdm (hp_slab h) + BLOCK_PADDR b)" "b \<notin> B" "pmm_inv q M (insert b B)"
    "\<forall>a \<in> B. page_db q a = page_db (sl_pmm (hp_slab h)) a"
    "ord q b = unat (pagecount_to_order ((size' + of_nat ARCH_PAGE_GRANULARITY - 1) div of_nat ARCH_PAGE_GRANULARITY))" by blast
  have "\<forall>c \<in> C. \<forall>x \<in> set (slabs (hp_slab h) c). sl_block (slab_at (hp_slab h) x) \<in> insert b B \<and>
      page_db q (sl_block (slab_at (hp_slab h) x)) = page_db (sl_pmm (hp_slab h)) (sl_block (slab_at (hp_slab h) x))"
    using slab_block_in[OF assms(1)] q(5) by blast
  note K = alloc_inv_pmm[OF assms(1) q(4) this]
  have "unat size' \<le> 2 ^ ord q b * 4096" using pages_cover[OF sz(2) assms(5)] unfolding q(6) .
  then have "\<exists>b'. b' \<notin> B \<and> insert b B = insert b' B \<and> hhdm (hp_slab h) + BLOCK_PADDR b = hhdm (hp_slab h) + BLOCK_PADDR b' \<and>
      unat size' \<le> 2 ^ ord q b' * 4096 \<and>
      (\<forall>d \<in> C. outstanding ((hp_slab h)\<lparr>sl_pmm := q\<rparr>) F d = outstanding (hp_slab h) F d)"
    using q(3) K(2) by blast
  then show ?thesis
    using False q(1,2) K(1) heap_wf_frame[OF assms(2) K(3)]
    by (intro exI[of _ "hhdm (hp_slab h) + BLOCK_PADDR b"] exI[of _ "insert b B"] exI[of _ F]) simp
qed

definition heap_demo :: heap where
  "heap_demo = \<lparr>hp_slab = slab_demo\<lparr>cache_at := (\<lambda>c. static_cache c 0)\<rparr>, hp_mem = (\<lambda>_. 0), g_8x_slabs = map Some g_slab_8x_sizes,
     g_128x_slabs = map Some g_slab_128x_sizes, g_other_slabs = map Some g_slab_other_sizes\<rparr>"

definition demo_sizes :: "nat set" where
  "demo_sizes = set (g_slab_8x_sizes @ g_slab_128x_sizes @ g_slab_other_sizes)"

lemma demo_cache_wf: "c \<in> demo_sizes \<Longrightarrow> cache_wf (static_cache c 0)"
  by (auto simp: demo_sizes_def g_slab_8x_sizes_def g_slab_128x_sizes_def g_slab_other_sizes_def cache_wf_def static_cache_def
    slab_objects_def block_bytes_def PMM_ORDER_TO_PAGECOUNT_def ARCH_PAGE_GRANULARITY_def SIZEOF_SLAB_def PMM_MAX_ORDER_def)

lemma heap_demo_inv:
  "alloc_inv (hp_slab heap_demo) {4096, 4097} {} demo_sizes (\<lambda>_. [])" "heap_wf heap_demo demo_sizes" "0 < cpu_count (hp_slab heap_demo)"
  "sl_pmm (hp_slab heap_demo) = pmm_demo" "cache_at (hp_slab heap_demo) c = static_cache c 0" "hhdm (hp_slab heap_demo) = 2 ^ 47"
proof -
  let ?s = "hp_slab heap_demo"
  have f: "cache_at ?s c = static_cache c 0" "sl_pmm ?s = pmm_demo" "hhdm ?s = 2 ^ 47" for c by (simp_all add: heap_demo_def slab_demo_def)
  have n: "slabs ?s c = []" "\<not> enabled ?s c" "slabs_partial (cache_at ?s c) = []" "slabs_full (cache_at ?s c) = []" for c
    by (simp_all add: slabs_def enabled_def f static_cache_def)
  then show "alloc_inv ?s {4096, 4097} {} demo_sizes (\<lambda>_. [])"
    using pmm_demo_inv demo_cache_wf unfolding alloc_inv_def slab_inv_def cache_ok_def by (simp add: f)
  have "caches_ok ?s demo_sizes zs (map Some zs)" if "set zs \<subseteq> demo_sizes" for zs
    using that unfolding caches_ok_def by (auto simp: list_all2_conv_all_nth f static_cache_def)
  moreover have "g_8x_slabs heap_demo = map Some g_slab_8x_sizes" "g_128x_slabs heap_demo = map Some g_slab_128x_sizes"
    "g_other_slabs heap_demo = map Some g_slab_other_sizes" by (simp_all add: heap_demo_def)
  moreover have "set g_slab_8x_sizes \<subseteq> demo_sizes" "set g_slab_128x_sizes \<subseteq> demo_sizes" "set g_slab_other_sizes \<subseteq> demo_sizes"
    by (auto simp: demo_sizes_def)
  ultimately show "heap_wf heap_demo demo_sizes" unfolding heap_wf_def by (simp only: simp_thms)
  show "0 < cpu_count ?s" by (simp add: heap_demo_def slab_demo_def)
qed (simp_all add: heap_demo_def slab_demo_def)

lemma demo_block: "\<exists>q b. pmm_alloc 0 0 pmm_demo = Some (q, b)"
  using pmm_alloc_inv[OF pmm_demo_inv, of 0 1 0] by (auto simp: pmm_demo_def alloc_zone_def PMM_FLAG_ZONE_LOW_def PMM_MAX_ORDER_def)

lemma heap_demo_alloc: "\<exists>h' p. heap_alloc 0 24 heap_demo = Some (h', p)"
proof -
  from heap_alloc_small[OF heap_demo_inv(1-3), of 24] obtain c where "case heap_alloc 0 24 heap_demo of None \<Rightarrow> no_block (hp_slab heap_demo) c
     | Some (h', p) \<Rightarrow> \<exists>a s'. p = Some a \<and> h' = heap_demo\<lparr>hp_slab := s'\<rparr> \<and> alloc_result (hp_slab heap_demo) {4096, 4097} demo_sizes (\<lambda>_. []) c s' a"
    by auto
  moreover have "\<not> no_block (hp_slab heap_demo) c"
    using demo_block unfolding no_block_def heap_demo_inv by (auto simp: static_cache_def)
  ultimately show ?thesis by (auto split: option.splits)
qed

theorem heap_alloc_correct_witness:
  "\<exists>h' a B' F'. heap_alloc 0 24 heap_demo = Some (h', Some a) \<and> alloc_inv (hp_slab h') {4096, 4097} B' demo_sizes F' \<and>
    (\<exists>c \<in> demo_sizes. 24 \<le> object_size (cache_at (hp_slab heap_demo) c) \<and> a \<in> outstanding (hp_slab h') F' c)"
proof -
  obtain h' p where h: "heap_alloc 0 24 heap_demo = Some (h', p)" using heap_demo_alloc by blast
  from heap_alloc_correct[OF heap_demo_inv(1-3) _ _ h] h show ?thesis by fastforce
qed

text \<open>
  Memory from \<^verbatim>\<open>heap_alloc\<close> can be given back with \<^verbatim>\<open>heap_free\<close> and the same size, on any processor: the call
  returns, the invariants hold, and every cache has the same objects in use as before the allocation.
\<close>

theorem heap_alloc_free:
  assumes "alloc_inv (hp_slab h) M B C F" "heap_wf h C" "i < cpu_count (hp_slab h)" "j < cpu_count (hp_slab h)"
    and "heap_alloc i size' h = Some (h', p)"
  shows "\<exists>h'' B' F'. heap_free j p size' h' = Some h'' \<and> alloc_inv (hp_slab h'') M B' C F' \<and>
    (\<forall>c \<in> C. outstanding (hp_slab h'') F' c = outstanding (hp_slab h) F c)"
proof -
  consider "size' = 0" | "size' \<noteq> 0" "unat size' \<le> 2048" | "2048 < unat size'" by linarith
  then show ?thesis
  proof cases
    case 1
    then have "h' = h" "p = None" using assms(5) by (simp_all add: heap_alloc_def)
    then show ?thesis using assms(1) by (auto simp: heap_free_def)
  next
    case 2
    from heap_alloc_small[OF assms(1-3) 2] assms(5) obtain c a s' where c: "c \<in> C" "find_cache size' h = Some c"
      "p = Some a" "h' = h\<lparr>hp_slab := s'\<rparr>" "alloc_result (hp_slab h) M C F c s' a" by auto
    then obtain B' F' where r: "alloc_inv s' M B' C F'" "same_frame (hp_slab h) s'" "a \<notin> outstanding (hp_slab h) F c"
      "outstanding s' F' c = insert a (outstanding (hp_slab h) F c)" "\<forall>d \<in> C. d \<noteq> c \<longrightarrow> outstanding s' F' d = outstanding (hp_slab h) F d"
      unfolding alloc_result_def by blast
    have "j < cpu_count s'" using assms(4) r(2) by (simp add: same_frame_def)
    from slab_free_ok[OF r(1) c(1) this, of a] r(4) obtain s'' B'' F'' where s'': "slab_free j c a s' = Some s''"
      "alloc_inv s'' M B'' C F''" "outstanding s'' F'' c = outstanding s' F' c - {a}"
      "\<forall>d \<in> C. d \<noteq> c \<longrightarrow> outstanding s'' F'' d = outstanding s' F' d" unfolding free_result_def by auto
    have "find_cache size' h' = find_cache size' h" by (simp add: find_cache_def c(4))
    then have "find_cache size' h' = Some c" using c(2) by simp
    then have "heap_free j p size' h' = Some (h'\<lparr>hp_slab := s''\<rparr>)" using 2 s''(1) c(3,4) by (simp add: heap_free_def last_other)
    moreover have "\<forall>d \<in> C. outstanding s'' F'' d = outstanding (hp_slab h) F d" using s''(3,4) r(3,4,5) by fastforce
    ultimately show ?thesis using s''(2) by auto
  next
    case 3
    from heap_alloc_large[OF assms(1) 3 assms(5)] obtain q b where q: "h' = h\<lparr>hp_slab := (hp_slab h)\<lparr>sl_pmm := q\<rparr>\<rparr>"
      "p = Some (hhdm (hp_slab h) + BLOCK_PADDR b)" "b \<notin> B" "pmm_inv q M (insert b B)"
      "\<forall>a \<in> B. page_db q a = page_db (sl_pmm (hp_slab h)) a" by blast
    from pmm_free_inv[OF q(4,3)] obtain q' where q': "pmm_free b q = Some q'" "pmm_inv q' M B" "\<forall>a \<in> B. page_db q' a = page_db q a" by blast
    have "heap_free j p size' h' = Some (h\<lparr>hp_slab := (hp_slab h)\<lparr>sl_pmm := q'\<rparr>\<rparr>)"
      using 3 q(1,2) q'(1) by (simp add: heap_free_def last_other block_of_address)
    moreover have "\<forall>c \<in> C. \<forall>x \<in> set (slabs (hp_slab h) c). sl_block (slab_at (hp_slab h) x) \<in> B \<and>
        page_db q' (sl_block (slab_at (hp_slab h) x)) = page_db (sl_pmm (hp_slab h)) (sl_block (slab_at (hp_slab h) x))"
      using slab_block_in[OF assms(1)] q(5) q'(3) by metis
    note alloc_inv_pmm[OF assms(1) q'(2) this]
    ultimately show ?thesis by (intro exI[of _ "h\<lparr>hp_slab := (hp_slab h)\<lparr>sl_pmm := q'\<rparr>\<rparr>"] exI[of _ B] exI[of _ F]) simp
  qed
qed

theorem heap_alloc_free_witness:
  "\<exists>h' p h''. heap_alloc 0 24 heap_demo = Some (h', p) \<and> heap_free 0 p 24 h' = Some h''"
proof -
  obtain h' p where h: "heap_alloc 0 24 heap_demo = Some (h', p)" using heap_demo_alloc by blast
  from heap_alloc_free[OF heap_demo_inv(1-3,3) h] h show ?thesis by blast
qed

text \<open>
  (C21) \<^verbatim>\<open>heap_realloc\<close> of a block to a nonzero size up to 2048 bytes moves it to an object \<open>n\<close> that no client held, of a
  cache with objects of at least that size, and copies the larger of the two sizes, not the smaller: all
  \<open>max current_size new_size\<close> bytes behind the new address become those behind the old one. So the old content is kept, but when the
  block grows bytes behind it are read, and when it shrinks to an object smaller than \<^verbatim>\<open>current_size\<close>, every byte between the
  end of the object and \<open>n + current_size\<close> is overwritten, memory that belongs to other objects. A reallocation to
  size 0 never returns: the copy goes to \<^verbatim>\<open>nullptr\<close>. (The bytes concerned are those of \<open>hp_mem\<close>; what an overwritten link
  of a free object does to the slab allocator is outside of this theory.)
\<close>

theorem heap_realloc_overruns:
  assumes "alloc_inv (hp_slab h) M B C F" "heap_wf h C" "i < cpu_count (hp_slab h)"
    and "new_size \<noteq> 0" "unat new_size \<le> 2048" "current_size \<noteq> 0" "current_size \<noteq> new_size"
    and "heap_realloc i (Some a) current_size new_size h = Some (h', Some n)"
    and "n \<le> a \<or> a + max (unat current_size) (unat new_size) \<le> n"
  shows "heap_realloc i (Some a) current_size 0 h = None \<and>
    (\<forall>k < max (unat current_size) (unat new_size). hp_mem h' (n + k) = hp_mem h (a + k)) \<and>
    (\<exists>c \<in> C. find_cache new_size h = Some c \<and> unat new_size \<le> object_size (cache_at (hp_slab h) c) \<and>
       (\<exists>h1 F1. heap_alloc i new_size h = Some (h1, Some n) \<and> n \<notin> outstanding (hp_slab h) F c \<and>
          outstanding (hp_slab h1) F1 c = insert n (outstanding (hp_slab h) F c)) \<and>
       (\<forall>x. n + object_size (cache_at (hp_slab h) c) \<le> x \<longrightarrow> x < n + unat current_size \<longrightarrow> hp_mem h' x = hp_mem h (a + (x - n))))"
proof -
  let ?m = "max (unat current_size) (unat new_size)"
  have m: "(if current_size > new_size then unat current_size else unat new_size) = ?m" by (auto simp: word_less_nat_alt)
  from assms(6-8) obtain h1 where h1: "heap_alloc i new_size h = Some (h1, Some n)"
    "heap_free i (Some a) current_size (h1\<lparr>hp_mem := mem_copy n a ?m (hp_mem h1)\<rparr>) = Some h'"
    unfolding heap_realloc_def m by (auto simp: Let_def split: bind_splits)
  from heap_alloc_small[OF assms(1-5)] h1(1) obtain c s' where c: "c \<in> C" "find_cache new_size h = Some c"
    "unat new_size \<le> object_size (cache_at (hp_slab h) c)" "h1 = h\<lparr>hp_slab := s'\<rparr>" "alloc_result (hp_slab h) M C F c s' n" by auto
  have "hp_mem h' = mem_copy n a ?m (hp_mem h)" using h1(2) c(4) by (auto simp: heap_free_def split: bind_splits if_splits)
  then have cp: "hp_mem h' (n + k) = hp_mem h (a + k)" if "k < ?m" for k
    using that assms(9) mem_copy_eq[of n a ?m "hp_mem h"] by auto
  have "hp_mem h' x = hp_mem h (a + (x - n))" if "n + object_size (cache_at (hp_slab h) c) \<le> x" "x < n + unat current_size" for x
    using cp[of "x - n"] that by simp
  moreover have "heap_realloc i (Some a) current_size 0 h = None" using assms(6) by (simp add: heap_realloc_def heap_alloc_def)
  ultimately show ?thesis using cp c h1(1) unfolding alloc_result_def by auto
qed

lemmas slab_eval = slab_allocate_def slab_direct_alloc_def cache_make_slab_def slab_take_def slab_objects_def object_addr_def
  block_bytes_def PMM_ORDER_TO_PAGECOUNT_def ARCH_PAGE_GRANULARITY_def SIZEOF_SLAB_def static_cache_def seq_push_def seq_delete_def BLOCK_PADDR_def

text \<open>
  A run that writes behind the new block: an object of 2048 bytes in the first of two pages is reallocated to 1000 bytes, in the last
  of the three objects of 1024 bytes in the second page.
\<close>

definition pmm_demo_one :: pmm where
  "pmm_demo_one = fst (the (pmm_alloc 0 0 pmm_demo))"

lemma demo_first: "pmm_alloc 0 0 pmm_demo = Some (pmm_demo_one, 4096)"
  unfolding pmm_demo_one_def by (simp add: pmm_eval pmm_demo_def)

lemma demo_second: "\<exists>q. pmm_alloc 0 0 pmm_demo_one = Some (q, 4097)"
  unfolding pmm_demo_one_def by (simp add: pmm_eval pmm_demo_def)

lemma demo_cache: "g_other_slabs h = map Some g_slab_other_sizes \<Longrightarrow> find_cache 2048 h = Some 2048 \<and> find_cache 1000 h = Some 1024"
  by (simp add: find_cache_def g_slab_8x_sizes_def g_slab_128x_sizes_def g_slab_other_sizes_def)

lemma demo_old:
  "\<exists>h1. heap_alloc 0 2048 heap_demo = Some (h1, Some 140737505132592) \<and> g_other_slabs h1 = map Some g_slab_other_sizes \<and>
    sl_pmm (hp_slab h1) = pmm_demo_one \<and> hhdm (hp_slab h1) = 2 ^ 47 \<and> cache_at (hp_slab h1) 1024 = static_cache 1024 0 \<and>
    cache_at (hp_slab h1) 2048 = (static_cache 2048 0)\<lparr>slabs_full := [140737505132544]\<rparr> \<and>
    sl_free_count (slab_at (hp_slab h1) 140737505132544) = 0"
  by (simp add: heap_alloc_def last_other demo_cache heap_demo_def slab_eval slab_demo_def demo_first add_object_def)

lemma demo_realloc:
  "\<exists>h1 h2. heap_alloc 0 2048 heap_demo = Some (h1, Some 140737505132592) \<and> find_cache 1000 h1 = Some 1024 \<and>
    object_size (cache_at (hp_slab h1) 1024) = 1024 \<and>
    heap_realloc 0 (Some 140737505132592) 2048 1000 h1 = Some (h2, Some 140737505138736)"
proof -
  have u: "[0..<3] = [0, 1, 2]" by (simp add: upt_rec)
  obtain q where q: "pmm_alloc 0 0 pmm_demo_one = Some (q, 4097)" using demo_second by blast
  obtain h1 where h1: "heap_alloc 0 2048 heap_demo = Some (h1, Some 140737505132592)" "g_other_slabs h1 = map Some g_slab_other_sizes"
    "sl_pmm (hp_slab h1) = pmm_demo_one" "hhdm (hp_slab h1) = 2 ^ 47" "cache_at (hp_slab h1) 1024 = static_cache 1024 0"
    "cache_at (hp_slab h1) 2048 = (static_cache 2048 0)\<lparr>slabs_full := [140737505132544]\<rparr>"
    "sl_free_count (slab_at (hp_slab h1) 140737505132544) = 0" using demo_old by blast
  have "\<exists>h2. heap_realloc 0 (Some 140737505132592) 2048 1000 h1 = Some (h2, Some 140737505138736)"
    by (simp add: heap_realloc_def heap_alloc_def heap_free_def last_other demo_cache h1 slab_eval q u
      add_object_def slab_free_def slab_direct_free_def slab_of_def)
  then show ?thesis using h1 by (simp add: demo_cache static_cache_def)
qed

theorem heap_realloc_overruns_witness:
  "\<exists>h1 h2. heap_realloc 0 (Some 140737505132592) 2048 1000 h1 = Some (h2, Some 140737505138736) \<and>
    object_size (cache_at (hp_slab h1) 1024) = 1024 \<and>
    (\<forall>x. 140737505138736 + 1024 \<le> x \<longrightarrow> x < 140737505138736 + 2048 \<longrightarrow> hp_mem h2 x = hp_mem h1 (140737505132592 + (x - 140737505138736)))"
proof -
  obtain h1 h2 where h: "heap_alloc 0 2048 heap_demo = Some (h1, Some 140737505132592)" "find_cache 1000 h1 = Some 1024"
    "object_size (cache_at (hp_slab h1) 1024) = 1024"
    "heap_realloc 0 (Some 140737505132592) 2048 1000 h1 = Some (h2, Some 140737505138736)" using demo_realloc by blast
  from heap_alloc_small[OF heap_demo_inv(1-3), of 2048] h(1) obtain c s' where
    s': "h1 = heap_demo\<lparr>hp_slab := s'\<rparr>" "alloc_result (hp_slab heap_demo) {4096, 4097} demo_sizes (\<lambda>_. []) c s' 140737505132592" by auto
  then obtain B F where i: "alloc_inv (hp_slab h1) {4096, 4097} B demo_sizes F" "same_frame (hp_slab heap_demo) s'"
    unfolding alloc_result_def by auto
  have w: "heap_wf h1 demo_sizes" "0 < cpu_count (hp_slab h1)"
    using heap_wf_frame[OF heap_demo_inv(2) i(2)] i(2) heap_demo_inv(3) s'(1) by (simp_all add: same_frame_def)
  from heap_realloc_overruns[OF i(1) w _ _ _ _ h(4)] h(2,3,4) show ?thesis by auto
qed

end
