(* ===== verification/Format.thy ===== *)
theory Format
  imports Prelude
begin

text \<open>
  The formatted printing of \<^verbatim>\<open>lib/format.c\<close>. A format string, and a string argument, is the list of its
  characters before the terminator: \<^verbatim>\<open>*fmt\<close> is zero exactly at the end of the list. Each label of the
  routine is a function; the jump to \<^verbatim>\<open>lbl_done\<close>, to \<^verbatim>\<open>lbl_invalid\<close> and undefined behaviour (a read outside
  of \<^verbatim>\<open>g_lookup\<close>, an overflow of an \<^verbatim>\<open>int\<close>, a missing argument) are values of their own. The variables that
  carry over from one conversion to the next are set again before they are read, so a conversion depends
  on the rest of the format and the arguments only.
\<close>

section \<open>Data\<close>

definition FLAG_LEFT :: u8 where "FLAG_LEFT = 1"
definition FLAG_SIGN :: u8 where "FLAG_SIGN = 2"
definition FLAG_SPACE :: u8 where "FLAG_SPACE = 4"
definition FLAG_ALTERNATIVE :: u8 where "FLAG_ALTERNATIVE = 8"
definition FLAG_ZERO :: u8 where "FLAG_ZERO = 16"
definition FLAG_UPPERCASE :: u8 where "FLAG_UPPERCASE = 32"
definition FLAG_LEADING_ZERO :: u8 where "FLAG_LEADING_ZERO = 64"
definition FLAG_NO_PREFIX_ON_ZERO :: u8 where "FLAG_NO_PREFIX_ON_ZERO = 128"

datatype length_prefix = L_NONE | L_H | L_HH | L_L | L_LL | L_J | L_Z | L_T | LL

datatype arg_size = INT' | UINT | CHAR' | UCHAR | SHORT | USHORT | LONG | ULONG | LLONG | ULLONG | PTR | DOUBLE | LDOUBLE
  | INTMAX | UINTMAX | SIZE | SSIZE | PTRDIFF | UPTRDIFF

text \<open>An argument of the variable argument list: a register, or the string a pointer refers to.\<close>

datatype arg = Integer u64 | Pointer string

record writer =
  written :: string
  w_count :: u64

definition PUTCHAR :: "char \<Rightarrow> writer \<Rightarrow> writer" where
  "PUTCHAR ch w = w\<lparr>w_count := w_count w + 1, written := written w @ [ch]\<rparr>"

definition pad :: "char \<Rightarrow> int \<Rightarrow> int \<Rightarrow> writer \<Rightarrow> writer" where
  "pad ch from to w = fold (\<lambda>_. PUTCHAR ch) [from..to - 1] w"

text \<open>The table \<^verbatim>\<open>g_lookup\<close>: its rows hold the entries for the letters from \<open>a\<close> to \<open>z\<close>, zero is \<open>None\<close>.\<close>

definition lookup_row :: "length_prefix \<Rightarrow> (char \<times> arg_size) list" where
  "lookup_row l = (case l of
     L_NONE \<Rightarrow> [(CHR ''c'', INT'), (CHR ''s'', PTR), (CHR ''d'', INT'), (CHR ''i'', INT'), (CHR ''o'', UINT), (CHR ''x'', UINT),
       (CHR ''u'', UINT), (CHR ''f'', DOUBLE), (CHR ''e'', DOUBLE), (CHR ''a'', DOUBLE), (CHR ''g'', DOUBLE), (CHR ''n'', PTR), (CHR ''p'', PTR)]
   | L_H \<Rightarrow> [(CHR ''d'', SHORT), (CHR ''i'', SHORT), (CHR ''o'', USHORT), (CHR ''x'', USHORT), (CHR ''u'', USHORT), (CHR ''n'', PTR)]
   | L_HH \<Rightarrow> [(CHR ''d'', CHAR'), (CHR ''i'', CHAR'), (CHR ''o'', UCHAR), (CHR ''x'', UCHAR), (CHR ''u'', UCHAR), (CHR ''n'', PTR)]
   | L_L \<Rightarrow> [(CHR ''c'', INT'), (CHR ''s'', PTR), (CHR ''d'', LONG), (CHR ''i'', LONG), (CHR ''o'', ULONG), (CHR ''x'', ULONG),
       (CHR ''u'', ULONG), (CHR ''f'', DOUBLE), (CHR ''e'', DOUBLE), (CHR ''a'', DOUBLE), (CHR ''g'', DOUBLE), (CHR ''n'', PTR)]
   | L_LL \<Rightarrow> [(CHR ''d'', LLONG), (CHR ''i'', LLONG), (CHR ''o'', ULLONG), (CHR ''x'', ULLONG), (CHR ''u'', ULLONG), (CHR ''n'', PTR)]
   | L_J \<Rightarrow> [(CHR ''d'', INTMAX), (CHR ''i'', INTMAX), (CHR ''o'', UINTMAX), (CHR ''x'', UINTMAX), (CHR ''u'', UINTMAX), (CHR ''n'', PTR)]
   | L_Z \<Rightarrow> [(CHR ''d'', SSIZE), (CHR ''i'', SSIZE), (CHR ''o'', SIZE), (CHR ''x'', SIZE), (CHR ''u'', SIZE), (CHR ''n'', PTR)]
   | L_T \<Rightarrow> [(CHR ''d'', PTRDIFF), (CHR ''i'', PTRDIFF), (CHR ''o'', UPTRDIFF), (CHR ''x'', UPTRDIFF), (CHR ''u'', UPTRDIFF), (CHR ''n'', PTR)]
   | LL \<Rightarrow> [(CHR ''f'', LDOUBLE), (CHR ''e'', LDOUBLE), (CHR ''a'', LDOUBLE), (CHR ''g'', LDOUBLE)])"

definition g_lookup :: "length_prefix \<Rightarrow> char \<Rightarrow> arg_size option" where
  "g_lookup l c = map_of (lookup_row l) c"

text \<open>The zero terminated pieces of \<^verbatim>\<open>g_prefixes\<close>, by their offset.\<close>

definition g_prefixes :: "nat \<Rightarrow> string" where
  "g_prefixes i = (if i = 1 then ''0x'' else if i = 4 then ''0X'' else if i = 7 then ''+'' else if i = 9 then '' '' else [])"

section \<open>Parsing a conversion\<close>

datatype 'a stage = Done | Invalid "arg list" | Undefined | Go 'a

fun continue_with :: "'a stage \<Rightarrow> ('a \<Rightarrow> 'b stage) \<Rightarrow> 'b stage" where
  "continue_with Done f = Done"
| "continue_with (Invalid as) f = Invalid as"
| "continue_with Undefined f = Undefined"
| "continue_with (Go x) f = f x"

fun lbl_flags :: "string \<Rightarrow> u8 \<Rightarrow> (string \<times> u8) stage" where
  "lbl_flags [] flags = Done"
| "lbl_flags (c # fmt) flags =
    (if c = CHR ''-'' then lbl_flags fmt (flags OR FLAG_LEFT)
     else if c = CHR ''+'' then lbl_flags fmt (flags OR FLAG_SIGN)
     else if c = CHR '' '' then lbl_flags fmt (flags OR FLAG_SPACE)
     else if c = CHR ''#'' then lbl_flags fmt (flags OR FLAG_ALTERNATIVE)
     else if c = CHR ''0'' then lbl_flags fmt (flags OR FLAG_ZERO)
     else let flags = (if flags AND FLAG_SIGN \<noteq> 0 then flags AND NOT FLAG_SPACE else flags);
              flags = (if flags AND FLAG_LEFT \<noteq> 0 then flags AND NOT FLAG_ZERO else flags)
          in Go (c # fmt, flags))"

definition is_digit :: "char \<Rightarrow> bool" where
  "is_digit c \<longleftrightarrow> of_char c \<ge> (48 :: nat) \<and> of_char c \<le> (57 :: nat)"

definition digit_value :: "char \<Rightarrow> int" where
  "digit_value c = of_char c - 48"

fun number :: "string \<Rightarrow> int \<Rightarrow> (string \<times> int) stage" where
  "number [] n = Done"
| "number (c # fmt) n =
    (if is_digit c then
       (let n = n * 10 + digit_value c in if n < 2 ^ 31 then number fmt n else Undefined)
     else Go (c # fmt, n))"

text \<open>\<^verbatim>\<open>va_arg(list, int)\<close>.\<close>

fun va_int :: "arg list \<Rightarrow> (arg list \<times> int) stage" where
  "va_int (Integer v # as) = Go (as, sint (ucast v :: u32))"
| "va_int _ = Undefined"

definition lbl_width :: "string \<Rightarrow> arg list \<Rightarrow> u8 \<Rightarrow> (string \<times> arg list \<times> u8 \<times> int) stage" where
  "lbl_width fmt as flags =
    (if fmt \<noteq> [] \<and> hd fmt = CHR ''*'' then
       continue_with (va_int as) (\<lambda>(as, width).
         if width < 0
         then (if width = - (2 ^ 31) then Undefined else Go (tl fmt, as, flags OR FLAG_LEFT, - width))
         else Go (tl fmt, as, flags, width))
     else continue_with (number fmt 0) (\<lambda>(fmt, width). Go (fmt, as, flags, width)))"

definition lbl_precision :: "string \<Rightarrow> arg list \<Rightarrow> u8 \<Rightarrow> (string \<times> arg list \<times> u8 \<times> int) stage" where
  "lbl_precision fmt as flags =
    (if fmt = [] \<or> hd fmt \<noteq> CHR ''.'' then Go (fmt, as, flags, - 1)
     else (let flags = flags AND NOT FLAG_ZERO; fmt = tl fmt in
       if fmt \<noteq> [] \<and> hd fmt = CHR ''*'' then
         continue_with (va_int as) (\<lambda>(as, precision). Go (tl fmt, as, flags, if precision < 0 then 1 else precision))
       else continue_with (number fmt 0) (\<lambda>(fmt, precision). Go (fmt, as, flags, precision))))"

definition lbl_length :: "string \<Rightarrow> string \<times> length_prefix" where
  "lbl_length fmt = (case fmt of [] \<Rightarrow> (fmt, L_NONE) | c # rest \<Rightarrow>
     if c = CHR ''h'' then (case rest of d # rest' \<Rightarrow>
         if d = CHR ''h'' then (rest', L_HH) else if d = CHR ''l'' then (rest', L_LL) else (rest, L_H) | [] \<Rightarrow> (rest, L_H))
     else if c = CHR ''l'' then (case rest of d # rest' \<Rightarrow>
         if d = CHR ''h'' then (rest', L_HH) else if d = CHR ''l'' then (rest', L_LL) else (rest, L_L) | [] \<Rightarrow> (rest, L_L))
     else if c = CHR ''j'' then (rest, L_J)
     else if c = CHR ''z'' then (rest, L_Z)
     else if c = CHR ''t'' then (rest, L_T)
     else if c = CHR ''L'' then (rest, LL)
     else (fmt, L_NONE))"

text \<open>
  The letter that selects the conversion: an upper case letter counts as its lower case one. Any other
  character, and the terminator, indexes outside of a row of \<^verbatim>\<open>g_lookup\<close>.
\<close>

definition letter :: "string \<Rightarrow> char option" where
  "letter fmt = (let c = (if fmt = [] then 0 else of_char (hd fmt) :: nat); i = (if c < 97 then c + 32 else c)
     in if 97 \<le> i \<and> i \<le> 122 then Some (char_of i) else None)"

definition size_of :: "length_prefix \<Rightarrow> char \<Rightarrow> arg_size option" where
  "size_of l c = (case g_lookup l c of None \<Rightarrow> g_lookup L_NONE c | Some z \<Rightarrow> Some z)"

text \<open>The argument as a \<^verbatim>\<open>uintmax_t\<close>, for each size; no argument is taken for \<^verbatim>\<open>DOUBLE\<close> and \<^verbatim>\<open>LDOUBLE\<close>.\<close>

definition integer_arg :: "arg_size \<Rightarrow> u64 \<Rightarrow> u64" where
  "integer_arg z v = (case z of
     INT' \<Rightarrow> scast (ucast v :: u32) | UINT \<Rightarrow> ucast (ucast v :: u32)
   | CHAR' \<Rightarrow> scast (ucast v :: u8) | UCHAR \<Rightarrow> ucast (ucast v :: u8)
   | SHORT \<Rightarrow> scast (ucast v :: u16) | USHORT \<Rightarrow> ucast (ucast v :: u16)
   | _ \<Rightarrow> v)"

fun take_arg :: "arg_size \<Rightarrow> arg list \<Rightarrow> (arg list \<times> arg) stage" where
  "take_arg DOUBLE as = Go (as, Integer 0)"
| "take_arg LDOUBLE as = Go (as, Integer 0)"
| "take_arg PTR (a # as) = Go (as, a)"
| "take_arg z (Integer v # as) = Go (as, Integer (integer_arg z v))"
| "take_arg _ _ = Undefined"

section \<open>Printing\<close>

text \<open>The loop that finds the weight of the first digit; the product does not overflow, see below.\<close>

partial_function (option) weight_loop :: "u64 \<Rightarrow> u64 \<Rightarrow> u64 \<Rightarrow> int \<Rightarrow> (u64 \<times> int) option" where
  "weight_loop value' radix pw length' =
    (if value' div pw \<ge> radix then weight_loop value' radix (pw * radix) (length' + 1) else Some (pw, length'))"

definition digit_char :: "u8 \<Rightarrow> u8 \<Rightarrow> char" where
  "digit_char flags c =
    (if c \<ge> 10 then char_of (unat (c - 10 + (if flags AND FLAG_UPPERCASE \<noteq> 0 then 65 else 97)))
     else char_of (unat (c + 48)))"

partial_function (option) digit_loop :: "u8 \<Rightarrow> int \<Rightarrow> u64 \<Rightarrow> u64 \<Rightarrow> u64 \<Rightarrow> writer \<Rightarrow> writer option" where
  "digit_loop flags precision radix value' pw w =
    (if pw \<noteq> 0 \<and> (precision \<noteq> 0 \<or> value' \<noteq> 0)
     then digit_loop flags precision radix (value' mod pw) (pw div radix) (PUTCHAR (digit_char flags (ucast (value' div pw))) w)
     else Some w)"

definition put_string :: "string \<Rightarrow> writer \<Rightarrow> writer" where
  "put_string cs w = fold PUTCHAR cs w"

definition precision_padding :: "u8 \<Rightarrow> int \<Rightarrow> int \<Rightarrow> u64 \<Rightarrow> int" where
  "precision_padding flags precision length' value' =
    (let precision_pad = (if precision > length' then precision - length' else 0)
     in if precision_pad = 0 \<and> flags AND FLAG_LEADING_ZERO \<noteq> 0 \<and> (value' \<noteq> 0 \<or> flags AND FLAG_NO_PREFIX_ON_ZERO = 0)
        then 1 else precision_pad)"

definition number_prefix :: "u8 \<Rightarrow> bool \<Rightarrow> nat \<Rightarrow> u64 \<Rightarrow> string" where
  "number_prefix flags negative prefix_offset value' =
    (if negative then ''-''
     else if flags AND FLAG_NO_PREFIX_ON_ZERO = 0 \<or> value' \<noteq> 0 then g_prefixes prefix_offset else [])"

definition lbl_print_number :: "u8 \<Rightarrow> int \<Rightarrow> int \<Rightarrow> bool \<Rightarrow> u64 \<Rightarrow> nat \<Rightarrow> u64 \<Rightarrow> writer \<Rightarrow> writer option" where
  "lbl_print_number flags precision width negative radix prefix_offset value' w = do {
     (pw, length') \<leftarrow> weight_loop value' radix 1 (if precision \<noteq> 0 \<or> value' \<noteq> 0 then 1 else 0);
     let precision_pad = precision_padding flags precision length' value';
     let length' = length' + precision_pad;
     let sign = number_prefix flags negative prefix_offset value';
     let length' = length' + int (length sign);
     let w = (if flags AND (FLAG_LEFT OR FLAG_ZERO) = 0 then pad (CHR '' '') length' width w else w);
     if length' = 0 then Some w
     else do {
       let w = put_string sign w;
       let w = (if flags AND (FLAG_ZERO OR FLAG_LEFT) = FLAG_ZERO then pad (CHR ''0'') length' width w else w);
       let w = pad (CHR ''0'') 0 precision_pad w;
       w \<leftarrow> digit_loop flags precision radix value' pw w;
       Some (if flags AND FLAG_LEFT \<noteq> 0 then pad (CHR '' '') length' width w else w)
     }
   }"

definition print_char :: "u8 \<Rightarrow> int \<Rightarrow> u64 \<Rightarrow> writer \<Rightarrow> writer" where
  "print_char flags width value' w =
    (let w = (if flags AND FLAG_LEFT = 0 then pad (CHR '' '') 1 width w else w);
         w = PUTCHAR (char_of (unat (ucast value' :: u8))) w
     in if flags AND FLAG_LEFT \<noteq> 0 then pad (CHR '' '') 1 width w else w)"

definition print_string :: "u8 \<Rightarrow> int \<Rightarrow> int \<Rightarrow> string \<Rightarrow> writer \<Rightarrow> writer" where
  "print_string flags precision width str w =
    (let length' = (if precision \<ge> 0 \<and> precision < int (length str) then precision else int (length str));
         w = (if flags AND FLAG_LEFT = 0 then pad (CHR '' '') length' width w else w);
         w = put_string (take (nat length') str) w
     in if flags AND FLAG_LEFT \<noteq> 0 then pad (CHR '' '') length' width w else w)"

definition go_option :: "'a option \<Rightarrow> 'a stage" where
  "go_option r = (case r of None \<Rightarrow> Undefined | Some x \<Rightarrow> Go x)"

text \<open>The switch on the conversion, for the argument \<open>a\<close>; \<open>as\<close> are the arguments after it.\<close>

definition print_conversion :: "char \<Rightarrow> u8 \<Rightarrow> int \<Rightarrow> int \<Rightarrow> arg \<Rightarrow> arg list \<Rightarrow> writer \<Rightarrow> writer stage" where
  "print_conversion c flags precision width a as w = (case a of
     Integer v \<Rightarrow>
       (let precision = (if precision < 0 then 1 else precision) in
        if c = CHR ''c'' then Go (print_char flags width v w)
        else if c = CHR ''X'' \<or> c = CHR ''x'' then
          (let flags = (if c = CHR ''X'' then flags OR FLAG_UPPERCASE else flags);
               off = (if flags AND FLAG_ALTERNATIVE \<noteq> 0 then if flags AND FLAG_UPPERCASE \<noteq> 0 then 4 else 1 else 0)
           in go_option (lbl_print_number (flags OR FLAG_NO_PREFIX_ON_ZERO) precision width False 16 off v w))
        else if c = CHR ''u'' then go_option (lbl_print_number flags precision width False 10 0 v w)
        else if c = CHR ''o'' then
          (let flags = (if flags AND FLAG_ALTERNATIVE \<noteq> 0 then flags OR FLAG_LEADING_ZERO else flags)
           in go_option (lbl_print_number (flags OR FLAG_NO_PREFIX_ON_ZERO) precision width False 8 0 v w))
        else if c = CHR ''d'' \<or> c = CHR ''i'' then
          (let off = (if flags AND FLAG_SIGN \<noteq> 0 then 7 else if flags AND FLAG_SPACE \<noteq> 0 then 9 else 0);
               negative = (sint v < 0);
               v = (if negative then - v else v)
           in go_option (lbl_print_number flags precision width negative 10 off v w))
        else if c = CHR ''s'' then Undefined
        else Invalid as)
   | Pointer str \<Rightarrow> if c = CHR ''s'' then Go (print_string flags precision width str w) else Invalid as)"

definition lbl_modifiers :: "string \<Rightarrow> arg list \<Rightarrow> u8 \<Rightarrow> int \<Rightarrow> int \<Rightarrow> length_prefix \<Rightarrow> writer \<Rightarrow> (string \<times> arg list \<times> writer) stage" where
  "lbl_modifiers fmt as flags precision width l w = (case letter fmt of None \<Rightarrow> Undefined | Some c \<Rightarrow>
     (case size_of l c of None \<Rightarrow> Invalid as | Some z \<Rightarrow>
       continue_with (take_arg z as) (\<lambda>(as, a).
         continue_with (print_conversion (hd fmt) flags precision width a as w) (\<lambda>w. Go (tl fmt, as, w)))))"

definition conversion :: "string \<Rightarrow> arg list \<Rightarrow> writer \<Rightarrow> (string \<times> arg list \<times> writer) stage" where
  "conversion fmt as w =
    continue_with (lbl_flags fmt 0) (\<lambda>(fmt, flags).
    continue_with (lbl_width fmt as flags) (\<lambda>(fmt, as, flags, width).
    continue_with (lbl_precision fmt as flags) (\<lambda>(fmt, as, flags, precision).
    let (fmt, l) = lbl_length fmt in lbl_modifiers fmt as flags precision width l w)))"

section \<open>The rest of the format gets shorter\<close>

lemma continue_Go: "continue_with x f = Go y \<longleftrightarrow> (\<exists>z. x = Go z \<and> f z = Go y)"
  by (cases x) auto

lemma lbl_flags_suffix: "lbl_flags fmt flags = Go (fmt', flags') \<Longrightarrow> length fmt' \<le> length fmt"
  by (induction fmt flags rule: lbl_flags.induct) (auto simp: Let_def split: if_splits)

lemma number_suffix: "number fmt n = Go (fmt', n') \<Longrightarrow> length fmt' \<le> length fmt"
  by (induction fmt n rule: number.induct) (auto simp: Let_def split: if_splits)

lemma lbl_width_suffix: "lbl_width fmt as flags = Go (fmt', r) \<Longrightarrow> length fmt' \<le> length fmt"
  by (auto simp: lbl_width_def continue_Go dest: number_suffix split: if_splits)

lemma lbl_precision_suffix: "lbl_precision fmt as flags = Go (fmt', r) \<Longrightarrow> length fmt' \<le> length fmt"
  by (auto simp: lbl_precision_def Let_def continue_Go dest!: number_suffix split: if_splits)

lemma lbl_length_suffix: "length (fst (lbl_length fmt)) \<le> length fmt"
  by (auto simp: lbl_length_def split: list.splits)

lemma conversion_suffix:
  assumes "conversion fmt as w = Go (fmt', as', w')"
  shows "length fmt' \<le> length fmt"
proof -
  from assms obtain f1 fl where r1: "lbl_flags fmt 0 = Go (f1, fl)"
    unfolding conversion_def continue_Go by auto
  with assms obtain f2 as2 fl2 wd where r2: "lbl_width f1 as fl = Go (f2, as2, fl2, wd)"
    unfolding conversion_def by (auto simp: continue_Go)
  with assms r1 obtain f3 as3 fl3 pr where r3: "lbl_precision f2 as2 fl2 = Go (f3, as3, fl3, pr)"
    unfolding conversion_def by (auto simp: continue_Go)
  obtain f4 l where r4: "lbl_length f3 = (f4, l)" by fastforce
  have r5: "lbl_modifiers f4 as3 fl3 pr wd l w = Go (fmt', as', w')"
    using assms r1 r2 r3 r4 unfolding conversion_def by simp
  have "length fmt' \<le> length f4"
    using r5 by (auto simp: lbl_modifiers_def continue_Go split: option.splits)
  also have "\<dots> \<le> length f3" using lbl_length_suffix[of f3] r4 by simp
  also have "\<dots> \<le> length f2" by (rule lbl_precision_suffix[OF r3])
  also have "\<dots> \<le> length f1" by (rule lbl_width_suffix[OF r2])
  also have "\<dots> \<le> length fmt" by (rule lbl_flags_suffix[OF r1])
  finally show ?thesis .
qed

text \<open>\<^verbatim>\<open>format\<close> from the label \<^verbatim>\<open>lbl_normal\<close> on: \<open>None\<close> is undefined behaviour.\<close>

function lbl_normal :: "string \<Rightarrow> arg list \<Rightarrow> writer \<Rightarrow> writer option" where
  "lbl_normal [] as w = Some w"
| "lbl_normal (c # fmt) as w =
    (if c \<noteq> CHR ''%'' then lbl_normal fmt as (PUTCHAR c w)
     else if fmt \<noteq> [] \<and> hd fmt = CHR ''%'' then lbl_normal (tl fmt) as (PUTCHAR (CHR ''%'') w)
     else (case conversion fmt as w of
         Done \<Rightarrow> Some w
       | Undefined \<Rightarrow> None
       | Invalid as' \<Rightarrow> lbl_normal fmt as' (PUTCHAR (CHR ''%'') w)
       | Go r \<Rightarrow> lbl_normal (fst r) (fst (snd r)) (snd (snd r))))"
  by pat_completeness auto

termination
proof (relation "measure (\<lambda>(fmt, _). length fmt)")
  fix c fmt as w r assume "conversion fmt as w = Go r"
  then have "length (fst r) \<le> length fmt" using conversion_suffix[of fmt as w] by (cases r) auto
  then show "((fst r, fst (snd r), snd (snd r)), c # fmt, as, w) \<in> measure (\<lambda>(fmt, _). length fmt)" by (simp add: split_beta)
qed (auto simp: neq_Nil_conv)

definition format :: "string \<Rightarrow> arg list \<Rightarrow> (string \<times> u32) option" where
  "format fmt as = map_option (\<lambda>w. (written w, ucast (w_count w))) (lbl_normal fmt as \<lparr>written = [], w_count = 0\<rparr>)"

end
