(* ===== verification/FormatSpec.thy ===== *)
theory FormatSpec
  imports Format
begin

text \<open>
  Formatted numbers are the usual positional numerals. The reference is \<open>radix_digits\<close>, which takes the last digit
  off by division, while the code first finds the weight of the first digit and then divides by descending weights.
\<close>

section \<open>Writing\<close>

lemma put_string_simps [simp]:
  "put_string [] w = w" "put_string (c # cs) w = put_string cs (PUTCHAR c w)" "put_string (cs @ ds) w = put_string ds (put_string cs w)"
  by (simp_all add: put_string_def)

lemma put_string_fields:
  "written (put_string cs w) = written w @ cs" "w_count (put_string cs w) = w_count w + of_nat (length cs)"
  by (induction cs arbitrary: w) (simp_all add: PUTCHAR_def)

lemma fold_replicate: "fold (\<lambda>_. PUTCHAR c) xs w = put_string (replicate (length xs) c) w"
  by (induction xs arbitrary: w) simp_all

lemma pad_eq: "pad c from to w = put_string (replicate (nat (to - from)) c) w"
  unfolding pad_def fold_replicate by simp

section \<open>Digits\<close>

fun radix_digits :: "nat \<Rightarrow> nat \<Rightarrow> nat list" where
  "radix_digits r n = (if r < 2 \<or> n < r then [n] else radix_digits r (n div r) @ [n mod r])"

declare radix_digits.simps [simp del]

definition digits_value :: "nat \<Rightarrow> nat list \<Rightarrow> nat" where
  "digits_value r ds = foldl (\<lambda>a d. a * r + d) 0 ds"

lemma radix_digits_value: "2 \<le> r \<Longrightarrow> digits_value r (radix_digits r n) = n"
proof (induction r n rule: radix_digits.induct)
  case (1 r n)
  show ?case
  proof (cases "n < r")
    case False
    with 1 show ?thesis by (subst radix_digits.simps) (auto simp: digits_value_def)
  qed (simp add: radix_digits.simps digits_value_def)
qed

lemma radix_digits_bound: "2 \<le> r \<Longrightarrow> d \<in> set (radix_digits r n) \<Longrightarrow> d < r"
proof (induction r n rule: radix_digits.induct)
  case (1 r n)
  then show ?case by (cases "n < r") (auto simp: radix_digits.simps[of r n])
qed

text \<open>The digits from the weight \<open>r ^ m\<close> downwards.\<close>

fun weight_digits :: "nat \<Rightarrow> nat \<Rightarrow> nat \<Rightarrow> nat list" where
  "weight_digits r 0 n = [n]"
| "weight_digits r (Suc m) n = n div r ^ Suc m # weight_digits r m (n mod r ^ Suc m)"

lemma weight_digits_length: "length (weight_digits r m n) = Suc m"
  by (induction m arbitrary: n) simp_all

lemma weight_digits_last: "0 < r \<Longrightarrow> weight_digits r (Suc m) n = weight_digits r m (n div r) @ [n mod r]"
proof (induction m arbitrary: n)
  case (Suc m)
  have d: "n div r ^ Suc (Suc m) = n div r div r ^ Suc m" by (simp add: div_mult2_eq)
  have md: "n mod r ^ Suc (Suc m) div r = n div r mod r ^ Suc m"
    using mod_mult2_eq[of n r "r ^ Suc m"] Suc.prems by simp
  have mm: "n mod r ^ Suc (Suc m) mod r = n mod r" by (simp add: mod_mod_cancel)
  have "weight_digits r (Suc (Suc m)) n = n div r ^ Suc (Suc m) # weight_digits r (Suc m) (n mod r ^ Suc (Suc m))" by simp
  also have "\<dots> = n div r div r ^ Suc m # weight_digits r m (n div r mod r ^ Suc m) @ [n mod r]"
    unfolding Suc.IH[OF Suc.prems] d md mm ..
  finally show ?case by simp
qed simp

lemma weight_digits_radix:
  assumes "2 \<le> r" "n < r ^ Suc m" "m = 0 \<or> r ^ m \<le> n"
  shows "weight_digits r m n = radix_digits r n"
  using assms(2,3)
proof (induction m arbitrary: n)
  case 0
  then show ?case by (simp add: radix_digits.simps)
next
  case (Suc m)
  have "r \<le> n"
  proof -
    have "1 \<le> r ^ m" using assms(1) by simp
    then have "r * 1 \<le> r * r ^ m" by (rule mult_le_mono2)
    also have "\<dots> \<le> n" using Suc.prems(2) by simp
    finally show ?thesis by simp
  qed
  moreover have "n div r < r ^ Suc m" using Suc.prems(1) assms(1) by (simp add: less_mult_imp_div_less mult.commute)
  moreover have "r ^ m \<le> n div r" using Suc.prems(2) assms(1) by (simp add: less_eq_div_iff_mult_less_eq mult.commute)
  ultimately show ?case
    using Suc.IH[of "n div r"] weight_digits_last[of r m n] assms(1) by (simp add: radix_digits.simps[of r n])
qed

section \<open>The loops\<close>

text \<open>The weight never overflows: it stays at most the value.\<close>

lemma weight_loop_ok:
  assumes r: "2 \<le> unat radix" "unat radix \<le> 16"
  shows "unat pw = unat radix ^ k \<Longrightarrow> k = 0 \<or> unat radix ^ k \<le> unat v \<Longrightarrow>
    \<exists>m \<ge> k. \<exists>pw'. weight_loop v radix pw len = Some (pw', len + int (m - k)) \<and> unat pw' = unat radix ^ m \<and>
      unat v < unat radix ^ Suc m \<and> (m = 0 \<or> unat radix ^ m \<le> unat v)"
proof (induction "unat v - unat radix ^ k" arbitrary: pw k len rule: less_induct)
  case less
  let ?r = "unat radix"
  have q: "v div pw \<ge> radix \<longleftrightarrow> ?r ^ Suc k \<le> unat v"
  proof -
    have "0 < ?r ^ k" using r(1) by simp
    then have "?r \<le> unat v div ?r ^ k \<longleftrightarrow> ?r * ?r ^ k \<le> unat v" by (rule less_eq_div_iff_mult_less_eq)
    then show ?thesis by (simp add: word_le_nat_alt unat_div less.prems(1))
  qed
  show ?case
  proof (cases "?r ^ Suc k \<le> unat v")
    case True
    have lt: "?r ^ k < ?r ^ Suc k" using r(1) by simp
    have "?r ^ Suc k < 2 ^ 64" using True unsigned_less[of v, where 'a = nat] by simp
    then have "unat (pw * radix) = ?r ^ Suc k" using less.prems(1) by (simp add: unat_word_ariths mult.commute)
    moreover have "unat v - ?r ^ Suc k < unat v - ?r ^ k" using True lt by linarith
    ultimately obtain m pw' where m: "m \<ge> Suc k" "weight_loop v radix (pw * radix) (len + 1) = Some (pw', len + 1 + int (m - Suc k))"
      "unat pw' = ?r ^ m" "unat v < ?r ^ Suc m" "m = 0 \<or> ?r ^ m \<le> unat v"
      using less.hyps[of "Suc k" "pw * radix" "len + 1"] True by blast
    have "weight_loop v radix pw len = weight_loop v radix (pw * radix) (len + 1)"
      using True q by (subst weight_loop.simps) simp
    moreover have "len + 1 + int (m - Suc k) = len + int (m - k)" using m(1) by simp
    ultimately show ?thesis using m by (intro exI[of _ m]) auto
  next
    case False
    then have "weight_loop v radix pw len = Some (pw, len)" using q by (subst weight_loop.simps) simp
    with False less.prems show ?thesis by (intro exI[of _ k]) (auto simp: not_le)
  qed
qed

lemma ucast_of_unat: "(ucast (x :: u64) :: u8) = of_nat (unat x)"
  by simp

definition digit_text :: "u8 \<Rightarrow> nat list \<Rightarrow> string" where
  "digit_text flags ds = map (\<lambda>d. digit_char flags (of_nat d)) ds"

lemma digit_loop_ok:
  assumes r: "2 \<le> unat radix" and p: "precision \<noteq> 0"
  shows "unat pw = unat radix ^ m \<Longrightarrow> unat v < unat radix ^ Suc m \<Longrightarrow>
    digit_loop flags precision radix v pw w = Some (put_string (digit_text flags (weight_digits (unat radix) m (unat v))) w)"
proof (induction m arbitrary: v pw w)
  case 0
  have pw: "pw = 1" using 0(1) by (simp add: word_unat_eq_iff)
  have "1 div radix = 0" using r by (simp add: word_arith_nat_div div_eq_0_iff)
  then have "digit_loop flags precision radix 0 0 w' = Some w'" for w' by (subst digit_loop.simps) simp
  moreover have "v mod 1 = 0" by (metis mod_by_1)
  ultimately show ?case using p \<open>1 div radix = 0\<close>
    by (subst digit_loop.simps) (simp add: pw digit_text_def)
next
  case (Suc m)
  let ?r = "unat radix"
  have nz: "pw \<noteq> 0" using Suc.prems(1) r by (metis not_numeral_le_zero power_not_zero unsigned_0)
  have "unat (pw div radix) = ?r ^ m" using Suc.prems(1) r by (simp add: unat_div)
  moreover have "unat (v mod pw) = unat v mod ?r ^ Suc m" by (simp add: unat_mod Suc.prems(1))
  moreover have "unat v mod ?r ^ Suc m < ?r ^ Suc m" using r by simp
  ultimately have "digit_loop flags precision radix (v mod pw) (pw div radix) w' =
      Some (put_string (digit_text flags (weight_digits ?r m (unat v mod ?r ^ Suc m))) w')" for w'
    using Suc.IH by metis
  moreover have "ucast (v div pw) = (of_nat (unat v div ?r ^ Suc m) :: u8)"
    unfolding ucast_of_unat unat_div Suc.prems(1) ..
  ultimately show ?case using p nz by (subst digit_loop.simps) (simp add: digit_text_def)
qed

section \<open>Numbers\<close>

text \<open>The text of a number as the conversions describe it: padding, sign or prefix, leading zeros and digits.\<close>

definition number_zeros :: "u8 \<Rightarrow> int \<Rightarrow> nat \<Rightarrow> nat \<Rightarrow> nat" where
  "number_zeros flags precision digits n =
    (if precision > int digits then nat precision - digits
     else if flags AND FLAG_LEADING_ZERO \<noteq> 0 \<and> (n \<noteq> 0 \<or> flags AND FLAG_NO_PREFIX_ON_ZERO = 0) then 1 else 0)"

definition number_sign :: "u8 \<Rightarrow> bool \<Rightarrow> nat \<Rightarrow> nat \<Rightarrow> string" where
  "number_sign flags negative prefix_offset n =
    (if negative then ''-'' else if flags AND FLAG_NO_PREFIX_ON_ZERO = 0 \<or> n \<noteq> 0 then g_prefixes prefix_offset else [])"

definition layout :: "u8 \<Rightarrow> int \<Rightarrow> string \<Rightarrow> string \<Rightarrow> string" where
  "layout flags width sign body =
    (let fill = nat (width - int (length (sign @ body)))
     in if flags AND FLAG_LEFT \<noteq> 0 then sign @ body @ replicate fill (CHR '' '')
        else if flags AND FLAG_ZERO \<noteq> 0 then sign @ replicate fill (CHR ''0'') @ body
        else replicate fill (CHR '' '') @ sign @ body)"

definition number_text :: "u8 \<Rightarrow> int \<Rightarrow> int \<Rightarrow> bool \<Rightarrow> nat \<Rightarrow> nat \<Rightarrow> nat \<Rightarrow> string" where
  "number_text flags precision width negative radix prefix_offset n =
    (let ds = digit_text flags (radix_digits radix n)
     in layout flags width (number_sign flags negative prefix_offset n)
          (replicate (number_zeros flags precision (length ds) n) (CHR ''0'') @ ds))"

lemma and_pow: "(x :: u8) AND 2 ^ n = (if bit x n then 2 ^ n else 0)"
  by (rule bit_eqI) (auto simp: bit_and_iff bit_exp_iff)

lemma and_left_zero:
  "flags AND FLAG_LEFT = (if bit flags 0 then 1 else 0)" "flags AND FLAG_ZERO = (if bit flags 4 then 16 else 0)"
  using and_pow[of flags 0] and_pow[of flags 4] by (simp_all add: FLAG_LEFT_def FLAG_ZERO_def)

lemma flag_cases:
  "flags AND (FLAG_LEFT OR FLAG_ZERO) = 0 \<longleftrightarrow> flags AND FLAG_LEFT = 0 \<and> flags AND FLAG_ZERO = 0"
  "flags AND (FLAG_ZERO OR FLAG_LEFT) = FLAG_ZERO \<longleftrightarrow> flags AND FLAG_LEFT = 0 \<and> flags AND FLAG_ZERO \<noteq> 0"
  unfolding bit.conj_disj_distrib and_left_zero by (simp_all add: FLAG_ZERO_def)

lemma print_number_eq:
  assumes r: "2 \<le> unat radix" "unat radix \<le> 16" and p: "0 < precision"
  shows "lbl_print_number flags precision width negative radix off v w =
    Some (put_string (number_text flags precision width negative (unat radix) off (unat v)) w)"
proof -
  let ?r = "unat radix" and ?n = "unat v"
  obtain m pw where m: "weight_loop v radix 1 1 = Some (pw, 1 + int m)" "unat pw = ?r ^ m" "?n < ?r ^ Suc m" "m = 0 \<or> ?r ^ m \<le> ?n"
    using weight_loop_ok[OF r, of 1 0 v 1] by auto
  have ds: "weight_digits ?r m ?n = radix_digits ?r ?n" by (rule weight_digits_radix[OF r(1) m(3,4)])
  have len: "length (digit_text flags (radix_digits ?r ?n)) = Suc m"
    unfolding ds[symmetric] by (simp add: digit_text_def weight_digits_length)
  have loop: "digit_loop flags precision radix v pw w' = Some (put_string (digit_text flags (radix_digits ?r ?n)) w')" for w'
    using digit_loop_ok[OF r(1) _ m(2,3), of precision flags w'] p ds by simp
  have v0: "v = 0 \<longleftrightarrow> ?n = 0" by (simp add: unat_eq_0)
  define zs where "zs = number_zeros flags precision (Suc m) ?n"
  define sign where "sign = number_sign flags negative off ?n"
  let ?L = "1 + int m + int zs + int (length sign)"
  have zs: "precision_padding flags precision (1 + int m) v = int zs"
    by (auto simp: zs_def number_zeros_def precision_padding_def v0 Let_def)
  have sg: "number_prefix flags negative off v = sign"
    by (simp add: sign_def number_sign_def number_prefix_def v0)
  have "lbl_print_number flags precision width negative radix off v w = (do {
      let w = (if flags AND FLAG_LEFT = 0 \<and> flags AND FLAG_ZERO = 0 then pad (CHR '' '') ?L width w else w);
      let w = put_string sign w;
      let w = (if flags AND FLAG_LEFT = 0 \<and> flags AND FLAG_ZERO \<noteq> 0 then pad (CHR ''0'') ?L width w else w);
      let w = pad (CHR ''0'') 0 (int zs) w;
      let w = put_string (digit_text flags (radix_digits ?r ?n)) w;
      Some (if flags AND FLAG_LEFT \<noteq> 0 then pad (CHR '' '') ?L width w else w)})"
    using p unfolding lbl_print_number_def flag_cases
    by (simp add: m(1) loop zs sg Let_def split del: if_split cong: if_cong)
  also have "\<dots> = Some (put_string (layout flags width sign (replicate zs (CHR ''0'') @ digit_text flags (radix_digits ?r ?n))) w)"
    by (simp add: layout_def pad_eq Let_def len ac_simps)
  also have "\<dots> = Some (put_string (number_text flags precision width negative ?r off ?n) w)"
    by (simp add: number_text_def len zs_def sign_def Let_def)
  finally show ?thesis .
qed

section \<open>Whole formats\<close>

text \<open>
  A format as a sequence of pieces: plain text, and conversions with their arguments. \<open>piece_format\<close> is what the
  caller writes, \<open>piece_text\<close> what it means.
\<close>

datatype piece = Text string | Percent | Decimal u64 | Unsigned64 u64 | Hex64 u64 | String string | Char u64

definition int_text :: "int \<Rightarrow> string" where
  "int_text i = (if i < 0 then ''-'' else []) @ digit_text 0 (radix_digits 10 (nat \<bar>i\<bar>))"

fun piece_format :: "piece \<Rightarrow> string" where
  "piece_format (Text t) = t"
| "piece_format Percent = ''%%''"
| "piece_format (Decimal v) = ''%d''"
| "piece_format (Unsigned64 v) = ''%lu''"
| "piece_format (Hex64 v) = ''%#lx''"
| "piece_format (String t) = ''%s''"
| "piece_format (Char v) = ''%c''"

fun piece_args :: "piece \<Rightarrow> arg list" where
  "piece_args (Decimal v) = [Integer v]"
| "piece_args (Unsigned64 v) = [Integer v]"
| "piece_args (Hex64 v) = [Integer v]"
| "piece_args (String t) = [Pointer t]"
| "piece_args (Char v) = [Integer v]"
| "piece_args _ = []"

fun piece_text :: "piece \<Rightarrow> string" where
  "piece_text (Text t) = t"
| "piece_text Percent = ''%''"
| "piece_text (Decimal v) = int_text (sint (ucast v :: u32))"
| "piece_text (Unsigned64 v) = digit_text 0 (radix_digits 10 (unat v))"
| "piece_text (Hex64 v) = (if v = 0 then ''0'' else ''0x'' @ digit_text 0 (radix_digits 16 (unat v)))"
| "piece_text (String t) = t"
| "piece_text (Char v) = [char_of (unat (ucast v :: u8))]"

fun piece_ok :: "piece \<Rightarrow> bool" where
  "piece_ok (Text t) = (CHR ''%'' \<notin> set t)"
| "piece_ok _ = True"

lemma normal_text: "CHR ''%'' \<notin> set t \<Longrightarrow> lbl_normal (t @ fmt) as w = lbl_normal fmt as (put_string t w)"
  by (induction t arbitrary: w) auto

lemma digit_text_lower: "flags AND FLAG_UPPERCASE = 0 \<Longrightarrow> digit_text flags = digit_text 0"
  by (simp add: digit_text_def digit_char_def fun_eq_iff)

lemma number_text_plain:
  "number_text 0 1 0 negative r 0 n = (if negative then ''-'' else []) @ digit_text 0 (radix_digits r n)"
proof -
  have "radix_digits r n \<noteq> []" by (subst radix_digits.simps) simp
  then have "digit_text 0 (radix_digits r n) \<noteq> []" by (simp add: digit_text_def)
  then show ?thesis
    by (simp add: number_text_def layout_def number_zeros_def number_sign_def g_prefixes_def Let_def)
qed

lemma hex_flags:
  "(8 :: u8) AND FLAG_UPPERCASE = 0" "(8 OR FLAG_NO_PREFIX_ON_ZERO :: u8) = 136" "(8 :: u8) AND FLAG_ALTERNATIVE \<noteq> 0"
  "(136 :: u8) AND FLAG_UPPERCASE = 0" "(136 :: u8) AND FLAG_NO_PREFIX_ON_ZERO \<noteq> 0" "(136 :: u8) AND FLAG_LEADING_ZERO = 0"
  "(136 :: u8) AND FLAG_LEFT = 0" "(136 :: u8) AND FLAG_ZERO = 0"
  by (simp_all add: FLAG_UPPERCASE_def FLAG_NO_PREFIX_ON_ZERO_def FLAG_ALTERNATIVE_def FLAG_LEADING_ZERO_def FLAG_LEFT_def FLAG_ZERO_def)

lemma number_text_hex:
  "number_text 136 1 0 False 16 (Suc 0) n = (if n = 0 then ''0'' else ''0x'' @ digit_text 0 (radix_digits 16 n))"
proof -
  have "radix_digits 16 n \<noteq> []" by (subst radix_digits.simps) simp
  then have l: "digit_text 0 (radix_digits 16 n) \<noteq> []" by (simp add: digit_text_def)
  have z: "digit_text 0 (radix_digits 16 0) = ''0''"
    by (simp add: digit_text_def radix_digits.simps digit_char_def char_of_def bit_0)
  have d: "digit_text 136 = digit_text 0" by (rule digit_text_lower) (rule hex_flags)
  show ?thesis
    using l z unfolding number_text_def d layout_def number_zeros_def number_sign_def g_prefixes_def Let_def
    by (simp add: hex_flags)
qed

lemma letter_known:
  "letter (CHR ''d'' # fmt) = Some (CHR ''d'')" "letter (CHR ''u'' # fmt) = Some (CHR ''u'')" "letter (CHR ''x'' # fmt) = Some (CHR ''x'')"
  "letter (CHR ''s'' # fmt) = Some (CHR ''s'')" "letter (CHR ''c'' # fmt) = Some (CHR ''c'')"
  by (simp_all add: letter_def char_of_def bit_0 Let_def)

lemmas conversion_eval = conversion_def lbl_width_def lbl_precision_def lbl_length_def lbl_modifiers_def letter_known size_of_def g_lookup_def
  lookup_row_def is_digit_def print_conversion_def go_option_def integer_arg_def Let_def

lemma sint_scast: "sint (scast (x :: u32) :: u64) = sint x"
proof -
  have "- (2 ^ 31) \<le> sint x" "sint x < 2 ^ 31" using sint_range_size[of x] by (simp_all add: word_size)
  then have "signed_take_bit 63 (sint x) = sint x" by (intro signed_take_bit_int_eq_self) simp_all
  then show ?thesis by (simp add: signed_scast_eq)
qed

lemma magnitude: "unat (if sint v < 0 then - v else v) = nat \<bar>sint (v :: u64)\<bar>"
proof -
  have r: "- (2 ^ 63) \<le> sint v" "sint v < 2 ^ 63" using sint_range_size[of v] by (simp_all add: word_size)
  have k: "unat (of_int k :: u64) = nat k" if "0 \<le> k" "k < 2 ^ 64" for k
    using that by (simp add: unat_eq_nat_uint uint_word_of_int_eq take_bit_int_eq_self)
  show ?thesis
  proof (cases "sint v < 0")
    case True
    with r k[of "- sint v"] show ?thesis by simp
  next
    case False
    with r k[of "sint v"] show ?thesis by simp
  qed
qed

lemma flags_hash: "lbl_flags (CHR ''#'' # CHR ''l'' # fmt) 0 = Go (CHR ''l'' # fmt, 8)"
  by (simp add: FLAG_ALTERNATIVE_def FLAG_SIGN_def FLAG_LEFT_def Let_def)

lemma char_arg: "(ucast (scast (ucast (v :: u64) :: u32) :: u64) :: u8) = ucast v"
  by (rule bit_word_eqI) (simp add: bit_simps)

lemma conversion_decimal:
  "conversion (''d'' @ fmt) (Integer v # as) w = Go (fmt, as, put_string (int_text (sint (ucast v :: u32))) w)"
proof -
  let ?x = "scast (ucast v :: u32) :: u64"
  have "number_text 0 1 0 (sint ?x < 0) 10 0 (unat (if sint ?x < 0 then - ?x else ?x)) = int_text (sint (ucast v :: u32))"
    unfolding magnitude number_text_plain unfolding sint_scast int_text_def ..
  then have "lbl_print_number 0 1 0 (sint ?x < 0) 10 0 (if sint ?x < 0 then - ?x else ?x) w = Some (put_string (int_text (sint (ucast v :: u32))) w)"
    by (subst print_number_eq) (simp_all split del: if_split)
  then show ?thesis by (simp add: conversion_eval split del: if_split)
qed

lemma conversion_unsigned: "conversion (''lu'' @ fmt) (Integer v # as) w = Go (fmt, as, put_string (digit_text 0 (radix_digits 10 (unat v))) w)"
  by (simp add: conversion_eval print_number_eq number_text_plain)

lemma conversion_hex:
  "conversion (''#lx'' @ fmt) (Integer v # as) w = Go (fmt, as, put_string (piece_text (Hex64 v)) w)"
  by (simp add: conversion_eval flags_hash print_number_eq hex_flags number_text_hex unat_eq_0 del: lbl_flags.simps)

lemma conversion_string: "conversion (''s'' @ fmt) (Pointer t # as) w = Go (fmt, as, put_string t w)"
  by (simp add: conversion_eval print_string_def pad_eq)

lemma conversion_char: "conversion (''c'' @ fmt) (Integer v # as) w = Go (fmt, as, put_string (piece_text (Char v)) w)"
  by (simp add: conversion_eval print_char_def pad_eq char_arg)

lemma normal_piece:
  assumes "piece_ok p"
  shows "lbl_normal (piece_format p @ fmt) (piece_args p @ as) w = lbl_normal fmt as (put_string (piece_text p) w)"
proof (cases p)
  case (Text t)
  then show ?thesis using assms normal_text by simp
next
  case (Decimal v)
  then show ?thesis using conversion_decimal[of fmt v as w] by simp
next
  case (Unsigned64 v)
  then show ?thesis using conversion_unsigned[of fmt v as w] by simp
next
  case (Hex64 v)
  then show ?thesis using conversion_hex[of fmt v as w] by simp
next
  case (String t)
  then show ?thesis using conversion_string[of fmt t as w] by simp
next
  case (Char v)
  then show ?thesis using conversion_char[of fmt v as w] by simp
qed simp

lemma normal_pieces:
  "list_all piece_ok ps \<Longrightarrow>
   lbl_normal (concat (map piece_format ps) @ fmt) (concat (map piece_args ps) @ as) w =
     lbl_normal fmt as (put_string (concat (map piece_text ps)) w)"
  by (induction ps arbitrary: w) (simp_all add: normal_piece)

lemma ucast_of_nat32: "(ucast (of_nat n :: u64) :: u32) = of_nat n"
  by (rule bit_word_eqI) (simp add: bit_simps)

section \<open>Properties\<close>

text \<open>
  (C22) A whole format, any sequence of plain text (without a percent sign) and of the conversions \<^verbatim>\<open>%%\<close>, \<^verbatim>\<open>%d\<close>,
  \<^verbatim>\<open>%lu\<close>, \<^verbatim>\<open>%#lx\<close>, \<^verbatim>\<open>%s\<close> and \<^verbatim>\<open>%c\<close>, is written as the concatenation of the texts the conversions stand for: the signed
  decimal of the lower 32 bits, the decimal and the prefixed hexadecimal of the 64 bit value, the string, the character.
  Each argument is used once and in order, and the result is the number of characters written.
\<close>

theorem format_renders:
  assumes "list_all piece_ok ps"
  shows "format (concat (map piece_format ps)) (concat (map piece_args ps)) =
    Some (concat (map piece_text ps), of_nat (length (concat (map piece_text ps))))"
  using normal_pieces[OF assms, of "[]" "[]"] by (simp add: format_def put_string_fields ucast_of_nat32)

theorem format_renders_witness:
  "format ''a %d%%, %#lx: %s'' [Integer (- 5), Integer 255, Pointer ''ok''] = Some (''a -5%, 0xff: ok'', 15)"
proof -
  have "int_text (- 5) = ''-5''" "digit_text 0 (radix_digits 16 255) = ''ff''" by code_simp+
  then show ?thesis
    using format_renders[of "[Text ''a '', Decimal (- 5), Percent, Text '', '', Hex64 255, Text '': '', String ''ok'']"] by simp
qed

text \<open>
  (C23) Printing a number agrees with the reference layout for every flag, width, precision other than 0 and radix: the
  loop that finds the weight of the first digit ends without an overflow, and the loop over the weights writes the
  digits of the positional numeral, which read back give the number.
\<close>

theorem print_number_equivalent:
  assumes "radix = 8 \<or> radix = 10 \<or> radix = 16" "0 < precision"
  shows "lbl_print_number flags precision width negative radix off v w =
      Some (put_string (number_text flags precision width negative (unat radix) off (unat v)) w) \<and>
    digits_value (unat radix) (radix_digits (unat radix) (unat v)) = unat v \<and>
    (\<forall>d \<in> set (radix_digits (unat radix) (unat v)). d < unat radix)"
proof -
  have r: "2 \<le> unat radix" "unat radix \<le> 16" using assms(1) by auto
  show ?thesis using print_number_eq[OF r assms(2)] radix_digits_value[OF r(1)] radix_digits_bound[OF r(1)] by blast
qed

theorem print_number_equivalent_witness:
  "lbl_print_number FLAG_ZERO 1 6 True 10 0 42 \<lparr>written = [], w_count = 0\<rparr> = Some \<lparr>written = ''-00042'', w_count = 6\<rparr>"
proof -
  have "number_text FLAG_ZERO 1 6 True 10 0 42 = ''-00042''" by code_simp
  then show ?thesis using print_number_equivalent[of 10 1 FLAG_ZERO 6 True 0 42 "\<lparr>written = [], w_count = 0\<rparr>"] by (simp add: PUTCHAR_def)
qed

text \<open>
  With an explicit precision of 0 trailing zero digits are lost: \<^verbatim>\<open>%.0lu\<close> prints 100 as the single digit 1, since the loop
  over the digits stops when the rest of the value is 0.
\<close>

theorem format_zero_precision_drops_digits:
  "format ''%.0lu'' [Integer 100] = Some (''1'', 1)"
proof -
  have w3: "weight_loop 100 10 100 3 = Some (100, 3)" by (subst weight_loop.simps) (simp add: word_le_nat_alt)
  have w2: "weight_loop 100 10 10 2 = Some (100, 3)" by (subst weight_loop.simps) (simp add: w3)
  have w1: "weight_loop 100 10 1 1 = Some (100, 3)" by (subst weight_loop.simps) (simp add: w2)
  have d0: "digit_loop f 0 10 0 10 w = Some w" for f w by (subst digit_loop.simps) simp
  have d1: "digit_loop f 0 10 100 100 w = Some (PUTCHAR (CHR ''1'') w)" for f w
    by (subst digit_loop.simps) (simp add: d0 digit_char_def char_of_def bit_0 word_le_nat_alt)
  have "lbl_print_number 0 0 0 False 10 0 100 w = Some (PUTCHAR (CHR ''1'') w)" for w
    by (simp add: lbl_print_number_def w1 d1 precision_padding_def number_prefix_def g_prefixes_def pad_eq FLAG_ZERO_def)
  then show ?thesis by (simp add: format_def conversion_eval digit_value_def PUTCHAR_def)
qed

end
