(* ===== verification/Locks.thy ===== *)
theory Locks
  imports LibList
begin

text \<open>
  The state of a processor that guards critical sections, and the code that changes it: the preemption
  counter (\<^verbatim>\<open>sched/sched.c\<close>), deferred work (\<^verbatim>\<open>sys/dw.c\<close>), the interrupt flag (\<^verbatim>\<open>sys/interrupt.h\<close>), spinlocks
  (\<^verbatim>\<open>common/lock/spinlock.c\<close>) and mutexes (\<^verbatim>\<open>common/lock/mutex.c\<close>).

  What this processor cannot decide is an argument: \<open>switch st\<close> is the effect of giving the processor away with
  state \<open>st\<close> until the thread is resumed, \<open>wait\<close> the effect of the other processors during one turn of a spin
  loop, \<open>run\<close> the function (and clean up) of an item of deferred work. \<open>None\<close> is a failed assertion, or a
  loop that never ends.
\<close>

section \<open>The state of a processor\<close>

datatype thread_state = THREAD_STATE_READY | THREAD_STATE_ACTIVE | THREAD_STATE_BLOCK | THREAD_STATE_DESTROY

record cpu =
  preempt_counter :: u32
  yield_immediately :: bool
  deferred_work_status :: u32
  in_interrupt_hard :: bool
  in_interrupt_soft :: bool
  interrupts :: bool
  dw_items :: "nat list"
  spinlocks :: "nat \<Rightarrow> bool"

definition UINT32_MAX :: u32 where "UINT32_MAX = 0xFFFFFFFF"

section \<open>Interrupts\<close>

definition interrupt_state_mask :: "cpu \<Rightarrow> cpu \<times> bool" where
  "interrupt_state_mask c = (c\<lparr>interrupts := False\<rparr>, interrupts c)"

definition interrupt_state_restore :: "bool \<Rightarrow> cpu \<Rightarrow> cpu" where
  "interrupt_state_restore st c =
    (if interrupts c = st then c else if st then c\<lparr>interrupts := True\<rparr> else c\<lparr>interrupts := False\<rparr>)"

section \<open>Preemption\<close>

definition yield_checks :: "thread_state \<Rightarrow> cpu \<Rightarrow> unit option" where
  "yield_checks yield_state c = do {
     ASSERT (yield_state \<noteq> THREAD_STATE_ACTIVE);
     ASSERT (preempt_counter c = 0);
     ASSERT (deferred_work_status c = 0);
     ASSERT (\<not> in_interrupt_hard c \<and> \<not> in_interrupt_soft c)
   }"

text \<open>\<^verbatim>\<open>sched_yield\<close> as the thread that calls it sees it; the choice of the next thread is in theory \<open>Sched\<close>.\<close>

definition sched_yield :: "(thread_state \<Rightarrow> cpu \<Rightarrow> cpu option) \<Rightarrow> thread_state \<Rightarrow> cpu \<Rightarrow> cpu option" where
  "sched_yield switch yield_state c = do {
     let (c, previous_state) = interrupt_state_mask c;
     yield_checks yield_state c;
     c \<leftarrow> switch yield_state c;
     Some (interrupt_state_restore previous_state c)
   }"

definition sched_preempt_inc :: "cpu \<Rightarrow> cpu option" where
  "sched_preempt_inc c = do {
     ASSERT (preempt_counter c < UINT32_MAX);
     Some (c\<lparr>preempt_counter := preempt_counter c + 1\<rparr>)
   }"

definition sched_preempt_dec :: "(thread_state \<Rightarrow> cpu \<Rightarrow> cpu option) \<Rightarrow> cpu \<Rightarrow> cpu option" where
  "sched_preempt_dec switch c = do {
     let n = preempt_counter c;
     ASSERT (n > 0);
     let do_yield = (n = 1 \<and> yield_immediately c);
     let c = (if n = 1 then c\<lparr>yield_immediately := False\<rparr> else c);
     let c = c\<lparr>preempt_counter := preempt_counter c - 1\<rparr>;
     if do_yield then sched_yield switch THREAD_STATE_READY c else Some c
   }"

section \<open>Deferred work\<close>

definition dw_status_disable :: "cpu \<Rightarrow> cpu option" where
  "dw_status_disable c = do {
     ASSERT (deferred_work_status c < UINT32_MAX);
     Some (c\<lparr>deferred_work_status := deferred_work_status c + 1\<rparr>)
   }"

definition dw_enable :: "cpu \<Rightarrow> (cpu \<times> bool) option" where
  "dw_enable c = do {
     let status = deferred_work_status c;
     ASSERT (status > 0);
     Some (c\<lparr>deferred_work_status := deferred_work_status c - 1\<rparr>, status = 1)
   }"

definition dw_queue :: "(thread_state \<Rightarrow> cpu \<Rightarrow> cpu option) \<Rightarrow> nat \<Rightarrow> cpu \<Rightarrow> cpu option" where
  "dw_queue switch item c = do {
     c \<leftarrow> sched_preempt_inc c;
     c \<leftarrow> dw_status_disable c;
     xs \<leftarrow> seq_push (dw_items c) item;
     let c = c\<lparr>dw_items := xs\<rparr>;
     (c, _) \<leftarrow> dw_enable c;
     sched_preempt_dec switch c
   }"

partial_function (option) dw_process_loop ::
    "(thread_state \<Rightarrow> cpu \<Rightarrow> cpu option) \<Rightarrow> (nat \<Rightarrow> cpu \<Rightarrow> cpu option) \<Rightarrow> cpu \<Rightarrow> cpu option" where
  "dw_process_loop switch run c = do {
     c \<leftarrow> sched_preempt_inc c;
     if length (dw_items c) = 0 then do {
       c \<leftarrow> sched_preempt_dec switch c;
       (c, _) \<leftarrow> dw_enable c;
       Some c
     } else do {
       let (c, prev_state) = interrupt_state_mask c;
       let (rest, popped) = seq_pop (dw_items c);
       dw_item \<leftarrow> popped;
       let c = interrupt_state_restore prev_state (c\<lparr>dw_items := rest\<rparr>);
       c \<leftarrow> sched_preempt_dec switch c;
       c \<leftarrow> run dw_item c;
       dw_process_loop switch run c
     }
   }"

definition dw_process :: "(thread_state \<Rightarrow> cpu \<Rightarrow> cpu option) \<Rightarrow> (nat \<Rightarrow> cpu \<Rightarrow> cpu option) \<Rightarrow> cpu \<Rightarrow> cpu option" where
  "dw_process switch run c = do { c \<leftarrow> dw_status_disable c; dw_process_loop switch run c }"

definition dw_status_enable :: "(thread_state \<Rightarrow> cpu \<Rightarrow> cpu option) \<Rightarrow> (nat \<Rightarrow> cpu \<Rightarrow> cpu option) \<Rightarrow> cpu \<Rightarrow> cpu option" where
  "dw_status_enable switch run c = do {
     (c, enabled) \<leftarrow> dw_enable c;
     if enabled then dw_process switch run c else Some c
   }"

section \<open>Spinlocks\<close>

definition spinlock_try_acquire :: "nat \<Rightarrow> cpu \<Rightarrow> cpu \<times> bool" where
  "spinlock_try_acquire l c = (c\<lparr>spinlocks := (spinlocks c)(l := True)\<rparr>, \<not> spinlocks c l)"

definition spinlock_release_raw :: "nat \<Rightarrow> cpu \<Rightarrow> cpu" where
  "spinlock_release_raw l c = c\<lparr>spinlocks := (spinlocks c)(l := False)\<rparr>"

text \<open>The two nested loops of \<^verbatim>\<open>spinlock_acquire_raw\<close>; its bound on the number of turns is compiled in for debugging only.\<close>

partial_function (option) spin_until_free :: "(cpu \<Rightarrow> cpu) \<Rightarrow> nat \<Rightarrow> cpu \<Rightarrow> cpu option" where
  "spin_until_free wait l c = (if spinlocks c l then spin_until_free wait l (wait c) else Some c)"

partial_function (option) spinlock_acquire_raw :: "(cpu \<Rightarrow> cpu) \<Rightarrow> nat \<Rightarrow> cpu \<Rightarrow> cpu option" where
  "spinlock_acquire_raw wait l c = (let (c, ok) = spinlock_try_acquire l c in
     if ok then Some c
     else do { c \<leftarrow> spin_until_free wait l c; spinlock_acquire_raw wait l c })"

definition spinlock_acquire :: "(cpu \<Rightarrow> cpu) \<Rightarrow> nat \<Rightarrow> cpu \<Rightarrow> cpu option" where
  "spinlock_acquire wait l c = do {
     c \<leftarrow> sched_preempt_inc c;
     ASSERT (\<not> in_interrupt_soft c \<and> \<not> in_interrupt_hard c);
     spinlock_acquire_raw wait l c
   }"

definition spinlock_release :: "(thread_state \<Rightarrow> cpu \<Rightarrow> cpu option) \<Rightarrow> nat \<Rightarrow> cpu \<Rightarrow> cpu option" where
  "spinlock_release switch l c = do {
     let c = spinlock_release_raw l c;
     ASSERT (\<not> in_interrupt_soft c \<and> \<not> in_interrupt_hard c);
     sched_preempt_dec switch c
   }"

definition spinlock_acquire_nodw :: "(cpu \<Rightarrow> cpu) \<Rightarrow> nat \<Rightarrow> cpu \<Rightarrow> cpu option" where
  "spinlock_acquire_nodw wait l c = do {
     c \<leftarrow> sched_preempt_inc c;
     c \<leftarrow> dw_status_disable c;
     ASSERT (\<not> in_interrupt_hard c);
     spinlock_acquire_raw wait l c
   }"

definition spinlock_release_nodw ::
    "(thread_state \<Rightarrow> cpu \<Rightarrow> cpu option) \<Rightarrow> (nat \<Rightarrow> cpu \<Rightarrow> cpu option) \<Rightarrow> nat \<Rightarrow> cpu \<Rightarrow> cpu option" where
  "spinlock_release_nodw switch run l c = do {
     let c = spinlock_release_raw l c;
     ASSERT (\<not> in_interrupt_hard c);
     c \<leftarrow> dw_status_enable switch run c;
     sched_preempt_dec switch c
   }"

definition spinlock_acquire_noint :: "(cpu \<Rightarrow> cpu) \<Rightarrow> nat \<Rightarrow> cpu \<Rightarrow> (cpu \<times> bool) option" where
  "spinlock_acquire_noint wait l c = do {
     let (c, previous_state) = interrupt_state_mask c;
     c \<leftarrow> sched_preempt_inc c;
     c \<leftarrow> dw_status_disable c;
     c \<leftarrow> spinlock_acquire_raw wait l c;
     Some (c, previous_state)
   }"

definition spinlock_release_noint ::
    "(thread_state \<Rightarrow> cpu \<Rightarrow> cpu option) \<Rightarrow> (nat \<Rightarrow> cpu \<Rightarrow> cpu option) \<Rightarrow> nat \<Rightarrow> bool \<Rightarrow> cpu \<Rightarrow> cpu option" where
  "spinlock_release_noint switch run l interrupt_state c = do {
     let c = spinlock_release_raw l c;
     c \<leftarrow> dw_status_enable switch run c;
     c \<leftarrow> sched_preempt_dec switch c;
     Some (interrupt_state_restore interrupt_state c)
   }"

section \<open>Mutexes\<close>

datatype mutex_state = MUTEX_STATE_UNLOCKED | MUTEX_STATE_LOCKED | MUTEX_STATE_CONTESTED

record mutex =
  m_lock :: nat
  m_state :: mutex_state
  wait_queue :: "nat list"

definition MUTEX_INIT :: "nat \<Rightarrow> mutex" where
  "MUTEX_INIT l = \<lparr>m_lock = l, m_state = MUTEX_STATE_UNLOCKED, wait_queue = []\<rparr>"

definition SPIN_COUNT :: nat where "SPIN_COUNT = 10"

text \<open>
  The state of a mutex and of the processor: what other threads do to the mutex while this thread has given the
  processor away is part of \<open>away\<close>. The compare and exchange does not fail spuriously on the supported processors.
\<close>

type_synonym away = "thread_state \<Rightarrow> mutex \<times> cpu \<Rightarrow> (mutex \<times> cpu) option"

definition yield_mutex :: "away \<Rightarrow> thread_state \<Rightarrow> mutex \<times> cpu \<Rightarrow> (mutex \<times> cpu) option" where
  "yield_mutex away st mc = do {
     let (m, c) = mc;
     let (c, previous_state) = interrupt_state_mask c;
     yield_checks st c;
     (m, c) \<leftarrow> away st (m, c);
     Some (m, interrupt_state_restore previous_state c)
   }"

definition try_lock :: "mutex \<Rightarrow> mutex \<times> bool" where
  "try_lock m = (if m_state m = MUTEX_STATE_UNLOCKED then (m\<lparr>m_state := MUTEX_STATE_LOCKED\<rparr>, True) else (m, False))"

fun mutex_spin :: "away \<Rightarrow> nat \<Rightarrow> mutex \<times> cpu \<Rightarrow> (mutex \<times> cpu \<times> bool) option" where
  "mutex_spin away 0 (m, c) = Some (m, c, False)"
| "mutex_spin away (Suc n) (m, c) =
    (let (m, ok) = try_lock m in
     if ok then Some (m, c, True)
     else do { (m, c) \<leftarrow> yield_mutex away THREAD_STATE_READY (m, c); mutex_spin away n (m, c) })"

definition mutex_block :: "(cpu \<Rightarrow> cpu) \<Rightarrow> away \<Rightarrow> (thread_state \<Rightarrow> cpu \<Rightarrow> cpu option) \<Rightarrow> (nat \<Rightarrow> cpu \<Rightarrow> cpu option) \<Rightarrow>
    nat \<Rightarrow> mutex \<Rightarrow> cpu \<Rightarrow> (mutex \<times> cpu) option" where
  "mutex_block wait away switch run thread m c = do {
     (c, previous_state) \<leftarrow> spinlock_acquire_noint wait (m_lock m) c;
     let old = m_state m;
     let m = m\<lparr>m_state := MUTEX_STATE_CONTESTED\<rparr>;
     (m, c) \<leftarrow> (if old \<noteq> MUTEX_STATE_UNLOCKED then do {
         q \<leftarrow> seq_push_back (wait_queue m) thread;
         let m = m\<lparr>wait_queue := q\<rparr>;
         let c = spinlock_release_raw (m_lock m) c;
         (m, c) \<leftarrow> yield_mutex away THREAD_STATE_BLOCK (m, c);
         c \<leftarrow> spinlock_acquire_raw wait (m_lock m) c;
         Some (m, c)
       } else Some (m\<lparr>m_state := MUTEX_STATE_LOCKED\<rparr>, c));
     c \<leftarrow> spinlock_release_noint switch run (m_lock m) previous_state c;
     Some (m, c)
   }"

definition mutex_acquire :: "(cpu \<Rightarrow> cpu) \<Rightarrow> away \<Rightarrow> (thread_state \<Rightarrow> cpu \<Rightarrow> cpu option) \<Rightarrow> (nat \<Rightarrow> cpu \<Rightarrow> cpu option) \<Rightarrow>
    nat \<Rightarrow> mutex \<Rightarrow> cpu \<Rightarrow> (mutex \<times> cpu) option" where
  "mutex_acquire wait away switch run thread m c =
    (let (m, ok) = try_lock m in
     if ok then Some (m, c)
     else do {
       (m, c, ok) \<leftarrow> mutex_spin away SPIN_COUNT (m, c);
       if ok then Some (m, c) else mutex_block wait away switch run thread m c
     })"

text \<open>\<^verbatim>\<open>mutex_release\<close> also returns the thread it passes the mutex to, which \<^verbatim>\<open>sched_thread_schedule\<close> makes ready.\<close>

definition mutex_release :: "(cpu \<Rightarrow> cpu) \<Rightarrow> (thread_state \<Rightarrow> cpu \<Rightarrow> cpu option) \<Rightarrow> (nat \<Rightarrow> cpu \<Rightarrow> cpu option) \<Rightarrow>
    mutex \<Rightarrow> cpu \<Rightarrow> (mutex \<times> cpu \<times> nat option) option" where
  "mutex_release wait switch run m c =
    (if m_state m = MUTEX_STATE_LOCKED then Some (m\<lparr>m_state := MUTEX_STATE_UNLOCKED\<rparr>, c, None)
     else do {
       let state = m_state m;
       (c, previous_state) \<leftarrow> spinlock_acquire_noint wait (m_lock m) c;
       ASSERT (state = MUTEX_STATE_CONTESTED);
       ASSERT (length (wait_queue m) \<noteq> 0);
       let (rest, popped) = seq_pop (wait_queue m);
       thread \<leftarrow> popped;
       let m = m\<lparr>wait_queue := rest\<rparr>;
       let m = (if length (wait_queue m) = 0 then m\<lparr>m_state := MUTEX_STATE_LOCKED\<rparr> else m);
       c \<leftarrow> spinlock_release_noint switch run (m_lock m) previous_state c;
       Some (m, c, Some thread)
     })"

section \<open>Critical sections\<close>

lemma acquire_free: "\<not> spinlocks c l \<Longrightarrow> spinlock_acquire_raw wait l c = Some (c\<lparr>spinlocks := (spinlocks c)(l := True)\<rparr>)"
  by (subst spinlock_acquire_raw.simps) (simp add: spinlock_try_acquire_def)

lemma inc_dec_word: "(n :: u32) < UINT32_MAX \<Longrightarrow> n + 1 > 0 \<and> n + 1 - 1 = n"
proof -
  assume "n < UINT32_MAX"
  then have "unat n < 4294967295" by (simp add: UINT32_MAX_def word_less_nat_alt)
  then have "unat (n + 1) = unat n + 1" by (simp add: unat_word_ariths)
  then show ?thesis by (simp add: word_less_nat_alt)
qed

lemma inc_is_one: "(n :: u32) + 1 = 1 \<longleftrightarrow> n = 0"
  by simp

text \<open>A processor on which a critical section can begin and end without a pending request to do something else.\<close>

definition quiet :: "cpu \<Rightarrow> bool" where
  "quiet c \<longleftrightarrow> preempt_counter c < UINT32_MAX - 1 \<and> deferred_work_status c < UINT32_MAX - 1 \<and>
     (preempt_counter c = 0 \<longrightarrow> \<not> yield_immediately c) \<and> (deferred_work_status c = 0 \<longrightarrow> dw_items c = [])"

lemma below_max: "(n :: u32) < UINT32_MAX - 1 \<Longrightarrow> n < UINT32_MAX \<and> n + 1 < UINT32_MAX"
proof -
  assume "n < UINT32_MAX - 1"
  then have n: "unat n < 4294967294" by (simp add: UINT32_MAX_def word_less_nat_alt)
  then have "unat (n + 1) = unat n + 1" by (simp add: unat_word_ariths)
  with n show ?thesis by (simp add: UINT32_MAX_def word_less_nat_alt)
qed

lemma quietD:
  assumes "quiet c"
  shows "preempt_counter c < UINT32_MAX" "preempt_counter c + 1 < UINT32_MAX" "deferred_work_status c < UINT32_MAX"
    "preempt_counter c = 0 \<Longrightarrow> \<not> yield_immediately c" "deferred_work_status c = 0 \<Longrightarrow> dw_items c = []"
  using assms below_max by (auto simp: quiet_def)

lemma preempt_inc_dec:
  assumes "preempt_counter c < UINT32_MAX" "preempt_counter c = 0 \<Longrightarrow> \<not> yield_immediately c"
  shows "sched_preempt_dec switch (c\<lparr>preempt_counter := preempt_counter c + 1\<rparr>) = Some c"
  using assms inc_dec_word[OF assms(1)]
  by (cases "preempt_counter c = 0") (simp_all add: sched_preempt_dec_def inc_is_one)

text \<open>With nothing to do, enabling deferred work only lowers its counter.\<close>

lemma dw_process_empty:
  assumes "preempt_counter c < UINT32_MAX" "deferred_work_status c < UINT32_MAX" "dw_items c = []"
    "preempt_counter c = 0 \<Longrightarrow> \<not> yield_immediately c"
  shows "dw_process switch run c = Some c"
proof -
  let ?c = "c\<lparr>deferred_work_status := deferred_work_status c + 1\<rparr>"
  have "sched_preempt_dec switch (?c\<lparr>preempt_counter := preempt_counter ?c + 1\<rparr>) = Some ?c"
    by (rule preempt_inc_dec) (use assms in simp_all)
  then have "dw_process_loop switch run ?c = Some c"
    using assms inc_dec_word[OF assms(2)]
    by (subst dw_process_loop.simps) (simp add: sched_preempt_inc_def dw_enable_def)
  then show ?thesis using assms(2) by (simp add: dw_process_def dw_status_disable_def)
qed

lemma dw_disable_enable:
  assumes "preempt_counter c < UINT32_MAX" "deferred_work_status c < UINT32_MAX" "deferred_work_status c = 0 \<Longrightarrow> dw_items c = []"
    "preempt_counter c = 0 \<Longrightarrow> \<not> yield_immediately c"
  shows "dw_status_enable switch run (c\<lparr>deferred_work_status := deferred_work_status c + 1\<rparr>) = Some c"
proof (cases "deferred_work_status c = 0")
  case True
  then have e: "c\<lparr>deferred_work_status := 0\<rparr> = c" by (cases c) simp
  show ?thesis using dw_process_empty[OF assms(1,2) assms(3)[OF True] assms(4), of switch run]
    by (simp add: dw_status_enable_def dw_enable_def True e)
next
  case False
  then show ?thesis using inc_dec_word[OF assms(2)] by (simp add: dw_status_enable_def dw_enable_def inc_is_one)
qed

definition locked :: "nat \<Rightarrow> cpu \<Rightarrow> cpu" where
  "locked l c = c\<lparr>spinlocks := (spinlocks c)(l := True)\<rparr>"

lemma release_locked: "\<not> spinlocks c l \<Longrightarrow> spinlock_release_raw l (locked l c) = c"
  by (simp add: spinlock_release_raw_def locked_def fun_upd_idem)

text \<open>
  Deferred work that was queued while the section ran: every item is run when the section ends.
  \<open>run\<close> may change the locks of the processor (a parameter stands for them), but leaves it between sections.
\<close>

definition keeps_section :: "(nat \<Rightarrow> cpu \<Rightarrow> cpu option) \<Rightarrow> bool" where
  "keeps_section run \<longleftrightarrow> (\<forall>i c. \<exists>f. run i c = Some (c\<lparr>spinlocks := f\<rparr>))"

lemma dw_loop_drains:
  assumes run: "keeps_section run"
  shows "preempt_counter c < UINT32_MAX \<Longrightarrow> deferred_work_status c < UINT32_MAX \<Longrightarrow> (preempt_counter c = 0 \<Longrightarrow> \<not> yield_immediately c) \<Longrightarrow>
    \<exists>f. dw_process_loop switch run (c\<lparr>deferred_work_status := deferred_work_status c + 1\<rparr>) = Some (c\<lparr>dw_items := [], spinlocks := f\<rparr>)"
proof (induction "dw_items c" arbitrary: c)
  case Nil
  have "dw_process switch run c = Some c" by (rule dw_process_empty) (use Nil in simp_all)
  then have "dw_process_loop switch run (c\<lparr>deferred_work_status := deferred_work_status c + 1\<rparr>) = Some c"
    using Nil(3) by (simp add: dw_process_def dw_status_disable_def)
  then show ?case using Nil(1) by (intro exI[of _ "spinlocks c"]) simp
next
  case (Cons x xs)
  let ?c = "c\<lparr>deferred_work_status := deferred_work_status c + 1\<rparr>" and ?d = "c\<lparr>dw_items := xs\<rparr>"
  let ?e = "?d\<lparr>deferred_work_status := deferred_work_status c + 1\<rparr>"
  have dec: "sched_preempt_dec switch (?e\<lparr>preempt_counter := preempt_counter ?e + 1\<rparr>) = Some ?e"
    by (rule preempt_inc_dec) (use Cons in simp_all)
  obtain f where f: "run x ?e = Some (?e\<lparr>spinlocks := f\<rparr>)" using run unfolding keeps_section_def by blast
  have "dw_process_loop switch run ?c = dw_process_loop switch run (?e\<lparr>spinlocks := f\<rparr>)"
  proof -
    have m: "interrupt_state_restore (interrupts c) (?c\<lparr>preempt_counter := preempt_counter c + 1, interrupts := False, dw_items := xs\<rparr>) =
        ?e\<lparr>preempt_counter := preempt_counter ?e + 1\<rparr>"
      by (cases c) (simp add: interrupt_state_restore_def)
    have "dw_process_loop switch run ?c = sched_preempt_dec switch (?e\<lparr>preempt_counter := preempt_counter ?e + 1\<rparr>) \<bind>
        (\<lambda>c. run x c \<bind> dw_process_loop switch run)"
      using Cons(3) m by (subst dw_process_loop.simps)
        (simp add: sched_preempt_inc_def interrupt_state_mask_def seq_pop_def Cons(2)[symmetric])
    then show ?thesis unfolding dec by (simp add: f)
  qed
  moreover have "\<exists>g. dw_process_loop switch run ((?d\<lparr>spinlocks := f\<rparr>)\<lparr>deferred_work_status := deferred_work_status (?d\<lparr>spinlocks := f\<rparr>) + 1\<rparr>) =
      Some ((?d\<lparr>spinlocks := f\<rparr>)\<lparr>dw_items := [], spinlocks := g\<rparr>)"
    by (rule Cons(1)) (use Cons in simp_all)
  moreover have "dw_process_loop switch run (?e\<lparr>spinlocks := f\<rparr>) =
      dw_process_loop switch run ((?d\<lparr>spinlocks := f\<rparr>)\<lparr>deferred_work_status := deferred_work_status (?d\<lparr>spinlocks := f\<rparr>) + 1\<rparr>)"
    by (rule arg_cong[where f = "dw_process_loop switch run"]) (cases c, simp)
  ultimately show ?case by simp
qed

lemma acquire_nodw_eq:
  assumes "quiet c" "\<not> in_interrupt_hard c" "\<not> spinlocks c l"
  shows "spinlock_acquire_nodw wait l c =
    Some (locked l (c\<lparr>preempt_counter := preempt_counter c + 1, deferred_work_status := deferred_work_status c + 1\<rparr>))"
  using assms quietD(1,3)[OF assms(1)]
  by (simp add: spinlock_acquire_nodw_def sched_preempt_inc_def dw_status_disable_def acquire_free locked_def)

lemma acquire_noint_eq:
  assumes "quiet c" "\<not> spinlocks c l"
  shows "spinlock_acquire_noint wait l c = Some (locked l (c\<lparr>interrupts := False, preempt_counter := preempt_counter c + 1,
    deferred_work_status := deferred_work_status c + 1\<rparr>), interrupts c)"
  using assms quietD(1,3)[OF assms(1)]
  by (simp add: spinlock_acquire_noint_def interrupt_state_mask_def sched_preempt_inc_def dw_status_disable_def acquire_free locked_def)

text \<open>What the end of a section does after the lock is free again.\<close>

lemma section_end:
  assumes "quiet c"
  shows "dw_status_enable switch run (c\<lparr>preempt_counter := preempt_counter c + 1, deferred_work_status := deferred_work_status c + 1\<rparr>) =
      Some (c\<lparr>preempt_counter := preempt_counter c + 1\<rparr>)"
    "sched_preempt_dec switch (c\<lparr>preempt_counter := preempt_counter c + 1\<rparr>) = Some c"
proof -
  let ?d = "c\<lparr>preempt_counter := preempt_counter c + 1\<rparr>"
  have "preempt_counter c + 1 \<noteq> 0" using inc_dec_word[OF quietD(1)[OF assms]] by (simp add: word_gt_0)
  then have "dw_status_enable switch run (?d\<lparr>deferred_work_status := deferred_work_status ?d + 1\<rparr>) = Some ?d"
    by (intro dw_disable_enable) (use quietD[OF assms] in simp_all)
  then show "dw_status_enable switch run (c\<lparr>preempt_counter := preempt_counter c + 1, deferred_work_status := deferred_work_status c + 1\<rparr>) = Some ?d"
    by simp
  show "sched_preempt_dec switch ?d = Some c" by (rule preempt_inc_dec) (use quietD[OF assms] in simp_all)
qed

lemma release_nodw_eq:
  assumes "quiet c" "\<not> in_interrupt_hard c" "\<not> spinlocks c l"
  shows "spinlock_release_nodw switch run l
    (locked l (c\<lparr>preempt_counter := preempt_counter c + 1, deferred_work_status := deferred_work_status c + 1\<rparr>)) = Some c"
proof -
  let ?e = "c\<lparr>preempt_counter := preempt_counter c + 1, deferred_work_status := deferred_work_status c + 1\<rparr>"
  have "spinlock_release_raw l (locked l ?e) = ?e" by (rule release_locked) (simp add: assms)
  then show ?thesis using assms section_end[OF assms(1)] by (simp add: spinlock_release_nodw_def)
qed

lemma release_noint_eq:
  assumes "quiet c" "\<not> spinlocks c l"
  shows "spinlock_release_noint switch run l (interrupts c)
    (locked l (c\<lparr>interrupts := False, preempt_counter := preempt_counter c + 1, deferred_work_status := deferred_work_status c + 1\<rparr>)) = Some c"
proof -
  let ?i = "c\<lparr>interrupts := False\<rparr>"
  let ?e = "?i\<lparr>preempt_counter := preempt_counter ?i + 1, deferred_work_status := deferred_work_status ?i + 1\<rparr>"
  have q: "quiet ?i" using assms(1) by (simp add: quiet_def)
  have "spinlock_release_raw l (locked l ?e) = ?e" by (rule release_locked) (simp add: assms)
  moreover have "interrupt_state_restore (interrupts c) ?i = c" by (cases c) (simp add: interrupt_state_restore_def)
  ultimately show ?thesis using section_end[OF q] by (simp add: spinlock_release_noint_def)
qed

lemma plain_section_eq:
  assumes "quiet c" "\<not> in_interrupt_hard c" "\<not> in_interrupt_soft c" "\<not> spinlocks c l"
  shows "spinlock_acquire wait l c = Some (locked l (c\<lparr>preempt_counter := preempt_counter c + 1\<rparr>))"
    "spinlock_release switch l (locked l (c\<lparr>preempt_counter := preempt_counter c + 1\<rparr>)) = Some c"
proof -
  show "spinlock_acquire wait l c = Some (locked l (c\<lparr>preempt_counter := preempt_counter c + 1\<rparr>))"
    using assms quietD(1)[OF assms(1)] by (simp add: spinlock_acquire_def sched_preempt_inc_def acquire_free locked_def)
  have "spinlock_release_raw l (locked l (c\<lparr>preempt_counter := preempt_counter c + 1\<rparr>)) = c\<lparr>preempt_counter := preempt_counter c + 1\<rparr>"
    by (rule release_locked) (simp add: assms)
  then show "spinlock_release switch l (locked l (c\<lparr>preempt_counter := preempt_counter c + 1\<rparr>)) = Some c"
    using assms section_end(2)[OF assms(1)] by (simp add: spinlock_release_def)
qed

end
