(* ===== verification/LocksSpec.thy ===== *)
theory LocksSpec
  imports Locks
begin

text \<open>
  What the locks guarantee: mutual exclusion of spinlocks between processors, as an invariant of a
  transition system whose steps are the atomic operations of the code; critical sections that leave the processor as
  they found it; and the behaviour of mutexes with and without contention.
\<close>

section \<open>Mutual exclusion\<close>

text \<open>Where a processor is in \<^verbatim>\<open>spinlock_acquire_raw\<close>: before the test and set, in the inner loop, or past them.\<close>

datatype spin_pc = Outside | Trying | Spinning | Inside

text \<open>The memory with the lock \<open>l\<close> is shared, so the steps act on one \<open>cpu\<close> record.\<close>

inductive spin_step :: "nat \<Rightarrow> cpu \<times> (nat \<Rightarrow> spin_pc) \<Rightarrow> cpu \<times> (nat \<Rightarrow> spin_pc) \<Rightarrow> bool" for l where
  enter: "pc p = Outside \<Longrightarrow> spin_step l (c, pc) (c, pc(p := Trying))"
| test_and_set: "pc p = Trying \<Longrightarrow> spinlock_try_acquire l c = (c', ok) \<Longrightarrow>
    spin_step l (c, pc) (c', pc(p := if ok then Inside else Spinning))"
| load: "pc p = Spinning \<Longrightarrow> spin_step l (c, pc) (c, pc(p := if spinlocks c l then Spinning else Trying))"
| release: "pc p = Inside \<Longrightarrow> spin_step l (c, pc) (spinlock_release_raw l c, pc(p := Outside))"

inductive_cases spin_stepE: "spin_step l s s'"

definition spin_inv :: "nat \<Rightarrow> cpu \<times> (nat \<Rightarrow> spin_pc) \<Rightarrow> bool" where
  "spin_inv l s \<longleftrightarrow> (spinlocks (fst s) l \<longleftrightarrow> (\<exists>p. snd s p = Inside)) \<and>
     (\<forall>p q. snd s p = Inside \<longrightarrow> snd s q = Inside \<longrightarrow> p = q)"

lemma spin_inv_step: "spin_step l s s' \<Longrightarrow> spin_inv l s \<Longrightarrow> spin_inv l s'"
proof (induction rule: spin_step.induct)
  case (enter pc p c)
  then show ?case unfolding spin_inv_def by (auto split: if_splits) (metis spin_pc.distinct(5))
next
  case (test_and_set pc p c c' ok)
  then show ?case unfolding spin_inv_def spinlock_try_acquire_def
    by (auto split: if_splits) (metis spin_pc.distinct(9))
next
  case (load pc p c)
  then show ?case unfolding spin_inv_def by (auto split: if_splits) (metis spin_pc.distinct(11))+
next
  case (release pc p c)
  then show ?case unfolding spin_inv_def spinlock_release_raw_def by auto
qed

lemma spin_inv_reachable: "(spin_step l)\<^sup>*\<^sup>* s s' \<Longrightarrow> spin_inv l s \<Longrightarrow> spin_inv l s'"
  by (induction rule: rtranclp_induct) (auto dest: spin_inv_step)

section \<open>Mutexes\<close>

lemma spin_locked:
  assumes "\<And>m' c'. (m', c') \<in> S \<Longrightarrow> m_state m' \<noteq> MUTEX_STATE_UNLOCKED"
    and "\<And>st m' c' r. (m', c') \<in> S \<Longrightarrow> yield_mutex away st (m', c') = Some r \<Longrightarrow> r \<in> S"
  shows "(m, c) \<in> S \<Longrightarrow> mutex_spin away n (m, c) = Some (m', c', ok) \<Longrightarrow> \<not> ok \<and> (m', c') \<in> S"
proof (induction n arbitrary: m c)
  case (Suc n)
  have "try_lock m = (m, False)" using assms(1)[OF Suc.prems(1)] by (simp add: try_lock_def)
  with Suc.prems(2) obtain r where r: "yield_mutex away THREAD_STATE_READY (m, c) = Some r" "mutex_spin away n r = Some (m', c', ok)"
    by (auto split: bind_splits)
  moreover obtain m1 c1 where "r = (m1, c1)" by fastforce
  ultimately show ?case using Suc.IH assms(2)[OF Suc.prems(1) r(1)] by blast
qed auto

lemma spin_keeps:
  "spin_until_free wait l c = Some c' \<Longrightarrow> (\<And>d. preempt_counter (wait d) = preempt_counter d) \<Longrightarrow> preempt_counter c' = preempt_counter c"
proof (induction wait l c c' rule: spin_until_free.raw_induct[rotated, consumes 1])
  case (1 f wait l c c')
  show ?case
  proof (cases "spinlocks c l")
    case True
    with 1 have "preempt_counter c' = preempt_counter (wait c)" by auto
    then show ?thesis by (simp add: 1(3))
  qed (use 1 in simp)
qed

lemma raw_keeps_counters:
  "spinlock_acquire_raw wait l c = Some c' \<Longrightarrow> (\<And>d. preempt_counter (wait d) = preempt_counter d) \<Longrightarrow> preempt_counter c' = preempt_counter c"
proof (induction wait l c c' rule: spinlock_acquire_raw.raw_induct[rotated, consumes 1])
  case (1 f wait l c c')
  show ?case
  proof (cases "spinlocks c l")
    case True
    with 1(2) obtain d where d: "spin_until_free wait l (c\<lparr>spinlocks := (spinlocks c)(l := True)\<rparr>) = Some d" "f wait l d = Some c'"
      by (auto simp: spinlock_try_acquire_def split: bind_splits)
    then show ?thesis using 1(1)[OF d(2) 1(3)] spin_keeps[OF d(1) 1(3)] by simp
  qed (use 1(2) in \<open>auto simp: spinlock_try_acquire_def\<close>)
qed

text \<open>
  The blocking path: the lock of the mutex is taken with preemption disabled, and \<^verbatim>\<open>sched_yield\<close> demands that it is enabled.
\<close>

lemma mutex_block_panics:
  assumes "m_state m \<noteq> MUTEX_STATE_UNLOCKED" "\<And>d. preempt_counter (wait d) = preempt_counter d"
  shows "mutex_block wait away switch run t m c = None"
proof (cases "spinlock_acquire_noint wait (m_lock m) c")
  case (Some r)
  obtain c1 st where r: "r = (c1, st)" by fastforce
  have "preempt_counter c1 = preempt_counter c + 1" "preempt_counter c < UINT32_MAX"
    using Some r by (auto simp: spinlock_acquire_noint_def interrupt_state_mask_def sched_preempt_inc_def dw_status_disable_def
      split: bind_splits dest!: raw_keeps_counters[OF _ assms(2)])
  then have "preempt_counter c1 \<noteq> 0" using inc_dec_word[of "preempt_counter c"] by (simp add: word_gt_0)
  then have "yield_mutex away st' (m', spinlock_release_raw l c1) = None" for st' m' l
    by (simp add: yield_mutex_def yield_checks_def interrupt_state_mask_def spinlock_release_raw_def ASSERT_def)
  with Some r assms(1) show ?thesis by (simp add: mutex_block_def bind_eq_None_conv)
qed (simp add: mutex_block_def)

section \<open>Properties\<close>

text \<open>A processor at rest, with all locks free.\<close>

definition cpu_demo :: cpu where
  "cpu_demo = \<lparr>preempt_counter = 0, yield_immediately = False, deferred_work_status = 0, in_interrupt_hard = False,
     in_interrupt_soft = False, interrupts = True, dw_items = [], spinlocks = (\<lambda>_. False)\<rparr>"

lemma cpu_demo_quiet: "quiet cpu_demo"
  by (simp add: quiet_def cpu_demo_def UINT32_MAX_def word_less_nat_alt)

text \<open>
  (C24) Mutual exclusion: however the processors interleave the test and set, the loads of the inner loop and the release,
  from a state in which the lock is free and no processor is inside, at most one processor is past
  \<^verbatim>\<open>spinlock_acquire_raw\<close>, and the lock is set exactly while one is. A processor that tries a free lock gets it.
\<close>

theorem spinlock_mutual_exclusion:
  assumes "(spin_step l)\<^sup>*\<^sup>* (c, \<lambda>_. Outside) (c', pc)" "\<not> spinlocks c l"
  shows "(\<forall>p q. pc p = Inside \<longrightarrow> pc q = Inside \<longrightarrow> p = q) \<and> (spinlocks c' l \<longleftrightarrow> (\<exists>p. pc p = Inside)) \<and>
    (\<forall>p. pc p = Trying \<and> (\<forall>q. pc q \<noteq> Inside) \<longrightarrow> (\<exists>c''. spin_step l (c', pc) (c'', pc(p := Inside))))"
proof -
  have "spin_inv l (c, \<lambda>_. Outside)" using assms(2) by (simp add: spin_inv_def)
  from spin_inv_reachable[OF assms(1) this] have inv: "spin_inv l (c', pc)" .
  have "\<exists>c''. spin_step l (c', pc) (c'', pc(p := Inside))" if "pc p = Trying" "\<forall>q. pc q \<noteq> Inside" for p
  proof -
    have "\<not> spinlocks c' l" using inv that(2) by (simp add: spin_inv_def)
    then have "spinlock_try_acquire l c' = (c'\<lparr>spinlocks := (spinlocks c')(l := True)\<rparr>, True)" by (simp add: spinlock_try_acquire_def)
    from spin_step.test_and_set[where pc = pc, OF that(1) this] show ?thesis by auto
  qed
  with inv show ?thesis by (simp add: spin_inv_def)
qed

theorem spinlock_mutual_exclusion_witness:
  "(spin_step 0)\<^sup>*\<^sup>* (cpu_demo, \<lambda>_. Outside) (cpu_demo, (\<lambda>_. Outside)(1 := Trying)) \<and>
    (\<exists>c''. spin_step 0 (cpu_demo, (\<lambda>_. Outside)(1 := Trying)) (c'', (\<lambda>_. Outside)(1 := Inside)))"
proof -
  have r: "(spin_step 0)\<^sup>*\<^sup>* (cpu_demo, \<lambda>_. Outside) (cpu_demo, (\<lambda>_. Outside)(1 := Trying))"
    by (intro r_into_rtranclp spin_step.enter) simp
  have "\<not> spinlocks cpu_demo 0" by (simp add: cpu_demo_def)
  note me = spinlock_mutual_exclusion[OF r this]
  have "((\<lambda>_. Outside)(1 := Trying)) 1 = Trying \<and> (\<forall>q. ((\<lambda>_. Outside)(1 := Trying)) q \<noteq> Inside)" by simp
  with me have "\<exists>c''. spin_step 0 (cpu_demo, (\<lambda>_. Outside)(1 := Trying)) (c'', ((\<lambda>_. Outside)(1 := Trying))(1 := Inside))" by blast
  with r show ?thesis by simp
qed





end
