(* ===== verification/Sched.thy ===== *)
theory Sched
  imports Locks
begin

text \<open>
  Threads and their life: the run queue of each processor (\<^verbatim>\<open>sched/sched.c\<close>), the creation of threads
  and the switch between them (\<^verbatim>\<open>arch/x86_64/sched.c\<close>), processes (\<^verbatim>\<open>sched/process.c\<close>) and the reaper (\<^verbatim>\<open>sched/reaper.c\<close>).

  Threads, processes and processors are named by numbers. An operation takes the processor \<open>k\<close> it runs on. A
  switch is one step: the current thread of the processor changes, and the thread that is switched to drops the previous one
  (\<^verbatim>\<open>internal_sched_thread_drop\<close>). Registers and floating point state are not part of the state; \<open>loaded_space k\<close> is the address space the
  processor uses, \<open>None\<close> the one of the kernel. The locks
  around the queues are in theory \<open>Locks\<close>; the lock of a process is kept here, since the reaper asserts that it is held.
\<close>

section \<open>Data\<close>

record thread =
  t_id :: nat
  t_state :: thread_state
  t_proc :: "nat option"
  t_scheduler :: nat
  t_rsp :: nat

record process =
  p_id :: nat
  p_lock :: bool
  p_space :: nat
  p_threads :: "nat list"

record sched =
  threads :: "nat \<Rightarrow> thread"
  processes :: "nat \<Rightarrow> process"
  thread_queue :: "nat \<Rightarrow> nat list"
  idle_thread :: "nat \<Rightarrow> nat"
  current_thread :: "nat \<Rightarrow> nat"
  loaded_space :: "nat \<Rightarrow> nat option"
  g_cpu_count :: nat
  g_thread_queue :: "nat list"
  g_process_queue :: "nat list"
  g_sched_processes :: "nat list"
  freed_processes :: "nat list"
  g_next_pid :: nat
  g_next_tid :: nat
  current_cpu_id :: nat

definition IDLE_TID :: nat where "IDLE_TID = 0"
definition BOOTSTRAP_TID :: nat where "BOOTSTRAP_TID = 1"

definition upd_thread :: "nat \<Rightarrow> (thread \<Rightarrow> thread) \<Rightarrow> sched \<Rightarrow> sched" where
  "upd_thread t f s = s\<lparr>threads := (threads s)(t := f (threads s t))\<rparr>"

definition upd_process :: "nat \<Rightarrow> (process \<Rightarrow> process) \<Rightarrow> sched \<Rightarrow> sched" where
  "upd_process p f s = s\<lparr>processes := (processes s)(p := f (processes s p))\<rparr>"

definition set_queue :: "nat \<Rightarrow> nat list \<Rightarrow> sched \<Rightarrow> sched" where
  "set_queue k q s = s\<lparr>thread_queue := (thread_queue s)(k := q)\<rparr>"

section \<open>The reaper\<close>

definition reaper_queue_thread :: "nat \<Rightarrow> sched \<Rightarrow> sched option" where
  "reaper_queue_thread t s = do {
     q \<leftarrow> seq_push_back (g_thread_queue s) t;
     Some (s\<lparr>g_thread_queue := q\<rparr>)
   }"

definition reaper_queue_process :: "nat \<Rightarrow> sched \<Rightarrow> sched option" where
  "reaper_queue_process p s = do {
     q \<leftarrow> seq_push_back (g_process_queue s) p;
     Some (s\<lparr>g_process_queue := q\<rparr>)
   }"

text \<open>The two loops of \<^verbatim>\<open>reaper_thread\<close>, over the processes and the threads queued when it runs.\<close>

fun reap_processes :: "nat list \<Rightarrow> sched \<Rightarrow> sched option" where
  "reap_processes [] s = Some (s\<lparr>g_process_queue := []\<rparr>)"
| "reap_processes (p # ps) s = do {
     let s = s\<lparr>g_process_queue := ps\<rparr>;
     ASSERT (p_lock (processes s p));
     ASSERT (length (p_threads (processes s p)) = 0);
     reap_processes ps (s\<lparr>freed_processes := p # freed_processes s\<rparr>)
   }"

definition reaper_thread :: "sched \<Rightarrow> sched option" where
  "reaper_thread s = do {
     s \<leftarrow> reap_processes (g_process_queue s) s;
     Some (s\<lparr>g_thread_queue := []\<rparr>)
   }"

section \<open>Scheduling\<close>

definition sched_thread_schedule :: "nat \<Rightarrow> sched \<Rightarrow> sched option" where
  "sched_thread_schedule t s = do {
     let s = upd_thread t (\<lambda>x. x\<lparr>t_state := THREAD_STATE_READY\<rparr>) s;
     let k = t_scheduler (threads s t);
     q \<leftarrow> seq_push_back (thread_queue s k) t;
     Some (set_queue k q s)
   }"

definition sched_thread_next :: "nat \<Rightarrow> sched \<Rightarrow> (sched \<times> nat option) option" where
  "sched_thread_next k s =
    (if length (thread_queue s k) = 0 then Some (s, None)
     else do {
       let (rest, popped) = seq_pop (thread_queue s k);
       t \<leftarrow> popped;
       Some (upd_thread t (\<lambda>x. x\<lparr>t_state := THREAD_STATE_ACTIVE\<rparr>) (set_queue k rest s), Some t)
     })"

definition internal_sched_thread_drop :: "nat \<Rightarrow> nat \<Rightarrow> sched \<Rightarrow> sched option" where
  "internal_sched_thread_drop k t s = do {
     ASSERT (t_scheduler (threads s t) = k);
     if t = idle_thread s k then Some s
     else (case t_state (threads s t) of
         THREAD_STATE_DESTROY \<Rightarrow> do {
           s \<leftarrow> (case t_proc (threads s t) of None \<Rightarrow> Some s | Some p \<Rightarrow> do {
               ASSERT (\<not> p_lock (processes s p));
               ts \<leftarrow> seq_delete (p_threads (processes s p)) t;
               let s = upd_process p (\<lambda>x. x\<lparr>p_lock := True, p_threads := ts\<rparr>) s;
               if length (p_threads (processes s p)) = 0 then reaper_queue_process p s
               else Some (upd_process p (\<lambda>x. x\<lparr>p_lock := False\<rparr>) s)
             });
           reaper_queue_thread t s
         }
       | THREAD_STATE_BLOCK \<Rightarrow> Some s
       | THREAD_STATE_READY \<Rightarrow> sched_thread_schedule t s
       | THREAD_STATE_ACTIVE \<Rightarrow> None)
   }"

definition sched_switch :: "nat \<Rightarrow> nat \<Rightarrow> nat \<Rightarrow> sched \<Rightarrow> sched option" where
  "sched_switch k this next' s = do {
     let space = map_option (\<lambda>p. p_space (processes s p)) (t_proc (threads s next'));
     let s = s\<lparr>loaded_space := (loaded_space s)(k := space)\<rparr>;
     internal_sched_thread_drop k this (s\<lparr>current_thread := (current_thread s)(k := next')\<rparr>)
   }"

text \<open>The body of \<^verbatim>\<open>sched_yield\<close> between the checks of the processor (theory \<open>Locks\<close>) and its end.\<close>

definition yield_thread :: "nat \<Rightarrow> thread_state \<Rightarrow> sched \<Rightarrow> sched option" where
  "yield_thread k yield_state s = do {
     ASSERT (yield_state \<noteq> THREAD_STATE_ACTIVE);
     let current = current_thread s k;
     (s, next') \<leftarrow> sched_thread_next k s;
     let idle = idle_thread s (t_scheduler (threads s current));
     let next' = (if next' = None \<and> current \<noteq> idle then Some idle else next');
     case next' of
       Some n \<Rightarrow> do {
         ASSERT (current \<noteq> n);
         sched_switch k current n (upd_thread current (\<lambda>x. x\<lparr>t_state := yield_state\<rparr>) s)
       }
     | None \<Rightarrow> do { ASSERT (t_state (threads s current) = yield_state); Some s }
   }"

definition kernel_thread_exit :: "nat \<Rightarrow> sched \<Rightarrow> sched option" where
  "kernel_thread_exit k s = yield_thread k THREAD_STATE_DESTROY s"

section \<open>Processes and threads\<close>

text \<open>\<open>p\<close> and \<open>t\<close> are the addresses the heap gives to the new objects.\<close>

definition process_create :: "nat \<Rightarrow> nat \<Rightarrow> sched \<Rightarrow> sched option" where
  "process_create p address_space s = do {
     let s = upd_process p (\<lambda>_. \<lparr>p_id = g_next_pid s, p_lock = False, p_space = address_space, p_threads = []\<rparr>) s;
     let s = s\<lparr>g_next_pid := g_next_pid s + 1\<rparr>;
     q \<leftarrow> seq_push_back (g_sched_processes s) p;
     Some (s\<lparr>g_sched_processes := q\<rparr>)
   }"

definition pick_next_scheduler :: "sched \<Rightarrow> sched \<times> nat" where
  "pick_next_scheduler s = (s\<lparr>current_cpu_id := current_cpu_id s + 1\<rparr>, current_cpu_id s mod g_cpu_count s)"

definition create_thread :: "nat \<Rightarrow> nat option \<Rightarrow> nat \<Rightarrow> nat \<Rightarrow> nat \<Rightarrow> sched \<Rightarrow> sched option" where
  "create_thread t proc tid scheduler rsp s = do {
     let s = upd_thread t (\<lambda>_. \<lparr>t_id = tid, t_state = THREAD_STATE_READY, t_proc = proc, t_scheduler = scheduler, t_rsp = rsp\<rparr>) s;
     case proc of None \<Rightarrow> Some s | Some p \<Rightarrow> do {
       ts \<leftarrow> seq_push (p_threads (processes s p)) t;
       Some (upd_process p (\<lambda>x. x\<lparr>p_threads := ts\<rparr>) s)
     }
   }"

text \<open>The initial stack frame lies at the top of a kernel stack of 16 pages.\<close>

definition KERNEL_STACK_SIZE_PG :: nat where "KERNEL_STACK_SIZE_PG = 16"
definition SIZEOF_INIT_STACK_KERNEL :: nat where "SIZEOF_INIT_STACK_KERNEL = 88"
definition SIZEOF_INIT_STACK_USER :: nat where "SIZEOF_INIT_STACK_USER = 80"

definition init_rsp :: "nat \<Rightarrow> nat \<Rightarrow> nat" where
  "init_rsp stack size' = stack + KERNEL_STACK_SIZE_PG * 4096 - size'"

definition arch_sched_thread_create_kernel :: "nat \<Rightarrow> nat \<Rightarrow> sched \<Rightarrow> sched option" where
  "arch_sched_thread_create_kernel t stack s = do {
     let tid = g_next_tid s;
     let (s, k) = pick_next_scheduler (s\<lparr>g_next_tid := g_next_tid s + 1\<rparr>);
     create_thread t None tid k (init_rsp stack SIZEOF_INIT_STACK_KERNEL) s
   }"

definition arch_sched_thread_create_user :: "nat \<Rightarrow> nat \<Rightarrow> nat \<Rightarrow> sched \<Rightarrow> sched option" where
  "arch_sched_thread_create_user t proc stack s = do {
     let tid = g_next_tid s;
     let (s, k) = pick_next_scheduler (s\<lparr>g_next_tid := g_next_tid s + 1\<rparr>);
     create_thread t (Some proc) tid k (init_rsp stack SIZEOF_INIT_STACK_USER) s
   }"

definition idle_thread_init :: "nat \<Rightarrow> nat \<Rightarrow> nat \<Rightarrow> sched \<Rightarrow> sched option" where
  "idle_thread_init k t stack s = do {
     s \<leftarrow> create_thread t None IDLE_TID k (init_rsp stack SIZEOF_INIT_STACK_KERNEL) s;
     Some (s\<lparr>idle_thread := (idle_thread s)(k := t)\<rparr>)
   }"

definition arch_sched_handoff_cpu :: "nat \<Rightarrow> nat \<Rightarrow> sched \<Rightarrow> sched option" where
  "arch_sched_handoff_cpu k bootstrap s = do {
     let s = upd_thread bootstrap (\<lambda>_. \<lparr>t_id = BOOTSTRAP_TID, t_state = THREAD_STATE_DESTROY, t_proc = None, t_scheduler = k, t_rsp = 0\<rparr>) s;
     sched_switch k bootstrap (idle_thread s k) s
   }"

end
