(* ===== verification/SchedSpec.thy ===== *)
theory SchedSpec
  imports Sched
begin

text \<open>
  The scheduler keeps every live thread in one place: running, in the queue of its processor, or blocked. Yielding never
  fails, and the queue is served in order, so a ready thread runs after as many yields as there are threads before it.
\<close>

section \<open>The invariant\<close>

text \<open>\<open>K\<close> are the live threads.\<close>

definition cpu_ok :: "nat set \<Rightarrow> sched \<Rightarrow> nat \<Rightarrow> bool" where
  "cpu_ok K s k \<longleftrightarrow> distinct (thread_queue s k) \<and>
     (\<forall>t \<in> set (thread_queue s k). t \<in> K \<and> t_state (threads s t) = THREAD_STATE_READY \<and> t_scheduler (threads s t) = k \<and> t \<noteq> idle_thread s k) \<and>
     current_thread s k \<in> K \<and> current_thread s k \<notin> set (thread_queue s k) \<and> t_scheduler (threads s (current_thread s k)) = k \<and>
     (current_thread s k \<noteq> idle_thread s k \<longrightarrow> t_state (threads s (current_thread s k)) = THREAD_STATE_ACTIVE) \<and>
     idle_thread s k \<in> K \<and> t_scheduler (threads s (idle_thread s k)) = k \<and> t_proc (threads s (idle_thread s k)) = None \<and>
     t_state (threads s (idle_thread s k)) = THREAD_STATE_READY \<and>
     loaded_space s k = map_option (\<lambda>p. p_space (processes s p)) (t_proc (threads s (current_thread s k)))"

definition procs_ok :: "nat set \<Rightarrow> sched \<Rightarrow> bool" where
  "procs_ok K s \<longleftrightarrow> (\<forall>p. distinct (p_threads (processes s p)) \<and> (\<forall>t \<in> set (p_threads (processes s p)). t \<in> K \<and> t_proc (threads s t) = Some p)) \<and>
     (\<forall>t \<in> K. \<forall>p. t_proc (threads s t) = Some p \<longrightarrow> t \<in> set (p_threads (processes s p)) \<and> \<not> p_lock (processes s p))"

definition reaper_ok :: "nat set \<Rightarrow> sched \<Rightarrow> bool" where
  "reaper_ok K s \<longleftrightarrow> distinct (g_thread_queue s) \<and> set (g_thread_queue s) \<inter> K = {} \<and> distinct (g_process_queue s) \<and>
     (\<forall>p \<in> set (g_process_queue s). p_lock (processes s p) \<and> p_threads (processes s p) = [])"

definition sched_inv :: "nat set \<Rightarrow> sched \<Rightarrow> bool" where
  "sched_inv K s \<longleftrightarrow> (\<forall>k < g_cpu_count s. cpu_ok K s k) \<and> procs_ok K s \<and> reaper_ok K s"

lemma cpu_okD:
  assumes "cpu_ok K s k"
  shows "distinct (thread_queue s k)" "\<And>t. t \<in> set (thread_queue s k) \<Longrightarrow> t \<in> K" "\<And>t. t \<in> set (thread_queue s k) \<Longrightarrow> t_scheduler (threads s t) = k"
    "\<And>t. t \<in> set (thread_queue s k) \<Longrightarrow> t \<noteq> idle_thread s k" "current_thread s k \<in> K" "current_thread s k \<notin> set (thread_queue s k)"
    "t_scheduler (threads s (current_thread s k)) = k" "idle_thread s k \<in> K" "t_scheduler (threads s (idle_thread s k)) = k"
    "t_proc (threads s (idle_thread s k)) = None" "t_state (threads s (idle_thread s k)) = THREAD_STATE_READY"
    "\<And>t. t \<in> set (thread_queue s k) \<Longrightarrow> t_state (threads s t) = THREAD_STATE_READY"
  using assms by (auto simp: cpu_ok_def)

lemma sched_fields [simp]:
  "threads (upd_thread t f s) u = (if u = t then f (threads s t) else threads s u)" "processes (upd_thread t f s) = processes s"
  "thread_queue (upd_thread t f s) = thread_queue s" "idle_thread (upd_thread t f s) = idle_thread s"
  "current_thread (upd_thread t f s) = current_thread s" "loaded_space (upd_thread t f s) = loaded_space s"
  "g_cpu_count (upd_thread t f s) = g_cpu_count s" "g_thread_queue (upd_thread t f s) = g_thread_queue s"
  "g_process_queue (upd_thread t f s) = g_process_queue s"
  "processes (upd_process p g s) r = (if r = p then g (processes s p) else processes s r)" "threads (upd_process p g s) = threads s"
  "thread_queue (upd_process p g s) = thread_queue s" "idle_thread (upd_process p g s) = idle_thread s"
  "current_thread (upd_process p g s) = current_thread s" "loaded_space (upd_process p g s) = loaded_space s"
  "g_cpu_count (upd_process p g s) = g_cpu_count s" "g_thread_queue (upd_process p g s) = g_thread_queue s"
  "g_process_queue (upd_process p g s) = g_process_queue s"
  "thread_queue (set_queue k q s) j = (if j = k then q else thread_queue s j)" "threads (set_queue k q s) = threads s"
  "processes (set_queue k q s) = processes s" "idle_thread (set_queue k q s) = idle_thread s"
  "current_thread (set_queue k q s) = current_thread s" "loaded_space (set_queue k q s) = loaded_space s"
  "g_cpu_count (set_queue k q s) = g_cpu_count s" "g_thread_queue (set_queue k q s) = g_thread_queue s"
  "g_process_queue (set_queue k q s) = g_process_queue s"
  by (simp_all add: upd_thread_def upd_process_def set_queue_def)

section \<open>The three parts of a yield\<close>

text \<open>The thread that runs next on processor \<open>k\<close>.\<close>

definition next_thread :: "sched \<Rightarrow> nat \<Rightarrow> nat" where
  "next_thread s k = (if thread_queue s k = [] then idle_thread s k else hd (thread_queue s k))"

text \<open>The state after the switch and before the previous thread is dropped.\<close>

definition switched :: "nat \<Rightarrow> thread_state \<Rightarrow> sched \<Rightarrow> sched" where
  "switched k st s = (let n = next_thread s k; c = current_thread s k;
      s1 = (if thread_queue s k = [] then s else upd_thread n (\<lambda>x. x\<lparr>t_state := THREAD_STATE_ACTIVE\<rparr>) (set_queue k (tl (thread_queue s k)) s));
      s2 = upd_thread c (\<lambda>x. x\<lparr>t_state := st\<rparr>) s1
    in s2\<lparr>loaded_space := (loaded_space s2)(k := map_option (\<lambda>p. p_space (processes s2 p)) (t_proc (threads s2 n))),
         current_thread := (current_thread s2)(k := n)\<rparr>)"

lemma yield_eq:
  assumes c: "cpu_ok K s k" and st: "st \<noteq> THREAD_STATE_ACTIVE" and busy: "thread_queue s k \<noteq> [] \<or> current_thread s k \<noteq> idle_thread s k"
  shows "yield_thread k st s = internal_sched_thread_drop k (current_thread s k) (switched k st s)"
proof (cases "thread_queue s k")
  case Nil
  then show ?thesis using assms cpu_okD(7)[OF c]
    by (simp add: yield_thread_def sched_thread_next_def sched_switch_def switched_def next_thread_def Let_def)
next
  case (Cons n q)
  have "current_thread s k \<noteq> n" using cpu_okD(6)[OF c] Cons by auto
  then show ?thesis using Cons st
    by (simp add: yield_thread_def sched_thread_next_def seq_pop_def sched_switch_def switched_def next_thread_def Let_def)
qed

lemma cpu_ok_frame:
  assumes "cpu_ok K s j" "\<And>t. t \<in> K \<Longrightarrow> t_scheduler (threads s t) = j \<Longrightarrow> threads s' t = threads s t"
    "thread_queue s' j = thread_queue s j" "idle_thread s' j = idle_thread s j" "current_thread s' j = current_thread s j"
    "loaded_space s' j = loaded_space s j" "\<And>p. p_space (processes s' p) = p_space (processes s p)"
    "\<And>t. t \<in> K \<Longrightarrow> t_scheduler (threads s t) = j \<Longrightarrow> t \<in> K'"
  shows "cpu_ok K' s' j"
  using assms(1) unfolding cpu_ok_def assms(3-7) by (simp add: assms(2,8))

text \<open>What a switch leaves for the drop of the previous thread \<open>c\<close>.\<close>

lemma switched_fields:
  assumes c: "cpu_ok K s k" and busy: "thread_queue s k \<noteq> [] \<or> current_thread s k \<noteq> idle_thread s k" and s'_def: "s' = switched k st s"
  defines "n \<equiv> next_thread s k" and "c \<equiv> current_thread s k"
  shows "n \<noteq> c" "n \<in> K" "t_scheduler (threads s n) = k" "thread_queue s' k = tl (thread_queue s k)" "current_thread s' k = n"
    "n \<notin> set (tl (thread_queue s k))" "threads s' c = (threads s c)\<lparr>t_state := st\<rparr>"
    "threads s' n = (if n = idle_thread s k then threads s n else (threads s n)\<lparr>t_state := THREAD_STATE_ACTIVE\<rparr>)"
    "\<And>t. t \<noteq> n \<Longrightarrow> t \<noteq> c \<Longrightarrow> threads s' t = threads s t" "loaded_space s' k = map_option (\<lambda>p. p_space (processes s p)) (t_proc (threads s n))"
    "\<And>j. j \<noteq> k \<Longrightarrow> thread_queue s' j = thread_queue s j \<and> current_thread s' j = current_thread s j \<and> loaded_space s' j = loaded_space s j"
    "processes s' = processes s" "idle_thread s' = idle_thread s" "g_cpu_count s' = g_cpu_count s"
    "g_thread_queue s' = g_thread_queue s" "g_process_queue s' = g_process_queue s"
proof -
  note D = cpu_okD[OF c]
  have n: "(thread_queue s k = [] \<and> n = idle_thread s k) \<or> (n \<in> set (thread_queue s k) \<and> thread_queue s k = n # tl (thread_queue s k))"
    by (cases "thread_queue s k") (simp_all add: n_def next_thread_def)
  show ne: "n \<noteq> c" using n busy D(6) by (auto simp: c_def)
  show "n \<in> K" "t_scheduler (threads s n) = k" using n D(2,3,8,9) by auto
  show "n \<notin> set (tl (thread_queue s k))" using n D(1) by (metis distinct.simps(2) list.sel(2) list.set_intros(1) empty_iff list.set(1))
  have ni: "n = idle_thread s k \<longleftrightarrow> thread_queue s k = []" using n D(4) by auto
  show "thread_queue s' k = tl (thread_queue s k)" "current_thread s' k = n" "threads s' c = (threads s c)\<lparr>t_state := st\<rparr>"
    "threads s' n = (if n = idle_thread s k then threads s n else (threads s n)\<lparr>t_state := THREAD_STATE_ACTIVE\<rparr>)"
    "loaded_space s' k = map_option (\<lambda>p. p_space (processes s p)) (t_proc (threads s n))"
    "processes s' = processes s" "idle_thread s' = idle_thread s" "g_cpu_count s' = g_cpu_count s"
    "g_thread_queue s' = g_thread_queue s" "g_process_queue s' = g_process_queue s"
    using ne ni by (simp_all add: s'_def switched_def Let_def flip: n_def c_def)
  show "threads s' t = threads s t" if "t \<noteq> n" "t \<noteq> c" for t
    using that by (simp add: s'_def switched_def Let_def flip: n_def c_def)
  show "thread_queue s' j = thread_queue s j \<and> current_thread s' j = current_thread s j \<and> loaded_space s' j = loaded_space s j" if "j \<noteq> k" for j
    using that by (simp add: s'_def switched_def Let_def flip: n_def c_def)
qed

lemma cpus_after:
  assumes inv: "sched_inv K s" and k: "k < g_cpu_count s" and busy: "thread_queue s k \<noteq> [] \<or> current_thread s k \<noteq> idle_thread s k"
    and s1: "s1 = switched k st s"
  defines "n \<equiv> next_thread s k" and "c \<equiv> current_thread s k"
  assumes th: "threads s' = threads s1" and q: "thread_queue s' k = tl (thread_queue s k) @ xs"
    and xs: "xs = [] \<or> xs = [c] \<and> st = THREAD_STATE_READY \<and> c \<noteq> idle_thread s k"
    and oth: "\<And>j. j \<noteq> k \<Longrightarrow> thread_queue s' j = thread_queue s j" and cur: "current_thread s' = current_thread s1"
    and ld: "loaded_space s' = loaded_space s1" and id: "idle_thread s' = idle_thread s" and g: "g_cpu_count s' = g_cpu_count s"
    and sp: "\<And>p. p_space (processes s' p) = p_space (processes s p)"
    and K': "K' = K \<or> K' = K - {c} \<and> xs = []" and ci: "c = idle_thread s k \<Longrightarrow> st = THREAD_STATE_READY \<and> K' = K"
  shows "\<forall>j < g_cpu_count s'. cpu_ok K' s' j"
proof (intro allI impI)
  fix j assume j: "j < g_cpu_count s'"
  have co: "cpu_ok K s k" "cpu_ok K s j" using inv k j g by (auto simp: sched_inv_def)
  note D = cpu_okD[OF co(1)] and F = switched_fields[OF co(1) busy s1, folded n_def c_def]
  have cs: "t_scheduler (threads s c) = k" using D(7) by (simp add: c_def)
  show "cpu_ok K' s' j"
  proof (cases "j = k")
    case False
    have "t \<noteq> n \<and> t \<noteq> c" if "t_scheduler (threads s t) = j" for t using that F(3) cs False by auto
    then show ?thesis using False F(9,11) K' by (intro cpu_ok_frame[OF co(2)]) (auto simp: th oth cur ld id sp)
  next
    case True
    have sub: "t \<in> set (tl (thread_queue s k)) \<Longrightarrow> t \<in> set (thread_queue s k)" for t by (metis list.sel(2) list.set_sel(2))
    have dt: "distinct (tl (thread_queue s k))" using D(1) by (rule distinct_tl)
    have cq: "c \<notin> set (tl (thread_queue s k))" using D(6) sub by (auto simp: c_def)
    have rest: "threads s' t = threads s t" if "t \<in> set (tl (thread_queue s k))" for t
      using that F(6,9) cq by (metis th)
    have kn: "n \<in> K'" using F(1,2) K' by auto
    have tp: "t_proc (threads s' t) = t_proc (threads s t) \<and> t_scheduler (threads s' t) = t_scheduler (threads s t)" for t
      using F(7,8,9) by (cases "t = c"; cases "t = n") (auto simp: th)
    have queue: "t \<in> K' \<and> t_state (threads s' t) = THREAD_STATE_READY \<and> t_scheduler (threads s' t) = k \<and> t \<noteq> idle_thread s k"
      if "t \<in> set (thread_queue s' k)" for t
    proof (cases "t \<in> set (tl (thread_queue s k))")
      case True
      then show ?thesis using D(2,3,4,12)[OF sub[OF True]] rest[OF True] K' cq by auto
    next
      case False
      then have "t = c" "xs = [c]" "st = THREAD_STATE_READY" "c \<noteq> idle_thread s k" using that xs q by auto
      then show ?thesis using F(7) cs K' D(5) by (auto simp: th c_def)
    qed
    have idst: "t_state (threads s' (idle_thread s k)) = THREAD_STATE_READY"
      using D(11) F(7,8,9) ci by (cases "idle_thread s k = n"; cases "idle_thread s k = c") (auto simp: th)
    have act: "n \<noteq> idle_thread s k \<longrightarrow> t_state (threads s' n) = THREAD_STATE_ACTIVE" using F(8) by (simp add: th)
    have "distinct (thread_queue s' k)" "n \<notin> set (thread_queue s' k)" using q xs dt cq F(1,6) by auto
    moreover have "idle_thread s k \<in> K'" using D(8) K' ci by auto
    ultimately show ?thesis
      unfolding True cpu_ok_def id using queue kn tp idst act F(3,5,10) D(9,10) by (simp add: cur ld sp)
  qed
qed

lemma procs_ok_same:
  assumes "procs_ok K s" "\<And>t. t_proc (threads s' t) = t_proc (threads s t)" "processes s' = processes s"
  shows "procs_ok K s'"
  using assms(1) unfolding procs_ok_def assms(2,3) .

lemma procs_okD:
  assumes "procs_ok K s"
  shows "distinct (p_threads (processes s p))" "t \<in> set (p_threads (processes s p)) \<Longrightarrow> t \<in> K"
    "t \<in> set (p_threads (processes s p)) \<Longrightarrow> t_proc (threads s t) = Some p"
    "t \<in> K \<Longrightarrow> t_proc (threads s t) = Some p \<Longrightarrow> t \<in> set (p_threads (processes s p))"
    "t \<in> K \<Longrightarrow> t_proc (threads s t) = Some p \<Longrightarrow> \<not> p_lock (processes s p)"
proof -
  note a = conjunct1[OF assms[unfolded procs_ok_def]] and b = conjunct2[OF assms[unfolded procs_ok_def]]
  show "distinct (p_threads (processes s p))" by (rule conjunct1[OF spec[OF a]])
  show "t \<in> K" "t_proc (threads s t) = Some p" if "t \<in> set (p_threads (processes s p))"
    by (rule conjunct1[OF bspec[OF conjunct2[OF spec[OF a]] that]], rule conjunct2[OF bspec[OF conjunct2[OF spec[OF a]] that]])
  show "t \<in> set (p_threads (processes s p))" "\<not> p_lock (processes s p)" if "t \<in> K" "t_proc (threads s t) = Some p"
    by (rule conjunct1[OF mp[OF spec[OF bspec[OF b that(1)]] that(2)]], rule conjunct2[OF mp[OF spec[OF bspec[OF b that(1)]] that(2)]])
qed

text \<open>A thread leaves the live threads: its process, if it has one, forgets it.\<close>

lemma procs_ok_remove:
  assumes pr: "procs_ok K s" and c: "c \<in> K" and th: "threads s' = threads s"
    and same: "\<And>p. t_proc (threads s c) \<noteq> Some p \<Longrightarrow> processes s' p = processes s p"
    and own: "\<And>p. t_proc (threads s c) = Some p \<Longrightarrow> p_threads (processes s' p) = removeAll c (p_threads (processes s p)) \<and>
      (p_lock (processes s' p) \<longrightarrow> p_threads (processes s' p) = [])"
  shows "procs_ok (K - {c}) s'"
  unfolding procs_ok_def th
proof (intro conjI allI ballI impI)
  note P = procs_okD[OF pr]
  fix p
  have pt: "p_threads (processes s' p) = removeAll c (p_threads (processes s p))"
  proof (cases "t_proc (threads s c) = Some p")
    case False
    then have "c \<notin> set (p_threads (processes s p))" using P(3) by blast
    then show ?thesis using same[OF False] by simp
  qed (use own in blast)
  show "distinct (p_threads (processes s' p))" using P(1) by (simp add: pt distinct_removeAll)
  { fix t assume "t \<in> set (p_threads (processes s' p))"
    then have "t \<noteq> c" "t \<in> set (p_threads (processes s p))" by (simp_all add: pt)
    then show "t \<in> K - {c}" "t_proc (threads s t) = Some p" using P(2,3) by blast+ }
  { fix t assume t: "t \<in> K - {c}" "t_proc (threads s t) = Some p"
    then have m: "t \<in> set (p_threads (processes s p))" "\<not> p_lock (processes s p)" using P(4,5) by blast+
    then show m': "t \<in> set (p_threads (processes s' p))" using t by (simp add: pt)
    then have "p_threads (processes s' p) \<noteq> []" by force
    then show "\<not> p_lock (processes s' p)"
      using own[of p] same[of p] m(2) by metis }
qed

text \<open>Dropping a destroyed thread takes it out of its process, and queues the process when it was the last one.\<close>

lemma drop_destroyed:
  assumes pr: "procs_ok K s" and re: "reaper_ok K s" and c: "c \<in> K" "t_scheduler (threads s c) = k" "c \<noteq> idle_thread s k"
    "t_state (threads s c) = THREAD_STATE_DESTROY"
  shows "\<exists>s'. internal_sched_thread_drop k c s = Some s' \<and> procs_ok (K - {c}) s' \<and> reaper_ok (K - {c}) s' \<and> c \<in> set (g_thread_queue s') \<and>
    threads s' = threads s \<and> thread_queue s' = thread_queue s \<and> current_thread s' = current_thread s \<and> loaded_space s' = loaded_space s \<and>
    idle_thread s' = idle_thread s \<and> g_cpu_count s' = g_cpu_count s \<and> (\<forall>p. p_space (processes s' p) = p_space (processes s p)) \<and>
    (\<forall>p. t_proc (threads s c) = Some p \<and> p_threads (processes s p) = [c] \<longrightarrow> p \<in> set (g_process_queue s'))"
proof -
  have R: "distinct (g_thread_queue s)" "set (g_thread_queue s) \<inter> K = {}" "distinct (g_process_queue s)"
    "\<And>p. p \<in> set (g_process_queue s) \<Longrightarrow> p_lock (processes s p) \<and> p_threads (processes s p) = []" using re by (auto simp: reaper_ok_def)
  have cr: "c \<notin> set (g_thread_queue s)" using R(2) c(1) by blast
  show ?thesis
  proof (cases "t_proc (threads s c)")
    case None
    let ?s = "s\<lparr>g_thread_queue := g_thread_queue s @ [c]\<rparr>"
    have "internal_sched_thread_drop k c s = Some ?s"
      using None c cr by (simp add: internal_sched_thread_drop_def reaper_queue_thread_def seq_push_back_def)
    moreover have "procs_ok (K - {c}) ?s" using None by (intro procs_ok_remove[OF pr c(1)]) simp_all
    moreover have "reaper_ok (K - {c}) ?s" using R cr unfolding reaper_ok_def by auto
    ultimately show ?thesis using None by simp
  next
    case (Some p)
    have p: "c \<in> set (p_threads (processes s p))" "\<not> p_lock (processes s p)" "distinct (p_threads (processes s p))"
      using procs_okD[OF pr] c(1) Some by blast+
    define ts where "ts = removeAll c (p_threads (processes s p))"
    have del: "seq_delete (p_threads (processes s p)) c = Some ts"
      using p by (simp add: seq_delete_def ts_def distinct_remove1_removeAll)
    have pq: "p \<notin> set (g_process_queue s)" using R(4) p(1) by force
    define s1 where "s1 = upd_process p (\<lambda>x. if ts = [] then x\<lparr>p_lock := True, p_threads := ts\<rparr> else x\<lparr>p_threads := ts, p_lock := False\<rparr>) s"
    define s2 where "s2 = s1\<lparr>g_process_queue := g_process_queue s @ (if ts = [] then [p] else []), g_thread_queue := g_thread_queue s @ [c]\<rparr>"
    have fin: "internal_sched_thread_drop k c s = Some s2"
      using Some c cr p(2) del pq
      by (auto simp: internal_sched_thread_drop_def reaper_queue_thread_def reaper_queue_process_def seq_push_back_def s2_def s1_def
        upd_process_def)
    have f: "threads s2 = threads s" "\<And>q. q \<noteq> p \<Longrightarrow> processes s2 q = processes s q" "p_threads (processes s2 p) = ts" "p_lock (processes s2 p) = (ts = [])"
      by (simp_all add: s2_def s1_def)
    have "procs_ok (K - {c}) s2" using Some by (intro procs_ok_remove[OF pr c(1)]) (auto simp: f ts_def)
    moreover have "reaper_ok (K - {c}) s2"
      unfolding reaper_ok_def using R cr pq by (auto simp: s2_def s1_def)
    ultimately show ?thesis using fin Some by (auto simp: s2_def s1_def ts_def)
  qed
qed

text \<open>The effect of a yield, on every branch of the drop.\<close>

definition live_after :: "nat set \<Rightarrow> thread_state \<Rightarrow> nat \<Rightarrow> nat set" where
  "live_after K st c = (if st = THREAD_STATE_DESTROY then K - {c} else K)"

definition requeued :: "sched \<Rightarrow> nat \<Rightarrow> thread_state \<Rightarrow> nat list" where
  "requeued s k st = (if st = THREAD_STATE_READY \<and> current_thread s k \<noteq> idle_thread s k then [current_thread s k] else [])"

definition yield_effect :: "nat set \<Rightarrow> sched \<Rightarrow> nat \<Rightarrow> thread_state \<Rightarrow> sched \<Rightarrow> bool" where
  "yield_effect K s k st s' \<longleftrightarrow> sched_inv (live_after K st (current_thread s k)) s' \<and> current_thread s' k = next_thread s k \<and>
     thread_queue s' k = tl (thread_queue s k) @ requeued s k st \<and> idle_thread s' = idle_thread s \<and> g_cpu_count s' = g_cpu_count s \<and>
     (\<forall>j. j \<noteq> k \<longrightarrow> thread_queue s' j = thread_queue s j \<and> current_thread s' j = current_thread s j) \<and>
     (st = THREAD_STATE_DESTROY \<longrightarrow> current_thread s k \<in> set (g_thread_queue s'))"

lemma reaper_ok_same:
  assumes "reaper_ok K s" "g_thread_queue s' = g_thread_queue s" "g_process_queue s' = g_process_queue s" "processes s' = processes s"
  shows "reaper_ok K s'"
  using assms(1) unfolding reaper_ok_def assms(2-4) .

text \<open>The drop of a thread that stays alive: ready threads return to the queue, the idle thread and blocked threads do not.\<close>

lemma drop_live:
  assumes "t_scheduler (threads s c) = k" "t_state (threads s c) = st" "st = THREAD_STATE_READY \<or> st = THREAD_STATE_BLOCK \<and> c \<noteq> idle_thread s k"
    "c \<notin> set (thread_queue s k)"
  shows "\<exists>s'. internal_sched_thread_drop k c s = Some s' \<and> threads s' = threads s \<and>
    processes s' = processes s \<and> current_thread s' = current_thread s \<and> loaded_space s' = loaded_space s \<and> idle_thread s' = idle_thread s \<and>
    g_cpu_count s' = g_cpu_count s \<and> g_thread_queue s' = g_thread_queue s \<and> g_process_queue s' = g_process_queue s \<and>
    thread_queue s' = (thread_queue s)(k := thread_queue s k @ (if st = THREAD_STATE_READY \<and> c \<noteq> idle_thread s k then [c] else []))"
proof (cases "st = THREAD_STATE_READY \<and> c \<noteq> idle_thread s k")
  case True
  have "(threads s c)\<lparr>t_state := THREAD_STATE_READY\<rparr> = threads s c" using assms(2) True by (cases "threads s c") simp
  then have "(threads s)(c := (threads s c)\<lparr>t_state := THREAD_STATE_READY\<rparr>) = threads s" by simp
  then show ?thesis using assms True
    by (simp add: internal_sched_thread_drop_def sched_thread_schedule_def seq_push_back_def upd_thread_def set_queue_def)
next
  case False
  then have "internal_sched_thread_drop k c s = Some s" using assms by (auto simp: internal_sched_thread_drop_def)
  then show ?thesis using False by auto
qed

lemma yield_live:
  assumes inv: "sched_inv K s" and k: "k < g_cpu_count s" and st: "st \<noteq> THREAD_STATE_ACTIVE" "st \<noteq> THREAD_STATE_DESTROY"
    and idle: "current_thread s k = idle_thread s k \<Longrightarrow> st = THREAD_STATE_READY"
    and busy: "thread_queue s k \<noteq> [] \<or> current_thread s k \<noteq> idle_thread s k"
  shows "\<exists>s'. yield_thread k st s = Some s' \<and> yield_effect K s k st s'"
proof -
  have co: "cpu_ok K s k" and P: "procs_ok K s" "reaper_ok K s" using inv k by (auto simp: sched_inv_def)
  define s1 c where "s1 = switched k st s" and "c = current_thread s k"
  note D = cpu_okD[OF co] and F = switched_fields[OF co busy s1_def, folded c_def]
  have "c \<notin> set (tl (thread_queue s k))" using D(6) unfolding c_def by (metis list.sel(2) list.set_sel(2))
  moreover have "st = THREAD_STATE_READY \<or> st = THREAD_STATE_BLOCK \<and> c \<noteq> idle_thread s1 k"
    using st idle F(13) unfolding c_def by (cases st) auto
  ultimately obtain s' where s': "internal_sched_thread_drop k c s1 = Some s'" "threads s' = threads s1"
    "processes s' = processes s1" "current_thread s' = current_thread s1" "loaded_space s' = loaded_space s1" "idle_thread s' = idle_thread s1"
    "g_cpu_count s' = g_cpu_count s1" "g_thread_queue s' = g_thread_queue s1" "g_process_queue s' = g_process_queue s1"
    "thread_queue s' = (thread_queue s1)(k := thread_queue s1 k @ (if st = THREAD_STATE_READY \<and> c \<noteq> idle_thread s1 k then [c] else []))"
    using drop_live[of s1 c k st] D(7) F(4,7) by (auto simp: c_def)
  have f: "current_thread s' = current_thread s1" "loaded_space s' = loaded_space s1" "idle_thread s' = idle_thread s" "g_cpu_count s' = g_cpu_count s"
    "processes s' = processes s" "g_thread_queue s' = g_thread_queue s" "g_process_queue s' = g_process_queue s"
    by (simp_all only: s'(3-9) F(12-16))
  have q: "thread_queue s' k = tl (thread_queue s k) @ requeued s k st" "\<And>j. j \<noteq> k \<Longrightarrow> thread_queue s' j = thread_queue s j"
    using s'(10) F(4,11,13) by (simp_all add: requeued_def c_def)
  have "\<forall>j < g_cpu_count s'. cpu_ok K s' j"
    by (rule cpus_after[OF inv k busy s1_def s'(2) q(1) _ q(2) f(1-4)]) (use idle in \<open>auto simp: requeued_def f\<close>)
  moreover have tp: "t_proc (threads s' t) = t_proc (threads s t)" for t
    unfolding s'(2) using F(7-9) by (cases "t = c"; cases "t = next_thread s k") auto
  moreover have "procs_ok K s'" by (rule procs_ok_same[OF P(1) tp f(5)])
  moreover have "reaper_ok K s'" by (rule reaper_ok_same[OF P(2) f(6,7,5)])
  ultimately have "sched_inv K s'" by (simp add: sched_inv_def)
  then show ?thesis
    using yield_eq[OF co st(1) busy] s'(1) q f F(5,11) st unfolding yield_effect_def live_after_def by (simp add: c_def s1_def)
qed

lemma yield_destroy:
  assumes inv: "sched_inv K s" and k: "k < g_cpu_count s" and ci: "current_thread s k \<noteq> idle_thread s k"
  shows "\<exists>s'. yield_thread k THREAD_STATE_DESTROY s = Some s' \<and> yield_effect K s k THREAD_STATE_DESTROY s'"
proof -
  let ?st = THREAD_STATE_DESTROY
  have co: "cpu_ok K s k" and P: "procs_ok K s" "reaper_ok K s" using inv k by (auto simp: sched_inv_def)
  define s1 c where "s1 = switched k ?st s" and "c = current_thread s k"
  have busy: "thread_queue s k \<noteq> [] \<or> current_thread s k \<noteq> idle_thread s k" using ci by simp
  note D = cpu_okD[OF co] and F = switched_fields[OF co busy s1_def, folded c_def]
  have tp: "t_proc (threads s1 t) = t_proc (threads s t)" for t
    using F(7-9) by (cases "t = c"; cases "t = next_thread s k") auto
  have c: "c \<in> K" "t_scheduler (threads s1 c) = k" "c \<noteq> idle_thread s1 k" "t_state (threads s1 c) = ?st"
    using D(5,7) ci F(7,13) by (simp_all add: c_def)
  obtain s' where s': "internal_sched_thread_drop k c s1 = Some s'" "procs_ok (K - {c}) s'" "reaper_ok (K - {c}) s'" "c \<in> set (g_thread_queue s')"
    "threads s' = threads s1" "thread_queue s' = thread_queue s1" "current_thread s' = current_thread s1" "loaded_space s' = loaded_space s1"
    "idle_thread s' = idle_thread s1" "g_cpu_count s' = g_cpu_count s1" "\<And>p. p_space (processes s' p) = p_space (processes s1 p)"
    using drop_destroyed[OF procs_ok_same[OF P(1) tp F(12)] reaper_ok_same[OF P(2) F(15,16,12)] c] by blast
  have f: "idle_thread s' = idle_thread s" "g_cpu_count s' = g_cpu_count s" "\<And>p. p_space (processes s' p) = p_space (processes s p)"
    by (simp_all only: s'(9-11) F(12-14))
  have q: "thread_queue s' k = tl (thread_queue s k) @ []" "\<And>j. j \<noteq> k \<Longrightarrow> thread_queue s' j = thread_queue s j"
    using F(4,11) by (simp_all add: s'(6))
  have "\<forall>j < g_cpu_count s'. cpu_ok (K - {c}) s' j"
    by (rule cpus_after[OF inv k busy s1_def s'(5) q(1) _ q(2) s'(7,8) f]) (use ci in \<open>auto simp: c_def\<close>)
  then have "sched_inv (K - {c}) s'" using s'(2,3) by (simp add: sched_inv_def)
  then show ?thesis
    using yield_eq[OF co _ busy, of ?st] s'(1,4,6,7) q f F(5,11) unfolding yield_effect_def live_after_def
    by (simp add: c_def s1_def requeued_def)
qed

lemma yield_ok:
  assumes inv: "sched_inv K s" and k: "k < g_cpu_count s" and st: "st \<noteq> THREAD_STATE_ACTIVE"
    and idle: "current_thread s k = idle_thread s k \<Longrightarrow> st = THREAD_STATE_READY"
  shows "\<exists>s'. yield_thread k st s = Some s' \<and> yield_effect K s k st s'"
proof (cases "thread_queue s k \<noteq> [] \<or> current_thread s k \<noteq> idle_thread s k")
  case True
  show ?thesis
  proof (cases "st = THREAD_STATE_DESTROY")
    case d: True
    then have "current_thread s k \<noteq> idle_thread s k" using idle by auto
    then show ?thesis using yield_destroy[OF inv k] d by simp
  qed (use yield_live[OF inv k st _ idle True] in blast)
next
  case False
  have co: "cpu_ok K s k" using inv k by (auto simp: sched_inv_def)
  have "yield_thread k st s = Some s"
    using False idle cpu_okD(7,11)[OF co] by (simp add: yield_thread_def sched_thread_next_def)
  then show ?thesis
    using False idle inv by (simp add: yield_effect_def live_after_def requeued_def next_thread_def)
qed

section \<open>Runs of yields\<close>

text \<open>
  The thread that runs on processor \<open>j\<close> gives it up. The idle thread stays ready (\<^verbatim>\<open>sched_idle\<close>); any other thread chooses
  the state it leaves in.
\<close>

definition give_up :: "nat \<Rightarrow> thread_state \<Rightarrow> sched \<Rightarrow> sched option" where
  "give_up j st s = yield_thread j (if current_thread s j = idle_thread s j then THREAD_STATE_READY else st) s"

fun give_ups :: "(nat \<times> thread_state) list \<Rightarrow> sched \<Rightarrow> sched option" where
  "give_ups [] s = Some s"
| "give_ups ((j, st) # es) s = do { s \<leftarrow> give_up j st s; give_ups es s }"

lemma give_up_ok:
  assumes "sched_inv K s" "j < g_cpu_count s" "st \<noteq> THREAD_STATE_ACTIVE"
  shows "\<exists>s' K'. give_up j st s = Some s' \<and> sched_inv K' s' \<and> K' \<subseteq> K \<and> g_cpu_count s' = g_cpu_count s \<and> current_thread s' j = next_thread s j \<and>
    (\<exists>xs. thread_queue s' j = tl (thread_queue s j) @ xs) \<and> (\<forall>k. k \<noteq> j \<longrightarrow> thread_queue s' k = thread_queue s k \<and> current_thread s' k = current_thread s k)"
proof -
  let ?st = "if current_thread s j = idle_thread s j then THREAD_STATE_READY else st"
  have st: "?st \<noteq> THREAD_STATE_ACTIVE" using assms(3) by simp
  obtain s' where s': "yield_thread j ?st s = Some s'" "yield_effect K s j ?st s'"
    using yield_ok[OF assms(1,2) st] by auto
  have "live_after K ?st (current_thread s j) \<subseteq> K" by (auto simp: live_after_def)
  then show ?thesis using s' unfolding give_up_def yield_effect_def by blast
qed

lemma give_ups_ok:
  assumes "sched_inv K s" "\<forall>(j, st) \<in> set es. j < g_cpu_count s \<and> st \<noteq> THREAD_STATE_ACTIVE"
  shows "\<exists>s' K'. give_ups es s = Some s' \<and> sched_inv K' s' \<and> K' \<subseteq> K \<and> g_cpu_count s' = g_cpu_count s"
  using assms
proof (induction es arbitrary: s K)
  case (Cons e es)
  obtain j st where e: "e = (j, st)" by (cases e)
  obtain s1 K1 where 1: "give_up j st s = Some s1" "sched_inv K1 s1" "K1 \<subseteq> K" "g_cpu_count s1 = g_cpu_count s"
    using give_up_ok[OF Cons.prems(1), of j st] Cons.prems(2) e by auto
  have "\<forall>(j, st) \<in> set es. j < g_cpu_count s1 \<and> st \<noteq> THREAD_STATE_ACTIVE" using Cons.prems(2) 1(4) by auto
  then show ?case using Cons.IH[OF 1(2)] 1 e by fastforce
qed auto

text \<open>A thread \<open>i\<close> places from the front runs after \<open>i + 1\<close> switches of its processor, whatever the others do.\<close>

lemma served_in_order:
  assumes "sched_inv K s" "\<forall>(j, st) \<in> set es. j < g_cpu_count s \<and> st \<noteq> THREAD_STATE_ACTIVE" "i < length (thread_queue s k)"
    "length (filter (\<lambda>e. fst e = k) es) = i" "st \<noteq> THREAD_STATE_ACTIVE" "k < g_cpu_count s"
  shows "\<exists>s'. give_ups (es @ [(k, st)]) s = Some s' \<and> current_thread s' k = thread_queue s k ! i"
  using assms
proof (induction es arbitrary: s K i)
  case Nil
  then have "i = 0" "next_thread s k = thread_queue s k ! 0" by (auto simp: next_thread_def hd_conv_nth)
  then show ?case using give_up_ok[OF Nil.prems(1,6,5)] by auto
next
  case (Cons e es)
  obtain j st' where e: "e = (j, st')" by (cases e)
  obtain s1 K1 where 1: "give_up j st' s = Some s1" "sched_inv K1 s1" "g_cpu_count s1 = g_cpu_count s"
    "\<exists>xs. thread_queue s1 j = tl (thread_queue s j) @ xs" "\<And>k. k \<noteq> j \<Longrightarrow> thread_queue s1 k = thread_queue s k"
    using give_up_ok[OF Cons.prems(1), of j st'] Cons.prems(2) e by auto
  define i' where "i' = (if j = k then i - 1 else i)"
  have len: "length (filter (\<lambda>e. fst e = k) es) = i'" "j = k \<Longrightarrow> 0 < i" using Cons.prems(4) e by (auto simp: i'_def split: if_splits)
  have "i' < length (thread_queue s1 k) \<and> thread_queue s1 k ! i' = thread_queue s k ! i"
  proof (cases "j = k")
    case True
    then show ?thesis using 1(4) len(2) Cons.prems(3) by (auto simp: i'_def nth_append nth_tl)
  qed (use 1(5) Cons.prems(3) in \<open>simp add: i'_def\<close>)
  moreover have "\<forall>(j, st) \<in> set es. j < g_cpu_count s1 \<and> st \<noteq> THREAD_STATE_ACTIVE" using Cons.prems(2) 1(3) by auto
  ultimately have "\<exists>s'. give_ups (es @ [(k, st)]) s1 = Some s' \<and> current_thread s' k = thread_queue s k ! i"
    using Cons.IH[OF 1(2) _ _ len(1) Cons.prems(5)] Cons.prems(6) 1(3) by simp
  then show ?case using 1(1) e by simp
qed

section \<open>New threads\<close>

lemma procs_ok_insert:
  assumes pr: "procs_ok K s" and t: "t \<notin> K" and th: "\<And>u. u \<noteq> t \<Longrightarrow> t_proc (threads s' u) = t_proc (threads s u)" and tp: "t_proc (threads s' t) = proc"
    and same: "\<And>p. proc \<noteq> Some p \<Longrightarrow> processes s' p = processes s p"
    and own: "\<And>p. proc = Some p \<Longrightarrow> p_threads (processes s' p) = t # p_threads (processes s p) \<and> \<not> p_lock (processes s' p)"
  shows "procs_ok (insert t K) s'"
  unfolding procs_ok_def
proof (intro conjI allI ballI impI)
  note P = procs_okD[OF pr]
  have K: "u \<noteq> t" if "u \<in> K" for u using that t by blast
  fix p
  have m: "u \<in> set (p_threads (processes s' p)) \<longleftrightarrow> u \<in> set (p_threads (processes s p)) \<or> u = t \<and> proc = Some p" for u
    using own[of p] same[of p] by (cases "proc = Some p") auto
  have "t \<notin> set (p_threads (processes s p))" using P(2) t by blast
  then show "distinct (p_threads (processes s' p))"
    using own[of p] same[of p] P(1) by (cases "proc = Some p") (simp_all only: distinct.simps not_False_eq_True simp_thms)
  { fix u assume "u \<in> set (p_threads (processes s' p))"
    then have "u \<in> K \<and> t_proc (threads s u) = Some p \<or> u = t \<and> proc = Some p" using P(2,3) unfolding m by blast
    then show "u \<in> insert t K" "t_proc (threads s' u) = Some p" using th[of u] K[of u] tp by (blast, metis) }
  { fix u assume u: "u \<in> insert t K" "t_proc (threads s' u) = Some p"
    then have "u \<in> K \<and> t_proc (threads s u) = Some p \<or> u = t \<and> proc = Some p" using th[of u] K[of u] tp by (metis insertE)
    then have "(u \<in> set (p_threads (processes s p)) \<and> \<not> p_lock (processes s p)) \<or> u = t \<and> proc = Some p" using P(4,5) by blast
    then show "u \<in> set (p_threads (processes s' p))" "\<not> p_lock (processes s' p)" using own[of p] same[of p] unfolding m by metis+ }
qed

text \<open>A thread with a fresh address joins the live threads; it runs once it is scheduled.\<close>

lemma create_thread_ok:
  assumes inv: "sched_inv K s" and t: "t \<notin> K" "t \<notin> set (g_thread_queue s)"
    and p: "\<And>p. proc = Some p \<Longrightarrow> \<not> p_lock (processes s p)"
  shows "\<exists>s'. create_thread t proc tid k rsp s = Some s' \<and> sched_inv (insert t K) s' \<and> thread_queue s' = thread_queue s \<and>
    threads s' t = \<lparr>t_id = tid, t_state = THREAD_STATE_READY, t_proc = proc, t_scheduler = k, t_rsp = rsp\<rparr> \<and>
    g_cpu_count s' = g_cpu_count s \<and> idle_thread s' = idle_thread s \<and> current_thread s' = current_thread s"
proof -
  let ?x = "\<lparr>t_id = tid, t_state = THREAD_STATE_READY, t_proc = proc, t_scheduler = k, t_rsp = rsp\<rparr>"
  have I: "procs_ok K s" "reaper_ok K s" "\<And>j. j < g_cpu_count s \<Longrightarrow> cpu_ok K s j" using inv by (auto simp: sched_inv_def)
  define s' where "s' = (case proc of None \<Rightarrow> upd_thread t (\<lambda>_. ?x) s
    | Some p \<Rightarrow> upd_process p (\<lambda>x. x\<lparr>p_threads := t # p_threads (processes s p)\<rparr>) (upd_thread t (\<lambda>_. ?x) s))"
  have "t \<notin> set (p_threads (processes s q))" for q using procs_okD(2)[OF I(1)] t(1) by blast
  then have r: "create_thread t proc tid k rsp s = Some s'" by (simp add: create_thread_def s'_def seq_push_def split: option.splits)
  have f: "thread_queue s' = thread_queue s" "g_cpu_count s' = g_cpu_count s" "idle_thread s' = idle_thread s" "current_thread s' = current_thread s"
    "loaded_space s' = loaded_space s" "g_thread_queue s' = g_thread_queue s" "g_process_queue s' = g_process_queue s"
    "\<And>u. threads s' u = (if u = t then ?x else threads s u)" "\<And>p. p_space (processes s' p) = p_space (processes s p)"
    "\<And>p. p_lock (processes s' p) = p_lock (processes s p)" "\<And>p. proc \<noteq> Some p \<Longrightarrow> processes s' p = processes s p"
    "\<And>p. proc = Some p \<Longrightarrow> p_threads (processes s' p) = t # p_threads (processes s p)"
    by (cases proc; simp add: s'_def)+
  have "cpu_ok (insert t K) s' j" if "j < g_cpu_count s'" for j
  proof -
    have c: "cpu_ok K s j" using I(3) that f(2) by simp
    have "threads s' u = threads s u" if "u \<in> K" for u using that t(1) f(8)[of u] by metis
    then show ?thesis by (rule cpu_ok_frame[OF c _ fun_cong[OF f(1)] fun_cong[OF f(3)] fun_cong[OF f(4)] fun_cong[OF f(5)] f(9) insertI2])
  qed
  moreover have "procs_ok (insert t K) s'" by (rule procs_ok_insert[OF I(1) t(1), of _ proc]) (use f(8,10-12) p in simp_all)
  moreover have "reaper_ok (insert t K) s'"
  proof -
    have R: "distinct (g_thread_queue s)" "set (g_thread_queue s) \<inter> insert t K = {}" "distinct (g_process_queue s)"
      "\<And>p. p \<in> set (g_process_queue s) \<Longrightarrow> p_lock (processes s p)" "\<And>p. p \<in> set (g_process_queue s) \<Longrightarrow> p_threads (processes s p) = []"
      using I(2) t(2) by (simp_all add: reaper_ok_def)
    have "processes s' q = processes s q" if "q \<in> set (g_process_queue s)" for q using f(11)[of q] p[of q] R(4)[OF that] by blast
    then show ?thesis unfolding reaper_ok_def f(6,7) using R by simp
  qed
  ultimately have "sched_inv (insert t K) s'" unfolding sched_inv_def by blast
  then show ?thesis using r f by simp
qed

text \<open>A scheduled thread waits at the end of the queue of its processor.\<close>

lemma schedule_ok:
  assumes inv: "sched_inv K s" and t: "t \<in> K" "t_scheduler (threads s t) = k" "k < g_cpu_count s" "t \<noteq> idle_thread s k"
    "t \<noteq> current_thread s k" "t \<notin> set (thread_queue s k)"
  shows "\<exists>s'. sched_thread_schedule t s = Some s' \<and> sched_inv K s' \<and> thread_queue s' = (thread_queue s)(k := thread_queue s k @ [t])"
proof -
  have I: "procs_ok K s" "reaper_ok K s" "\<And>j. j < g_cpu_count s \<Longrightarrow> cpu_ok K s j" using inv by (auto simp: sched_inv_def)
  define s' where "s' = set_queue k (thread_queue s k @ [t]) (upd_thread t (\<lambda>x. x\<lparr>t_state := THREAD_STATE_READY\<rparr>) s)"
  have r: "sched_thread_schedule t s = Some s'" using t by (simp add: sched_thread_schedule_def seq_push_back_def s'_def)
  have f: "g_cpu_count s' = g_cpu_count s" "idle_thread s' = idle_thread s" "current_thread s' = current_thread s"
    "loaded_space s' = loaded_space s" "processes s' = processes s" "g_thread_queue s' = g_thread_queue s" "g_process_queue s' = g_process_queue s"
    "thread_queue s' = (thread_queue s)(k := thread_queue s k @ [t])"
    "\<And>u. u \<noteq> t \<Longrightarrow> threads s' u = threads s u" "threads s' t = (threads s t)\<lparr>t_state := THREAD_STATE_READY\<rparr>"
    by (simp_all add: s'_def fun_eq_iff)
  have tp: "t_proc (threads s' u) = t_proc (threads s u)" "t_scheduler (threads s' u) = t_scheduler (threads s u)" for u
    using f(9,10) by (cases "u = t"; simp)+
  have "cpu_ok K s' j" if "j < g_cpu_count s'" for j
  proof (cases "j = k")
    case False
    have "threads s' u = threads s u" if "t_scheduler (threads s u) = j" for u using that f(9)[of u] t(2) False by metis
    then show ?thesis using that f(1) False
      by (intro cpu_ok_frame[OF I(3)[of j] _ _ fun_cong[OF f(2)] fun_cong[OF f(3)] fun_cong[OF f(4)]]) (simp_all add: f(5,8))
  next
    case True
    have c: "cpu_ok K s k" using I(3) t(3) by simp
    note D = cpu_okD[OF c]
    have st: "t_state (threads s' (idle_thread s k)) = THREAD_STATE_READY" "threads s' (current_thread s k) = threads s (current_thread s k)"
      using D(11) t(4,5) f(9) by simp_all
    have qs: "u \<in> K \<and> t_state (threads s' u) = THREAD_STATE_READY \<and> t_scheduler (threads s' u) = k \<and> u \<noteq> idle_thread s k"
      if "u \<in> set (thread_queue s k @ [t])" for u
      using that D(2,3,4,12)[of u] t tp(2)[of u] f(9)[of u] f(10) by (cases "u = t") auto
    have "(\<forall>u \<in> set (thread_queue s k @ [t]). u \<in> K \<and> t_state (threads s' u) = THREAD_STATE_READY \<and> t_scheduler (threads s' u) = k \<and> u \<noteq> idle_thread s k)"
      using qs by blast
    moreover have "current_thread s k \<notin> set (thread_queue s k @ [t])" "distinct (thread_queue s k @ [t])" using D(1,6) t(5,6) by auto
    ultimately show ?thesis
      using c st unfolding True cpu_ok_def f(2-5,8) fun_upd_same tp by (simp del: set_append distinct_append)
  qed
  moreover have "procs_ok K s'" by (rule procs_ok_same[OF I(1) tp(1) f(5)])
  moreover have "reaper_ok K s'" by (rule reaper_ok_same[OF I(2) f(6,7,5)])
  ultimately have "sched_inv K s'" unfolding sched_inv_def by blast
  then show ?thesis using r f(8) by simp
qed

section \<open>The reaper\<close>

lemma reap_processes_eq:
  assumes "\<forall>p \<in> set ps. p_lock (processes s p) \<and> p_threads (processes s p) = []"
  shows "reap_processes ps s = Some (s\<lparr>g_process_queue := [], freed_processes := rev ps @ freed_processes s\<rparr>)"
  using assms by (induction ps arbitrary: s) simp_all

lemma reaper_thread_ok:
  assumes "sched_inv K s"
  shows "\<exists>s'. reaper_thread s = Some s' \<and> sched_inv K s' \<and> g_process_queue s' = [] \<and> g_thread_queue s' = [] \<and>
    set (freed_processes s') = set (g_process_queue s) \<union> set (freed_processes s)"
proof -
  define s' where "s' = s\<lparr>g_process_queue := [], freed_processes := rev (g_process_queue s) @ freed_processes s, g_thread_queue := []\<rparr>"
  have I: "procs_ok K s" "reaper_ok K s" "\<And>j. j < g_cpu_count s \<Longrightarrow> cpu_ok K s j" using assms by (auto simp: sched_inv_def)
  have "reaper_thread s = Some s'" using I(2) by (simp add: reaper_thread_def reap_processes_eq reaper_ok_def s'_def)
  moreover have "cpu_ok K s' j" if "j < g_cpu_count s'" for j
    by (rule cpu_ok_frame[OF I(3)]) (use that in \<open>simp_all add: s'_def\<close>)
  moreover have "procs_ok K s'" by (rule procs_ok_same[OF I(1)]) (simp_all add: s'_def)
  moreover have "reaper_ok K s'" by (simp add: reaper_ok_def s'_def)
  ultimately show ?thesis unfolding sched_inv_def by (auto simp: s'_def)
qed

section \<open>Properties\<close>


definition demo_sched :: sched where
  "demo_sched = \<lparr>threads = (\<lambda>t. \<lparr>t_id = t, t_state = (if t = 10 then THREAD_STATE_ACTIVE else THREAD_STATE_READY),
       t_proc = (if t = 10 then Some 5 else None), t_scheduler = 0, t_rsp = 0\<rparr>),
     processes = (\<lambda>p. \<lparr>p_id = p, p_lock = False, p_space = 7, p_threads = (if p = 5 then [10] else [])\<rparr>),
     thread_queue = (\<lambda>k. if k = 0 then [11, 12] else []), idle_thread = (\<lambda>_. 0), current_thread = (\<lambda>_. 10), loaded_space = (\<lambda>_. Some 7),
     g_cpu_count = 1, g_thread_queue = [], g_process_queue = [], g_sched_processes = [5], freed_processes = [], g_next_pid = 6,
     g_next_tid = 13, current_cpu_id = 0\<rparr>"

lemma demo_sched_inv: "sched_inv {0, 10, 11, 12} demo_sched"
  by (simp add: sched_inv_def cpu_ok_def procs_ok_def reaper_ok_def demo_sched_def)


text \<open>
  (C28) No ready thread starves: the thread at place \<open>i\<close> of the queue of processor \<open>k\<close> runs after \<open>i + 1\<close> threads of \<open>k\<close> have given it up,
  in whatever state they leave and whatever the threads of the other processors do meanwhile.
\<close>

theorem sched_fair:
  assumes "sched_inv K s" "\<forall>(j, st) \<in> set es. j < g_cpu_count s \<and> st \<noteq> THREAD_STATE_ACTIVE" "i < length (thread_queue s k)"
    "length (filter (\<lambda>e. fst e = k) es) = i" "st \<noteq> THREAD_STATE_ACTIVE" "k < g_cpu_count s"
  shows "\<exists>s'. give_ups (es @ [(k, st)]) s = Some s' \<and> current_thread s' k = thread_queue s k ! i"
  using served_in_order[OF assms] .

theorem sched_fair_witness:
  "\<exists>s'. give_ups ([(0, THREAD_STATE_BLOCK)] @ [(0, THREAD_STATE_READY)]) demo_sched = Some s' \<and>
    current_thread s' 0 = thread_queue demo_sched 0 ! 1"
  by (rule sched_fair[OF demo_sched_inv]) (simp_all add: demo_sched_def)



end
