(* ===== verification/Ptm.thy ===== *)
theory Ptm
  imports VmBase
begin

text \<open>
  The page table manager of x86-64 (\<^verbatim>\<open>arch/x86_64/ptm.c\<close>).

  \<open>kmem\<close> is the memory of the kernel in words of eight bytes by virtual address, \<open>None\<close> where nothing is mapped: a table at the
  physical address \<open>f\<close> is read and written through the direct map at \<open>HHDM f\<close>, and an access to an unmapped address is a
  fault, \<open>None\<close>. The allocators of physical pages are components of the record \<open>machine\<close>, their state is \<open>frames\<close>. The cache of translations
  (\<^verbatim>\<open>x86_64_tlb_shootdown\<close>) is not part of the state: operations are complete when they return. The lock of the
  tables is held over each operation.
\<close>

section \<open>Constants\<close>

definition VADDR_TO_INDEX :: "u64 \<Rightarrow> nat \<Rightarrow> nat" where
  "VADDR_TO_INDEX vaddr level = unat (drop_bit (level * 9 + 3) vaddr AND 0x1FF)"

definition INDEX_TO_VADDR :: "nat \<Rightarrow> nat \<Rightarrow> u64" where
  "INDEX_TO_VADDR index level = push_bit (level * 9 + 3) (of_nat index)"

definition LEVEL_TO_PAGESIZE :: "nat \<Rightarrow> u64" where
  "LEVEL_TO_PAGESIZE level = push_bit (12 + 9 * (level - 1)) 1"

definition LEVEL_COUNT :: nat where "LEVEL_COUNT = 4"

definition ENTRY_FLAG_PRESENT :: u64 where "ENTRY_FLAG_PRESENT = 1"
definition ENTRY_FLAG_RW :: u64 where "ENTRY_FLAG_RW = 2"
definition ENTRY_FLAG_USER :: u64 where "ENTRY_FLAG_USER = 4"
definition ENTRY_FLAG_WRITETHROUGH :: u64 where "ENTRY_FLAG_WRITETHROUGH = 8"
definition ENTRY_FLAG_DISABLECACHE :: u64 where "ENTRY_FLAG_DISABLECACHE = 16"
definition ENTRY_FLAG_GLOBAL :: u64 where "ENTRY_FLAG_GLOBAL = 0x100"
definition ENTRY_FLAG_NX :: u64 where "ENTRY_FLAG_NX = 0x8000000000000000"

definition ENTRYL_FLAG_PAT :: u64 where "ENTRYL_FLAG_PAT = 0x80"
definition ENTRYL_ADDRESS_MASK :: u64 where "ENTRYL_ADDRESS_MASK = 0x000FFFFFFFFFF000"
definition ENTRYH_FLAG_PS :: u64 where "ENTRYH_FLAG_PS = 0x80"
definition ENTRYH_FLAG_PAT :: u64 where "ENTRYH_FLAG_PAT = 0x1000"
definition ENTRYH_ADDRESS_MASK :: u64 where "ENTRYH_ADDRESS_MASK = 0x000FFFFFFFFF0000"

datatype page_size = PAGE_SIZE_4K | PAGE_SIZE_2M | PAGE_SIZE_1G

fun size_bytes :: "page_size \<Rightarrow> u64" where
  "size_bytes PAGE_SIZE_4K = 0x1000"
| "size_bytes PAGE_SIZE_2M = 0x200000"
| "size_bytes PAGE_SIZE_1G = 0x40000000"

definition ENTRY_FLAG_PAT :: "page_size \<Rightarrow> u64" where
  "ENTRY_FLAG_PAT page_size = (if page_size = PAGE_SIZE_4K then ENTRYL_FLAG_PAT else ENTRYH_FLAG_PAT)"

definition ENTRY_ADDRESS_MASK :: "page_size \<Rightarrow> u64" where
  "ENTRY_ADDRESS_MASK page_size = (if page_size = PAGE_SIZE_4K then ENTRYL_ADDRESS_MASK else ENTRYH_ADDRESS_MASK)"

definition PAT0 :: u64 where "PAT0 = 0"
definition PAT3 :: u64 where "PAT3 = ENTRY_FLAG_DISABLECACHE OR ENTRY_FLAG_WRITETHROUGH"
definition PAT6 :: "u64 \<Rightarrow> u64" where "PAT6 pat_flag = pat_flag OR ENTRY_FLAG_DISABLECACHE"

definition KERNELSPACE_START :: u64 where "KERNELSPACE_START = 0xFFFF800000000000"
definition KERNELSPACE_END :: u64 where "KERNELSPACE_END = - 1 - PAGE_SIZE"
definition USERSPACE_START :: u64 where "USERSPACE_START = PAGE_SIZE"
definition USERSPACE_END :: u64 where "USERSPACE_END = push_bit 47 1 - PAGE_SIZE - 1"

fun privilege_to_x86_flags :: "vm_privilege \<Rightarrow> u64" where
  "privilege_to_x86_flags VM_PRIVILEGE_KERNEL = 0"
| "privilege_to_x86_flags VM_PRIVILEGE_USER = ENTRY_FLAG_USER"

fun cache_to_x86_flags :: "vm_cache \<Rightarrow> page_size \<Rightarrow> u64" where
  "cache_to_x86_flags VM_CACHE_STANDARD page_size = PAT0"
| "cache_to_x86_flags VM_CACHE_WRITE_COMBINE page_size = PAT6 (ENTRY_FLAG_PAT page_size)"
| "cache_to_x86_flags VM_CACHE_NONE page_size = PAT3"

section \<open>Memory and page allocation\<close>

record 'a ptm =
  kmem :: "u64 \<Rightarrow> u64 option"
  frames :: 'a

record 'a machine =
  m_hhdm :: u64
  m_earlymem_active :: bool
  m_earlymem :: "'a \<Rightarrow> ('a \<times> u64) option"
  m_pmm :: "'a \<Rightarrow> ('a \<times> u64) option"

definition HHDM :: "'a machine \<Rightarrow> u64 \<Rightarrow> u64" where
  "HHDM m address = address + m_hhdm m"

definition store :: "u64 \<Rightarrow> u64 \<Rightarrow> 'a ptm \<Rightarrow> 'a ptm option" where
  "store a v s = (case kmem s a of None \<Rightarrow> None | Some _ \<Rightarrow> Some (s\<lparr>kmem := (kmem s)(a \<mapsto> v)\<rparr>))"

definition entry_addr :: "u64 \<Rightarrow> nat \<Rightarrow> u64" where
  "entry_addr table index = table + 8 * of_nat index"

definition load_entry :: "u64 \<Rightarrow> nat \<Rightarrow> 'a ptm \<Rightarrow> u64 option" where
  "load_entry table index s = kmem s (entry_addr table index)"

definition store_entry :: "u64 \<Rightarrow> nat \<Rightarrow> u64 \<Rightarrow> 'a ptm \<Rightarrow> 'a ptm option" where
  "store_entry table index = store (entry_addr table index)"

text \<open>The zeroing of a page, \<open>n\<close> words from word \<open>i\<close> on.\<close>

fun clear_words :: "u64 \<Rightarrow> nat \<Rightarrow> nat \<Rightarrow> 'a ptm \<Rightarrow> 'a ptm option" where
  "clear_words table i 0 s = Some s"
| "clear_words table i (Suc n) s = do { s \<leftarrow> store_entry table i 0 s; clear_words table (Suc i) n s }"

text \<open>\<^verbatim>\<open>pmm_alloc_page\<close> is called with \<^verbatim>\<open>PMM_FLAG_ZERO\<close>, so both branches clear the page.\<close>

definition alloc_page :: "'a machine \<Rightarrow> 'a ptm \<Rightarrow> ('a ptm \<times> u64) option" where
  "alloc_page m s = do {
     (fr, address) \<leftarrow> (if m_earlymem_active m then m_earlymem m (frames s) else m_pmm m (frames s));
     s \<leftarrow> clear_words (HHDM m address) 0 512 (s\<lparr>frames := fr\<rparr>);
     Some (s, address)
   }"

section \<open>Mapping\<close>

fun store_all :: "u64 \<Rightarrow> (nat \<times> u64) list \<Rightarrow> 'a ptm \<Rightarrow> 'a ptm option" where
  "store_all table [] s = Some s"
| "store_all table ((i, v) # es) s = do { s \<leftarrow> store_entry table i v s; store_all table es s }"

text \<open>Splitting a big page: the new table is written at its physical address, with the index stepping by the page size.\<close>

definition break_big :: "'a machine \<Rightarrow> u64 \<Rightarrow> nat \<Rightarrow> nat \<Rightarrow> 'a ptm \<Rightarrow> ('a ptm \<times> u64) option" where
  "break_big m table index current_level s = do {
     ASSERT (current_level > 0);
     entry \<leftarrow> load_entry table index s;
     let address = entry AND ENTRYH_ADDRESS_MASK;
     let pat = (entry AND ENTRYH_FLAG_PAT \<noteq> 0);
     let entry = entry AND NOT ENTRYL_ADDRESS_MASK;
     let new_entry = (if current_level - 1 = 0
       then (if pat then (entry AND NOT ENTRYL_FLAG_PAT) OR ENTRYL_FLAG_PAT else entry AND NOT ENTRYL_FLAG_PAT)
       else entry OR ENTRYH_FLAG_PAT);
     (s, page) \<leftarrow> alloc_page m s;
     let entry = entry OR page;
     let entry = (if pat then entry OR ENTRYL_FLAG_PAT else entry);
     let new_table = entry AND ENTRYL_ADDRESS_MASK;
     s \<leftarrow> store_all new_table (map (\<lambda>k. (k * 4096, new_entry OR (address + of_nat (k * 4096)))) [0..<512]) s;
     s \<leftarrow> store_entry table index entry s;
     Some (s, entry)
   }"

fun lowest_index :: "page_size \<Rightarrow> nat" where
  "lowest_index PAGE_SIZE_4K = 1"
| "lowest_index PAGE_SIZE_2M = 2"
| "lowest_index PAGE_SIZE_1G = 3"

text \<open>The body of the loop over the levels: the entry that leads to the next table, after the update of its flags.\<close>

definition next_entry :: "'a machine \<Rightarrow> u64 \<Rightarrow> vm_protection \<Rightarrow> vm_privilege \<Rightarrow> nat \<Rightarrow> u64 \<Rightarrow> 'a ptm \<Rightarrow> ('a ptm \<times> u64) option" where
  "next_entry m vaddr prot privilege j current_table s = do {
     let index = VADDR_TO_INDEX vaddr j;
     entry \<leftarrow> load_entry current_table index s;
     (s, entry) \<leftarrow> (if entry AND ENTRY_FLAG_PRESENT = 0 then do {
           (s, page) \<leftarrow> alloc_page m s;
           let entry = ENTRY_FLAG_PRESENT OR (page AND ENTRYL_ADDRESS_MASK);
           Some (s, if \<not> prot_exec prot then entry OR ENTRY_FLAG_NX else entry)
         } else do {
           (s, entry) \<leftarrow> (if entry AND ENTRYH_FLAG_PS \<noteq> 0 then break_big m current_table index j s else Some (s, entry));
           Some (s, if prot_exec prot then entry AND NOT ENTRY_FLAG_NX else entry)
         });
     let entry = (if prot_write prot then entry OR ENTRY_FLAG_RW else entry);
     let entry = entry OR privilege_to_x86_flags privilege;
     s \<leftarrow> store_entry current_table index entry s;
     Some (s, entry)
   }"

fun map_walk :: "'a machine \<Rightarrow> u64 \<Rightarrow> vm_protection \<Rightarrow> vm_privilege \<Rightarrow> nat \<Rightarrow> nat \<Rightarrow> u64 \<Rightarrow> 'a ptm \<Rightarrow> ('a ptm \<times> u64) option" where
  "map_walk m vaddr prot privilege lowest j current_table s =
    (if j > lowest then do {
       (s, entry) \<leftarrow> next_entry m vaddr prot privilege j current_table s;
       map_walk m vaddr prot privilege lowest (j - 1) (HHDM m (entry AND ENTRYL_ADDRESS_MASK)) s
     } else Some (s, current_table))"

declare map_walk.simps [simp del]

definition leaf_entry :: "u64 \<Rightarrow> page_size \<Rightarrow> vm_protection \<Rightarrow> vm_cache \<Rightarrow> vm_privilege \<Rightarrow> bool \<Rightarrow> u64" where
  "leaf_entry paddr page_size prot cache privilege global' =
    (let entry = ENTRY_FLAG_PRESENT OR (paddr AND ENTRY_ADDRESS_MASK page_size) OR privilege_to_x86_flags privilege OR
           cache_to_x86_flags cache page_size;
         entry = (if page_size \<noteq> PAGE_SIZE_4K then entry OR ENTRYH_FLAG_PS else entry);
         entry = (if prot_write prot then entry OR ENTRY_FLAG_RW else entry);
         entry = (if \<not> prot_exec prot then entry OR ENTRY_FLAG_NX else entry)
     in if global' then entry OR ENTRY_FLAG_GLOBAL else entry)"

definition map_page :: "'a machine \<Rightarrow> u64 \<Rightarrow> u64 \<Rightarrow> u64 \<Rightarrow> page_size \<Rightarrow> vm_protection \<Rightarrow> vm_cache \<Rightarrow> vm_privilege \<Rightarrow> bool \<Rightarrow>
    'a ptm \<Rightarrow> 'a ptm option" where
  "map_page m pml4 vaddr paddr page_size prot cache privilege global' s = do {
     (s, current_table) \<leftarrow> map_walk m vaddr prot privilege (lowest_index page_size) LEVEL_COUNT pml4 s;
     store_entry current_table (VADDR_TO_INDEX vaddr (lowest_index page_size)) (leaf_entry paddr page_size prot cache privilege global') s
   }"

definition chunk_size :: "u64 \<Rightarrow> u64 \<Rightarrow> u64 \<Rightarrow> page_size" where
  "chunk_size vaddr paddr remaining =
    (if paddr mod size_bytes PAGE_SIZE_1G = 0 \<and> vaddr mod size_bytes PAGE_SIZE_1G = 0 \<and> remaining \<ge> size_bytes PAGE_SIZE_1G then PAGE_SIZE_1G
     else if paddr mod size_bytes PAGE_SIZE_2M = 0 \<and> vaddr mod size_bytes PAGE_SIZE_2M = 0 \<and> remaining \<ge> size_bytes PAGE_SIZE_2M then PAGE_SIZE_2M
     else PAGE_SIZE_4K)"

partial_function (option) map_loop :: "'a machine \<Rightarrow> u64 \<Rightarrow> u64 \<Rightarrow> u64 \<Rightarrow> u64 \<Rightarrow> vm_protection \<Rightarrow> vm_cache \<Rightarrow> vm_privilege \<Rightarrow> bool \<Rightarrow>
    u64 \<Rightarrow> 'a ptm \<Rightarrow> 'a ptm option" where
  "map_loop m pt_top vaddr paddr length' prot cache privilege global' i s =
    (if i < length' then do {
       let cursize = chunk_size vaddr paddr (length' - i);
       s \<leftarrow> map_page m (HHDM m pt_top) (vaddr + i) (paddr + i) cursize prot cache privilege global' s;
       map_loop m pt_top vaddr paddr length' prot cache privilege global' (i + size_bytes cursize) s
     } else Some s)"

definition arch_ptm_map :: "'a machine \<Rightarrow> u64 \<Rightarrow> u64 \<Rightarrow> u64 \<Rightarrow> u64 \<Rightarrow> vm_protection \<Rightarrow> vm_cache \<Rightarrow> vm_privilege \<Rightarrow> bool \<Rightarrow>
    'a ptm \<Rightarrow> 'a ptm option" where
  "arch_ptm_map m pt_top vaddr paddr length' prot cache privilege global' s = do {
     ASSERT (vaddr mod PAGE_SIZE = 0);
     ASSERT (paddr mod PAGE_SIZE = 0);
     ASSERT (length' mod PAGE_SIZE = 0);
     map_loop m pt_top vaddr paddr length' prot cache privilege global' 0 s
   }"

section \<open>Rewriting and unmapping\<close>

text \<open>
  The walks of \<^verbatim>\<open>arch_ptm_rewrite\<close> and \<^verbatim>\<open>arch_ptm_unmap\<close>: the level they end on, and the table there, \<open>None\<close> for the jump to \<^verbatim>\<open>skip\<close>.
  \<open>v\<close> is the address \<^verbatim>\<open>vaddr + i\<close>, \<open>remaining\<close> is \<^verbatim>\<open>length - i\<close>.
\<close>

definition splits_big :: "nat \<Rightarrow> nat \<Rightarrow> u64 \<Rightarrow> u64 \<Rightarrow> bool" where
  "splits_big index j v remaining \<longleftrightarrow> INDEX_TO_VADDR index j < v \<or> LEVEL_TO_PAGESIZE j > remaining"

fun rewrite_walk :: "'a machine \<Rightarrow> vm_protection \<Rightarrow> u64 \<Rightarrow> u64 \<Rightarrow> nat \<Rightarrow> u64 \<Rightarrow> 'a ptm \<Rightarrow> ('a ptm \<times> nat \<times> u64 option) option" where
  "rewrite_walk m prot v remaining j current_table s =
    (if j > 1 then do {
       let index = VADDR_TO_INDEX v j;
       entry \<leftarrow> load_entry current_table index s;
       if entry AND ENTRY_FLAG_PRESENT = 0 then Some (s, j, None)
       else if entry AND ENTRYH_FLAG_PS \<noteq> 0 \<and> j > 3 then None
       else if entry AND ENTRYH_FLAG_PS \<noteq> 0 \<and> \<not> splits_big index j v remaining then Some (s, j, Some current_table)
       else do {
         (s, entry) \<leftarrow> (if entry AND ENTRYH_FLAG_PS \<noteq> 0 then break_big m current_table index j s else Some (s, entry));
         let entry = (if prot_write prot then entry OR ENTRY_FLAG_RW else entry);
         let entry = (if prot_exec prot then entry AND NOT ENTRY_FLAG_NX else entry);
         s \<leftarrow> store_entry current_table index entry s;
         rewrite_walk m prot v remaining (j - 1) (HHDM m (entry AND ENTRYL_ADDRESS_MASK)) s
       }
     } else Some (s, j, Some current_table))"

declare rewrite_walk.simps [simp del]

definition rewritten_entry :: "nat \<Rightarrow> vm_protection \<Rightarrow> vm_cache \<Rightarrow> vm_privilege \<Rightarrow> bool \<Rightarrow> u64 \<Rightarrow> u64" where
  "rewritten_entry j prot cache privilege global' entry =
    (let page_size = (if j = 0 then PAGE_SIZE_4K else if j = 1 then PAGE_SIZE_2M else PAGE_SIZE_1G);
         entry = entry OR privilege_to_x86_flags privilege OR cache_to_x86_flags cache page_size;
         entry = (if prot_write prot then entry OR ENTRY_FLAG_RW else entry AND NOT ENTRY_FLAG_RW);
         entry = (if \<not> prot_exec prot then entry OR ENTRY_FLAG_NX else entry AND NOT ENTRY_FLAG_NX)
     in if global' then entry OR ENTRY_FLAG_GLOBAL else entry AND NOT ENTRY_FLAG_GLOBAL)"

partial_function (option) ptm_rewrite_loop :: "'a machine \<Rightarrow> u64 \<Rightarrow> u64 \<Rightarrow> u64 \<Rightarrow> vm_protection \<Rightarrow> vm_cache \<Rightarrow> vm_privilege \<Rightarrow> bool \<Rightarrow>
    u64 \<Rightarrow> 'a ptm \<Rightarrow> 'a ptm option" where
  "ptm_rewrite_loop m pt_top vaddr length' prot cache privilege global' i s =
    (if i < length' then do {
       (s, j, leaf) \<leftarrow> rewrite_walk m prot (vaddr + i) (length' - i) LEVEL_COUNT (HHDM m pt_top) s;
       s \<leftarrow> (case leaf of None \<Rightarrow> Some s | Some current_table \<Rightarrow> do {
           let index = VADDR_TO_INDEX (vaddr + i) j;
           entry \<leftarrow> load_entry current_table index s;
           store_entry current_table index (rewritten_entry j prot cache privilege global' entry) s
         });
       ptm_rewrite_loop m pt_top vaddr length' prot cache privilege global' (i + LEVEL_TO_PAGESIZE j) s
     } else Some s)"

definition arch_ptm_rewrite :: "'a machine \<Rightarrow> u64 \<Rightarrow> u64 \<Rightarrow> u64 \<Rightarrow> vm_protection \<Rightarrow> vm_cache \<Rightarrow> vm_privilege \<Rightarrow> bool \<Rightarrow>
    'a ptm \<Rightarrow> 'a ptm option" where
  "arch_ptm_rewrite m pt_top vaddr length' prot cache privilege global' s = do {
     ASSERT (vaddr mod PAGE_SIZE = 0);
     ASSERT (length' mod PAGE_SIZE = 0);
     ptm_rewrite_loop m pt_top vaddr length' prot cache privilege global' 0 s
   }"

fun unmap_walk :: "'a machine \<Rightarrow> u64 \<Rightarrow> u64 \<Rightarrow> nat \<Rightarrow> u64 \<Rightarrow> 'a ptm \<Rightarrow> ('a ptm \<times> nat \<times> u64 option) option" where
  "unmap_walk m v remaining j current_table s =
    (if j > 1 then do {
       let index = VADDR_TO_INDEX v j;
       entry \<leftarrow> load_entry current_table index s;
       if entry AND ENTRY_FLAG_PRESENT = 0 then Some (s, j, None)
       else if entry AND ENTRYH_FLAG_PS \<noteq> 0 \<and> j > 3 then None
       else if entry AND ENTRYH_FLAG_PS \<noteq> 0 \<and> \<not> splits_big index j v remaining then Some (s, j, Some current_table)
       else do {
         (s, entry) \<leftarrow> (if entry AND ENTRYH_FLAG_PS \<noteq> 0 then break_big m current_table index j s else Some (s, entry));
         unmap_walk m v remaining (j - 1) (HHDM m (entry AND ENTRYL_ADDRESS_MASK)) s
       }
     } else Some (s, j, Some current_table))"

declare unmap_walk.simps [simp del]

partial_function (option) unmap_loop :: "'a machine \<Rightarrow> u64 \<Rightarrow> u64 \<Rightarrow> u64 \<Rightarrow> u64 \<Rightarrow> 'a ptm \<Rightarrow> 'a ptm option" where
  "unmap_loop m pt_top vaddr length' i s =
    (if i < length' then do {
       (s, j, leaf) \<leftarrow> unmap_walk m (vaddr + i) (length' - i) LEVEL_COUNT (HHDM m pt_top) s;
       s \<leftarrow> (case leaf of None \<Rightarrow> Some s | Some current_table \<Rightarrow> store_entry current_table (VADDR_TO_INDEX (vaddr + i) j) 0 s);
       unmap_loop m pt_top vaddr length' (i + LEVEL_TO_PAGESIZE j) s
     } else Some s)"

definition arch_ptm_unmap :: "'a machine \<Rightarrow> u64 \<Rightarrow> u64 \<Rightarrow> u64 \<Rightarrow> 'a ptm \<Rightarrow> 'a ptm option" where
  "arch_ptm_unmap m pt_top vaddr length' s = do {
     ASSERT (vaddr mod PAGE_SIZE = 0);
     ASSERT (length' mod PAGE_SIZE = 0);
     unmap_loop m pt_top vaddr length' 0 s
   }"

section \<open>Translation\<close>

text \<open>The level the walk ends on and the entry there; \<open>None\<close> in the second place for an absent table.\<close>

fun physical_walk :: "'a machine \<Rightarrow> u64 \<Rightarrow> nat \<Rightarrow> u64 \<Rightarrow> 'a ptm \<Rightarrow> (nat \<times> u64 option) option" where
  "physical_walk m vaddr j current_table s = do {
     entry \<leftarrow> load_entry current_table (VADDR_TO_INDEX vaddr j) s;
     if j > 1 then
       (if entry AND ENTRY_FLAG_PRESENT = 0 then Some (j, None)
        else if entry AND ENTRYH_FLAG_PS \<noteq> 0 then Some (j, Some entry)
        else physical_walk m vaddr (j - 1) (HHDM m (entry AND ENTRYL_ADDRESS_MASK)) s)
     else Some (j, Some entry)
   }"

declare physical_walk.simps [simp del]

definition page_address :: "nat \<Rightarrow> u64 \<Rightarrow> u64 \<Rightarrow> u64 option" where
  "page_address j entry vaddr =
    (if j = 1 then Some ((entry AND ENTRYL_ADDRESS_MASK) + (vaddr AND NOT 0x000FFFFFFFFFF000))
     else if j = 2 then Some ((entry AND ENTRYH_ADDRESS_MASK) + (vaddr AND NOT 0x000FFFFFFFE00000))
     else if j = 3 then Some ((entry AND ENTRYH_ADDRESS_MASK) + (vaddr AND NOT 0x000FFFFFC0000000))
     else None)"

definition arch_ptm_physical :: "'a machine \<Rightarrow> u64 \<Rightarrow> u64 \<Rightarrow> 'a ptm \<Rightarrow> u64 option option" where
  "arch_ptm_physical m pt_top vaddr s = do {
     (j, found) \<leftarrow> physical_walk m vaddr LEVEL_COUNT (HHDM m pt_top) s;
     case found of None \<Rightarrow> Some None
     | Some entry \<Rightarrow> (if entry AND ENTRY_FLAG_PRESENT = 0 then Some None
         else do { paddr \<leftarrow> page_address j entry vaddr; Some (Some paddr) })
   }"

section \<open>Address spaces\<close>

fun copy_entries :: "u64 \<Rightarrow> u64 \<Rightarrow> nat list \<Rightarrow> 'a ptm \<Rightarrow> 'a ptm option" where
  "copy_entries dest src [] s = Some s"
| "copy_entries dest src (i # is) s = do {
     entry \<leftarrow> load_entry src i s;
     s \<leftarrow> store_entry dest i entry s;
     copy_entries dest src is s
   }"

definition arch_ptm_address_space_create :: "'a machine \<Rightarrow> u64 \<Rightarrow> 'a ptm \<Rightarrow> ('a ptm \<times> u64 \<times> u64 \<times> u64) option" where
  "arch_ptm_address_space_create m global_pt_top s = do {
     (s, pt_top) \<leftarrow> alloc_page m s;
     s \<leftarrow> copy_entries (HHDM m pt_top) (HHDM m global_pt_top) [256..<512] s;
     Some (s, pt_top, USERSPACE_START, USERSPACE_END)
   }"

fun kernel_tables :: "'a machine \<Rightarrow> u64 \<Rightarrow> nat list \<Rightarrow> 'a ptm \<Rightarrow> 'a ptm option" where
  "kernel_tables m pml4 [] s = Some s"
| "kernel_tables m pml4 (i # is) s = do {
     (s, page) \<leftarrow> alloc_page m s;
     s \<leftarrow> store_entry pml4 i (ENTRY_FLAG_PRESENT OR ENTRY_FLAG_RW OR (page AND ENTRYL_ADDRESS_MASK)) s;
     kernel_tables m pml4 is s
   }"

definition ptm_init :: "'a machine \<Rightarrow> 'a ptm \<Rightarrow> ('a ptm \<times> u64 \<times> u64 \<times> u64) option" where
  "ptm_init m s = do {
     (s, pt_top) \<leftarrow> alloc_page m s;
     s \<leftarrow> kernel_tables m (HHDM m pt_top) [256..<512] s;
     Some (s, pt_top, KERNELSPACE_START, KERNELSPACE_END)
   }"

section \<open>Page faults\<close>

text \<open>\<open>None\<close> is \<^verbatim>\<open>x86_64_exception_unhandled\<close>. \<open>vm_fault\<close> is the handler of the virtual memory manager.\<close>

definition PAGEFAULT_FLAG_PRESENT :: u64 where "PAGEFAULT_FLAG_PRESENT = 1"

definition x86_64_ptm_page_fault_handler :: "(u64 \<Rightarrow> vm_fault \<Rightarrow> 's \<Rightarrow> ('s \<times> bool) option) \<Rightarrow> bool \<Rightarrow> u64 \<Rightarrow> u64 \<Rightarrow> 's \<Rightarrow> 's option" where
  "x86_64_ptm_page_fault_handler vm_fault threaded err_code cr2 s = do {
     let fault = (if err_code AND PAGEFAULT_FLAG_PRESENT = 0 then VM_FAULT_NOT_PRESENT else VM_FAULT_UNKNOWN);
     if threaded then do {
       (s, handled) \<leftarrow> vm_fault cr2 fault s;
       if handled then Some s else None
     } else None
   }"

end
