(* ===== verification/PtmSpec.thy ===== *)
theory PtmSpec
  imports Ptm PmmSpec
begin

text \<open>
  Page tables form a tree: every table belongs to one level and one prefix of the addresses. Under this invariant the stores of
  \<^verbatim>\<open>map_page\<close> change the translation of the addresses of one page only, so \<^verbatim>\<open>arch_ptm_physical\<close> returns what \<^verbatim>\<open>arch_ptm_map\<close>
  was given.
\<close>

section \<open>Addresses and indices\<close>

text \<open>The part of an address that selects the entry on level \<open>l\<close>, with all the indices above it. The top 16 bits take no part.\<close>

definition pre :: "u64 \<Rightarrow> nat \<Rightarrow> nat" where
  "pre v l = unat v mod 2 ^ 48 div 2 ^ (l * 9 + 3)"

lemma index_pre: "l \<le> 4 \<Longrightarrow> VADDR_TO_INDEX v l = pre v l mod 512"
proof -
  assume l: "l \<le> 4"
  have m: "(0x1FF :: u64) = mask 9" by (simp add: mask_eq_exp_minus_1)
  have "VADDR_TO_INDEX v l = unat v div 2 ^ (l * 9 + 3) mod 2 ^ 9"
    unfolding VADDR_TO_INDEX_def m take_bit_eq_mask[symmetric] unsigned_take_bit_eq unat_drop_bit_eq
    by (simp only: take_bit_eq_mod drop_bit_eq_div)
  moreover have "unat v mod 2 ^ 48 div 2 ^ (l * 9 + 3) mod 2 ^ 9 = unat v div 2 ^ (l * 9 + 3) mod 2 ^ 9"
    unfolding take_bit_eq_mod[symmetric] drop_bit_eq_div[symmetric]
    by (rule bit_eqI) (use l in \<open>auto simp: bit_take_bit_iff bit_drop_bit_eq\<close>)
  ultimately show ?thesis by (simp add: pre_def)
qed

lemma index_lt: "l \<le> 4 \<Longrightarrow> VADDR_TO_INDEX v l < 512"
  by (simp add: index_pre)

lemma pre_Suc: "pre v (Suc l) = pre v l div 512"
  by (simp add: pre_def power_add flip: div_mult2_eq)

lemma pre_split: "l \<le> 4 \<Longrightarrow> pre v l = pre v (Suc l) * 512 + VADDR_TO_INDEX v l"
  by (simp add: pre_Suc index_pre)

lemma pre_top: "pre v 5 = 0"
  by (simp add: pre_def)

lemma pre_up: "pre v l = pre w l \<Longrightarrow> l \<le> k \<Longrightarrow> pre v k = pre w k"
  by (induction k) (auto simp: pre_Suc le_Suc_eq)

section \<open>Entries and frames\<close>

definition frame :: "u64 \<Rightarrow> bool" where
  "frame f \<longleftrightarrow> f AND ENTRYL_ADDRESS_MASK = f"

lemma mask_L: "ENTRYL_ADDRESS_MASK = push_bit 12 (mask 40)"
  by (simp add: ENTRYL_ADDRESS_MASK_def mask_eq_exp_minus_1)

lemma frame_mask [simp]: "frame (e AND ENTRYL_ADDRESS_MASK)"
  by (simp add: frame_def ac_simps)

lemma frame_unat:
  assumes "frame f"
  shows "4096 dvd unat f" "unat f < 2 ^ 52"
proof -
  have b: "12 \<le> n \<and> n < 52" if "bit f n" for n
  proof -
    have "bit (f AND push_bit 12 (mask 40)) n" using assms that by (simp add: frame_def mask_L)
    then have "bit (push_bit 12 (mask 40) :: u64) n" by (simp only: bit_and_iff)
    then show ?thesis by (auto simp: bit_push_bit_iff bit_mask_iff)
  qed
  have "take_bit 12 f = 0" by (rule bit_eqI) (auto simp: bit_take_bit_iff dest: b)
  then have "take_bit 12 (unat f) = 0" by (simp flip: unsigned_take_bit_eq)
  then show "4096 dvd unat f" by (simp add: take_bit_eq_mod mod_eq_0_iff_dvd)
  have "take_bit 52 f = f" by (rule bit_eqI) (auto simp: bit_take_bit_iff dest: b)
  then have "take_bit 52 (unat f) = unat f" by (simp flip: unsigned_take_bit_eq)
  then show "unat f < 2 ^ 52" by (metis take_bit_nat_less_exp)
qed

text \<open>The words of different frames have different addresses.\<close>

lemma entry_addr_inj:
  assumes "frame f" "frame g" "i < 512" "j < 512"
  shows "entry_addr (HHDM m f) i = entry_addr (HHDM m g) j \<longleftrightarrow> f = g \<and> i = j"
proof -
  have u: "unat (f + 8 * of_nat i) = unat f + 8 * i" if "frame f" "i < 512" for f :: u64 and i
  proof -
    have "unat f + 8 * i < 2 ^ 64" using frame_unat(2)[OF that(1)] that(2) by simp
    then show ?thesis using that(2) by (simp add: unat_plus_if' unat_word_ariths unat_of_nat)
  qed
  have "entry_addr (HHDM m f) i = entry_addr (HHDM m g) j \<longleftrightarrow> f + 8 * of_nat i = g + 8 * of_nat j"
    by (simp add: entry_addr_def HHDM_def algebra_simps)
  also have "\<dots> \<longleftrightarrow> unat f + 8 * i = unat g + 8 * j" using u[OF assms(1,3)] u[OF assms(2,4)] by (metis word_unat_eq_iff)
  also have "\<dots> \<longleftrightarrow> f = g \<and> i = j"
  proof -
    obtain a b where "unat f = 4096 * a" "unat g = 4096 * b" using frame_unat(1)[OF assms(1)] frame_unat(1)[OF assms(2)] by (auto elim!: dvdE)
    moreover have "a = b \<and> i = j" if "4096 * a + 8 * i = 4096 * b + 8 * j"
    proof -
      have "(4096 * a + 8 * i) div 4096 = a" "(4096 * b + 8 * j) div 4096 = b" using assms(3,4) by simp_all
      with that show ?thesis by simp
    qed
    ultimately show ?thesis by (auto simp: word_unat_eq_iff)
  qed
  finally show ?thesis .
qed

section \<open>The tree of tables\<close>

text \<open>
  \<open>own f\<close> is the level and the prefix of the table \<open>f\<close>. Every present entry of a table above the lowest level is either a big page or leads
  to the table of the next level and the longer prefix.
\<close>

definition mapped :: "'a machine \<Rightarrow> 'a ptm \<Rightarrow> bool" where
  "mapped m s \<longleftrightarrow> (\<forall>f i. frame f \<longrightarrow> i < 512 \<longrightarrow> load_entry (HHDM m f) i s \<noteq> None)"

definition entry_ok :: "(u64 \<Rightarrow> (nat \<times> nat) option) \<Rightarrow> nat \<Rightarrow> nat \<Rightarrow> u64 \<Rightarrow> bool" where
  "entry_ok own l q e \<longleftrightarrow> l \<le> 1 \<or> e AND ENTRY_FLAG_PRESENT = 0 \<or> e AND ENTRYH_FLAG_PS \<noteq> 0 \<and> l \<le> 3 \<or>
     e AND ENTRYH_FLAG_PS = 0 \<and> own (e AND ENTRYL_ADDRESS_MASK) = Some (l - 1, q)"

definition tables_ok :: "'a machine \<Rightarrow> (u64 \<Rightarrow> (nat \<times> nat) option) \<Rightarrow> 'a ptm \<Rightarrow> bool" where
  "tables_ok m own s \<longleftrightarrow> mapped m s \<and> (\<forall>f l p. own f = Some (l, p) \<longrightarrow> frame f \<and> 1 \<le> l \<and> l \<le> 4 \<and>
     (\<forall>i < 512. entry_ok own l (p * 512 + i) (the (load_entry (HHDM m f) i s))))"

lemma tables_okD:
  assumes "tables_ok m own s" "own f = Some (l, p)" "i < 512"
  shows "\<exists>e. load_entry (HHDM m f) i s = Some e \<and> entry_ok own l (p * 512 + i) e" "frame f" "1 \<le> l" "l \<le> 4"
proof -
  have f: "frame f" "1 \<le> l" "l \<le> 4" "entry_ok own l (p * 512 + i) (the (load_entry (HHDM m f) i s))"
    using assms unfolding tables_ok_def by blast+
  moreover have "load_entry (HHDM m f) i s \<noteq> None" using assms(1,3) f(1) unfolding tables_ok_def mapped_def by blast
  ultimately show "\<exists>e. load_entry (HHDM m f) i s = Some e \<and> entry_ok own l (p * 512 + i) e" "frame f" "1 \<le> l" "l \<le> 4" by auto
qed

text \<open>The table \<open>f\<close> of level \<open>j\<close> lies on the way of the address \<open>v\<close>.\<close>

abbreviation on_way :: "(u64 \<Rightarrow> (nat \<times> nat) option) \<Rightarrow> u64 \<Rightarrow> nat \<Rightarrow> u64 \<Rightarrow> bool" where
  "on_way own v j f \<equiv> own f = Some (j, pre v (Suc j))"

lemma way_entry:
  assumes "tables_ok m own s" "on_way own v j f"
  shows "\<exists>e. load_entry (HHDM m f) (VADDR_TO_INDEX v j) s = Some e \<and> entry_ok own j (pre v j) e"
proof -
  have l: "j \<le> 4" using tables_okD(4)[OF assms, of 0] by simp
  show ?thesis using tables_okD(1)[OF assms index_lt[OF l, of v]] unfolding pre_split[OF l, of v] .
qed

definition translate :: "'a machine \<Rightarrow> u64 \<Rightarrow> nat \<Rightarrow> u64 \<Rightarrow> 'a ptm \<Rightarrow> u64 option option" where
  "translate m v j table s = do {
     (j, found) \<leftarrow> physical_walk m v j table s;
     case found of None \<Rightarrow> Some None
     | Some entry \<Rightarrow> (if entry AND ENTRY_FLAG_PRESENT = 0 then Some None
         else do { paddr \<leftarrow> page_address j entry v; Some (Some paddr) })
   }"

lemma physical_translate: "arch_ptm_physical m pt v s = translate m v 4 (HHDM m pt) s"
  by (simp add: arch_ptm_physical_def translate_def LEVEL_COUNT_def)

lemma translate_eq:
  "translate m v j table s = do {
     e \<leftarrow> load_entry table (VADDR_TO_INDEX v j) s;
     if e AND ENTRY_FLAG_PRESENT = 0 then Some None
     else if 1 < j \<and> e AND ENTRYH_FLAG_PS = 0 then translate m v (j - 1) (HHDM m (e AND ENTRYL_ADDRESS_MASK)) s
     else do { paddr \<leftarrow> page_address j e v; Some (Some paddr) }
   }"
  unfolding translate_def by (subst physical_walk.simps) (auto split: option.splits bind_splits)

text \<open>A translation reads only entries on the way of the address.\<close>

lemma translate_frame:
  assumes t: "tables_ok m own s" and f: "on_way own v j f"
    and same: "\<And>g k. on_way own v k g \<Longrightarrow> k \<le> j \<Longrightarrow> load_entry (HHDM m g) (VADDR_TO_INDEX v k) s' = load_entry (HHDM m g) (VADDR_TO_INDEX v k) s"
  shows "translate m v j (HHDM m f) s' = translate m v j (HHDM m f) s"
  using f same
proof (induction j arbitrary: f)
  case 0
  then show ?case using tables_okD(3)[OF t, of f 0 _ 0] by simp
next
  case (Suc j)
  obtain e where e: "load_entry (HHDM m f) (VADDR_TO_INDEX v (Suc j)) s = Some e" "entry_ok own (Suc j) (pre v (Suc j)) e"
    using way_entry[OF t Suc.prems(1)] by blast
  have e': "load_entry (HHDM m f) (VADDR_TO_INDEX v (Suc j)) s' = Some e" using Suc.prems e(1) by simp
  have "translate m v j (HHDM m (e AND ENTRYL_ADDRESS_MASK)) s' = translate m v j (HHDM m (e AND ENTRYL_ADDRESS_MASK)) s"
    if "1 < Suc j" "e AND ENTRY_FLAG_PRESENT \<noteq> 0" "e AND ENTRYH_FLAG_PS = 0"
    using that e(2) Suc.prems(2) by (intro Suc.IH) (auto simp: entry_ok_def)
  then show ?case by (subst (1 2) translate_eq) (simp add: e(1) e')
qed

section \<open>Stores\<close>

lemma store_entry_ok:
  assumes m: "mapped m s" and f: "frame f" "i < 512"
  shows "\<exists>s'. store_entry (HHDM m f) i v s = Some s' \<and> mapped m s' \<and> frames s' = frames s \<and>
    (\<forall>g j. frame g \<longrightarrow> j < 512 \<longrightarrow> load_entry (HHDM m g) j s' = (if g = f \<and> j = i then Some v else load_entry (HHDM m g) j s))"
proof -
  let ?a = "entry_addr (HHDM m f) i" and ?s = "s\<lparr>kmem := (kmem s)(entry_addr (HHDM m f) i \<mapsto> v)\<rparr>"
  have "kmem s ?a \<noteq> None" using m f by (simp add: mapped_def load_entry_def)
  then have st: "store_entry (HHDM m f) i v s = Some ?s" by (auto simp: store_entry_def store_def)
  have ld: "load_entry (HHDM m g) j ?s = (if g = f \<and> j = i then Some v else load_entry (HHDM m g) j s)" if "frame g" "j < 512" for g j
    using entry_addr_inj[OF that(1) f(1) that(2) f(2), of m] by (simp add: load_entry_def)
  have "mapped m ?s" using m unfolding mapped_def by (simp add: ld)
  then show ?thesis using st ld by auto
qed

lemma clear_words_ok:
  assumes "mapped m s" "frame f" "i + n \<le> 512"
  shows "\<exists>s'. clear_words (HHDM m f) i n s = Some s' \<and> mapped m s' \<and> frames s' = frames s \<and>
    (\<forall>g j. frame g \<longrightarrow> j < 512 \<longrightarrow> load_entry (HHDM m g) j s' = (if g = f \<and> i \<le> j \<and> j < i + n then Some 0 else load_entry (HHDM m g) j s))"
  using assms
proof (induction n arbitrary: s i)
  case (Suc n)
  have i: "i < 512" using Suc.prems(3) by simp
  obtain s1 where s1: "store_entry (HHDM m f) i 0 s = Some s1" "mapped m s1" "frames s1 = frames s"
    "\<And>g j. frame g \<Longrightarrow> j < 512 \<Longrightarrow> load_entry (HHDM m g) j s1 = (if g = f \<and> j = i then Some 0 else load_entry (HHDM m g) j s)"
    using store_entry_ok[OF Suc.prems(1,2) i, of 0] by blast
  have "Suc i + n \<le> 512" using Suc.prems(3) by simp
  from Suc.IH[OF s1(2) Suc.prems(2) this] obtain s' where s': "clear_words (HHDM m f) (Suc i) n s1 = Some s'" "mapped m s'" "frames s' = frames s1"
    "\<And>g j. frame g \<Longrightarrow> j < 512 \<Longrightarrow> load_entry (HHDM m g) j s' = (if g = f \<and> Suc i \<le> j \<and> j < Suc i + n then Some 0 else load_entry (HHDM m g) j s1)"
    by blast
  have "load_entry (HHDM m g) j s' = (if g = f \<and> i \<le> j \<and> j < i + Suc n then Some 0 else load_entry (HHDM m g) j s)" if "frame g" "j < 512" for g j
    using s'(4)[OF that] s1(4)[OF that] by auto
  then show ?case using s1(1,3) s'(1-3) by auto
qed auto

section \<open>The contract of the page source\<close>

text \<open>
  \<open>ok a T n\<close>: the allocator in state \<open>a\<close> has handed out the pages \<open>T\<close> and has \<open>n\<close> more. It never hands out a page twice.
\<close>

locale table_source =
  fixes m :: "'a machine" and ok :: "'a \<Rightarrow> u64 set \<Rightarrow> nat \<Rightarrow> bool"
  assumes take_frame: "ok a T (Suc n) \<Longrightarrow> \<exists>a' f. (if m_earlymem_active m then m_earlymem m a else m_pmm m a) = Some (a', f) \<and>
      frame f \<and> f \<notin> T \<and> ok a' (insert f T) n"
    and fewer: "ok a T (Suc n) \<Longrightarrow> ok a T n"
begin

definition ptm_ok :: "(u64 \<Rightarrow> (nat \<times> nat) option) \<Rightarrow> 'a ptm \<Rightarrow> nat \<Rightarrow> bool" where
  "ptm_ok own s n \<longleftrightarrow> tables_ok m own s \<and> ok (frames s) (dom own) n"

lemma ptm_okD: "ptm_ok own s n \<Longrightarrow> tables_ok m own s" "ptm_ok own s n \<Longrightarrow> ok (frames s) (dom own) n" "ptm_ok own s n \<Longrightarrow> mapped m s"
  by (auto simp: ptm_ok_def tables_ok_def)

lemma fewer_le: "ok a T n \<Longrightarrow> k \<le> n \<Longrightarrow> ok a T k"
  by (induction n) (auto simp: le_Suc_eq dest: fewer)

lemma alloc_page_ok:
  assumes "mapped m s" "ok (frames s) T (Suc n)"
  shows "\<exists>s' f. alloc_page m s = Some (s', f) \<and> frame f \<and> f \<notin> T \<and> mapped m s' \<and> ok (frames s') (insert f T) n \<and>
    (\<forall>g i. frame g \<longrightarrow> i < 512 \<longrightarrow> load_entry (HHDM m g) i s' = (if g = f then Some 0 else load_entry (HHDM m g) i s))"
proof -
  obtain a f where f: "(if m_earlymem_active m then m_earlymem m (frames s) else m_pmm m (frames s)) = Some (a, f)" "frame f" "f \<notin> T"
    "ok a (insert f T) n" using take_frame[OF assms(2)] by blast
  have ld: "load_entry t i (s\<lparr>frames := b\<rparr>) = load_entry t i s" for t i b by (simp add: load_entry_def)
  have "mapped m (s\<lparr>frames := a\<rparr>)" using assms(1) by (simp add: mapped_def ld)
  from clear_words_ok[OF this f(2), of 0 512] obtain s' where
    "clear_words (HHDM m f) 0 512 (s\<lparr>frames := a\<rparr>) = Some s'" "mapped m s'" "frames s' = a"
    "\<And>g j. frame g \<Longrightarrow> j < 512 \<Longrightarrow> load_entry (HHDM m g) j s' = (if g = f then Some 0 else load_entry (HHDM m g) j s)"
    by (auto simp: ld)
  then show ?thesis using f by (auto simp: alloc_page_def)
qed

end

section \<open>Flags\<close>

lemmas entry_bits = ENTRY_FLAG_PRESENT_def ENTRY_FLAG_RW_def ENTRY_FLAG_USER_def ENTRY_FLAG_WRITETHROUGH_def ENTRY_FLAG_DISABLECACHE_def
  ENTRY_FLAG_GLOBAL_def ENTRY_FLAG_NX_def ENTRYL_FLAG_PAT_def ENTRYH_FLAG_PS_def ENTRYH_FLAG_PAT_def ENTRYL_ADDRESS_MASK_def ENTRYH_ADDRESS_MASK_def

lemma or_masked: "(e OR c) AND k = (e AND k) OR (c AND k :: u64)"
  by (simp add: bit.conj_disj_distrib2)

lemma and_not_masked: "k AND NOT c = k \<Longrightarrow> (e AND NOT c) AND k = e AND (k :: u64)"
  by (metis and.assoc and.commute)

text \<open>The flags a walk sets and clears touch neither the address of the next table nor the bits that decide the walk.\<close>

definition way_flags :: "vm_protection \<Rightarrow> vm_privilege \<Rightarrow> u64 \<Rightarrow> u64" where
  "way_flags prot privilege entry = (if prot_write prot then entry OR ENTRY_FLAG_RW else entry) OR privilege_to_x86_flags privilege"

lemma way_flags_masked:
  assumes "k = ENTRY_FLAG_PRESENT \<or> k = ENTRYH_FLAG_PS \<or> k = ENTRYL_ADDRESS_MASK"
  shows "way_flags prot privilege entry AND k = entry AND k"
    "(entry OR ENTRY_FLAG_NX) AND k = entry AND k" "(entry AND NOT ENTRY_FLAG_NX) AND k = entry AND k"
proof -
  have c: "ENTRY_FLAG_RW AND k = 0" "ENTRY_FLAG_NX AND k = 0" "privilege_to_x86_flags privilege AND k = 0"
    using assms by (cases privilege; auto simp: entry_bits)+
  show "way_flags prot privilege entry AND k = entry AND k" by (simp add: way_flags_def or_masked c)
  show "(entry OR ENTRY_FLAG_NX) AND k = entry AND k" by (simp add: or_masked c)
  have "k AND NOT ENTRY_FLAG_NX = k" using assms by (auto simp: entry_bits)
  then show "(entry AND NOT ENTRY_FLAG_NX) AND k = entry AND k" by (rule and_not_masked)
qed

lemma new_table_entry:
  assumes "frame f" "e = ENTRY_FLAG_PRESENT OR (f AND ENTRYL_ADDRESS_MASK)"
  shows "e AND ENTRY_FLAG_PRESENT \<noteq> 0" "e AND ENTRYH_FLAG_PS = 0" "e AND ENTRYL_ADDRESS_MASK = f"
proof -
  have f: "f AND ENTRYL_ADDRESS_MASK = f" using assms(1) by (simp add: frame_def)
  have "f AND ENTRY_FLAG_PRESENT = f AND (ENTRYL_ADDRESS_MASK AND ENTRY_FLAG_PRESENT)" "f AND ENTRYH_FLAG_PS = f AND (ENTRYL_ADDRESS_MASK AND ENTRYH_FLAG_PS)"
    by (metis f and.assoc)+
  then have z: "f AND ENTRY_FLAG_PRESENT = 0" "f AND ENTRYH_FLAG_PS = 0" by (simp_all add: entry_bits)
  have c: "ENTRY_FLAG_PRESENT AND ENTRYH_FLAG_PS = 0" "ENTRY_FLAG_PRESENT AND ENTRYL_ADDRESS_MASK = 0" "ENTRY_FLAG_PRESENT \<noteq> 0"
    by (simp_all add: entry_bits)
  show "e AND ENTRY_FLAG_PRESENT \<noteq> 0" "e AND ENTRYH_FLAG_PS = 0" "e AND ENTRYL_ADDRESS_MASK = f"
    unfolding assms(2) f by (simp_all add: or_masked z c f)
qed

section \<open>Leaves\<close>

lemma bits_between:
  assumes "2 ^ a dvd unat (x :: u64)" "unat x < 2 ^ b" "bit x i"
  shows "a \<le> i \<and> i < b"
proof -
  have ux: "bit (unat x) i" using assms(3) by (simp add: bit_unsigned_iff)
  have "take_bit a (unat x) = 0" "take_bit b (unat x) = unat x" using assms(1,2) by (simp_all add: take_bit_eq_mod)
  then show ?thesis using ux by (metis bit_take_bit_iff linorder_not_less bit_0_eq bot_apply bot_bool_def)
qed

lemma masked_same:
  assumes "2 ^ a dvd unat (x :: u64)" "unat x < 2 ^ b" "k \<le> a" "b \<le> k + n" "k + n \<le> 64"
  shows "x AND push_bit k (mask n) = x"
proof (rule bit_eqI)
  fix i assume "possible_bit TYPE(u64) i"
  then show "bit (x AND push_bit k (mask n)) i = bit x i"
    using bits_between[OF assms(1,2), of i] assms(3-5) by (auto simp: bit_and_iff bit_push_bit_iff bit_mask_iff)
qed

lemma unmasked_low:
  assumes "unat (w :: u64) < 2 ^ 52" "k \<le> 52"
  shows "w AND NOT (push_bit k (mask (52 - k))) = take_bit k w"
proof (rule bit_eqI)
  fix i assume "possible_bit TYPE(u64) i"
  then show "bit (w AND NOT (push_bit k (mask (52 - k)))) i = bit (take_bit k w) i"
    using bits_between[OF _ assms(1), of 0 i] assms(2) by (auto simp: bit_and_iff bit_not_iff bit_push_bit_iff bit_mask_iff bit_take_bit_iff)
qed

definition page_bits :: "page_size \<Rightarrow> nat" where
  "page_bits page_size = lowest_index page_size * 9 + 3"

lemma size_bits: "unat (size_bytes ps) = 2 ^ page_bits ps"
  by (cases ps) (simp_all add: page_bits_def)

lemma leaf_split: "leaf_entry p ps prot cache pv g = (p AND ENTRY_ADDRESS_MASK ps) OR leaf_entry 0 ps prot cache pv g"
  by (simp add: leaf_entry_def Let_def or.assoc or.left_commute)

lemma leaf_flags:
  "leaf_entry 0 ps prot cache pv g AND ENTRY_ADDRESS_MASK ps = 0"
  "leaf_entry 0 ps prot cache pv g AND ENTRY_FLAG_PRESENT \<noteq> 0"
  "ps \<noteq> PAGE_SIZE_4K \<Longrightarrow> leaf_entry 0 ps prot cache pv g AND ENTRYH_FLAG_PS \<noteq> 0"
  by (cases ps; cases cache; cases pv;
      simp add: leaf_entry_def Let_def entry_bits ENTRY_ADDRESS_MASK_def PAT0_def PAT3_def PAT6_def ENTRY_FLAG_PAT_def)+

lemma or_nonzero: "x AND k \<noteq> 0 \<Longrightarrow> (y OR x) AND k \<noteq> (0 :: u64)"
  by (simp add: or_masked or_eq_0_iff)

lemma leaf_ok: "leaf_entry p ps prot cache pv g AND ENTRY_FLAG_PRESENT \<noteq> 0"
    "1 < lowest_index ps \<longrightarrow> leaf_entry p ps prot cache pv g AND ENTRYH_FLAG_PS \<noteq> 0"
proof -
  show "leaf_entry p ps prot cache pv g AND ENTRY_FLAG_PRESENT \<noteq> 0"
    by (subst leaf_split) (rule or_nonzero[OF leaf_flags(2)])
  have "leaf_entry p ps prot cache pv g AND ENTRYH_FLAG_PS \<noteq> 0" if "ps \<noteq> PAGE_SIZE_4K"
    by (subst leaf_split) (rule or_nonzero[OF leaf_flags(3)[OF that]])
  then show "1 < lowest_index ps \<longrightarrow> leaf_entry p ps prot cache pv g AND ENTRYH_FLAG_PS \<noteq> 0" by (cases ps) simp_all
qed

lemma leaf_address:
  assumes "2 ^ page_bits ps dvd unat p" "unat p < 2 ^ 52" "unat w < 2 ^ 52"
  shows "page_address (lowest_index ps) (leaf_entry p ps prot cache pv g) w = Some (p + take_bit (page_bits ps) w)"
proof -
  have mH: "ENTRYH_ADDRESS_MASK = push_bit 16 (mask 36)" by (simp add: ENTRYH_ADDRESS_MASK_def mask_eq_exp_minus_1)
  have pm: "p AND ENTRY_ADDRESS_MASK ps = p"
    using masked_same[OF assms(1,2), of 12 40] masked_same[OF assms(1,2), of 16 36]
    by (cases ps) (simp_all add: page_bits_def ENTRY_ADDRESS_MASK_def mask_L mH)
  have "leaf_entry p ps prot cache pv g AND ENTRY_ADDRESS_MASK ps = p"
    by (subst leaf_split) (simp add: or_masked leaf_flags(1) pm)
  moreover have "w AND NOT 0x000FFFFFFFFFF000 = take_bit 12 w" "w AND NOT 0x000FFFFFFFE00000 = take_bit 21 w"
    "w AND NOT 0x000FFFFFC0000000 = take_bit 30 w"
    using unmasked_low[OF assms(3), of 12] unmasked_low[OF assms(3), of 21] unmasked_low[OF assms(3), of 30]
    by (simp_all add: mask_eq_exp_minus_1)
  ultimately show ?thesis
    by (cases ps) (simp_all add: page_address_def page_bits_def ENTRY_ADDRESS_MASK_def)
qed

section \<open>One level of the walk\<close>

context table_source
begin

text \<open>A store that replaces one entry by another that the invariant allows.\<close>

lemma tables_ok_store:
  assumes t: "tables_ok m own s" and m': "mapped m s'" and f: "own f = Some (l, p)" "i < 512" and e: "entry_ok own l (p * 512 + i) e"
    and ld: "\<And>g j. frame g \<Longrightarrow> j < 512 \<Longrightarrow> load_entry (HHDM m g) j s' = (if g = f \<and> j = i then Some e else load_entry (HHDM m g) j s)"
  shows "tables_ok m own s'"
  unfolding tables_ok_def
proof (intro conjI allI impI)
  fix g k q assume g: "own g = Some (k, q)"
  have gf: "frame g" "1 \<le> k" "k \<le> 4" using tables_okD(2-4)[OF t g, of 0] by auto
  then show "frame g" "1 \<le> k" "k \<le> 4" by auto
  fix j :: nat assume j: "j < 512"
  obtain x where "load_entry (HHDM m g) j s = Some x" "entry_ok own k (q * 512 + j) x" using tables_okD(1)[OF t g j] by blast
  then show "entry_ok own k (q * 512 + j) (the (load_entry (HHDM m g) j s'))"
    using ld[OF gf(1) j] e f(1) g by auto
qed (rule m')

text \<open>A cleared page joins the tree.\<close>

lemma tables_ok_new:
  assumes t: "tables_ok m own s" and m': "mapped m s'" and f: "frame f" "own f = None" "1 \<le> l" "l \<le> 4"
    and ld: "\<And>g j. frame g \<Longrightarrow> j < 512 \<Longrightarrow> load_entry (HHDM m g) j s' = (if g = f then Some 0 else load_entry (HHDM m g) j s)"
  shows "tables_ok m (own(f \<mapsto> (l, p))) s'"
  unfolding tables_ok_def
proof (intro conjI allI impI)
  fix g k q assume g: "(own(f \<mapsto> (l, p))) g = Some (k, q)"
  have gf: "frame g \<and> 1 \<le> k \<and> k \<le> 4" using g f tables_okD(2-4)[OF t, of g k q 0] by (auto split: if_splits)
  then show "frame g" "1 \<le> k" "k \<le> 4" by auto
  fix j :: nat assume j: "j < 512"
  show "entry_ok (own(f \<mapsto> (l, p))) k (q * 512 + j) (the (load_entry (HHDM m g) j s'))"
  proof (cases "g = f")
    case True
    then show ?thesis using ld[of g j] gf j by (simp add: entry_ok_def)
  next
    case False
    then have "own g = Some (k, q)" using g by simp
    then obtain x where x: "load_entry (HHDM m g) j s = Some x" "entry_ok own k (q * 512 + j) x" using tables_okD(1)[OF t _ j] by blast
    have "own (x AND ENTRYL_ADDRESS_MASK) = Some y \<Longrightarrow> (own(f \<mapsto> (l, p))) (x AND ENTRYL_ADDRESS_MASK) = Some y" for y using f(2) by auto
    then show ?thesis using x ld[of g j] gf j False unfolding entry_ok_def by auto
  qed
qed (rule m')

text \<open>The entry of the walk before its flags are set: an existing table, or a new and empty one.\<close>

lemma step_entry:
  assumes ok: "ptm_ok own s (Suc n)" and t: "on_way own v j t" and j: "1 < j"
    and e: "load_entry (HHDM m t) (VADDR_TO_INDEX v j) s = Some e" and nb: "e AND ENTRY_FLAG_PRESENT \<noteq> 0 \<Longrightarrow> e AND ENTRYH_FLAG_PS = 0"
  shows "\<exists>s1 e1 own1. (if e AND ENTRY_FLAG_PRESENT = 0 then do {
           (s, page) \<leftarrow> alloc_page m s;
           let entry = ENTRY_FLAG_PRESENT OR (page AND ENTRYL_ADDRESS_MASK);
           Some (s, if \<not> prot_exec prot then entry OR ENTRY_FLAG_NX else entry)
         } else do {
           (s, entry) \<leftarrow> (if e AND ENTRYH_FLAG_PS \<noteq> 0 then break_big m (HHDM m t) (VADDR_TO_INDEX v j) j s else Some (s, e));
           Some (s, if prot_exec prot then entry AND NOT ENTRY_FLAG_NX else entry)
         }) = Some (s1, e1) \<and> ptm_ok own1 s1 n \<and> own \<subseteq>\<^sub>m own1 \<and> on_way own1 v (j - 1) (e1 AND ENTRYL_ADDRESS_MASK) \<and>
    e1 AND ENTRY_FLAG_PRESENT \<noteq> 0 \<and> e1 AND ENTRYH_FLAG_PS = 0 \<and>
    (\<forall>g \<in> dom own. \<forall>i < 512. load_entry (HHDM m g) i s1 = load_entry (HHDM m g) i s) \<and>
    (if e AND ENTRY_FLAG_PRESENT = 0 then (\<forall>i < 512. load_entry (HHDM m (e1 AND ENTRYL_ADDRESS_MASK)) i s1 = Some 0)
     else e1 AND ENTRYL_ADDRESS_MASK = e AND ENTRYL_ADDRESS_MASK)"
proof -
  note T = ptm_okD[OF ok]
  have j4: "j \<le> 4" using tables_okD(4)[OF T(1) t, of 0] by simp
  have own_frame: "g \<in> dom own \<Longrightarrow> frame g" for g using tables_okD(2)[OF T(1), of g _ _ 0] by auto
  show ?thesis
  proof (cases "e AND ENTRY_FLAG_PRESENT = 0")
    case True
    obtain s1 f where f: "alloc_page m s = Some (s1, f)" "frame f" "f \<notin> dom own" "mapped m s1" "ok (frames s1) (insert f (dom own)) n"
      "\<And>g i. frame g \<Longrightarrow> i < 512 \<Longrightarrow> load_entry (HHDM m g) i s1 = (if g = f then Some 0 else load_entry (HHDM m g) i s)"
      using alloc_page_ok[OF T(3,2)] by blast
    define e0 where "e0 = ENTRY_FLAG_PRESENT OR (f AND ENTRYL_ADDRESS_MASK)"
    define e1 where "e1 = (if \<not> prot_exec prot then e0 OR ENTRY_FLAG_NX else e0)"
    define own1 where "own1 = own(f \<mapsto> (j - 1, pre v j))"
    have m: "e1 AND k = e0 AND k" if "k = ENTRY_FLAG_PRESENT \<or> k = ENTRYH_FLAG_PS \<or> k = ENTRYL_ADDRESS_MASK" for k
      using way_flags_masked(2)[OF that] by (simp add: e1_def)
    have e1: "e1 AND ENTRY_FLAG_PRESENT \<noteq> 0" "e1 AND ENTRYH_FLAG_PS = 0" "e1 AND ENTRYL_ADDRESS_MASK = f"
      using new_table_entry[OF f(2) e0_def] m by auto
    have "tables_ok m own1 s1" unfolding own1_def
      by (rule tables_ok_new[OF T(1) f(4,2)]) (use f(3,6) j j4 in auto)
    then have "ptm_ok own1 s1 n" using f(5) by (simp add: ptm_ok_def own1_def)
    moreover have "own \<subseteq>\<^sub>m own1" using f(3) by (auto simp: own1_def map_le_def)
    moreover have "on_way own1 v (j - 1) f" using j by (simp add: own1_def)
    moreover have "\<forall>g \<in> dom own. \<forall>i < 512. load_entry (HHDM m g) i s1 = load_entry (HHDM m g) i s" using f(3,6) own_frame by auto
    moreover have "\<forall>i < 512. load_entry (HHDM m f) i s1 = Some 0" using f(2,6) by auto
    ultimately show ?thesis using True f(1) e1
      by (intro exI[of _ s1] exI[of _ e1] exI[of _ own1]) (simp add: e1_def e0_def)
  next
    case False
    define e1 where "e1 = (if prot_exec prot then e AND NOT ENTRY_FLAG_NX else e)"
    have m: "e1 AND k = e AND k" if "k = ENTRY_FLAG_PRESENT \<or> k = ENTRYH_FLAG_PS \<or> k = ENTRYL_ADDRESS_MASK" for k
      using way_flags_masked(3)[OF that] by (simp add: e1_def)
    have "entry_ok own j (pre v j) e" using way_entry[OF T(1) t] e by auto
    then have "on_way own v (j - 1) (e AND ENTRYL_ADDRESS_MASK)" using j False nb by (auto simp: entry_ok_def)
    moreover have "ptm_ok own s n" using ok fewer by (auto simp: ptm_ok_def)
    ultimately show ?thesis using False nb m
      by (intro exI[of _ s] exI[of _ e1] exI[of _ own]) (auto simp: e1_def)
  qed
qed

text \<open>No translation changes while a walk adds an empty table or sets flags on the way.\<close>

lemma translate_step:
  assumes t: "tables_ok m own s" and f: "on_way own v j f" "1 < j" and w: "on_way own w k g"
    and e: "load_entry (HHDM m f) (VADDR_TO_INDEX v j) s = Some e" "load_entry (HHDM m f) (VADDR_TO_INDEX v j) s' = Some e'"
    and e': "e' AND ENTRY_FLAG_PRESENT \<noteq> 0" "e' AND ENTRYH_FLAG_PS = 0" and nb: "e AND ENTRY_FLAG_PRESENT \<noteq> 0 \<Longrightarrow> e AND ENTRYH_FLAG_PS = 0"
    and empty: "e AND ENTRY_FLAG_PRESENT = 0 \<Longrightarrow> \<forall>i < 512. load_entry (HHDM m (e' AND ENTRYL_ADDRESS_MASK)) i s' = Some 0"
    and keep: "e AND ENTRY_FLAG_PRESENT \<noteq> 0 \<Longrightarrow> e' AND ENTRYL_ADDRESS_MASK = e AND ENTRYL_ADDRESS_MASK"
    and same: "\<And>h i. h \<in> dom own \<Longrightarrow> i < 512 \<Longrightarrow> \<not> (h = f \<and> i = VADDR_TO_INDEX v j) \<Longrightarrow> load_entry (HHDM m h) i s' = load_entry (HHDM m h) i s"
  shows "translate m w k (HHDM m g) s' = translate m w k (HHDM m g) s"
  using w
proof (induction k arbitrary: g)
  case 0
  then show ?case using tables_okD(3)[OF t, of g 0 _ 0] by simp
next
  case (Suc k)
  have l: "Suc k \<le> 4" using tables_okD(4)[OF t Suc.prems(1), of 0] by simp
  obtain x where x: "load_entry (HHDM m g) (VADDR_TO_INDEX w (Suc k)) s = Some x" "entry_ok own (Suc k) (pre w (Suc k)) x"
    using way_entry[OF t Suc.prems(1)] by blast
  have IH: "translate m w k (HHDM m (x AND ENTRYL_ADDRESS_MASK)) s' = translate m w k (HHDM m (x AND ENTRYL_ADDRESS_MASK)) s"
    if "1 < Suc k" "x AND ENTRY_FLAG_PRESENT \<noteq> 0" "x AND ENTRYH_FLAG_PS = 0"
    using that x(2) by (intro Suc.IH) (auto simp: entry_ok_def)
  show ?case
  proof (cases "g = f \<and> VADDR_TO_INDEX w (Suc k) = VADDR_TO_INDEX v j")
    case False
    have "g \<in> dom own" using Suc.prems by (rule domI)
    from same[OF this index_lt[OF l, of w]] have "load_entry (HHDM m g) (VADDR_TO_INDEX w (Suc k)) s' = Some x" using False x(1) by auto
    then show ?thesis by (subst (1 2) translate_eq) (simp add: x(1) IH)
  next
    case True
    then have kj: "j = Suc k" "x = e" using f(1) Suc.prems(1) x(1) e(1) by auto
    show ?thesis
    proof (cases "e AND ENTRY_FLAG_PRESENT = 0")
      case absent: True
      have "load_entry (HHDM m (e' AND ENTRYL_ADDRESS_MASK)) (VADDR_TO_INDEX w k) s' = Some 0" using empty[OF absent] index_lt[of k w] l by auto
      then have "translate m w k (HHDM m (e' AND ENTRYL_ADDRESS_MASK)) s' = Some None" by (subst translate_eq) simp
      then show ?thesis using absent True kj e e' f(2) by (subst (1 2) translate_eq) simp
    next
      case False
      then show ?thesis using True kj e e' f(2) IH keep nb by (subst (1 2) translate_eq) simp
    qed
  qed
qed

lemma next_entry_ok:
  assumes ok: "ptm_ok own s (Suc n)" and t: "on_way own v j t" and j: "1 < j"
    and un: "translate m v j (HHDM m t) s = Some None"
  shows "\<exists>s' e own'. next_entry m v prot privilege j (HHDM m t) s = Some (s', e) \<and> ptm_ok own' s' n \<and> own \<subseteq>\<^sub>m own' \<and>
    on_way own' v (j - 1) (e AND ENTRYL_ADDRESS_MASK) \<and> load_entry (HHDM m t) (VADDR_TO_INDEX v j) s' = Some e \<and>
    e AND ENTRY_FLAG_PRESENT \<noteq> 0 \<and> e AND ENTRYH_FLAG_PS = 0 \<and>
    (\<forall>g \<in> dom own. \<forall>i < 512. \<not> (g = t \<and> i = VADDR_TO_INDEX v j) \<longrightarrow> load_entry (HHDM m g) i s' = load_entry (HHDM m g) i s) \<and>
    (\<forall>w k g. on_way own w k g \<longrightarrow> translate m w k (HHDM m g) s' = translate m w k (HHDM m g) s)"
proof -
  let ?i = "VADDR_TO_INDEX v j"
  note T = ptm_okD[OF ok]
  have tf: "frame t" "j \<le> 4" using tables_okD(2,4)[OF T(1) t, of 0] by auto
  obtain e0 where e0: "load_entry (HHDM m t) ?i s = Some e0" "entry_ok own j (pre v j) e0" using way_entry[OF T(1) t] by blast
  have nb: "e0 AND ENTRYH_FLAG_PS = 0" if "e0 AND ENTRY_FLAG_PRESENT \<noteq> 0"
  proof (rule ccontr)
    assume ps: "e0 AND ENTRYH_FLAG_PS \<noteq> 0"
    then have "j = 2 \<or> j = 3" using e0(2) that j by (auto simp: entry_ok_def)
    then have "page_address j e0 v \<noteq> None" by (auto simp: page_address_def)
    then show False using un e0(1) that ps by (subst (asm) translate_eq) auto
  qed
  from step_entry[OF ok t j e0(1) nb, of prot] obtain s1 e1 own1 where
    s1: "(if e0 AND ENTRY_FLAG_PRESENT = 0 then do {
           (s, page) \<leftarrow> alloc_page m s;
           let entry = ENTRY_FLAG_PRESENT OR (page AND ENTRYL_ADDRESS_MASK);
           Some (s, if \<not> prot_exec prot then entry OR ENTRY_FLAG_NX else entry)
         } else do {
           (s, entry) \<leftarrow> (if e0 AND ENTRYH_FLAG_PS \<noteq> 0 then break_big m (HHDM m t) ?i j s else Some (s, e0));
           Some (s, if prot_exec prot then entry AND NOT ENTRY_FLAG_NX else entry)
         }) = Some (s1, e1)"
    and o1: "ptm_ok own1 s1 n" "own \<subseteq>\<^sub>m own1" "on_way own1 v (j - 1) (e1 AND ENTRYL_ADDRESS_MASK)"
      "e1 AND ENTRY_FLAG_PRESENT \<noteq> 0" "e1 AND ENTRYH_FLAG_PS = 0"
    and ld1: "\<And>g i. g \<in> dom own \<Longrightarrow> i < 512 \<Longrightarrow> load_entry (HHDM m g) i s1 = load_entry (HHDM m g) i s"
    and new: "e0 AND ENTRY_FLAG_PRESENT = 0 \<Longrightarrow> \<forall>i < 512. load_entry (HHDM m (e1 AND ENTRYL_ADDRESS_MASK)) i s1 = Some 0"
    and old: "e0 AND ENTRY_FLAG_PRESENT \<noteq> 0 \<Longrightarrow> e1 AND ENTRYL_ADDRESS_MASK = e0 AND ENTRYL_ADDRESS_MASK" by auto
  define e where "e = way_flags prot privilege e1"
  have fl: "e AND k = e1 AND k" if "k = ENTRY_FLAG_PRESENT \<or> k = ENTRYH_FLAG_PS \<or> k = ENTRYL_ADDRESS_MASK" for k
    using way_flags_masked(1)[OF that] by (simp add: e_def)
  obtain s' where s': "store_entry (HHDM m t) ?i e s1 = Some s'" "mapped m s'" "frames s' = frames s1"
    "\<And>g i. frame g \<Longrightarrow> i < 512 \<Longrightarrow> load_entry (HHDM m g) i s' = (if g = t \<and> i = ?i then Some e else load_entry (HHDM m g) i s1)"
    using store_entry_ok[OF ptm_okD(3)[OF o1(1)] tf(1) index_lt[OF tf(2)], of v e] by blast
  have r: "next_entry m v prot privilege j (HHDM m t) s = Some (s', e)"
    using s1 s'(1) by (simp add: next_entry_def e0(1) e_def way_flags_def cong: if_cong split del: if_split)
  have t1: "on_way own1 v j t" using o1(2) t by (auto simp: map_le_def dom_def)
  have "entry_ok own1 j (pre v j) e" using o1(3-5) fl j by (simp add: entry_ok_def)
  then have "tables_ok m own1 s'"
    using tables_ok_store[OF ptm_okD(1)[OF o1(1)] s'(2) t1 index_lt[OF tf(2)], of v e] s'(4) pre_split[OF tf(2), of v] by simp
  then have ok': "ptm_ok own1 s' n" using o1(1) s'(3) by (simp add: ptm_ok_def)
  have own_frame: "g \<in> dom own \<Longrightarrow> frame g" for g using tables_okD(2)[OF T(1), of g _ _ 0] by auto
  have ld': "load_entry (HHDM m g) i s' = load_entry (HHDM m g) i s" if "g \<in> dom own" "i < 512" "\<not> (g = t \<and> i = ?i)" for g i
    using s'(4)[OF own_frame[OF that(1)] that(2)] ld1[OF that(1,2)] that(3) by auto
  have le: "load_entry (HHDM m t) ?i s' = Some e" using s'(4)[OF tf(1) index_lt[OF tf(2)]] by simp
  have new': "\<forall>i < 512. load_entry (HHDM m (e AND ENTRYL_ADDRESS_MASK)) i s' = Some 0" if a: "e0 AND ENTRY_FLAG_PRESENT = 0"
  proof -
    have "e AND ENTRYL_ADDRESS_MASK \<noteq> t" using o1(3) t1 fl j by auto
    then show ?thesis using new[OF a] s'(4)[OF frame_mask[of e]] fl by simp
  qed
  have tr: "translate m w k (HHDM m g) s' = translate m w k (HHDM m g) s" if "on_way own w k g" for w k g
    by (rule translate_step[OF T(1) t j that e0(1) le]) (use o1(4,5) fl nb old new' ld' in auto)
  show ?thesis using r ok' o1(2-5) fl le ld' tr by (intro exI[of _ s'] exI[of _ e] exI[of _ own1]) simp
qed

section \<open>Mapping one page\<close>

definition map_from :: "u64 \<Rightarrow> vm_protection \<Rightarrow> vm_privilege \<Rightarrow> nat \<Rightarrow> u64 \<Rightarrow> nat \<Rightarrow> u64 \<Rightarrow> 'a ptm \<Rightarrow> 'a ptm option" where
  "map_from v prot privilege L leaf j table s = do {
     (s, t) \<leftarrow> map_walk m v prot privilege L j table s;
     store_entry t (VADDR_TO_INDEX v L) leaf s
   }"

lemma map_from_step: "L < j \<Longrightarrow> map_from v prot privilege L leaf j table s = do {
     (s, e) \<leftarrow> next_entry m v prot privilege j table s;
     map_from v prot privilege L leaf (j - 1) (HHDM m (e AND ENTRYL_ADDRESS_MASK)) s
   }"
  unfolding map_from_def by (subst map_walk.simps) (auto split: bind_splits)

definition page_result :: "nat \<Rightarrow> u64 \<Rightarrow> u64 \<Rightarrow> u64 option option" where
  "page_result L leaf w = do { paddr \<leftarrow> page_address L leaf w; Some (Some paddr) }"

lemma map_leaf_ok:
  assumes ok: "ptm_ok own s n" and t: "on_way own v L t" and L: "L \<le> 3"
    and leaf: "leaf AND ENTRY_FLAG_PRESENT \<noteq> 0" "1 < L \<longrightarrow> leaf AND ENTRYH_FLAG_PS \<noteq> 0"
  shows "\<exists>s'. map_from v prot privilege L leaf L (HHDM m t) s = Some s' \<and> ptm_ok own s' n \<and>
    (\<forall>w k g. on_way own w k g \<longrightarrow> pre w L \<noteq> pre v L \<longrightarrow> translate m w k (HHDM m g) s' = translate m w k (HHDM m g) s) \<and>
    (\<forall>w. pre w L = pre v L \<longrightarrow> translate m w L (HHDM m t) s' = page_result L leaf w) \<and>
    (\<forall>g k p i. own g = Some (k, p) \<longrightarrow> L < k \<longrightarrow> i < 512 \<longrightarrow> load_entry (HHDM m g) i s' = load_entry (HHDM m g) i s)"
proof -
  let ?i = "VADDR_TO_INDEX v L"
  note T = ptm_okD[OF ok]
  have tf: "frame t" "1 \<le> L" "L \<le> 4" using tables_okD(2,3,4)[OF T(1) t, of 0] by auto
  obtain s' where s': "store_entry (HHDM m t) ?i leaf s = Some s'" "mapped m s'" "frames s' = frames s"
    "\<And>g i. frame g \<Longrightarrow> i < 512 \<Longrightarrow> load_entry (HHDM m g) i s' = (if g = t \<and> i = ?i then Some leaf else load_entry (HHDM m g) i s)"
    using store_entry_ok[OF T(3) tf(1) index_lt[OF tf(3)], of v leaf] by blast
  have r: "map_from v prot privilege L leaf L (HHDM m t) s = Some s'" unfolding map_from_def by (subst map_walk.simps) (simp add: s'(1))
  have own_frame: "own g = Some x \<Longrightarrow> frame g" for g x using tables_okD(2)[OF T(1), of g _ _ 0] by (cases x) auto
  have "entry_ok own L (pre v L) leaf" using leaf L by (cases "1 < L") (auto simp: entry_ok_def)
  then have "tables_ok m own s'"
    using tables_ok_store[OF T(1) s'(2) t index_lt[OF tf(3)], of v leaf] s'(4) pre_split[OF tf(3), of v] by simp
  then have ok': "ptm_ok own s' n" using T(2) s'(3) by (simp add: ptm_ok_def)
  have other: "translate m w k (HHDM m g) s' = translate m w k (HHDM m g) s" if w: "on_way own w k g" "pre w L \<noteq> pre v L" for w k g
  proof (rule translate_frame[OF T(1) w(1)])
    fix h l assume h: "on_way own w l h" "l \<le> k"
    have l: "l \<le> 4" using tables_okD(4)[OF T(1) h(1), of 0] by simp
    have "\<not> (h = t \<and> VADDR_TO_INDEX w l = ?i)" using h(1) t w(2) pre_split[OF tf(3), of w] pre_split[OF tf(3), of v] by auto
    then show "load_entry (HHDM m h) (VADDR_TO_INDEX w l) s' = load_entry (HHDM m h) (VADDR_TO_INDEX w l) s"
      using s'(4)[OF own_frame[OF h(1)] index_lt[OF l]] by auto
  qed
  have hit: "translate m w L (HHDM m t) s' = page_result L leaf w" if "pre w L = pre v L" for w
  proof -
    have "VADDR_TO_INDEX w L = ?i" using that by (simp add: index_pre tf(3))
    then have "load_entry (HHDM m t) (VADDR_TO_INDEX w L) s' = Some leaf" using s'(4)[OF tf(1) index_lt[OF tf(3)], of v] by simp
    then show ?thesis using leaf by (subst translate_eq) (auto simp: page_result_def)
  qed
  have "load_entry (HHDM m g) i s' = load_entry (HHDM m g) i s" if "own g = Some (k, p)" "L < k" "i < 512" for g k p i
    using s'(4)[OF own_frame[OF that(1)] that(3)] that(1,2) t by auto
  then show ?thesis using r ok' other hit by blast
qed

lemma map_from_ok:
  assumes "ptm_ok own s (j - L + n)" "on_way own v j t" "L \<le> j" "1 \<le> L" "L \<le> 3" "translate m v j (HHDM m t) s = Some None"
    and leaf: "leaf AND ENTRY_FLAG_PRESENT \<noteq> 0" "1 < L \<longrightarrow> leaf AND ENTRYH_FLAG_PS \<noteq> 0"
  shows "\<exists>s' own'. map_from v prot privilege L leaf j (HHDM m t) s = Some s' \<and> ptm_ok own' s' n \<and> own \<subseteq>\<^sub>m own' \<and>
    (\<forall>w k g. on_way own w k g \<longrightarrow> pre w L \<noteq> pre v L \<longrightarrow> translate m w k (HHDM m g) s' = translate m w k (HHDM m g) s) \<and>
    (\<forall>w. pre w L = pre v L \<longrightarrow> translate m w j (HHDM m t) s' = page_result L leaf w) \<and>
    (\<forall>g k p i. own g = Some (k, p) \<longrightarrow> j < k \<longrightarrow> i < 512 \<longrightarrow> load_entry (HHDM m g) i s' = load_entry (HHDM m g) i s)"
  using assms(1-6)
proof (induction "j - L" arbitrary: j t s own)
  case 0
  then have j: "j = L" by simp
  have "ptm_ok own s n" "on_way own v L t" using 0 by simp_all
  from map_leaf_ok[OF this 0(6) leaf, of prot privilege] show ?case unfolding j using map_le_refl[of own] by blast
next
  case (Suc d)
  have j: "L < j" "1 < j" using Suc.hyps(2) Suc.prems(4) by auto
  have "ptm_ok own s (Suc (d + n))" using Suc.prems(1) unfolding Suc.hyps(2)[symmetric] by simp
  from next_entry_ok[OF this Suc.prems(2) j(2) Suc.prems(6), of prot privilege] obtain s1 e own1 where
    n1: "next_entry m v prot privilege j (HHDM m t) s = Some (s1, e)" "ptm_ok own1 s1 (d + n)" "own \<subseteq>\<^sub>m own1"
      "on_way own1 v (j - 1) (e AND ENTRYL_ADDRESS_MASK)" "load_entry (HHDM m t) (VADDR_TO_INDEX v j) s1 = Some e"
      "e AND ENTRY_FLAG_PRESENT \<noteq> 0" "e AND ENTRYH_FLAG_PS = 0"
      "\<forall>g \<in> dom own. \<forall>i < 512. \<not> (g = t \<and> i = VADDR_TO_INDEX v j) \<longrightarrow> load_entry (HHDM m g) i s1 = load_entry (HHDM m g) i s"
      "\<forall>w k g. on_way own w k g \<longrightarrow> translate m w k (HHDM m g) s1 = translate m w k (HHDM m g) s"
    by (elim exE conjE) (rule that)
  have lift: "own g = Some x \<Longrightarrow> own1 g = Some x" for g x using n1(3) by (auto simp: map_le_def dom_def)
  have j4: "j \<le> 4" using tables_okD(4)[OF ptm_okD(1)[OF n1(2)] lift[OF Suc.prems(2)], of 0] by simp
  have un: "translate m v (j - 1) (HHDM m (e AND ENTRYL_ADDRESS_MASK)) s1 = Some None"
    using n1(9)[rule_format, OF Suc.prems(2)] Suc.prems(6) n1(5-7) j(2) by (subst (asm) (1) translate_eq) simp
  have d: "d = (j - 1) - L" "L \<le> j - 1" using Suc.hyps(2) j(1) by simp_all
  have h: "d = (j - 1) - L" "ptm_ok own1 s1 ((j - 1) - L + n)" "L \<le> j - 1" using d n1(2) by simp_all
  from Suc.hyps(1)[OF h(1,2) n1(4) h(3) Suc.prems(4,5) un] obtain s' own' where
    s': "map_from v prot privilege L leaf (j - 1) (HHDM m (e AND ENTRYL_ADDRESS_MASK)) s1 = Some s'" "ptm_ok own' s' n" "own1 \<subseteq>\<^sub>m own'"
      "\<And>w k g. on_way own1 w k g \<Longrightarrow> pre w L \<noteq> pre v L \<Longrightarrow> translate m w k (HHDM m g) s' = translate m w k (HHDM m g) s1"
      "\<And>w. pre w L = pre v L \<Longrightarrow> translate m w (j - 1) (HHDM m (e AND ENTRYL_ADDRESS_MASK)) s' = page_result L leaf w"
      "\<And>g k p i. own1 g = Some (k, p) \<Longrightarrow> j - 1 < k \<Longrightarrow> i < 512 \<Longrightarrow> load_entry (HHDM m g) i s' = load_entry (HHDM m g) i s1" by blast
  have r: "map_from v prot privilege L leaf j (HHDM m t) s = Some s'" using map_from_step[OF j(1)] n1(1) s'(1) by simp
  have hit: "translate m w j (HHDM m t) s' = page_result L leaf w" if "pre w L = pre v L" for w
  proof -
    have "VADDR_TO_INDEX w j = VADDR_TO_INDEX v j" using pre_up[OF that Suc.prems(3)] by (simp add: index_pre j4)
    moreover have "load_entry (HHDM m t) (VADDR_TO_INDEX v j) s' = Some e"
      using s'(6)[OF lift[OF Suc.prems(2)] _ index_lt[OF j4]] n1(5) j by simp
    ultimately show ?thesis using s'(5)[OF that] n1(6,7) j(2) by (subst translate_eq) simp
  qed
  have frm: "load_entry (HHDM m g) i s' = load_entry (HHDM m g) i s" if "own g = Some (k, p)" "j < k" "i < 512" for g k p i
  proof -
    have gd: "g \<in> dom own" using that(1) by (rule domI)
    have "g \<noteq> t" using that Suc.prems(2) by auto
    then show ?thesis using s'(6)[OF lift[OF that(1)] _ that(3)] n1(8)[rule_format, OF gd that(3)] that(2) by simp
  qed
  have "own \<subseteq>\<^sub>m own'" using n1(3) s'(3) by (rule map_le_trans)
  moreover have "translate m w k (HHDM m g) s' = translate m w k (HHDM m g) s" if "on_way own w k g" "pre w L \<noteq> pre v L" for w k g
    using s'(4)[OF lift[OF that(1)] that(2)] n1(9)[rule_format, OF that(1)] by simp
  ultimately show ?case using r s'(2) hit frm by blast
qed

lemma same_page_iff:
  assumes "2 ^ page_bits ps dvd unat v" "unat v < 2 ^ 48" "unat w < 2 ^ 48"
  shows "pre w (lowest_index ps) = pre v (lowest_index ps) \<longleftrightarrow> unat v \<le> unat w \<and> unat w < unat v + 2 ^ page_bits ps"
proof -
  obtain q where q: "unat v = 2 ^ page_bits ps * q" using assms(1) by (auto elim: dvdE)
  have "pre w (lowest_index ps) = pre v (lowest_index ps) \<longleftrightarrow> unat w div 2 ^ page_bits ps = q"
    using assms(2,3) q by (simp add: pre_def page_bits_def)
  also have "\<dots> \<longleftrightarrow> 2 ^ page_bits ps * q \<le> unat w \<and> unat w < 2 ^ page_bits ps * q + 2 ^ page_bits ps"
    using div_nat_eqI[of "2 ^ page_bits ps" q "unat w"] times_div_less_eq_dividend[of "2 ^ page_bits ps" "unat w"]
      dividend_less_times_div[of "2 ^ page_bits ps" "unat w"] by (auto simp: algebra_simps)
  finally show ?thesis by (simp add: q)
qed

lemma page_offset:
  assumes "2 ^ page_bits ps dvd unat v" "unat v \<le> unat w" "unat w < unat v + 2 ^ page_bits ps"
  shows "take_bit (page_bits ps) w = w - (v :: u64)"
proof -
  obtain q where q: "unat v = 2 ^ page_bits ps * q" using assms(1) by (auto elim: dvdE)
  have "unat w mod 2 ^ page_bits ps = (unat w - unat v) mod 2 ^ page_bits ps" using assms(2) q by (metis mod_mult_self2 add.commute le_add_diff_inverse2)
  also have "\<dots> = unat w - unat v" using assms(2,3) by simp
  finally have "unat (take_bit (page_bits ps) w) = unat (w - v)"
    unfolding unsigned_take_bit_eq unfolding take_bit_eq_mod using assms(2) by (simp add: unat_sub word_le_nat_alt)
  then show ?thesis by (simp add: word_unat_eq_iff)
qed

lemma map_page_ok:
  assumes ok: "ptm_ok own s (3 + n)" and t: "own pt = Some (4, 0)" and v: "2 ^ page_bits ps dvd unat v" "unat v < 2 ^ 48"
    and p: "2 ^ page_bits ps dvd unat p" "unat p < 2 ^ 52" and un: "arch_ptm_physical m pt v s = Some None"
  shows "\<exists>s' own'. map_page m (HHDM m pt) v p ps prot cache privilege g s = Some s' \<and> ptm_ok own' s' n \<and> own \<subseteq>\<^sub>m own' \<and>
    (\<forall>w. unat w < 2 ^ 48 \<longrightarrow> arch_ptm_physical m pt w s' =
      (if unat v \<le> unat w \<and> unat w < unat v + 2 ^ page_bits ps then Some (Some (p + (w - v))) else arch_ptm_physical m pt w s))"
proof -
  let ?L = "lowest_index ps" and ?leaf = "leaf_entry p ps prot cache privilege g"
  have L: "1 \<le> ?L" "?L \<le> 3" "?L \<le> 4" by (cases ps; simp)+
  have way: "on_way own w 4 pt" for w using t pre_top[of w] by simp
  have "4 - ?L + n \<le> 3 + n" using L by simp
  then have "ptm_ok own s (4 - ?L + n)" using ok fewer_le unfolding ptm_ok_def by blast
  from map_from_ok[OF this way L(3,1,2) un[unfolded physical_translate], where leaf = ?leaf and prot = prot and privilege = privilege, OF leaf_ok]
  obtain s' own' where s': "map_from v prot privilege ?L ?leaf 4 (HHDM m pt) s = Some s'" "ptm_ok own' s' n" "own \<subseteq>\<^sub>m own'"
    and tr: "\<forall>w k g. on_way own w k g \<longrightarrow> pre w ?L \<noteq> pre v ?L \<longrightarrow> translate m w k (HHDM m g) s' = translate m w k (HHDM m g) s"
      "\<forall>w. pre w ?L = pre v ?L \<longrightarrow> translate m w 4 (HHDM m pt) s' = page_result ?L ?leaf w" by (elim exE conjE) (rule that)
  have "arch_ptm_physical m pt w s' =
      (if unat v \<le> unat w \<and> unat w < unat v + 2 ^ page_bits ps then Some (Some (p + (w - v))) else arch_ptm_physical m pt w s)"
    if w: "unat w < 2 ^ 48" for w
  proof (cases "pre w ?L = pre v ?L")
    case True
    then have "unat v \<le> unat w" "unat w < unat v + 2 ^ page_bits ps" using same_page_iff[OF v w] by auto
    moreover have "unat w < 2 ^ 52" using w by simp
    ultimately show ?thesis
      using tr(2)[rule_format, OF True] leaf_address[OF p, of w] page_offset[OF v(1)] by (simp add: physical_translate page_result_def)
  next
    case False
    then show ?thesis using same_page_iff[OF v w] tr(1)[rule_format, OF way False] by (auto simp: physical_translate)
  qed
  moreover have "map_page m (HHDM m pt) v p ps prot cache privilege g s = Some s'"
    using s'(1) by (simp add: map_page_def map_from_def LEVEL_COUNT_def)
  ultimately show ?thesis using s'(2,3) by blast
qed

section \<open>Mapping a range\<close>

lemma chunk_dvd: "r' \<le> r \<Longrightarrow> (2 :: nat) ^ page_bits (chunk_size v p r') dvd 2 ^ page_bits (chunk_size v p r)"
  by (intro le_imp_power_dvd) (auto simp: chunk_size_def page_bits_def)

lemma chunk_aligned:
  assumes "4096 dvd unat v" "4096 dvd unat p" "4096 \<le> unat r"
  shows "2 ^ page_bits (chunk_size v p r) dvd unat v" "2 ^ page_bits (chunk_size v p r) dvd unat p" "2 ^ page_bits (chunk_size v p r) \<le> unat r"
  using assms by (auto simp: chunk_size_def page_bits_def word_unat_eq_iff unat_mod word_le_nat_alt dvd_eq_mod_eq_0)

lemma page_bits_ge: "12 \<le> page_bits ps"
  by (cases ps) (simp_all add: page_bits_def)

lemma map_loop_ok:
  assumes "ptm_ok own s (3 * ((unat len - unat i) div 4096) + n)" "own pt = Some (4, 0)" "4096 dvd unat v" "4096 dvd unat p" "4096 dvd unat len"
    "unat v + unat len \<le> 2 ^ 48" "unat p + unat len \<le> 2 ^ 52" "unat i \<le> unat len" "4096 dvd unat i"
    "2 ^ page_bits (chunk_size v p (len - i)) dvd unat i"
    "\<forall>w. unat v + unat i \<le> unat w \<longrightarrow> unat w < unat v + unat len \<longrightarrow> arch_ptm_physical m pt w s = Some None"
  shows "\<exists>s' own'. map_loop m pt v p len prot cache privilege g i s = Some s' \<and> ptm_ok own' s' n \<and> own \<subseteq>\<^sub>m own' \<and>
    (\<forall>w. unat w < 2 ^ 48 \<longrightarrow> arch_ptm_physical m pt w s' =
      (if unat v + unat i \<le> unat w \<and> unat w < unat v + unat len then Some (Some (p + (w - v))) else arch_ptm_physical m pt w s))"
  using assms
proof (induction "unat len - unat i" arbitrary: i s own rule: less_induct)
  case less
  show ?case
  proof (cases "i < len")
    case False
    then have "unat i = unat len" using less.prems(8) by (simp add: word_less_nat_alt)
    moreover have "map_loop m pt v p len prot cache privilege g i s = Some s" using False by (subst map_loop.simps) simp
    ultimately show ?thesis using less.prems(1) map_le_refl[of own] by auto
  next
    case True
    define c where "c = chunk_size v p (len - i)"
    have il: "unat i < unat len" using True by (simp add: word_less_nat_alt)
    have r: "unat (len - i) = unat len - unat i" using il by (simp add: unat_sub word_le_nat_alt)
    have "4096 dvd unat len - unat i" using less.prems(5,9) by (rule dvd_diff_nat)
    then have r4: "4096 \<le> unat len - unat i" using il by (intro dvd_imp_le) auto
    have A: "2 ^ page_bits c dvd unat v" "2 ^ page_bits c dvd unat p" "2 ^ page_bits c \<le> unat len - unat i"
      using chunk_aligned[OF less.prems(3,4), of "len - i"] r4 by (simp_all add: c_def r)
    have ci: "2 ^ page_bits c dvd unat i" using less.prems(10) by (simp add: c_def)
    have vi: "unat (v + i) = unat v + unat i" "unat (p + i) = unat p + unat i"
      using less.prems(6,7) il by (simp_all add: unat_plus_if')
    have ic: "unat (i + size_bytes c) = unat i + 2 ^ page_bits c"
      using A(3) r4 less.prems(6) by (subst unat_plus_if') (simp add: size_bits)
    define R where "R = unat len - (unat i + 2 ^ page_bits c)"
    have c4: "4096 dvd (2 :: nat) ^ page_bits c" using le_imp_power_dvd[OF page_bits_ge[of c], of "2 :: nat"] by simp
    have "R + 2 ^ page_bits c = unat len - unat i" using A(3) by (simp add: R_def)
    moreover have "(4096 :: nat) \<le> 2 ^ page_bits c" using c4 by (intro dvd_imp_le) auto
    ultimately have "R + 4096 \<le> unat len - unat i" by simp
    from div_le_mono[OF this, of 4096] have "R div 4096 + 1 \<le> (unat len - unat i) div 4096" by simp
    then have "3 + (3 * (R div 4096) + n) \<le> 3 * ((unat len - unat i) div 4096) + n" by simp
    then have "ptm_ok own s (3 + (3 * (R div 4096) + n))" using less.prems(1) fewer_le unfolding ptm_ok_def by blast
    from map_page_ok[OF this less.prems(2), of c "v + i" "p + i" prot cache privilege g]
    obtain s1 own1 where s1: "map_page m (HHDM m pt) (v + i) (p + i) c prot cache privilege g s = Some s1"
      "ptm_ok own1 s1 (3 * (R div 4096) + n)" "own \<subseteq>\<^sub>m own1"
      "\<forall>w. unat w < 2 ^ 48 \<longrightarrow> arch_ptm_physical m pt w s1 =
        (if unat (v + i) \<le> unat w \<and> unat w < unat (v + i) + 2 ^ page_bits c then Some (Some (p + i + (w - (v + i)))) else arch_ptm_physical m pt w s)"
      using A ci vi less.prems(6,7,11) il by (auto simp: dvd_add)
    have pt1: "own1 pt = Some (4, 0)" using s1(3) less.prems(2) by (auto simp: map_le_def dom_def)
    have un1: "\<forall>w. unat v + unat (i + size_bytes c) \<le> unat w \<longrightarrow> unat w < unat v + unat len \<longrightarrow> arch_ptm_physical m pt w s1 = Some None"
      using s1(4) less.prems(6,11) by (auto simp: ic vi)
    have le: "len - (i + size_bytes c) \<le> len - i" using A(3) ic r il by (simp add: word_le_nat_alt unat_sub)
    have dv: "2 ^ page_bits (chunk_size v p (len - (i + size_bytes c))) dvd unat (i + size_bytes c)"
      using chunk_dvd[OF le, of v p, folded c_def] by (rule dvd_trans) (simp add: ic ci dvd_add)
    have "unat len - (unat i + x) < unat len - unat i" if "0 < x" for x using that il by linarith
    from this[of "2 ^ page_bits c"] have lt: "unat len - unat (i + size_bytes c) < unat len - unat i" by (simp add: ic)
    have hyp: "ptm_ok own1 s1 (3 * ((unat len - unat (i + size_bytes c)) div 4096) + n)"
      "unat (i + size_bytes c) \<le> unat len" "4096 dvd unat (i + size_bytes c)"
      using il A(3) s1(2) c4 less.prems(9) unfolding ic R_def by (simp_all add: dvd_add)
    from less.hyps[OF lt hyp(1) pt1 less.prems(3-7) hyp(2,3) dv un1] obtain s' own' where
      s': "map_loop m pt v p len prot cache privilege g (i + size_bytes c) s1 = Some s'" "ptm_ok own' s' n" "own1 \<subseteq>\<^sub>m own'"
      "\<forall>w. unat w < 2 ^ 48 \<longrightarrow> arch_ptm_physical m pt w s' =
        (if unat v + unat (i + size_bytes c) \<le> unat w \<and> unat w < unat v + unat len then Some (Some (p + (w - v))) else arch_ptm_physical m pt w s1)"
      by (elim exE conjE) (rule that)
    have "map_loop m pt v p len prot cache privilege g i s = Some s'"
      using True s1(1) s'(1) by (subst map_loop.simps) (simp add: c_def)
    moreover have "own \<subseteq>\<^sub>m own'" using s1(3) s'(3) by (rule map_le_trans)
    moreover have "p + i + (w - (v + i)) = p + (w - v)" for w by simp
    then have "\<forall>w. unat w < 2 ^ 48 \<longrightarrow> arch_ptm_physical m pt w s' =
      (if unat v + unat i \<le> unat w \<and> unat w < unat v + unat len then Some (Some (p + (w - v))) else arch_ptm_physical m pt w s)"
      using s1(4) s'(4) A(3) il by (auto simp: vi ic)
    ultimately show ?thesis using s'(2) by blast
  qed
qed

lemma map_ok:
  assumes "ptm_ok own s (3 * (unat len div 4096) + n)" "own pt = Some (4, 0)" "4096 dvd unat v" "4096 dvd unat p" "4096 dvd unat len"
    "unat v + unat len \<le> 2 ^ 48" "unat p + unat len \<le> 2 ^ 52"
    "\<forall>w. unat v \<le> unat w \<longrightarrow> unat w < unat v + unat len \<longrightarrow> arch_ptm_physical m pt w s = Some None"
  shows "\<exists>s' own'. arch_ptm_map m pt v p len prot cache privilege g s = Some s' \<and> ptm_ok own' s' n \<and> own \<subseteq>\<^sub>m own' \<and>
    (\<forall>w. unat w < 2 ^ 48 \<longrightarrow> arch_ptm_physical m pt w s' =
      (if unat v \<le> unat w \<and> unat w < unat v + unat len then Some (Some (p + (w - v))) else arch_ptm_physical m pt w s))"
proof -
  have "x mod PAGE_SIZE = 0" if "4096 dvd unat x" for x using that page_aligned_iff[of x] by (simp add: page_aligned_def)
  then show ?thesis using map_loop_ok[of own s len 0 n pt v p prot cache privilege g] assms by (simp add: arch_ptm_map_def)
qed

end

section \<open>Unmapping small pages\<close>

text \<open>The table of the lowest level for an address, when the way there is complete and meets no big page.\<close>

fun small_table :: "'a machine \<Rightarrow> u64 \<Rightarrow> nat \<Rightarrow> u64 \<Rightarrow> 'a ptm \<Rightarrow> u64 option" where
  "small_table m w j f s =
    (if j > 1 then do {
       e \<leftarrow> load_entry (HHDM m f) (VADDR_TO_INDEX w j) s;
       if e AND ENTRY_FLAG_PRESENT = 0 \<or> e AND ENTRYH_FLAG_PS \<noteq> 0 then None else small_table m w (j - 1) (e AND ENTRYL_ADDRESS_MASK) s
     } else Some f)"

declare small_table.simps [simp del]

lemma small_table_way:
  assumes "tables_ok m own s" "on_way own w j f" "small_table m w j f s = Some t"
  shows "on_way own w 1 t" "unmap_walk m w r j (HHDM m f) s = Some (s, 1, Some (HHDM m t))" "translate m w j (HHDM m f) s = translate m w 1 (HHDM m t) s"
proof -
  have "on_way own w 1 t \<and> unmap_walk m w r j (HHDM m f) s = Some (s, 1, Some (HHDM m t)) \<and> translate m w j (HHDM m f) s = translate m w 1 (HHDM m t) s"
    using assms(2,3)
  proof (induction j arbitrary: f)
    case 0
    then show ?case using tables_okD(3)[OF assms(1), of f 0 _ 0] by simp
  next
    case (Suc j)
    show ?case
    proof (cases "1 < Suc j")
      case False
      then have "f = t" "Suc j = 1" using Suc.prems(2) by (subst (asm) small_table.simps; simp)+
      then show ?thesis using Suc.prems(1) by (subst unmap_walk.simps) simp
    next
      case True
      obtain e where e: "load_entry (HHDM m f) (VADDR_TO_INDEX w (Suc j)) s = Some e" "entry_ok own (Suc j) (pre w (Suc j)) e"
        using way_entry[OF assms(1) Suc.prems(1)] by blast
      have n: "e AND ENTRY_FLAG_PRESENT \<noteq> 0" "e AND ENTRYH_FLAG_PS = 0" "small_table m w j (e AND ENTRYL_ADDRESS_MASK) s = Some t"
        using Suc.prems(2) True e(1) by (simp_all add: small_table.simps[of _ _ "Suc j"] split: if_splits)
      have "on_way own w j (e AND ENTRYL_ADDRESS_MASK)" using e(2) n True by (simp add: entry_ok_def)
      from Suc.IH[OF this n(3)] have I: "on_way own w 1 t" "unmap_walk m w r j (HHDM m (e AND ENTRYL_ADDRESS_MASK)) s = Some (s, 1, Some (HHDM m t))"
        "translate m w j (HHDM m (e AND ENTRYL_ADDRESS_MASK)) s = translate m w 1 (HHDM m t) s" by auto
      have "translate m w (Suc j) (HHDM m f) s = translate m w j (HHDM m (e AND ENTRYL_ADDRESS_MASK)) s"
        using e(1) n True by (subst translate_eq) simp
      moreover have "unmap_walk m w r (Suc j) (HHDM m f) s = unmap_walk m w r j (HHDM m (e AND ENTRYL_ADDRESS_MASK)) s"
        using e(1) n True by (subst unmap_walk.simps) simp
      ultimately show ?thesis using I by simp
    qed
  qed
  then show "on_way own w 1 t" "unmap_walk m w r j (HHDM m f) s = Some (s, 1, Some (HHDM m t))"
    "translate m w j (HHDM m f) s = translate m w 1 (HHDM m t) s" by auto
qed

lemma small_table_cong:
  assumes "pre w 1 = pre v 1"
  shows "j \<le> 4 \<Longrightarrow> small_table m w j f s = small_table m v j f s"
proof (induction j arbitrary: f)
  case (Suc j)
  have "VADDR_TO_INDEX w (Suc j) = VADDR_TO_INDEX v (Suc j)" using pre_up[OF assms, of "Suc j"] Suc.prems by (simp add: index_pre)
  then show ?case using Suc by (subst (1 2) small_table.simps) (cases "load_entry (HHDM m f) (VADDR_TO_INDEX v (Suc j)) s", simp_all)
qed (simp add: small_table.simps)

lemma small_table_frame:
  assumes t: "tables_ok m own s" and f: "on_way own w j f"
    and same: "\<And>g k i p. own g = Some (k, p) \<Longrightarrow> 1 < k \<Longrightarrow> i < 512 \<Longrightarrow> load_entry (HHDM m g) i s' = load_entry (HHDM m g) i s"
  shows "small_table m w j f s' = small_table m w j f s"
  using f
proof (induction j arbitrary: f)
  case 0
  then show ?case using tables_okD(3)[OF t, of f 0 _ 0] by simp
next
  case (Suc j)
  show ?case
  proof (cases "1 < Suc j")
    case True
    have l: "Suc j \<le> 4" using tables_okD(4)[OF t Suc.prems(1), of 0] by simp
    obtain e where e: "load_entry (HHDM m f) (VADDR_TO_INDEX w (Suc j)) s = Some e" "entry_ok own (Suc j) (pre w (Suc j)) e"
      using way_entry[OF t Suc.prems(1)] by blast
    have "load_entry (HHDM m f) (VADDR_TO_INDEX w (Suc j)) s' = Some e" using same[OF Suc.prems True index_lt[OF l]] e(1) by simp
    moreover have "small_table m w j (e AND ENTRYL_ADDRESS_MASK) s' = small_table m w j (e AND ENTRYL_ADDRESS_MASK) s"
      if "e AND ENTRY_FLAG_PRESENT \<noteq> 0" "e AND ENTRYH_FLAG_PS = 0"
      using that e(2) True by (intro Suc.IH) (auto simp: entry_ok_def)
    ultimately show ?thesis using e(1) by (subst (1 2) small_table.simps) simp
  qed (simp add: small_table.simps)
qed

context table_source
begin

lemma unmap_page_ok:
  assumes ok: "ptm_ok own s n" and pt: "own pt = Some (4, 0)" and sm: "small_table m v 4 pt s = Some t" and v: "4096 dvd unat v" "unat v < 2 ^ 48"
  shows "\<exists>s'. store_entry (HHDM m t) (VADDR_TO_INDEX v 1) 0 s = Some s' \<and> ptm_ok own s' n \<and>
    (\<forall>w. unat w < 2 ^ 48 \<longrightarrow> arch_ptm_physical m pt w s' = (if unat v \<le> unat w \<and> unat w < unat v + 4096 then Some None else arch_ptm_physical m pt w s)) \<and>
    (\<forall>w. small_table m w 4 pt s' = small_table m w 4 pt s)"
proof -
  let ?i = "VADDR_TO_INDEX v 1"
  note T = ptm_okD[OF ok]
  have way: "on_way own w 4 pt" for w using pt pre_top[of w] by simp
  note S = small_table_way[OF T(1) way sm]
  have tf: "frame t" using tables_okD(2)[OF T(1) S(1), of 0] by simp
  have i: "?i < 512" by (rule index_lt) simp
  obtain s' where s': "store_entry (HHDM m t) ?i 0 s = Some s'" "mapped m s'" "frames s' = frames s"
    "\<And>g i. frame g \<Longrightarrow> i < 512 \<Longrightarrow> load_entry (HHDM m g) i s' = (if g = t \<and> i = ?i then Some 0 else load_entry (HHDM m g) i s)"
    using store_entry_ok[OF T(3) tf i, of 0] by blast
  have own_frame: "frame g" if "own g = Some (k, p)" for g k p using tables_okD(2)[OF T(1) that, of 0] by simp
  have "tables_ok m own s'" by (rule tables_ok_store[OF T(1) s'(2) S(1) i _ s'(4)]) (simp_all add: entry_ok_def)
  then have ok': "ptm_ok own s' n" using T(2) s'(3) by (simp add: ptm_ok_def)
  have sm': "small_table m w 4 pt s' = small_table m w 4 pt s" for w
    by (rule small_table_frame[OF T(1) way]) (use s'(4) own_frame S(1) in auto)
  have "arch_ptm_physical m pt w s' = (if unat v \<le> unat w \<and> unat w < unat v + 4096 then Some None else arch_ptm_physical m pt w s)"
    if w: "unat w < 2 ^ 48" for w
  proof -
    have iff: "pre w 1 = pre v 1 \<longleftrightarrow> unat v \<le> unat w \<and> unat w < unat v + 4096"
      using same_page_iff[of PAGE_SIZE_4K v w] v w by (simp add: page_bits_def)
    show ?thesis
    proof (cases "pre w 1 = pre v 1")
      case True
      have "VADDR_TO_INDEX w 1 = ?i" using True by (simp add: index_pre)
      then have "translate m w 1 (HHDM m t) s' = Some None" using s'(4)[OF tf i] by (subst translate_eq) simp
      moreover have "small_table m w 4 pt s = Some t"
        using sm small_table_cong[OF True, of 4 m pt s] by simp
      ultimately show ?thesis
        using small_table_way(3)[OF ptm_okD(1)[OF ok'] way] sm'[of w] iff True by (simp add: physical_translate)
    next
      case False
      have "translate m w 4 (HHDM m pt) s' = translate m w 4 (HHDM m pt) s"
      proof (rule translate_frame[OF T(1) way])
        fix g k assume g: "on_way own w k g" "k \<le> 4"
        have "\<not> (g = t \<and> VADDR_TO_INDEX w k = ?i)" using g(1) S(1) False pre_split[of 1 w] pre_split[of 1 v] by auto
        then show "load_entry (HHDM m g) (VADDR_TO_INDEX w k) s' = load_entry (HHDM m g) (VADDR_TO_INDEX w k) s"
          using s'(4)[OF own_frame[OF g(1)] index_lt[OF g(2)]] by auto
      qed
      then show ?thesis using False iff by (auto simp: physical_translate)
    qed
  qed
  then show ?thesis using s'(1) ok' sm' by blast
qed

lemma unmap_loop_ok:
  assumes "ptm_ok own s n" "own pt = Some (4, 0)" "4096 dvd unat v" "4096 dvd unat len" "4096 dvd unat i" "unat v + unat len \<le> 2 ^ 48" "unat i \<le> unat len"
    "\<forall>w. unat v + unat i \<le> unat w \<longrightarrow> unat w < unat v + unat len \<longrightarrow> small_table m w 4 pt s \<noteq> None"
  shows "\<exists>s'. unmap_loop m pt v len i s = Some s' \<and> ptm_ok own s' n \<and>
    (\<forall>w. unat w < 2 ^ 48 \<longrightarrow> arch_ptm_physical m pt w s' =
      (if unat v + unat i \<le> unat w \<and> unat w < unat v + unat len then Some None else arch_ptm_physical m pt w s))"
  using assms
proof (induction "unat len - unat i" arbitrary: i s rule: less_induct)
  case less
  show ?case
  proof (cases "i < len")
    case False
    then have "unat i = unat len" using less.prems(7) by (simp add: word_less_nat_alt)
    moreover have "unmap_loop m pt v len i s = Some s" using False by (subst unmap_loop.simps) simp
    ultimately show ?thesis using less.prems(1) by auto
  next
    case True
    have il: "unat i < unat len" using True by (simp add: word_less_nat_alt)
    have "4096 dvd unat len - unat i" using less.prems(4,5) by (rule dvd_diff_nat)
    then have r4: "4096 \<le> unat len - unat i" using il by (intro dvd_imp_le) auto
    have vi: "unat (v + i) = unat v + unat i" using less.prems(6) il by (simp add: unat_plus_if')
    have ic: "unat (i + 4096) = unat i + 4096" using r4 less.prems(6) by (subst unat_plus_if') simp
    have way: "on_way own w 4 pt" for w using less.prems(2) pre_top[of w] by simp
    obtain t where t: "small_table m (v + i) 4 pt s = Some t" using less.prems(8) il vi by fastforce
    note W = small_table_way(2)[OF ptm_okD(1)[OF less.prems(1)] way t, of "len - i"]
    have al: "4096 dvd unat (v + i)" "unat (v + i) < 2 ^ 48" using less.prems(3,5,6) il by (simp_all add: vi dvd_add)
    from unmap_page_ok[OF less.prems(1,2) t al] obtain s1 where s1:
      "store_entry (HHDM m t) (VADDR_TO_INDEX (v + i) 1) 0 s = Some s1" "ptm_ok own s1 n"
      "\<forall>w. unat w < 2 ^ 48 \<longrightarrow> arch_ptm_physical m pt w s1 =
        (if unat (v + i) \<le> unat w \<and> unat w < unat (v + i) + 4096 then Some None else arch_ptm_physical m pt w s)"
      "\<forall>w. small_table m w 4 pt s1 = small_table m w 4 pt s" by blast
    have un: "unmap_loop m pt v len i s = unmap_loop m pt v len (i + 4096) s1"
      using True W s1(1) by (subst unmap_loop.simps) (simp add: LEVEL_COUNT_def LEVEL_TO_PAGESIZE_def)
    have sm: "\<forall>w. unat v + unat (i + 4096) \<le> unat w \<longrightarrow> unat w < unat v + unat len \<longrightarrow> small_table m w 4 pt s1 \<noteq> None"
      using less.prems(8) s1(4) ic by simp
    have h: "unat len - unat (i + 4096) < unat len - unat i" "4096 dvd unat (i + 4096)" "unat (i + 4096) \<le> unat len"
      using il r4 less.prems(5) unfolding ic by simp_all
    from less.hyps[OF h(1) s1(2) less.prems(2-4) h(2) less.prems(6) h(3) sm] obtain s' where
      s': "unmap_loop m pt v len (i + 4096) s1 = Some s'" "ptm_ok own s' n"
      "\<forall>w. unat w < 2 ^ 48 \<longrightarrow> arch_ptm_physical m pt w s' =
        (if unat v + unat (i + 4096) \<le> unat w \<and> unat w < unat v + unat len then Some None else arch_ptm_physical m pt w s1)" by blast
    have "\<forall>w. unat w < 2 ^ 48 \<longrightarrow> arch_ptm_physical m pt w s' =
      (if unat v + unat i \<le> unat w \<and> unat w < unat v + unat len then Some None else arch_ptm_physical m pt w s)"
      using s1(3) s'(3) r4 by (auto simp: vi ic)
    then show ?thesis using un s'(1,2) by auto
  qed
qed

lemma unmap_ok:
  assumes "ptm_ok own s n" "own pt = Some (4, 0)" "4096 dvd unat v" "4096 dvd unat len" "unat v + unat len \<le> 2 ^ 48"
    "\<forall>w. unat v \<le> unat w \<longrightarrow> unat w < unat v + unat len \<longrightarrow> small_table m w 4 pt s \<noteq> None"
  shows "\<exists>s'. arch_ptm_unmap m pt v len s = Some s' \<and> ptm_ok own s' n \<and>
    (\<forall>w. unat w < 2 ^ 48 \<longrightarrow> arch_ptm_physical m pt w s' =
      (if unat v \<le> unat w \<and> unat w < unat v + unat len then Some None else arch_ptm_physical m pt w s))"
proof -
  have "x mod PAGE_SIZE = 0" if "4096 dvd unat x" for x using that page_aligned_iff[of x] by (simp add: page_aligned_def)
  then show ?thesis using unmap_loop_ok[of own s n pt v len 0] assms by (simp add: arch_ptm_unmap_def)
qed

end

section \<open>The page source of the kernel\<close>

text \<open>After the start-up the pages come from the physical memory manager.\<close>

definition pmm_frames :: "pmm \<Rightarrow> (pmm \<times> u64) option" where
  "pmm_frames s = do { (s, b) \<leftarrow> pmm_alloc_page PMM_FLAG_ZERO s; Some (s, of_nat (BLOCK_PADDR b)) }"

definition pmm_machine :: "u64 \<Rightarrow> pmm machine" where
  "pmm_machine hhdm = \<lparr>m_hhdm = hhdm, m_earlymem_active = False, m_earlymem = (\<lambda>_. None), m_pmm = pmm_frames\<rparr>"

definition pmm_supply :: "pmm \<Rightarrow> u64 set \<Rightarrow> nat \<Rightarrow> bool" where
  "pmm_supply a T n \<longleftrightarrow> (\<exists>M A. pmm_inv a M A \<and> M \<subseteq> {..<2 ^ 40} \<and> T \<subseteq> (\<lambda>b. of_nat (BLOCK_PADDR b)) ` A \<and> n \<le> free_pages a ZONE_NORMAL)"

lemma paddr_unat: "b < 2 ^ 40 \<Longrightarrow> unat (of_nat (BLOCK_PADDR b) :: u64) = b * 4096"
  unfolding BLOCK_PADDR_def ARCH_PAGE_GRANULARITY_def unat_of_nat by simp

lemma frame_paddr: "b < 2 ^ 40 \<Longrightarrow> frame (of_nat (BLOCK_PADDR b))"
  unfolding frame_def mask_L by (rule masked_same[where a = 12 and b = 52]) (simp_all add: paddr_unat)

lemma block_managed:
  assumes "pmm_inv s M A" "b \<in> A"
  shows "b \<in> M"
  using fa.pages_managed[OF assms] by (auto simp: block_pages_def)

lemma free_pages_list: "0 < free_pages s z \<Longrightarrow> \<exists>k. lists s z k \<noteq> []"
  by (rule ccontr) (simp add: free_pages_def)

interpretation ps: table_source "pmm_machine hhdm" pmm_supply for hhdm
proof
  fix a T n assume "pmm_supply a T (Suc n)"
  then obtain M A where a: "pmm_inv a M A" "M \<subseteq> {..<2 ^ 40}" "T \<subseteq> (\<lambda>b. of_nat (BLOCK_PADDR b)) ` A" "Suc n \<le> free_pages a ZONE_NORMAL"
    by (auto simp: pmm_supply_def)
  have z: "alloc_zone PMM_FLAG_ZERO = ZONE_NORMAL" by (simp add: alloc_zone_def PMM_FLAG_ZERO_def PMM_FLAG_ZONE_LOW_def)
  obtain k where k: "lists a ZONE_NORMAL k \<noteq> []" using free_pages_list[of a ZONE_NORMAL] a(4) by auto
  have o: "unat (0 :: u8) \<le> PMM_MAX_ORDER" "unat (0 :: u8) \<le> k" by simp_all
  from pmm_alloc_inv[OF a(1) o, of PMM_FLAG_ZERO, unfolded z, OF k]
  obtain a' b where b: "pmm_alloc 0 PMM_FLAG_ZERO a = Some (a', b)" "pmm_inv a' M (insert b A)" "b \<notin> A"
    "free_pages a' ZONE_NORMAL + 2 ^ unat (0 :: u8) = free_pages a ZONE_NORMAL" by (elim exE conjE) (rule that)
  have lt: "c < 2 ^ 40" if "c \<in> insert b A" for c using block_managed[OF b(2) that] a(2) by auto
  have "of_nat (BLOCK_PADDR b) \<noteq> (of_nat (BLOCK_PADDR c) :: u64)" if "c \<in> A" for c
  proof
    assume e: "of_nat (BLOCK_PADDR b) = (of_nat (BLOCK_PADDR c) :: u64)"
    have "b * 4096 = c * 4096" using paddr_unat[OF lt[of b]] paddr_unat[OF lt[of c]] that unfolding e by simp
    then show False using that b(3) by simp
  qed
  then have "of_nat (BLOCK_PADDR b) \<notin> T" using a(3) by auto
  moreover have "pmm_supply a' (insert (of_nat (BLOCK_PADDR b)) T) n" unfolding pmm_supply_def
    by (rule exI[of _ M], rule exI[of _ "insert b A"]) (use b a in auto)
  ultimately show "\<exists>a' f. (if m_earlymem_active (pmm_machine hhdm) then m_earlymem (pmm_machine hhdm) a else m_pmm (pmm_machine hhdm) a) = Some (a', f) \<and>
      frame f \<and> f \<notin> T \<and> pmm_supply a' (insert f T) n"
    using b(1) frame_paddr[OF lt[of b]] by (simp add: pmm_machine_def pmm_frames_def pmm_alloc_page_def)
next
  fix a T n assume "pmm_supply a T (Suc n)"
  then show "pmm_supply a T n" unfolding pmm_supply_def by (meson Suc_leD)
qed

text \<open>The invariant of the page tables together with that of the physical memory manager: \<open>n\<close> more pages can be had.\<close>

definition ptm_inv :: "u64 \<Rightarrow> (u64 \<Rightarrow> (nat \<times> nat) option) \<Rightarrow> pmm ptm \<Rightarrow> nat \<Rightarrow> bool" where
  "ptm_inv hhdm own s n \<longleftrightarrow> tables_ok (pmm_machine hhdm) own s \<and> pmm_supply (frames s) (dom own) n"

lemma ptm_inv_ok: "ptm_inv hhdm own s n \<longleftrightarrow> ps.ptm_ok hhdm own s n"
  by (simp add: ptm_inv_def ps.ptm_ok_def)

section \<open>Faults of big pages\<close>

lemma store_keeps_unmapped: "store_entry t i v s = Some s' \<Longrightarrow> kmem s a = None \<Longrightarrow> kmem s' a = None"
  by (auto simp: store_entry_def store_def split: option.splits if_splits)

lemma clear_keeps_unmapped: "clear_words t i n s = Some s' \<Longrightarrow> kmem s a = None \<Longrightarrow> kmem s' a = None"
  by (induction n arbitrary: i s) (auto split: bind_splits dest: store_keeps_unmapped)

lemma alloc_keeps_unmapped: "alloc_page m s = Some (s', f) \<Longrightarrow> kmem s a = None \<Longrightarrow> kmem s' a = None"
  by (auto simp: alloc_page_def split: bind_splits if_splits elim!: clear_keeps_unmapped)

lemma break_big_unmapped:
  assumes "\<And>f. frame f \<Longrightarrow> kmem s f = None"
  shows "break_big m table index level s = None"
proof -
  have upt: "[0..<512] = 0 # [Suc 0..<512]" by (rule upt_conv_Cons) simp
  have none: "store_all (e AND ENTRYL_ADDRESS_MASK) (map (\<lambda>k. (k * 4096, g k)) [0..<512]) s1 = None"
    if "alloc_page m s = Some (s1, page)" for s1 page e g
    using alloc_keeps_unmapped[OF that assms[OF frame_mask[of e]]]
    by (simp add: upt store_entry_def store_def entry_addr_def)
  show ?thesis
  proof (cases "alloc_page m s")
    case None
    then show ?thesis by (simp add: break_big_def Let_def Option.bind_eq_None_conv)
  next
    case (Some r)
    then show ?thesis using none[of "fst r" "snd r"] by (simp add: break_big_def Let_def Option.bind_eq_None_conv case_prod_beta)
  qed
qed

lemma physical_of_kernel_address:
  "page_address 1 (p OR ENTRY_FLAG_PRESENT) 0xFFFF800000000123 = Some (((p OR 1) AND ENTRYL_ADDRESS_MASK) + 0xFFF0000000000123)"
  by (simp add: page_address_def ENTRY_FLAG_PRESENT_def)

section \<open>Properties\<close>

text \<open>A kernel with eight free pages, one of which becomes the top table of an empty address space.\<close>

definition pmm_demo8 :: pmm where
  "pmm_demo8 = \<lparr>page_db = (\<lambda>p. \<lparr>blk_order = (if p = 4096 then 3 else 0), blk_max_order = 3, blk_free = True\<rparr>),
     zones = (\<lambda>z. \<lparr>zone_lists = (\<lambda>k. if z = ZONE_NORMAL \<and> k = 3 then [4096] else []), total_page_count = 8,
        free_page_count = (if z = ZONE_NORMAL then 8 else 0)\<rparr>), phys_mem = (\<lambda>_. 0)\<rparr>"

lemma eighth_4096: "q div 8 = 512 \<longleftrightarrow> q \<in> {4096..<(4104 :: nat)}"
  by auto

lemma pmm_demo8_inv: "pmm_inv pmm_demo8 {4096..<4104} {}"
proof -
  have hd: "heads pmm_demo8 {} = {4096}" by (auto simp: heads_def pmm_demo8_def split: if_splits)
  have "geo pmm_demo8 {4096..<4104}"
    unfolding geo_def
  proof (intro ballI allI impI)
    fix p q assume p: "p \<in> {4096..<4104}" and "q div 2 ^ max_ord pmm_demo8 p = p div 2 ^ max_ord pmm_demo8 p"
    then have "q \<in> {4096..<4104}" using eighth_4096[of p] eighth_4096[of q] by (simp add: pmm_demo8_def)
    then show "q \<in> {4096..<4104} \<and> max_ord pmm_demo8 q = max_ord pmm_demo8 p \<and> zone_of q = zone_of p"
      using p by (simp add: pmm_demo8_def zone_of_normal)
  qed
  moreover have "lists_ok pmm_demo8 {4096..<4104} {}"
    by (auto simp: lists_ok_def pmm_demo8_def zone_of_normal split: if_splits)
  moreover have "covers pmm_demo8 4096 q \<longleftrightarrow> q \<in> {4096..<4104}" for q
    by (auto simp: covers_def pmm_demo8_def)
  ultimately have "pmm_core pmm_demo8 {4096..<4104} {}"
    unfolding pmm_core_def hd by (auto simp: pmm_demo8_def)
  moreover have "coalesced pmm_demo8" by (auto simp: coalesced_def pmm_demo8_def split: if_splits)
  moreover have "counted pmm_demo8"
    by (auto simp: counted_def free_pages_def pmm_demo8_def PMM_MAX_ORDER_def numeral_eq_Suc sum.atMost_Suc split: if_splits)
  ultimately show ?thesis by (simp add: pmm_inv_def)
qed

definition ptm_demo :: "pmm \<Rightarrow> pmm ptm" where
  "ptm_demo a = \<lparr>kmem = (\<lambda>_. Some 0), frames = a\<rparr>"

lemma ptm_demo_physical: "arch_ptm_physical m pt w (ptm_demo a) = Some None"
  unfolding physical_translate by (subst translate_eq) (simp add: load_entry_def ptm_demo_def)

lemma ptm_demo_inv: "\<exists>a b. pmm_alloc 0 0 pmm_demo8 = Some (a, b) \<and>
    ptm_inv hhdm [of_nat (BLOCK_PADDR b) \<mapsto> (4, 0)] (ptm_demo a) 7"
proof -
  have z: "alloc_zone 0 = ZONE_NORMAL" "unat (0 :: u8) \<le> PMM_MAX_ORDER" "unat (0 :: u8) \<le> 3" "lists pmm_demo8 ZONE_NORMAL 3 \<noteq> []"
    "free_pages pmm_demo8 ZONE_NORMAL = 8"
    by (simp_all add: alloc_zone_def pmm_demo8_def free_pages_def PMM_MAX_ORDER_def numeral_eq_Suc sum.atMost_Suc)
  from pmm_alloc_inv[OF pmm_demo8_inv z(2,3), of 0, unfolded z(1), OF z(4)]
  obtain a b where ab: "pmm_alloc 0 0 pmm_demo8 = Some (a, b)" "pmm_inv a {4096..<4104} (insert b {})"
    "free_pages a ZONE_NORMAL + 2 ^ unat (0 :: u8) = free_pages pmm_demo8 ZONE_NORMAL" by (elim exE conjE) (rule that)
  have b: "b < 2 ^ 40" using block_managed[OF ab(2), of b] by simp
  have "pmm_supply a {of_nat (BLOCK_PADDR b)} 7" unfolding pmm_supply_def
    by (rule exI[of _ "{4096..<4104}"], rule exI[of _ "{b}"]) (use ab z(5) in auto)
  then show ?thesis using ab(1) frame_paddr[OF b]
    by (auto simp: ptm_inv_def tables_ok_def mapped_def ptm_demo_def load_entry_def entry_ok_def split: if_splits)
qed



text \<open>
  A big page cannot be split: while the low addresses are not mapped in the kernel, \<^verbatim>\<open>break_big\<close> always faults, because it writes the
  new table at its physical address and not through the direct map.
\<close>

theorem break_big_faults:
  assumes "\<And>f. frame f \<Longrightarrow> kmem s f = None"
  shows "break_big m table index level s = None"
  using assms by (rule break_big_unmapped)

theorem break_big_faults_witness:
  "break_big (pmm_machine 0xFFFF800000000000) 0xFFFF800001000000 3 2
    \<lparr>kmem = (\<lambda>a. if bit a 63 then Some 0x200083 else None), frames = pmm_demo8\<rparr> = None"
proof (rule break_big_faults)
  fix f :: u64 assume "frame f"
  then have "\<not> bit f 63" using bits_between[of 0 f 52 63] frame_unat(2)[of f] by auto
  then show "kmem \<lparr>kmem = (\<lambda>a. if bit a 63 then Some 0x200083 else None), frames = pmm_demo8\<rparr> f = None" by simp
qed

end
