(* ===== verification/Layout.thy ===== *)
theory Layout
  imports LibMem
begin

text \<open>
  Packed structures in memory: the offset of a field, its little endian value, and the strings that such structures point to.
\<close>

section \<open>Structures\<close>

text \<open>The fields of a \<^verbatim>\<open>gnu::packed\<close> structure in order, with their sizes.\<close>

type_synonym layout = "(string \<times> nat) list"

fun offsetof :: "layout \<Rightarrow> string \<Rightarrow> nat" where
  "offsetof [] f = 0"
| "offsetof ((g, n) # fs) f = (if g = f then 0 else n + offsetof fs f)"

definition sizeof :: "layout \<Rightarrow> nat" where
  "sizeof fs = sum_list (map snd fs)"

fun field_size :: "layout \<Rightarrow> string \<Rightarrow> nat" where
  "field_size [] f = 0"
| "field_size ((g, n) # fs) f = (if g = f then n else field_size fs f)"

fun le_bytes :: "memory \<Rightarrow> nat \<Rightarrow> nat \<Rightarrow> nat" where
  "le_bytes m a 0 = 0"
| "le_bytes m a (Suc n) = unat (m a) + 256 * le_bytes m (a + 1) n"

lemma le_bytes_numeral [simp]: "le_bytes m a (numeral k) = unat (m a) + 256 * le_bytes m (a + 1) (pred_numeral k)"
  by (simp add: numeral_eq_Suc)

text \<open>The field \<open>f\<close> of the structure \<open>L\<close> at address \<open>a\<close>, widened to 64 bits.\<close>

definition read_field :: "memory \<Rightarrow> layout \<Rightarrow> u64 \<Rightarrow> string \<Rightarrow> u64" where
  "read_field m L a f = of_nat (le_bytes m (unat a + offsetof L f) (field_size L f))"

lemma le_bytes_less: "le_bytes m a n < 256 ^ n"
proof (induction n arbitrary: a)
  case (Suc n)
  have "unat (m a) < 256" using unsigned_less[of "m a", where 'a = nat] by simp
  moreover have "le_bytes m (a + 1) n + 1 \<le> 256 ^ n" using Suc.IH[of "a + 1"] by simp
  then have "256 * (le_bytes m (a + 1) n + 1) \<le> 256 * 256 ^ n" by (rule mult_le_mono2)
  ultimately show ?case by simp
qed simp

lemma unat_read_field:
  assumes "field_size L f \<le> 8"
  shows "unat (read_field m L a f) = le_bytes m (unat a + offsetof L f) (field_size L f)"
proof -
  have "le_bytes m (unat a + offsetof L f) (field_size L f) < 256 ^ field_size L f" by (rule le_bytes_less)
  also have "(256 :: nat) ^ field_size L f \<le> 256 ^ 8" by (rule power_increasing) (use assms in auto)
  finally show ?thesis unfolding read_field_def by (simp add: unat_of_nat)
qed

section \<open>Strings\<close>

text \<open>\<^verbatim>\<open>string_eq\<close> of a string and the terminated bytes at an address.\<close>

fun str_at :: "memory \<Rightarrow> nat \<Rightarrow> string \<Rightarrow> bool" where
  "str_at m a [] \<longleftrightarrow> m a = 0"
| "str_at m a (c # cs) \<longleftrightarrow> m a = of_char c \<and> str_at m (a + 1) cs"

partial_function (option) string_at :: "memory \<Rightarrow> nat \<Rightarrow> string option" where
  "string_at m a = (if m a = 0 then Some [] else do { cs \<leftarrow> string_at m (a + 1); Some (char_of (unat (m a)) # cs) })"

text \<open>\<open>str_at\<close> is what the loop of \<^verbatim>\<open>string_eq\<close> computes when the first string is \<open>cs\<close>.\<close>

lemma string_cmp_loop_str_at:
  assumes "\<forall>i < length cs. m (p + i) = of_char (cs ! i)" "(0 :: u8) \<notin> of_char ` set cs" "m (p + length cs) = 0" "j \<le> length cs"
  shows "\<exists>c. string_cmp_loop m p q j = Some c \<and> (c = 0 \<longleftrightarrow> str_at m (q + j) (drop j cs))"
  using assms(4)
proof (induction "length cs - j" arbitrary: j)
  case 0
  then have "j = length cs" by simp
  then show ?case using assms(3) by (subst string_cmp_loop.simps) auto
next
  case (Suc k)
  have j: "j < length cs" "k = length cs - Suc j" using Suc.hyps(2) by linarith+
  have d: "drop j cs = cs ! j # drop (Suc j) cs" using j(1) by (simp add: Cons_nth_drop_Suc)
  have c: "m (p + j) = of_char (cs ! j)" "m (p + j) \<noteq> 0" using assms(1,2) j(1) by (auto simp: image_iff)
  have IH: "\<exists>c. string_cmp_loop m p q (Suc j) = Some c \<and> (c = 0 \<longleftrightarrow> str_at m (q + Suc j) (drop (Suc j) cs))"
    using Suc.hyps(1)[OF j(2)] j(1) by simp
  show ?case
  proof (cases "m (p + j) = m (q + j)")
    case True
    then have "string_cmp_loop m p q j = string_cmp_loop m p q (Suc j)" using c(2) by (subst string_cmp_loop.simps) simp
    then show ?thesis using IH True c(1) by (simp add: d)
  next
    case False
    then have "\<not> str_at m (q + j) (drop j cs)" using c(1) by (simp add: d)
    then show ?thesis using False by (subst string_cmp_loop.simps) simp
  qed
qed

lemma string_eq_str_at:
  assumes "\<forall>i < length cs. m (p + i) = of_char (cs ! i)" "(0 :: u8) \<notin> of_char ` set cs" "m (p + length cs) = 0"
  shows "LibMem.string_eq m p q = Some (str_at m q cs)"
  using string_cmp_loop_str_at[OF assms, of 0 q] by (auto simp: string_eq_def string_cmp_def)

end
