(* ===== verification/Pci.thy ===== *)
theory Pci
  imports LibList Layout
begin

text \<open>
  The bus of devices (\<^verbatim>\<open>dev/pci.c\<close>): access to the configuration space through ports and through memory, enumeration of the
  devices, and the base address registers.

  The devices themselves are a parameter, the record \<open>pci_hw\<close>: what a configuration register returns, and what a write does to it.
  The write of the address port and the access to the data port are one access. Device objects are named by numbers;
  \<open>devs\<close> holds those that are allocated.
\<close>

unbundle bit_operations_syntax

section \<open>Layout of the configuration space\<close>

definition pci_device_header_t :: layout where
  "pci_device_header_t = [(''vendor_id'', 2), (''device_id'', 2), (''command'', 2), (''status'', 2), (''revision_id'', 1), (''program_interface'', 1),
     (''sub_class'', 1), (''class'', 1), (''cache_line_size'', 1), (''latency_timer'', 1), (''header_type'', 1), (''bist'', 1)]"

definition pci_header0_t :: layout where
  "pci_header0_t = [(''device_header'', sizeof pci_device_header_t), (''bar0'', 4), (''bar1'', 4), (''bar2'', 4), (''bar3'', 4), (''bar4'', 4), (''bar5'', 4),
     (''cardbus_cis_pointer'', 4), (''subsystem_vendor_id'', 2), (''subsystem_id'', 2), (''expansion_rom_base_address'', 4), (''capabilities_pointer'', 1),
     (''rsv0'', 1), (''rsv1'', 2), (''rsv2'', 4), (''interrupt_line'', 1), (''interrupt_pin'', 1), (''min_grant'', 1), (''max_latency'', 1)]"

definition pci_header1_t :: layout where
  "pci_header1_t = [(''device_header'', sizeof pci_device_header_t), (''bar0'', 4), (''bar1'', 4), (''primary_bus'', 1), (''secondary_bus'', 1),
     (''subordinate_bus'', 1), (''secondary_latency_timer'', 1), (''io_base_lower'', 1), (''io_limit_lower'', 1), (''secondary_status'', 2),
     (''memory_base_lower'', 2), (''memory_limit_lower'', 2), (''prefetchable_memory_base'', 2), (''prefetchable_memory_limit'', 2),
     (''prefetchable_memory_base_upper'', 4), (''prefetchable_memory_limit_upper'', 4), (''io_base_upper'', 2), (''io_limit_upper'', 2),
     (''capability_pointer'', 1), (''rsv0'', 1), (''rsv1'', 2), (''expansion_rom_base'', 4), (''interrupt_line'', 1), (''interrupt_pin'', 1),
     (''bridge_control'', 2)]"

definition VENDOR_INVALID :: u16 where "VENDOR_INVALID = 0xFFFF"
definition HEADER_TYPE_MULTIFUNC :: u16 where "HEADER_TYPE_MULTIFUNC = 0x80"

section \<open>Devices\<close>

record pcie_segment =
  seg_base_address :: u64
  segment_group_number :: u16
  start_bus_number :: u8
  end_bus_number :: u8

record pci_device =
  d_segment :: u16
  d_bus :: u8
  d_slot :: u8
  d_func :: u8
  config_space :: u64

record pci_bar =
  bar_address :: u64
  bar_size :: u32
  bar_iospace :: bool

record 'h pci_hw =
  cfg_in :: "u32 \<Rightarrow> 'h \<Rightarrow> u32"
  cfg_out :: "u32 \<Rightarrow> u32 \<Rightarrow> 'h \<Rightarrow> 'h"
  mmio_read :: "nat \<Rightarrow> u64 \<Rightarrow> 'h \<Rightarrow> u32"
  mmio_write :: "nat \<Rightarrow> u64 \<Rightarrow> u32 \<Rightarrow> 'h \<Rightarrow> 'h"
  mmio_map :: "u64 \<Rightarrow> u64"

text \<open>The four function pointers \<^verbatim>\<open>g_create_device\<close>, \<^verbatim>\<open>g_free_device\<close>, \<^verbatim>\<open>g_read\<close> and \<^verbatim>\<open>g_write\<close> are always chosen together.\<close>

datatype pci_access = Ports | Mmio "pcie_segment list"

record 'h pci =
  hw :: 'h
  devs :: "nat \<Rightarrow> pci_device option"
  next_dev :: nat
  g_pci_devices :: "nat list"

section \<open>Access to the configuration space\<close>

definition pcie_offset :: "pcie_segment \<Rightarrow> u8 \<Rightarrow> u8 \<Rightarrow> u8 \<Rightarrow> u32" where
  "pcie_offset sg bus slot func = push_bit 20 (ucast bus - ucast (start_bus_number sg)) OR push_bit 15 (ucast (slot AND 0x1F)) OR push_bit 12 (ucast (func AND 0x7))"

definition pcie_create_device :: "'h pci_hw \<Rightarrow> pcie_segment list \<Rightarrow> u16 \<Rightarrow> u8 \<Rightarrow> u8 \<Rightarrow> u8 \<Rightarrow> pci_device option" where
  "pcie_create_device io segs segment bus slot func =
    (if unat segment < length segs then
       (let sg = segs ! unat segment in
        Some \<lparr>d_segment = segment, d_bus = bus, d_slot = slot, d_func = func,
          config_space = mmio_map io (seg_base_address sg + ucast (pcie_offset sg bus slot func))\<rparr>)
     else None)"

definition pci_create_device :: "u16 \<Rightarrow> u8 \<Rightarrow> u8 \<Rightarrow> u8 \<Rightarrow> pci_device" where
  "pci_create_device segment bus slot func = \<lparr>d_segment = segment, d_bus = bus, d_slot = slot, d_func = func, config_space = 0\<rparr>"

definition g_create_device :: "'h pci_hw \<Rightarrow> pci_access \<Rightarrow> u16 \<Rightarrow> u8 \<Rightarrow> u8 \<Rightarrow> u8 \<Rightarrow> 'h pci \<Rightarrow> ('h pci \<times> nat) option" where
  "g_create_device io acc segment bus slot func s = do {
     d \<leftarrow> (case acc of Ports \<Rightarrow> Some (pci_create_device segment bus slot func) | Mmio segs \<Rightarrow> pcie_create_device io segs segment bus slot func);
     let n = next_dev s;
     Some (s\<lparr>devs := (devs s)(n \<mapsto> d), next_dev := n + 1\<rparr>, n)
   }"

definition g_free_device :: "nat \<Rightarrow> 'h pci \<Rightarrow> 'h pci option" where
  "g_free_device n s = (if devs s n = None then None else Some (s\<lparr>devs := (devs s)(n := None)\<rparr>))"

definition register_offset :: "pci_device \<Rightarrow> u8 \<Rightarrow> u32" where
  "register_offset d offset = (ucast offset AND 0xFC) OR 0x80000000 OR push_bit 16 (ucast (d_bus d)) OR
     push_bit 11 (ucast (d_slot d AND 0x1F)) OR push_bit 8 (ucast (d_func d AND 0x7))"

definition pci_read :: "'h pci_hw \<Rightarrow> pci_device \<Rightarrow> u8 \<Rightarrow> nat \<Rightarrow> 'h \<Rightarrow> u32 option" where
  "pci_read io d offset size' h =
    (let value = cfg_in io (register_offset d offset) h in
     if size' = 4 then Some value
     else if size' = 2 then Some (ucast (ucast (drop_bit (unat (offset AND 2) * 8) value) :: u16))
     else if size' = 1 then Some (ucast (ucast (drop_bit (unat (offset AND 3) * 8) value) :: u8))
     else None)"

definition pci_write :: "'h pci_hw \<Rightarrow> pci_device \<Rightarrow> u8 \<Rightarrow> nat \<Rightarrow> u32 \<Rightarrow> 'h \<Rightarrow> 'h option" where
  "pci_write io d offset size' value h = do {
     original \<leftarrow> pci_read io d offset size' h;
     original \<leftarrow>
       (if size' = 4 then Some value
        else if size' = 2 then
          (let n = unat (offset AND 2) * 8 in Some ((original AND NOT (drop_bit n 0xFFFF)) OR drop_bit n (ucast (ucast value :: u16))))
        else if size' = 1 then
          (let n = unat (offset AND 3) * 8 in Some ((original AND NOT (drop_bit n 0xFF)) OR drop_bit n (ucast (ucast value :: u8))))
        else None);
     Some (cfg_out io (register_offset d offset) original h)
   }"

definition pcie_read :: "'h pci_hw \<Rightarrow> pci_device \<Rightarrow> u8 \<Rightarrow> nat \<Rightarrow> 'h \<Rightarrow> u32 option" where
  "pcie_read io d offset size' h =
    (if size' = 4 \<or> size' = 2 \<or> size' = 1 then Some (mmio_read io size' (config_space d + ucast offset) h) else None)"

definition pcie_write :: "'h pci_hw \<Rightarrow> pci_device \<Rightarrow> u8 \<Rightarrow> nat \<Rightarrow> u32 \<Rightarrow> 'h \<Rightarrow> 'h option" where
  "pcie_write io d offset size' value h =
    (if size' = 4 \<or> size' = 2 \<or> size' = 1 then Some (mmio_write io size' (config_space d + ucast offset) value h) else None)"

definition g_read :: "'h pci_hw \<Rightarrow> pci_access \<Rightarrow> pci_device \<Rightarrow> u8 \<Rightarrow> nat \<Rightarrow> 'h \<Rightarrow> u32 option" where
  "g_read io acc = (case acc of Ports \<Rightarrow> pci_read io | Mmio _ \<Rightarrow> pcie_read io)"

definition g_write :: "'h pci_hw \<Rightarrow> pci_access \<Rightarrow> pci_device \<Rightarrow> u8 \<Rightarrow> nat \<Rightarrow> u32 \<Rightarrow> 'h \<Rightarrow> 'h option" where
  "g_write io acc = (case acc of Ports \<Rightarrow> pci_write io | Mmio _ \<Rightarrow> pcie_write io)"

definition readd :: "'h pci_hw \<Rightarrow> pci_access \<Rightarrow> pci_device \<Rightarrow> u8 \<Rightarrow> 'h \<Rightarrow> u32 option" where
  "readd io acc d offset h = g_read io acc d offset 4 h"

definition readw :: "'h pci_hw \<Rightarrow> pci_access \<Rightarrow> pci_device \<Rightarrow> u8 \<Rightarrow> 'h \<Rightarrow> u16 option" where
  "readw io acc d offset h = map_option ucast (g_read io acc d offset 2 h)"

text \<open>\<^verbatim>\<open>readb\<close> casts to eight bits and returns sixteen.\<close>

definition readb :: "'h pci_hw \<Rightarrow> pci_access \<Rightarrow> pci_device \<Rightarrow> u8 \<Rightarrow> 'h \<Rightarrow> u16 option" where
  "readb io acc d offset h = map_option (\<lambda>v. ucast (ucast v :: u8)) (g_read io acc d offset 1 h)"

definition writed :: "'h pci_hw \<Rightarrow> pci_access \<Rightarrow> pci_device \<Rightarrow> u8 \<Rightarrow> u32 \<Rightarrow> 'h \<Rightarrow> 'h option" where
  "writed io acc d offset value h = g_write io acc d offset 4 value h"

definition writew :: "'h pci_hw \<Rightarrow> pci_access \<Rightarrow> pci_device \<Rightarrow> u8 \<Rightarrow> u16 \<Rightarrow> 'h \<Rightarrow> 'h option" where
  "writew io acc d offset value h = g_write io acc d offset 2 (ucast value) h"

definition writeb :: "'h pci_hw \<Rightarrow> pci_access \<Rightarrow> pci_device \<Rightarrow> u8 \<Rightarrow> u8 \<Rightarrow> 'h \<Rightarrow> 'h option" where
  "writeb io acc d offset value h = g_write io acc d offset 1 (ucast value) h"

section \<open>Enumeration\<close>

definition read_word :: "'h pci_hw \<Rightarrow> pci_access \<Rightarrow> nat \<Rightarrow> nat \<Rightarrow> 'h pci \<Rightarrow> u16 option" where
  "read_word io acc n offset s = do { d \<leftarrow> devs s n; readw io acc d (of_nat offset) (hw s) }"

definition read_byte :: "'h pci_hw \<Rightarrow> pci_access \<Rightarrow> nat \<Rightarrow> nat \<Rightarrow> 'h pci \<Rightarrow> u16 option" where
  "read_byte io acc n offset s = do { d \<leftarrow> devs s n; readb io acc d (of_nat offset) (hw s) }"

text \<open>
  \<^verbatim>\<open>enumerate_bus\<close> and \<^verbatim>\<open>enumerate_function\<close> call each other. A call, and the two loops of \<^verbatim>\<open>enumerate_bus\<close> at a place of their
  counters, are the cases of one recursion; a recursion that does not end is \<open>None\<close>.
\<close>

datatype pci_task = EnumBus u8 nat | EnumFuncs u8 nat nat nat | EnumFunction u8 nat nat

partial_function (option) enumerate :: "'h pci_hw \<Rightarrow> pci_access \<Rightarrow> u16 \<Rightarrow> pci_task \<Rightarrow> 'h pci \<Rightarrow> 'h pci option" where
  "enumerate io acc segment t s = (case t of
     EnumBus bus slot \<Rightarrow>
       (if slot < 32 then do {
          (s, device) \<leftarrow> g_create_device io acc segment bus (of_nat slot) 0 s;
          vendor_id \<leftarrow> read_word io acc device (offsetof pci_device_header_t ''vendor_id'') s;
          if vendor_id = VENDOR_INVALID then enumerate io acc segment (EnumBus bus (slot + 1)) s
          else do {
            s \<leftarrow> enumerate io acc segment (EnumFuncs bus slot device 0) s;
            s \<leftarrow> g_free_device device s;
            enumerate io acc segment (EnumBus bus (slot + 1)) s
          }
        } else Some s)
   | EnumFuncs bus slot device func \<Rightarrow> do {
       header_type \<leftarrow> read_byte io acc device (offsetof pci_device_header_t ''header_type'') s;
       if func < (if header_type AND HEADER_TYPE_MULTIFUNC \<noteq> 0 then 8 else 1) then do {
         s \<leftarrow> enumerate io acc segment (EnumFunction bus slot func) s;
         enumerate io acc segment (EnumFuncs bus slot device (func + 1)) s
       } else Some s
     }
   | EnumFunction bus slot func \<Rightarrow> do {
       (s, device) \<leftarrow> g_create_device io acc segment bus (of_nat slot) (of_nat func) s;
       vendor_id \<leftarrow> read_word io acc device (offsetof pci_device_header_t ''vendor_id'') s;
       if vendor_id = VENDOR_INVALID then g_free_device device s
       else do {
         devices \<leftarrow> seq_push (g_pci_devices s) device;
         let s = s\<lparr>g_pci_devices := devices\<rparr>;
         class' \<leftarrow> read_byte io acc device (offsetof pci_device_header_t ''class'') s;
         sub_class \<leftarrow> read_byte io acc device (offsetof pci_device_header_t ''sub_class'') s;
         if class' = 0x6 \<and> sub_class = 0x4 then do {
           secondary_bus \<leftarrow> read_byte io acc device (offsetof pci_header1_t ''secondary_bus'') s;
           enumerate io acc segment (EnumBus (ucast (drop_bit 8 secondary_bus)) 0) s
         } else Some s
       }
     })"

definition enumerate_bus :: "'h pci_hw \<Rightarrow> pci_access \<Rightarrow> u16 \<Rightarrow> u8 \<Rightarrow> 'h pci \<Rightarrow> 'h pci option" where
  "enumerate_bus io acc segment bus s = enumerate io acc segment (EnumBus bus 0) s"

text \<open>
  The controllers of a segment. The temporary device has no configuration space of its own: with memory access the pointer is taken from behind
  the object, \<open>None\<close>.
\<close>

fun enumerate_controllers :: "'h pci_hw \<Rightarrow> pci_access \<Rightarrow> u16 \<Rightarrow> nat list \<Rightarrow> 'h pci \<Rightarrow> 'h pci option" where
  "enumerate_controllers io acc segment [] s = Some s"
| "enumerate_controllers io acc segment (func # fs) s = do {
     ASSERT (acc = Ports);
     vendor_id \<leftarrow> readw io acc (pci_create_device segment 0 0 (of_nat func)) (of_nat (offsetof pci_device_header_t ''vendor_id'')) (hw s);
     if vendor_id = VENDOR_INVALID then Some s
     else do { s \<leftarrow> enumerate_bus io acc segment (of_nat func) s; enumerate_controllers io acc segment fs s }
   }"

definition enumerate_segment :: "'h pci_hw \<Rightarrow> pci_access \<Rightarrow> u16 \<Rightarrow> 'h pci \<Rightarrow> 'h pci option" where
  "enumerate_segment io acc segment s = do {
     (s, root_controller) \<leftarrow> g_create_device io acc segment 0 0 0 s;
     header_type \<leftarrow> read_byte io acc root_controller (offsetof pci_device_header_t ''header_type'') s;
     s \<leftarrow> (if header_type AND HEADER_TYPE_MULTIFUNC \<noteq> 0 then enumerate_controllers io acc segment [0..<8] s
           else enumerate_bus io acc segment 0 s);
     g_free_device root_controller s
   }"

text \<open>
  The initialisation target: \<open>mcfg\<close> is the table of the segments when the firmware has one. The loop fills \<^verbatim>\<open>g_segments\<close> and enumerates
  one segment after the other.
\<close>

fun enumerate_segments :: "'h pci_hw \<Rightarrow> pcie_segment list \<Rightarrow> nat list \<Rightarrow> 'h pci \<Rightarrow> 'h pci option" where
  "enumerate_segments io mcfg [] s = Some s"
| "enumerate_segments io mcfg (i # is) s = do {
     s \<leftarrow> enumerate_segment io (Mmio (take (i + 1) mcfg)) (of_nat i) s;
     enumerate_segments io mcfg is s
   }"

definition pci_enumerate :: "'h pci_hw \<Rightarrow> pcie_segment list option \<Rightarrow> 'h pci \<Rightarrow> 'h pci option" where
  "pci_enumerate io mcfg s = (case mcfg of
     Some segs \<Rightarrow> enumerate_segments io segs [0..<length segs] s
   | None \<Rightarrow> enumerate_segment io Ports 0 s)"

section \<open>Registers\<close>

definition pci_config_read_byte :: "'h pci_hw \<Rightarrow> pci_access \<Rightarrow> pci_device \<Rightarrow> u8 \<Rightarrow> 'h \<Rightarrow> u8 option" where
  "pci_config_read_byte io acc d offset h = map_option ucast (readb io acc d offset h)"

definition pci_config_read_word :: "'h pci_hw \<Rightarrow> pci_access \<Rightarrow> pci_device \<Rightarrow> u8 \<Rightarrow> 'h \<Rightarrow> u16 option" where
  "pci_config_read_word io acc d offset h = readw io acc d offset h"

definition pci_config_read_double :: "'h pci_hw \<Rightarrow> pci_access \<Rightarrow> pci_device \<Rightarrow> u8 \<Rightarrow> 'h \<Rightarrow> u32 option" where
  "pci_config_read_double io acc d offset h = readd io acc d offset h"

definition pci_config_write_byte :: "'h pci_hw \<Rightarrow> pci_access \<Rightarrow> pci_device \<Rightarrow> u8 \<Rightarrow> u8 \<Rightarrow> 'h \<Rightarrow> 'h option" where
  "pci_config_write_byte io acc d offset data h = writeb io acc d offset data h"

definition pci_config_write_word :: "'h pci_hw \<Rightarrow> pci_access \<Rightarrow> pci_device \<Rightarrow> u8 \<Rightarrow> u16 \<Rightarrow> 'h \<Rightarrow> 'h option" where
  "pci_config_write_word io acc d offset data h = writew io acc d offset data h"

definition pci_config_write_double :: "'h pci_hw \<Rightarrow> pci_access \<Rightarrow> pci_device \<Rightarrow> u8 \<Rightarrow> u32 \<Rightarrow> 'h \<Rightarrow> 'h option" where
  "pci_config_write_double io acc d offset data h = writed io acc d offset data h"

text \<open>\<open>Some (h, None)\<close> is the null pointer: an index above 5 or a reserved type.\<close>

definition pci_config_read_bar :: "'h pci_hw \<Rightarrow> pci_access \<Rightarrow> pci_device \<Rightarrow> u8 \<Rightarrow> 'h \<Rightarrow> ('h \<times> pci_bar option) option" where
  "pci_config_read_bar io acc d index h =
    (if index > 5 then Some (h, None)
     else do {
       let offset = of_nat (sizeof pci_device_header_t) + index * 4;
       bar \<leftarrow> pci_config_read_double io acc d offset h;
       h \<leftarrow> pci_config_write_double io acc d offset (NOT 0) h;
       size' \<leftarrow> pci_config_read_double io acc d offset h;
       h \<leftarrow> pci_config_write_double io acc d offset bar h;
       if bar AND 1 \<noteq> 0 then
         Some (h, Some \<lparr>bar_address = ucast (bar AND NOT 3), bar_size = NOT (size' AND NOT 3) + 1, bar_iospace = True\<rparr>)
       else do {
         let new_bar = \<lparr>bar_address = ucast (bar AND NOT 15), bar_size = NOT (size' AND NOT 15) + 1, bar_iospace = False\<rparr>;
         let type' = drop_bit 1 bar AND 3;
         if type' = 0 then Some (h, Some new_bar)
         else if type' = 2 then do {
           high \<leftarrow> pci_config_read_double io acc d (offset + 4) h;
           Some (h, Some (new_bar\<lparr>bar_address := bar_address new_bar OR push_bit 32 (ucast high)\<rparr>))
         }
         else Some (h, None)
       }
     })"

end
