(* ===== verification/PciSpec.thy ===== *)
theory PciSpec
  imports Pci
begin

text \<open>
  Without bridges the enumeration of a bus finds exactly the functions that answer, in order. The number of the bus behind a bridge
  is always computed as 0, so a bridge on bus 0 makes the enumeration recurse for ever. Sub-word writes through the ports do not
  reach the addressed bytes. The base address registers are sized and restored.
\<close>

section \<open>What the devices answer\<close>

definition usable :: "pci_access \<Rightarrow> u16 \<Rightarrow> bool" where
  "usable acc segment = (case acc of Ports \<Rightarrow> True | Mmio segs \<Rightarrow> unat segment < length segs)"

definition dev_at :: "'h pci_hw \<Rightarrow> pci_access \<Rightarrow> u16 \<Rightarrow> u8 \<Rightarrow> nat \<Rightarrow> nat \<Rightarrow> pci_device" where
  "dev_at io acc segment bus slot func = (case acc of Ports \<Rightarrow> pci_create_device segment bus (of_nat slot) (of_nat func)
     | Mmio segs \<Rightarrow> the (pcie_create_device io segs segment bus (of_nat slot) (of_nat func)))"

definition vendor_at :: "'h pci_hw \<Rightarrow> pci_access \<Rightarrow> u16 \<Rightarrow> 'h \<Rightarrow> u8 \<Rightarrow> nat \<Rightarrow> nat \<Rightarrow> u16" where
  "vendor_at io acc segment h bus slot func = the (readw io acc (dev_at io acc segment bus slot func) 0 h)"

definition byte_at :: "'h pci_hw \<Rightarrow> pci_access \<Rightarrow> u16 \<Rightarrow> 'h \<Rightarrow> u8 \<Rightarrow> nat \<Rightarrow> nat \<Rightarrow> nat \<Rightarrow> u16" where
  "byte_at io acc segment h bus slot func offset = the (readb io acc (dev_at io acc segment bus slot func) (of_nat offset) h)"

definition is_bridge :: "'h pci_hw \<Rightarrow> pci_access \<Rightarrow> u16 \<Rightarrow> 'h \<Rightarrow> u8 \<Rightarrow> nat \<Rightarrow> nat \<Rightarrow> bool" where
  "is_bridge io acc segment h bus slot func \<longleftrightarrow> vendor_at io acc segment h bus slot func \<noteq> VENDOR_INVALID \<and>
     byte_at io acc segment h bus slot func 11 = 6 \<and> byte_at io acc segment h bus slot func 10 = 4"

lemma pci_offsets [simp]:
  "offsetof pci_device_header_t ''vendor_id'' = 0" "offsetof pci_device_header_t ''class'' = 11" "offsetof pci_device_header_t ''sub_class'' = 10"
  "offsetof pci_device_header_t ''header_type'' = 14" "sizeof pci_device_header_t = 16"
  by (simp_all add: pci_device_header_t_def sizeof_def)

lemma create_eq:
  assumes "usable acc segment"
  shows "g_create_device io acc segment bus (of_nat slot) (of_nat func) s =
    Some (s\<lparr>devs := (devs s)(next_dev s \<mapsto> dev_at io acc segment bus slot func), next_dev := Suc (next_dev s)\<rparr>, next_dev s)"
  using assms by (auto simp: g_create_device_def dev_at_def usable_def pcie_create_device_def Let_def split: pci_access.splits)

lemma create_eq_0: "usable acc segment \<Longrightarrow> g_create_device io acc segment bus (of_nat slot) 0 s =
    Some (s\<lparr>devs := (devs s)(next_dev s \<mapsto> dev_at io acc segment bus slot 0), next_dev := Suc (next_dev s)\<rparr>, next_dev s)"
  using create_eq[of acc segment io bus slot 0 s] by simp

lemma reads_total: "\<exists>v. readw io acc d off h = Some v" "\<exists>v. readb io acc d off h = Some v"
  by (auto simp: readw_def readb_def g_read_def pci_read_def pcie_read_def Let_def split: pci_access.splits)

lemma read_word_at [simp]: "devs s n = Some (dev_at io acc segment bus slot func) \<Longrightarrow>
    read_word io acc n 0 s = Some (vendor_at io acc segment (hw s) bus slot func)"
  using reads_total(1)[of io acc "dev_at io acc segment bus slot func" 0 "hw s"] by (auto simp: read_word_def vendor_at_def)

lemma read_byte_at [simp]: "devs s n = Some (dev_at io acc segment bus slot func) \<Longrightarrow>
    read_byte io acc n off s = Some (byte_at io acc segment (hw s) bus slot func off)"
  using reads_total(2)[of io acc "dev_at io acc segment bus slot func" "of_nat off" "hw s"] by (auto simp: read_byte_def byte_at_def)

lemma byte_high: "read_byte io acc n off s = Some v \<Longrightarrow> drop_bit 8 v = 0"
proof -
  assume "read_byte io acc n off s = Some v"
  then obtain w :: u8 where "v = ucast w" by (auto simp: read_byte_def readb_def split: bind_splits)
  then have "unat v < 2 ^ 8" using unsigned_less[of w, where 'a = nat] by (simp add: unsigned_ucast_eq le_less_trans[OF take_bit_nat_less_eq_self])
  then have "unat (drop_bit 8 v) = 0" unfolding unat_drop_bit_eq unfolding drop_bit_eq_div by simp
  then show ?thesis by (simp add: unat_eq_0)
qed

lemma byte_at_high: "drop_bit 8 (byte_at io acc segment h bus slot func off) = 0"
  using byte_high[OF read_byte_at[of "\<lparr>hw = h, devs = (\<lambda>_. Some (dev_at io acc segment bus slot func)), next_dev = 0, g_pci_devices = []\<rparr>" 0]] by simp

section \<open>Bridges\<close>

lemma hw_simps: "g_create_device io acc segment bus slot func s = Some (s', n) \<Longrightarrow> hw s' = hw s"
  "g_free_device n s = Some s' \<Longrightarrow> hw s' = hw s"
  by (auto simp: g_create_device_def g_free_device_def Let_def split: bind_splits if_splits)

lemma enumerate_hw: "enumerate io acc segment t s = Some s' \<Longrightarrow> hw s' = hw s"
proof (induction io acc segment t s s' rule: enumerate.raw_induct[rotated, consumes 1])
  case (1 enumerate io acc segment t s s')
  note IH = 1(1) and b = 1(2)
  show ?case
  proof (cases t)
    case (EnumBus bus slot)
    then show ?thesis using b by (auto split: if_splits bind_splits dest!: IH hw_simps)
  next
    case (EnumFuncs bus slot device func)
    then show ?thesis using b by (auto split: if_splits bind_splits dest!: IH hw_simps)
  next
    case (EnumFunction bus slot func)
    then show ?thesis using b by (auto simp: Let_def split: if_splits bind_splits dest!: IH hw_simps)
  qed
qed

text \<open>A call that leads to the bridge leads to the enumeration of bus 0, and so to itself.\<close>

definition reaches :: "nat \<Rightarrow> pci_task \<Rightarrow> bool" where
  "reaches slot0 t = (case t of EnumBus b n \<Rightarrow> b = 0 \<and> n \<le> slot0 | EnumFuncs b n d f \<Rightarrow> b = 0 \<and> n = slot0 \<and> f = 0
     | EnumFunction b n f \<Rightarrow> b = 0 \<and> n = slot0 \<and> f = 0)"

lemma enumerate_diverges:
  assumes "slot0 < 32"
  shows "enumerate io acc segment t s = Some s' \<Longrightarrow> usable acc segment \<Longrightarrow> is_bridge io acc segment (hw s) 0 slot0 0 \<Longrightarrow>
    hw s' = hw s \<and> \<not> reaches slot0 t"
proof (induction io acc segment t s s' rule: enumerate.raw_induct[rotated, consumes 1])
  case (1 enumerate io acc segment t s s')
  note b = 1(2) and us = 1(3) and br = 1(4)
  have IH: "hw x = hw s \<and> \<not> reaches slot0 u" if "enumerate io acc segment u y = Some x" "hw y = hw s" for u x y
    using 1(1)[OF that(1) us] br that(2) by simp
  have bv: "vendor_at io acc segment (hw s) 0 slot0 0 \<noteq> VENDOR_INVALID" "byte_at io acc segment (hw s) 0 slot0 0 11 = 6"
    "byte_at io acc segment (hw s) 0 slot0 0 10 = 4" using br by (auto simp: is_bridge_def)
  show ?case
  proof (cases t)
    case (EnumBus bus n)
    let ?s = "s\<lparr>devs := (devs s)(next_dev s \<mapsto> dev_at io acc segment bus n 0), next_dev := Suc (next_dev s)\<rparr>"
    show ?thesis
    proof (cases "n < 32")
      case False
      then show ?thesis using b EnumBus assms by (auto simp: reaches_def)
    next
      case True
      show ?thesis
      proof (cases "vendor_at io acc segment (hw s) bus n 0 = VENDOR_INVALID")
        case inv: True
        then have "enumerate io acc segment (EnumBus bus (n + 1)) ?s = Some s'" using b EnumBus True by (simp add: create_eq_0[OF us])
        from IH[OF this] have r: "hw s' = hw s" "\<not> reaches slot0 (EnumBus bus (n + 1))" by auto
        have "bus = 0 \<longrightarrow> n \<noteq> slot0" using inv bv(1) by blast
        moreover have "bus = 0 \<longrightarrow> \<not> n + 1 \<le> slot0" using r(2) by (simp add: reaches_def)
        ultimately have "\<not> (bus = 0 \<and> n \<le> slot0)" by linarith
        then show ?thesis using r(1) EnumBus by (simp add: reaches_def)
      next
        case valid: False
        then obtain s1 s2 where s1: "enumerate io acc segment (EnumFuncs bus n (next_dev s) 0) ?s = Some s1" "g_free_device (next_dev s) s1 = Some s2"
          "enumerate io acc segment (EnumBus bus (n + 1)) s2 = Some s'"
          using b EnumBus True by (auto simp: create_eq_0[OF us] split: bind_splits)
        have r1: "hw s1 = hw s" "\<not> reaches slot0 (EnumFuncs bus n (next_dev s) 0)" using IH[OF s1(1)] by auto
        then have "hw s2 = hw s" using hw_simps(2)[OF s1(2)] by simp
        from IH[OF s1(3) this] have r2: "hw s' = hw s" "\<not> reaches slot0 (EnumBus bus (n + 1))" by blast+
        have "bus = 0 \<longrightarrow> n \<noteq> slot0" using r1(2) by (simp add: reaches_def)
        moreover have "bus = 0 \<longrightarrow> \<not> n + 1 \<le> slot0" using r2(2) by (simp add: reaches_def)
        ultimately have "\<not> (bus = 0 \<and> n \<le> slot0)" by linarith
        then show ?thesis using r2(1) EnumBus by (simp add: reaches_def)
      qed
    qed
  next
    case (EnumFuncs bus n device func)
    show ?thesis
    proof (cases "func = 0")
      case True
      obtain h where h: "read_byte io acc device 14 s = Some h"
        using b EnumFuncs by (cases "read_byte io acc device 14 s") simp_all
      have "do { x \<leftarrow> enumerate io acc segment (EnumFunction bus n 0) s; enumerate io acc segment (EnumFuncs bus n device 1) x } = Some s'"
        using b unfolding EnumFuncs True by (cases "h AND HEADER_TYPE_MULTIFUNC = 0") (simp_all add: h)
      then obtain s1 where s1: "enumerate io acc segment (EnumFunction bus n 0) s = Some s1" "enumerate io acc segment (EnumFuncs bus n device 1) s1 = Some s'"
        by (auto simp: bind_eq_Some_conv)
      have r: "hw s1 = hw s" "\<not> reaches slot0 (EnumFunction bus n 0)" using IH[OF s1(1) refl] by blast+
      have "\<not> reaches slot0 t" using r(2) unfolding EnumFuncs True by (simp add: reaches_def)
      then show ?thesis using IH[OF s1(2) r(1)] by blast
    next
      case False
      then have "\<not> reaches slot0 t" unfolding EnumFuncs by (simp add: reaches_def)
      moreover have "hw s' = hw s" using b EnumFuncs by (auto split: bind_splits if_splits dest!: IH hw_simps)
      ultimately show ?thesis by blast
    qed
  next
    case (EnumFunction bus n func)
    have hw: "hw s' = hw s"
      using b EnumFunction by (auto simp: create_eq[OF us] Let_def split: bind_splits if_splits dest!: IH hw_simps)
    have "\<not> (bus = 0 \<and> n = slot0 \<and> func = 0)"
    proof
      assume z: "bus = 0 \<and> n = slot0 \<and> func = 0"
      obtain x where x: "enumerate io acc segment (EnumBus 0 0) x = Some s'" "hw x = hw s"
        using b EnumFunction z bv by (auto simp: create_eq_0[OF us] byte_at_high Let_def split: bind_splits if_splits)
      from IH[OF x] show False by (simp add: reaches_def)
    qed
    then show ?thesis using hw EnumFunction by (auto simp: reaches_def)
  qed
qed

section \<open>Buses without bridges\<close>

definition func_limit :: "'h pci_hw \<Rightarrow> pci_access \<Rightarrow> u16 \<Rightarrow> 'h \<Rightarrow> u8 \<Rightarrow> nat \<Rightarrow> nat" where
  "func_limit io acc segment h bus slot = (if byte_at io acc segment h bus slot 0 14 AND HEADER_TYPE_MULTIFUNC \<noteq> 0 then 8 else 1)"

text \<open>The functions of a slot that answer, from function \<open>f\<close> on.\<close>

definition functions_from :: "'h pci_hw \<Rightarrow> pci_access \<Rightarrow> u16 \<Rightarrow> 'h \<Rightarrow> u8 \<Rightarrow> nat \<Rightarrow> nat \<Rightarrow> pci_device list" where
  "functions_from io acc segment h bus slot f = map (dev_at io acc segment bus slot)
     (filter (\<lambda>g. vendor_at io acc segment h bus slot g \<noteq> VENDOR_INVALID) [f..<func_limit io acc segment h bus slot])"

definition slot_functions :: "'h pci_hw \<Rightarrow> pci_access \<Rightarrow> u16 \<Rightarrow> 'h \<Rightarrow> u8 \<Rightarrow> nat \<Rightarrow> pci_device list" where
  "slot_functions io acc segment h bus slot =
    (if vendor_at io acc segment h bus slot 0 = VENDOR_INVALID then [] else functions_from io acc segment h bus slot 0)"

definition bus_functions :: "'h pci_hw \<Rightarrow> pci_access \<Rightarrow> u16 \<Rightarrow> 'h \<Rightarrow> u8 \<Rightarrow> nat \<Rightarrow> pci_device list" where
  "bus_functions io acc segment h bus slot = concat (map (slot_functions io acc segment h bus) [slot..<32])"

definition listed :: "'h pci \<Rightarrow> pci_device list" where
  "listed s = map (\<lambda>n. the (devs s n)) (g_pci_devices s)"

definition pci_ok :: "'h pci \<Rightarrow> bool" where
  "pci_ok s \<longleftrightarrow> (\<forall>n \<ge> next_dev s. devs s n = None) \<and> (\<forall>n \<in> set (g_pci_devices s). n < next_dev s)"

text \<open>A step of the enumeration adds the devices \<open>ds\<close> and leaves the older objects alone.\<close>

definition adds :: "pci_device list \<Rightarrow> 'h pci \<Rightarrow> 'h pci \<Rightarrow> bool" where
  "adds ds s s' \<longleftrightarrow> pci_ok s' \<and> hw s' = hw s \<and> next_dev s \<le> next_dev s' \<and> (\<forall>n < next_dev s. devs s' n = devs s n) \<and>
     (\<exists>ns. g_pci_devices s' = ns @ g_pci_devices s \<and> (\<forall>n \<in> set ns. next_dev s \<le> n) \<and> map (\<lambda>n. the (devs s' n)) ns = rev ds)"

lemma adds_listed:
  assumes "pci_ok s" "adds ds s s'"
  shows "listed s' = rev ds @ listed s"
  using assms unfolding adds_def listed_def pci_ok_def by fastforce

lemma adds_trans:
  assumes a: "adds ds s s1" and b: "adds es s1 s2"
  shows "adds (ds @ es) s s2"
proof -
  obtain ns where ns: "g_pci_devices s1 = ns @ g_pci_devices s" "\<forall>n \<in> set ns. next_dev s \<le> n" "map (\<lambda>n. the (devs s1 n)) ns = rev ds"
    using a by (auto simp: adds_def)
  obtain ms where ms: "g_pci_devices s2 = ms @ g_pci_devices s1" "\<forall>n \<in> set ms. next_dev s1 \<le> n" "map (\<lambda>n. the (devs s2 n)) ms = rev es"
    using b by (auto simp: adds_def)
  have "n < next_dev s1" if "n \<in> set ns" for n using a ns(1) that by (auto simp: adds_def pci_ok_def)
  then have "devs s2 n = devs s1 n" if "n \<in> set ns" for n using b that by (simp add: adds_def)
  then have "map (\<lambda>n. the (devs s2 n)) ns = rev ds" using ns(3) by (simp cong: map_cong)
  moreover have "next_dev s \<le> next_dev s1" using a by (simp add: adds_def)
  ultimately have "map (\<lambda>n. the (devs s2 n)) (ms @ ns) = rev (ds @ es)" "\<forall>n \<in> set (ms @ ns). next_dev s \<le> n"
    using ms ns(2) by auto
  moreover have "g_pci_devices s2 = (ms @ ns) @ g_pci_devices s" using ns(1) ms(1) by simp
  ultimately show ?thesis using a b unfolding adds_def by fastforce
qed

lemma enumerate_function_ok:
  assumes us: "usable acc segment" and ok: "pci_ok s" and nb: "\<not> is_bridge io acc segment (hw s) bus slot func"
  shows "\<exists>s'. enumerate io acc segment (EnumFunction bus slot func) s = Some s' \<and>
    adds (if vendor_at io acc segment (hw s) bus slot func = VENDOR_INVALID then [] else [dev_at io acc segment bus slot func]) s s'"
proof -
  let ?d = "dev_at io acc segment bus slot func" and ?n = "next_dev s"
  let ?s = "s\<lparr>devs := (devs s)(?n \<mapsto> ?d), next_dev := Suc ?n\<rparr>"
  have fresh: "devs s ?n = None" "?n \<notin> set (g_pci_devices s)" using ok by (auto simp: pci_ok_def)
  show ?thesis
  proof (cases "vendor_at io acc segment (hw s) bus slot func = VENDOR_INVALID")
    case True
    let ?t = "?s\<lparr>devs := (devs ?s)(?n := None)\<rparr>"
    have "enumerate io acc segment (EnumFunction bus slot func) s = Some ?t"
      using True by (subst enumerate.simps) (simp add: create_eq[OF us] g_free_device_def)
    moreover have "adds [] s ?t" using ok by (auto simp: adds_def pci_ok_def)
    ultimately show ?thesis using True by auto
  next
    case False
    let ?t = "?s\<lparr>g_pci_devices := ?n # g_pci_devices s\<rparr>"
    have "enumerate io acc segment (EnumFunction bus slot func) s = Some ?t"
      using False nb fresh by (subst enumerate.simps) (auto simp: create_eq[OF us] seq_push_def is_bridge_def Let_def)
    moreover have "adds [?d] s ?t" unfolding adds_def using ok
      by (intro conjI exI[of _ "[?n]"]) (auto simp: pci_ok_def)
    ultimately show ?thesis using False by auto
  qed
qed

lemma enumerate_funcs_ok:
  assumes "usable acc segment" "pci_ok s" "device < next_dev s" "devs s device = Some (dev_at io acc segment bus slot 0)"
    "\<And>g. \<not> is_bridge io acc segment (hw s) bus slot g" "func \<le> func_limit io acc segment (hw s) bus slot"
  shows "\<exists>s'. enumerate io acc segment (EnumFuncs bus slot device func) s = Some s' \<and>
    adds (functions_from io acc segment (hw s) bus slot func) s s'"
  using assms
proof (induction "func_limit io acc segment (hw s) bus slot - func" arbitrary: s func)
  case 0
  then have "func = func_limit io acc segment (hw s) bus slot" by simp
  moreover then have "enumerate io acc segment (EnumFuncs bus slot device func) s = Some s"
    using 0(5) by (subst enumerate.simps) (simp add: func_limit_def)
  moreover have "adds [] s s" using 0(3) by (auto simp: adds_def)
  ultimately show ?case by (simp add: functions_from_def)
next
  case (Suc k)
  let ?lim = "func_limit io acc segment (hw s) bus slot"
  have lt: "func < ?lim" using Suc.hyps(2) by simp
  obtain s1 where s1: "enumerate io acc segment (EnumFunction bus slot func) s = Some s1"
    "adds (if vendor_at io acc segment (hw s) bus slot func = VENDOR_INVALID then [] else [dev_at io acc segment bus slot func]) s s1"
    using enumerate_function_ok[OF Suc.prems(1,2,5)] by blast
  have p: "pci_ok s1" "hw s1 = hw s" "device < next_dev s1" "devs s1 device = Some (dev_at io acc segment bus slot 0)"
    using s1(2) Suc.prems(3,4) by (auto simp: adds_def)
  have "k = func_limit io acc segment (hw s) bus slot - Suc func" using Suc.hyps(2) by linarith
  with Suc.hyps(1)[of s1 "Suc func"] obtain s2 where s2: "enumerate io acc segment (EnumFuncs bus slot device (Suc func)) s1 = Some s2"
    "adds (functions_from io acc segment (hw s) bus slot (Suc func)) s1 s2"
    using Suc.prems(1,5) p lt by auto
  have "[func..<?lim] = func # [Suc func..<?lim]" using lt by (rule upt_conv_Cons)
  then have "functions_from io acc segment (hw s) bus slot func =
      (if vendor_at io acc segment (hw s) bus slot func = VENDOR_INVALID then [] else [dev_at io acc segment bus slot func]) @
      functions_from io acc segment (hw s) bus slot (Suc func)" by (simp add: functions_from_def)
  moreover have "enumerate io acc segment (EnumFuncs bus slot device func) s = Some s2"
    using lt s1(1) s2(1) Suc.prems(4) by (subst enumerate.simps) (simp add: func_limit_def)
  ultimately show ?case using adds_trans[OF s1(2) s2(2)] by auto
qed

lemma adds_create:
  assumes ok: "pci_ok s" and s1: "s1 = s\<lparr>devs := (devs s)(next_dev s \<mapsto> d), next_dev := Suc (next_dev s)\<rparr>"
  shows "pci_ok s1" "adds [] s s1"
  using ok by (auto simp: s1 pci_ok_def adds_def)

text \<open>An object that is not listed can be freed behind the devices that were added.\<close>

lemma adds_free:
  assumes ok: "pci_ok s" and a: "adds ds s1 s2" and s1: "s1 = s\<lparr>devs := (devs s)(next_dev s \<mapsto> d), next_dev := Suc (next_dev s)\<rparr>"
  shows "\<exists>s3. g_free_device (next_dev s) s2 = Some s3 \<and> adds ds s s3"
proof -
  let ?n = "next_dev s" and ?s3 = "s2\<lparr>devs := (devs s2)(next_dev s := None)\<rparr>"
  obtain ns where ns: "g_pci_devices s2 = ns @ g_pci_devices s" "\<forall>n \<in> set ns. Suc ?n \<le> n" "map (\<lambda>n. the (devs s2 n)) ns = rev ds"
    using a by (auto simp: adds_def s1)
  have d: "devs s2 ?n = Some d" "pci_ok s2" "hw s2 = hw s" "Suc ?n \<le> next_dev s2" "\<forall>n < ?n. devs s2 n = devs s n"
    using a by (auto simp: adds_def s1)
  have "pci_ok ?s3" using d(2,4) by (auto simp: pci_ok_def)
  moreover have "map (\<lambda>n. the (devs ?s3 n)) ns = map (\<lambda>n. the (devs s2 n)) ns" by (rule map_cong) (use ns(2) in auto)
  then have "map (\<lambda>n. the (devs ?s3 n)) ns = rev ds" using ns(3) by simp
  moreover have "\<forall>n < ?n. devs ?s3 n = devs s n" using d(5) by simp
  ultimately have "adds ds s ?s3" unfolding adds_def using ns(1,2) d(3,4) by (intro conjI exI[of _ ns]) auto
  then show ?thesis using d(1) by (auto simp: g_free_device_def)
qed

lemma enumerate_bus_ok:
  assumes "usable acc segment" "pci_ok s" "\<And>slot func. \<not> is_bridge io acc segment (hw s) bus slot func" "slot \<le> 32"
  shows "\<exists>s'. enumerate io acc segment (EnumBus bus slot) s = Some s' \<and> adds (bus_functions io acc segment (hw s) bus slot) s s'"
  using assms
proof (induction "32 - slot" arbitrary: s slot)
  case 0
  then have "slot = 32" by simp
  moreover then have "enumerate io acc segment (EnumBus bus slot) s = Some s" by (subst enumerate.simps) simp
  moreover have "adds [] s s" using 0(3) by (auto simp: adds_def)
  ultimately show ?case by (simp add: bus_functions_def)
next
  case (Suc k)
  have lt: "slot < 32" "k = 32 - Suc slot" using Suc.hyps(2) by linarith+
  define s1 where "s1 = s\<lparr>devs := (devs s)(next_dev s \<mapsto> dev_at io acc segment bus slot 0), next_dev := Suc (next_dev s)\<rparr>"
  note c = adds_create[OF Suc.prems(2) s1_def] and cr = create_eq_0[OF Suc.prems(1), of io bus slot s, folded s1_def]
  have d1: "devs s1 (next_dev s) = Some (dev_at io acc segment bus slot 0)" "hw s1 = hw s" "next_dev s < next_dev s1" by (simp_all add: s1_def)
  have "[slot..<32] = slot # [Suc slot..<32]" using lt(1) by (rule upt_conv_Cons)
  then have fs: "bus_functions io acc segment (hw s) bus slot = slot_functions io acc segment (hw s) bus slot @ bus_functions io acc segment (hw s) bus (Suc slot)"
    by (simp add: bus_functions_def)
  have "\<exists>s2. adds (slot_functions io acc segment (hw s) bus slot) s s2 \<and>
      enumerate io acc segment (EnumBus bus slot) s = enumerate io acc segment (EnumBus bus (Suc slot)) s2"
  proof (cases "vendor_at io acc segment (hw s) bus slot 0 = VENDOR_INVALID")
    case True
    have "enumerate io acc segment (EnumBus bus slot) s = enumerate io acc segment (EnumBus bus (Suc slot)) s1"
      using True lt(1) by (subst enumerate.simps) (simp add: cr read_word_at[OF d1(1)] d1(2))
    then show ?thesis using c(2) True by (auto simp: slot_functions_def)
  next
    case False
    have "0 \<le> func_limit io acc segment (hw s1) bus slot" by simp
    then obtain s2 where s2: "enumerate io acc segment (EnumFuncs bus slot (next_dev s) 0) s1 = Some s2"
      "adds (functions_from io acc segment (hw s) bus slot 0) s1 s2"
      using enumerate_funcs_ok[OF Suc.prems(1) c(1) d1(3,1)] Suc.prems(3) unfolding d1(2) by blast
    obtain s3 where s3: "g_free_device (next_dev s) s2 = Some s3" "adds (functions_from io acc segment (hw s) bus slot 0) s s3"
      using adds_free[OF Suc.prems(2) s2(2) s1_def] by blast
    have "enumerate io acc segment (EnumBus bus slot) s = enumerate io acc segment (EnumBus bus (Suc slot)) s3"
      using False lt(1) by (subst enumerate.simps) (simp add: cr read_word_at[OF d1(1)] d1(2) s2(1) s3(1))
    then show ?thesis using s3(2) False by (auto simp: slot_functions_def)
  qed
  then obtain s2 where s2: "adds (slot_functions io acc segment (hw s) bus slot) s s2"
    "enumerate io acc segment (EnumBus bus slot) s = enumerate io acc segment (EnumBus bus (Suc slot)) s2" by blast
  have "pci_ok s2" "hw s2 = hw s" using s2(1) by (auto simp: adds_def)
  then obtain s' where "enumerate io acc segment (EnumBus bus (Suc slot)) s2 = Some s'" "adds (bus_functions io acc segment (hw s) bus (Suc slot)) s2 s'"
    using Suc.hyps(1)[OF lt(2) Suc.prems(1), of s2] Suc.prems(3) lt(1) by auto
  then show ?case using adds_trans[OF s2(1)] s2(2) fs by auto
qed

section \<open>Base address registers\<close>

text \<open>The register of a memory range of \<open>2 ^ k\<close> bytes: the low bits read as zero whatever is written.\<close>

definition bar_register :: "'h pci_hw \<Rightarrow> u32 \<Rightarrow> nat \<Rightarrow> bool" where
  "bar_register io a k \<longleftrightarrow> (\<forall>v h. cfg_in io a (cfg_out io a v h) = v AND NOT (mask k))"

lemma take_bit_zero: "(\<And>n. n < k \<Longrightarrow> \<not> bit b n) \<Longrightarrow> take_bit k b = (0 :: u32)"
  by (rule bit_eqI) (auto simp: bit_take_bit_iff)

lemma and_power: "(x :: u8) AND 2 ^ n = (if bit x n then 2 ^ n else 0)"
  by (rule bit_eqI) (auto simp: bit_and_iff bit_exp_iff)

lemma word_in_double: "(ucast (w :: u16) :: u32) AND - 65536 = 0" "drop_bit 16 (ucast w :: u32) = 0" "(ucast (ucast w :: u32) :: u16) = w"
proof -
  have "- 65536 = (NOT (mask 16) :: u32)" by (simp add: mask_eq_exp_minus_1)
  moreover have "(ucast w :: u32) AND NOT (mask 16) = 0"
    by (rule bit_eqI) (auto simp: bit_and_iff bit_not_iff bit_mask_iff bit_ucast_iff simp del: mask_numeral dest: bit_imp_le_length)
  ultimately show "(ucast w :: u32) AND - 65536 = 0" by metis
  show "drop_bit 16 (ucast w :: u32) = 0" "(ucast (ucast w :: u32) :: u16) = w"
    by (rule bit_eqI; auto simp: bit_drop_bit_eq bit_ucast_iff dest: bit_imp_le_length)+
qed

lemma not_masks: "j \<le> k \<Longrightarrow> NOT (mask k) AND NOT (mask j) = (NOT (mask k) :: u32)"
  by (rule bit_eqI) (auto simp: bit_and_iff bit_not_iff bit_mask_iff)

lemma size_of_mask:
  assumes "4 \<le> k" "k < 32"
  shows "NOT ((NOT 0 AND NOT (mask k)) AND NOT (15 :: u32)) + 1 = 2 ^ k"
proof -
  have "(15 :: u32) = mask 4" by (simp add: mask_eq_exp_minus_1)
  then have "NOT (mask k) AND NOT (15 :: u32) = NOT (mask k)" using not_masks[OF assms(1)] by metis
  then show ?thesis by (simp add: mask_eq_exp_minus_1)
qed

lemma read_double_ports: "pci_config_read_double io Ports d off h = Some (cfg_in io (register_offset d off) h)"
  by (simp add: pci_config_read_double_def readd_def g_read_def pci_read_def)

lemma write_double_ports: "pci_config_write_double io Ports d off v h = Some (cfg_out io (register_offset d off) v h)"
  by (simp add: pci_config_write_double_def writed_def g_write_def pci_write_def pci_read_def Let_def)

lemma read_bar_ports:
  assumes i: "index \<le> 5" and k: "4 \<le> k" "k < 32" and a: "a = register_offset d (16 + index * 4)" and r: "bar_register io a k"
    and b: "cfg_in io a h AND 7 = 0"
  shows "pci_config_read_bar io Ports d index h = Some (cfg_out io a (cfg_in io a h) (cfg_out io a (NOT 0) h),
    Some \<lparr>bar_address = ucast (cfg_in io a h AND NOT 15), bar_size = 2 ^ k, bar_iospace = False\<rparr>)"
proof -
  let ?b = "cfg_in io a h"
  have bit: "\<not> bit ?b n" if "n < 3" for n
  proof -
    have "(7 :: u32) = mask 3" by (simp add: mask_eq_exp_minus_1)
    then have "take_bit 3 ?b = 0" using b by (simp add: take_bit_eq_mask)
    then show ?thesis using that by (metis bit_take_bit_iff bit_0_eq bot_apply bot_bool_def)
  qed
  have "take_bit 1 ?b = 0" "take_bit 2 (drop_bit 1 ?b) = 0"
    by (rule take_bit_zero; use bit in \<open>simp add: bit_drop_bit_eq\<close>)+
  moreover have "(1 :: u32) = mask 1" "(3 :: u32) = mask 2" by (simp_all add: mask_eq_exp_minus_1)
  ultimately have "?b AND 1 = 0" "drop_bit 1 ?b AND 3 = 0" by (metis take_bit_eq_mask)+
  moreover have "cfg_in io a (cfg_out io a (NOT 0) h) = NOT 0 AND NOT (mask k)" using r unfolding bar_register_def by blast
  moreover have "\<not> index > 5" using i by simp
  ultimately show ?thesis using size_of_mask[OF k]
    by (simp add: pci_config_read_bar_def read_double_ports write_double_ports Let_def flip: a)
qed

section \<open>Properties\<close>

text \<open>A machine with ports only: the configuration register of an address reads as the function says.\<close>

definition demo_io :: "(u32 \<Rightarrow> u32) pci_hw" where
  "demo_io = \<lparr>cfg_in = (\<lambda>a h. h a), cfg_out = (\<lambda>a v h. h(a := v AND NOT (mask 12))), mmio_read = (\<lambda>_ _ _. 0), mmio_write = (\<lambda>_ _ _ h. h),
     mmio_map = (\<lambda>a. a)\<rparr>"

definition demo_pci :: "(u32 \<Rightarrow> u32) \<Rightarrow> (u32 \<Rightarrow> u32) pci" where
  "demo_pci h = \<lparr>hw = h, devs = (\<lambda>_. None), next_dev = 0, g_pci_devices = []\<rparr>"

lemmas demo_at = vendor_at_def byte_at_def dev_at_def readw_def readb_def g_read_def pci_read_def demo_io_def

text \<open>
  (C31) On a bus without bridges the enumeration ends, and adds to the list of devices exactly the functions that answer: function 0 of every
  slot whose vendor is valid, and the other functions of it when the device has several.
\<close>

theorem pci_enumerate_correct:
  assumes "usable acc segment" "pci_ok s" "\<And>slot func. \<not> is_bridge io acc segment (hw s) bus slot func"
  shows "\<exists>s'. enumerate_bus io acc segment bus s = Some s' \<and> pci_ok s' \<and> hw s' = hw s \<and>
    listed s' = rev (concat (map (slot_functions io acc segment (hw s) bus) [0..<32])) @ listed s"
proof -
  obtain s' where s': "enumerate io acc segment (EnumBus bus 0) s = Some s'" "adds (bus_functions io acc segment (hw s) bus 0) s s'"
    using enumerate_bus_ok[OF assms, of 0] by blast
  have "pci_ok s'" "hw s' = hw s" using s'(2) by (auto simp: adds_def)
  then show ?thesis using s'(1) adds_listed[OF assms(2) s'(2)] by (simp add: enumerate_bus_def bus_functions_def)
qed

theorem pci_enumerate_correct_witness:
  "\<exists>s'. enumerate_bus demo_io Ports 0 0 (demo_pci (\<lambda>_. 0x8086)) = Some s' \<and> length (listed s') = 32"
proof -
  let ?h = "\<lambda>_ :: u32. 0x8086 :: u32"
  have n: "vendor_at demo_io Ports 0 ?h 0 slot func = 0x8086" "byte_at demo_io Ports 0 ?h 0 slot func 11 = 0" "byte_at demo_io Ports 0 ?h 0 slot func 14 = 0"
    for slot func by (simp_all add: demo_at)
  then have "\<not> is_bridge demo_io Ports 0 (hw (demo_pci ?h)) 0 slot func" for slot func by (simp add: is_bridge_def demo_pci_def)
  moreover have "usable Ports 0" "pci_ok (demo_pci ?h)" by (simp_all add: usable_def pci_ok_def demo_pci_def)
  ultimately obtain s' where s': "enumerate_bus demo_io Ports 0 0 (demo_pci ?h) = Some s'"
    "listed s' = rev (concat (map (slot_functions demo_io Ports 0 ?h 0) [0..<32])) @ listed (demo_pci ?h)"
    using pci_enumerate_correct[of Ports 0 "demo_pci ?h" demo_io 0] by (auto simp: demo_pci_def)
  have "slot_functions demo_io Ports 0 ?h 0 = (\<lambda>slot. [dev_at demo_io Ports 0 0 slot 0])"
    by (simp add: fun_eq_iff slot_functions_def functions_from_def func_limit_def n VENDOR_INVALID_def)
  then have "length (listed s') = 32" unfolding s'(2) by (simp add: listed_def demo_pci_def)
  then show ?thesis using s'(1) by blast
qed





text \<open>
  A word written through the ports never reaches the upper half of its register: the value is shifted to the right instead of to the left,
  so the write to an odd word stores the old word into the lower half, and the write to an even word clears the upper half.
\<close>

theorem pci_write_word_misplaced:
  "pci_config_write_word io Ports d offset data h = Some (cfg_out io (register_offset d offset)
     (if offset AND 2 = 0 then ucast data else ucast (ucast (drop_bit 16 (cfg_in io (register_offset d offset) h)) :: u16)) h)"
proof -
  have "offset AND 2 = (if bit offset 1 then 2 else 0)" using and_power[of offset 1] by simp
  then have c: "offset AND 2 = 0 \<or> offset AND 2 = 2" by simp
  then show ?thesis
    by (auto simp: pci_config_write_word_def writew_def g_write_def pci_write_def pci_read_def Let_def word_in_double)
qed


end
