(* ===== verification/InitTargets.thy ===== *)
theory InitTargets
  imports Prelude "HOL-Library.Sublist"
begin

text \<open>
  The initialisation targets of the kernel (\<^verbatim>\<open>sys/init.c\<close>, \<^verbatim>\<open>include/sys/init.h\<close>): stages, scopes, dependencies by name, and the
  order the targets run in.

  Targets are the elements of a list, the section \<^verbatim>\<open>init_targets\<close> of the image; \<open>ran\<close> records the calls of their functions. The recursion of
  \<^verbatim>\<open>run_target\<close> has no guard against cycles: a recursion that does not end is \<open>None\<close>.
\<close>

section \<open>Data\<close>

datatype init_stage = INIT_STAGE_BOOT | INIT_STAGE_EARLY | INIT_STAGE_BEFORE_MAIN | INIT_STAGE_MAIN | INIT_STAGE_BEFORE_DEV | INIT_STAGE_DEV | INIT_STAGE_LATE
datatype init_scope = INIT_SCOPE_BSP | INIT_SCOPE_APS | INIT_SCOPE_ALL

fun stage_number :: "init_stage \<Rightarrow> nat" where
  "stage_number INIT_STAGE_BOOT = 0"
| "stage_number INIT_STAGE_EARLY = 1"
| "stage_number INIT_STAGE_BEFORE_MAIN = 2"
| "stage_number INIT_STAGE_MAIN = 3"
| "stage_number INIT_STAGE_BEFORE_DEV = 4"
| "stage_number INIT_STAGE_DEV = 5"
| "stage_number INIT_STAGE_LATE = 6"

record init_target =
  tg_name :: string
  tg_stage :: init_stage
  tg_scope :: init_scope
  tg_dependencies :: "string list"

record init_state =
  g_init_stage_current :: init_stage
  tg_completed :: "nat \<Rightarrow> bool"
  ran :: "nat list"

definition DO_TARGET :: "init_target \<Rightarrow> bool \<Rightarrow> bool" where
  "DO_TARGET t is_ap \<longleftrightarrow> tg_scope t = INIT_SCOPE_ALL \<or> (is_ap \<and> tg_scope t = INIT_SCOPE_APS) \<or> (\<not> is_ap \<and> tg_scope t = INIT_SCOPE_BSP)"

section \<open>Running targets\<close>

definition find_target :: "init_target list \<Rightarrow> init_stage \<Rightarrow> string \<Rightarrow> nat option" where
  "find_target ts stage name = List.find (\<lambda>i. tg_stage (ts ! i) = stage \<and> tg_name (ts ! i) = name) [0..<length ts]"

text \<open>A call of \<^verbatim>\<open>run_target\<close>, and its loop over the dependencies from the \<open>k\<close>-th on.\<close>

datatype init_task = RunTarget nat | RunDependencies nat nat

partial_function (option) run_target :: "init_target list \<Rightarrow> bool \<Rightarrow> init_task \<Rightarrow> init_state \<Rightarrow> init_state option" where
  "run_target ts is_ap t s = (case t of
     RunTarget i \<Rightarrow> do {
       s \<leftarrow> run_target ts is_ap (RunDependencies i 0) s;
       if \<not> DO_TARGET (ts ! i) is_ap \<or> tg_completed s i then Some s
       else Some (s\<lparr>tg_completed := (tg_completed s)(i := True), ran := ran s @ [i]\<rparr>)
     }
   | RunDependencies i k \<Rightarrow>
       (if k < length (tg_dependencies (ts ! i)) then
          (case find_target ts (tg_stage (ts ! i)) (tg_dependencies (ts ! i) ! k) of
             None \<Rightarrow> run_target ts is_ap (RunDependencies i (k + 1)) s
           | Some dep \<Rightarrow> do { s \<leftarrow> run_target ts is_ap (RunTarget dep) s; run_target ts is_ap (RunDependencies i (k + 1)) s })
        else Some s))"

fun run_targets :: "init_target list \<Rightarrow> init_stage \<Rightarrow> bool \<Rightarrow> nat list \<Rightarrow> init_state \<Rightarrow> init_state option" where
  "run_targets ts stage is_ap [] s = Some s"
| "run_targets ts stage is_ap (i # is) s =
    (if tg_stage (ts ! i) \<noteq> stage then run_targets ts stage is_ap is s
     else do { s \<leftarrow> run_target ts is_ap (RunTarget i) s; run_targets ts stage is_ap is s })"

definition init_run_stage :: "init_target list \<Rightarrow> init_stage \<Rightarrow> bool \<Rightarrow> init_state \<Rightarrow> init_state option" where
  "init_run_stage ts stage is_ap s = do {
     ASSERT (stage_number stage \<ge> stage_number (g_init_stage_current s));
     run_targets ts stage is_ap [0..<length ts] (s\<lparr>g_init_stage_current := stage\<rparr>)
   }"

definition init_reset_ap :: "init_target list \<Rightarrow> init_state \<Rightarrow> init_state" where
  "init_reset_ap ts s = s\<lparr>g_init_stage_current := INIT_STAGE_BOOT,
     tg_completed := (\<lambda>i. if i < length ts \<and> DO_TARGET (ts ! i) True then False else tg_completed s i)\<rparr>"

section \<open>Dependencies\<close>

definition depends :: "init_target list \<Rightarrow> nat \<Rightarrow> nat set" where
  "depends ts i = {d. \<exists>name \<in> set (tg_dependencies (ts ! i)). find_target ts (tg_stage (ts ! i)) name = Some d}"

text \<open>No target depends on itself, however indirectly: the dependencies of a target have a smaller rank.\<close>

definition acyclic_targets :: "init_target list \<Rightarrow> (nat \<Rightarrow> nat) \<Rightarrow> bool" where
  "acyclic_targets ts rank \<longleftrightarrow> (\<forall>i < length ts. \<forall>d \<in> depends ts i. rank d < rank i)"

lemma find_target_Some:
  assumes "find_target ts stage name = Some d"
  shows "d < length ts" "tg_stage (ts ! d) = stage" "tg_name (ts ! d) = name"
  using assms by (auto simp: find_target_def find_Some_iff)

text \<open>In \<open>is\<close> no target occurs twice, and every target has its dependencies that are in scope before it.\<close>

definition in_order :: "init_target list \<Rightarrow> bool \<Rightarrow> nat list \<Rightarrow> bool" where
  "in_order ts is_ap is \<longleftrightarrow> distinct is \<and> (\<forall>xs i ys. is = xs @ i # ys \<longrightarrow> {d \<in> depends ts i. DO_TARGET (ts ! d) is_ap} \<subseteq> set xs)"

lemma in_order_snoc:
  assumes "in_order ts is_ap is" "i \<notin> set is" "{d \<in> depends ts i. DO_TARGET (ts ! d) is_ap} \<subseteq> set is"
  shows "in_order ts is_ap (is @ [i])"
proof -
  have "{d \<in> depends ts j. DO_TARGET (ts ! d) is_ap} \<subseteq> set xs" if "is @ [i] = xs @ j # ys" for xs j ys
  proof (cases ys rule: rev_cases)
    case Nil
    then show ?thesis using that assms(3) by simp
  next
    case (snoc zs z)
    then show ?thesis using that assms(1) by (auto simp: in_order_def)
  qed
  then show ?thesis using assms(1,2) by (auto simp: in_order_def)
qed

definition run_ok :: "init_target list \<Rightarrow> init_stage \<Rightarrow> bool \<Rightarrow> init_state \<Rightarrow> bool" where
  "run_ok ts stage is_ap s \<longleftrightarrow> in_order ts is_ap (ran s) \<and>
     (\<forall>i \<in> set (ran s). i < length ts \<and> tg_stage (ts ! i) = stage \<and> DO_TARGET (ts ! i) is_ap) \<and>
     (\<forall>i < length ts. tg_stage (ts ! i) = stage \<longrightarrow> DO_TARGET (ts ! i) is_ap \<longrightarrow> (tg_completed s i \<longleftrightarrow> i \<in> set (ran s)))"

definition grows :: "init_state \<Rightarrow> init_state \<Rightarrow> bool" where
  "grows s s' \<longleftrightarrow> prefix (ran s) (ran s') \<and> g_init_stage_current s' = g_init_stage_current s"

lemma grows_trans: "grows s s1 \<Longrightarrow> grows s1 s2 \<Longrightarrow> grows s s2"
  by (auto simp: grows_def intro: prefix_order.trans)

lemma growsD: "grows s s' \<Longrightarrow> i \<in> set (ran s) \<Longrightarrow> i \<in> set (ran s')"
  by (auto simp: grows_def dest: set_mono_prefix)

lemma run_target_ok:
  assumes ac: "acyclic_targets ts rank"
  shows "i < length ts \<Longrightarrow> tg_stage (ts ! i) = stage \<Longrightarrow> run_ok ts stage is_ap s \<Longrightarrow>
    \<exists>s'. run_target ts is_ap (RunTarget i) s = Some s' \<and> run_ok ts stage is_ap s' \<and> grows s s' \<and> (DO_TARGET (ts ! i) is_ap \<longrightarrow> i \<in> set (ran s'))"
proof (induction "rank i" arbitrary: i s rule: less_induct)
  case less
  let ?deps = "tg_dependencies (ts ! i)"
  have deps: "\<exists>s'. run_target ts is_ap (RunDependencies i k) s = Some s' \<and> run_ok ts stage is_ap s' \<and> grows s s' \<and>
      (\<forall>j \<ge> k. \<forall>d. j < length ?deps \<longrightarrow> find_target ts stage (?deps ! j) = Some d \<longrightarrow> DO_TARGET (ts ! d) is_ap \<longrightarrow> d \<in> set (ran s'))"
    if "run_ok ts stage is_ap s" "k \<le> length ?deps" for k s
    using that
  proof (induction "length ?deps - k" arbitrary: k s)
    case 0
    then have "run_target ts is_ap (RunDependencies i k) s = Some s" by (subst run_target.simps) simp
    then show ?case using 0 by (auto simp: grows_def)
  next
    case (Suc n)
    have k: "k < length ?deps" "n = length ?deps - Suc k" using Suc.hyps(2) by linarith+
    show ?case
    proof (cases "find_target ts stage (?deps ! k)")
      case None
      have "run_target ts is_ap (RunDependencies i k) s = run_target ts is_ap (RunDependencies i (Suc k)) s"
        using k(1) None less.prems(2) by (subst run_target.simps) simp
      moreover have "\<exists>s'. run_target ts is_ap (RunDependencies i (Suc k)) s = Some s' \<and> run_ok ts stage is_ap s' \<and> grows s s' \<and>
        (\<forall>j \<ge> Suc k. \<forall>d. j < length ?deps \<longrightarrow> find_target ts stage (?deps ! j) = Some d \<longrightarrow> DO_TARGET (ts ! d) is_ap \<longrightarrow> d \<in> set (ran s'))"
        using Suc.hyps(1)[OF k(2) Suc.prems(1)] k(1) by simp
      moreover have "j \<ge> Suc k" if "j \<ge> k" "find_target ts stage (?deps ! j) = Some d" for j d using that None by (metis le_eq_less_or_eq Suc_leI option.distinct(1))
      ultimately show ?thesis by metis
    next
      case (Some d)
      have "?deps ! k \<in> set ?deps" using k(1) by (rule nth_mem)
      then have dm: "d \<in> depends ts i" unfolding depends_def using Some less.prems(2) by auto
      have lt: "rank d < rank i" using ac dm less.prems(1) by (simp add: acyclic_targets_def)
      obtain s1 where s1: "run_target ts is_ap (RunTarget d) s = Some s1" "run_ok ts stage is_ap s1" "grows s s1" "DO_TARGET (ts ! d) is_ap \<longrightarrow> d \<in> set (ran s1)"
        using less.hyps[OF lt find_target_Some(1,2)[OF Some] Suc.prems(1)] by blast
      obtain s2 where s2: "run_target ts is_ap (RunDependencies i (Suc k)) s1 = Some s2" "run_ok ts stage is_ap s2" "grows s1 s2"
        "\<forall>j \<ge> Suc k. \<forall>d. j < length ?deps \<longrightarrow> find_target ts stage (?deps ! j) = Some d \<longrightarrow> DO_TARGET (ts ! d) is_ap \<longrightarrow> d \<in> set (ran s2)"
        using Suc.hyps(1)[OF k(2) s1(2)] k(1) by auto
      have "run_target ts is_ap (RunDependencies i k) s = Some s2"
        using k(1) Some less.prems(2) s1(1) s2(1) by (subst run_target.simps) simp
      moreover have "d' \<in> set (ran s2)" if "j \<ge> k" "j < length ?deps" "find_target ts stage (?deps ! j) = Some d'" "DO_TARGET (ts ! d') is_ap" for j d'
      proof (cases "j = k")
        case True
        then show ?thesis using that Some s1(4) growsD[OF s2(3)] by auto
      next
        case False
        then have "Suc k \<le> j" using that(1) by simp
        then show ?thesis using that(2-4) s2(4) by blast
      qed
      ultimately show ?thesis using s2(2) grows_trans[OF s1(3) s2(3)] by blast
    qed
  qed
  obtain s1 where s1: "run_target ts is_ap (RunDependencies i 0) s = Some s1" "run_ok ts stage is_ap s1" "grows s s1"
    "\<forall>j d. j < length ?deps \<longrightarrow> find_target ts stage (?deps ! j) = Some d \<longrightarrow> DO_TARGET (ts ! d) is_ap \<longrightarrow> d \<in> set (ran s1)"
    using deps[OF less.prems(3), of 0] by auto
  show ?case
  proof (cases "\<not> DO_TARGET (ts ! i) is_ap \<or> tg_completed s1 i")
    case True
    then have "run_target ts is_ap (RunTarget i) s = Some s1" using s1(1) by (subst run_target.simps) auto
    moreover have "DO_TARGET (ts ! i) is_ap \<longrightarrow> i \<in> set (ran s1)" using True s1(2) less.prems(1,2) by (auto simp: run_ok_def)
    ultimately show ?thesis using s1(2,3) by blast
  next
    case False
    let ?s = "s1\<lparr>tg_completed := (tg_completed s1)(i := True), ran := ran s1 @ [i]\<rparr>"
    have r: "run_target ts is_ap (RunTarget i) s = Some ?s" using s1(1) False by (subst run_target.simps) simp
    have ni: "i \<notin> set (ran s1)" using False s1(2) less.prems(1,2) by (auto simp: run_ok_def)
    have "{d \<in> depends ts i. DO_TARGET (ts ! d) is_ap} \<subseteq> set (ran s1)"
      using s1(4) less.prems(2) by (auto simp: depends_def in_set_conv_nth)
    then have "in_order ts is_ap (ran s1 @ [i])" using in_order_snoc[OF _ ni] s1(2) by (simp add: run_ok_def)
    then have "run_ok ts stage is_ap ?s" using s1(2) less.prems(1,2) False by (auto simp: run_ok_def)
    moreover have "grows s ?s" using s1(3) by (auto simp: grows_def intro: prefix_prefix)
    ultimately show ?thesis using r by auto
  qed
qed


lemma run_targets_ok:
  assumes ac: "acyclic_targets ts rank"
  shows "\<forall>i \<in> set is. i < length ts \<Longrightarrow> run_ok ts stage is_ap s \<Longrightarrow>
    \<exists>s'. run_targets ts stage is_ap is s = Some s' \<and> run_ok ts stage is_ap s' \<and> grows s s' \<and>
      (\<forall>i \<in> set is. tg_stage (ts ! i) = stage \<longrightarrow> DO_TARGET (ts ! i) is_ap \<longrightarrow> i \<in> set (ran s'))"
proof (induction "is" arbitrary: s)
  case Nil
  then show ?case by (simp add: grows_def)
next
  case (Cons i "is")
  show ?case
  proof (cases "tg_stage (ts ! i) = stage")
    case True
    obtain s1 where s1: "run_target ts is_ap (RunTarget i) s = Some s1" "run_ok ts stage is_ap s1" "grows s s1" "DO_TARGET (ts ! i) is_ap \<longrightarrow> i \<in> set (ran s1)"
      using run_target_ok[OF ac _ True Cons.prems(2)] Cons.prems(1) by auto
    obtain s2 where s2: "run_targets ts stage is_ap is s1 = Some s2" "run_ok ts stage is_ap s2" "grows s1 s2"
      "\<forall>i \<in> set is. tg_stage (ts ! i) = stage \<longrightarrow> DO_TARGET (ts ! i) is_ap \<longrightarrow> i \<in> set (ran s2)"
      using Cons.IH[OF _ s1(2)] Cons.prems(1) by auto
    show ?thesis using True s1(1,4) s2 growsD[OF s2(3)] grows_trans[OF s1(3) s2(3)] by auto
  qed (use Cons in auto)
qed

text \<open>No target of the stage that is in scope has run.\<close>

definition stage_fresh :: "init_target list \<Rightarrow> init_stage \<Rightarrow> bool \<Rightarrow> init_state \<Rightarrow> bool" where
  "stage_fresh ts stage is_ap s \<longleftrightarrow> ran s = [] \<and> stage_number (g_init_stage_current s) \<le> stage_number stage \<and>
     (\<forall>i < length ts. tg_stage (ts ! i) = stage \<longrightarrow> DO_TARGET (ts ! i) is_ap \<longrightarrow> \<not> tg_completed s i)"

text \<open>After the reset for a further processor every stage is fresh, and the targets of the boot processor keep their marks.\<close>

lemma init_reset_ap_fresh: "ran s = [] \<Longrightarrow> stage_fresh ts stage True (init_reset_ap ts s)"
  by (simp add: stage_fresh_def init_reset_ap_def)

lemma init_reset_ap_keeps: "tg_scope (ts ! i) = INIT_SCOPE_BSP \<Longrightarrow> tg_completed (init_reset_ap ts s) i = tg_completed s i"
  by (simp add: init_reset_ap_def DO_TARGET_def)

lemma stage_fresh_run_ok: "stage_fresh ts stage is_ap s \<Longrightarrow> run_ok ts stage is_ap (s\<lparr>g_init_stage_current := stage\<rparr>)"
  by (simp add: stage_fresh_def run_ok_def in_order_def)

text \<open>A target whose first known dependency is itself is never reached: \<^verbatim>\<open>completed\<close> is set only after the dependencies have run.\<close>

lemma run_target_cycle:
  assumes "run_target ts is_ap t s = Some s'"
    and "i < length ts" "tg_dependencies (ts ! i) = name # ns" "find_target ts (tg_stage (ts ! i)) name = Some i"
  shows "t \<noteq> RunTarget i \<and> t \<noteq> RunDependencies i 0"
  using assms
proof (induction ts is_ap t s s' rule: run_target.raw_induct[rotated, consumes 1])
  case (1 run ts is_ap t s s')
  note IH = 1(1)[OF _ 1(3-5)] and b = 1(2)
  show ?case
  proof (cases t)
    case (RunTarget j)
    then show ?thesis using b by (auto split: bind_splits dest!: IH)
  next
    case (RunDependencies j k)
    then show ?thesis using b 1(4,5) by (auto split: bind_splits if_splits option.splits dest!: IH)
  qed
qed

text \<open>Hence such a target makes the stage hang.\<close>

lemma run_target_cycle_hangs:
  assumes "i < length ts" "tg_dependencies (ts ! i) = name # ns" "find_target ts (tg_stage (ts ! i)) name = Some i"
  shows "run_target ts is_ap (RunTarget i) s = None"
  using run_target_cycle[OF _ assms] by fastforce

section \<open>Properties\<close>

text \<open>
  (C34) Running a stage terminates and is complete and ordered: when the dependencies are acyclic and no target of the stage has run, \<^verbatim>\<open>init_run_stage\<close> returns, having
  called exactly the targets of the stage that are in scope of the processor, each once, and each after all of its in-scope dependencies.
\<close>

theorem init_stage_correct:
  assumes "acyclic_targets ts rank" "stage_fresh ts stage is_ap s"
  shows "\<exists>s'. init_run_stage ts stage is_ap s = Some s' \<and> g_init_stage_current s' = stage \<and>
      set (ran s') = {i. i < length ts \<and> tg_stage (ts ! i) = stage \<and> DO_TARGET (ts ! i) is_ap} \<and> in_order ts is_ap (ran s')"
proof -
  obtain s' where s': "run_targets ts stage is_ap [0..<length ts] (s\<lparr>g_init_stage_current := stage\<rparr>) = Some s'" "run_ok ts stage is_ap s'"
    "grows (s\<lparr>g_init_stage_current := stage\<rparr>) s'" "\<forall>i \<in> set [0..<length ts]. tg_stage (ts ! i) = stage \<longrightarrow> DO_TARGET (ts ! i) is_ap \<longrightarrow> i \<in> set (ran s')"
    using run_targets_ok[OF assms(1) _ stage_fresh_run_ok[OF assms(2)], of "[0..<length ts]"] by auto
  have "init_run_stage ts stage is_ap s = Some s'" using assms(2) s'(1) by (simp add: init_run_stage_def stage_fresh_def)
  then show ?thesis using s'(2-4) by (auto simp: run_ok_def grows_def)
qed

definition demo_targets :: "init_target list" where
  "demo_targets =
    [\<lparr>tg_name = ''heap'', tg_stage = INIT_STAGE_MAIN, tg_scope = INIT_SCOPE_BSP, tg_dependencies = [''slab'', ''gone'']\<rparr>,
     \<lparr>tg_name = ''slab'', tg_stage = INIT_STAGE_MAIN, tg_scope = INIT_SCOPE_ALL, tg_dependencies = []\<rparr>,
     \<lparr>tg_name = ''fpu'', tg_stage = INIT_STAGE_MAIN, tg_scope = INIT_SCOPE_APS, tg_dependencies = []\<rparr>]"

definition demo_state :: init_state where
  "demo_state = \<lparr>g_init_stage_current = INIT_STAGE_EARLY, tg_completed = (\<lambda>_. False), ran = []\<rparr>"

lemma demo_acyclic: "acyclic_targets demo_targets (\<lambda>i. if i = 0 then 1 else 0)"
  by (auto simp: acyclic_targets_def depends_def demo_targets_def find_target_def less_Suc_eq upt_rec numeral_3_eq_3)

lemma demo_fresh: "stage_fresh demo_targets INIT_STAGE_MAIN False demo_state"
  by (simp add: stage_fresh_def demo_state_def)

theorem init_stage_correct_witness:
  "\<exists>s'. init_run_stage demo_targets INIT_STAGE_MAIN False demo_state = Some s' \<and> g_init_stage_current s' = INIT_STAGE_MAIN \<and>
      set (ran s') = {i. i < length demo_targets \<and> tg_stage (demo_targets ! i) = INIT_STAGE_MAIN \<and> DO_TARGET (demo_targets ! i) False} \<and>
      in_order demo_targets False (ran s')"
  by (rule init_stage_correct[OF demo_acyclic demo_fresh])

end
