(* ===== verification/VfsBase.thy ===== *)
theory VfsBase
  imports Layout
begin

text \<open>
  Data of the virtual file system (\<^verbatim>\<open>include/fs/vfs.h\<close>) and of its two file systems (\<^verbatim>\<open>fs/tmpfs.c\<close>, \<^verbatim>\<open>fs/rdsk.c\<close>).

  Objects that the code allocates on the heap are numbered: \<open>fs_next\<close> is the number of the next one. The pointers to them are the numbers, and
  \<^verbatim>\<open>private_data\<close> carries a tag for the type it really points to, so reading it at another type is \<open>None\<close>. The tables of function pointers are the
  constructors of \<open>vfs_ops\<close>; the operations dispatch on them. A buffer of a file is the list of its bytes, and \<open>garbage\<close> gives the bytes of memory
  that nobody has written: \<open>garbage n\<close> those of the \<open>n\<close>-th allocation. Allocation always succeeds here.

  An operation returns \<open>None\<close> when its behaviour is undefined, otherwise the new state and \<open>Inl\<close> an error or \<open>Inr\<close> the result of
  \<^verbatim>\<open>VFS_RESULT_OK\<close>.
\<close>

datatype vfs_error =
  VFS_RESULT_ERR_UNSUPPORTED | VFS_RESULT_ERR_NOT_FILE | VFS_RESULT_ERR_NOT_DIR | VFS_RESULT_ERR_NOT_FOUND | VFS_RESULT_ERR_EXISTS | VFS_RESULT_ERR_READ_ONLY_FS

datatype vfs_lookup_create = VFS_LOOKUP_CREATE_NONE | VFS_LOOKUP_CREATE_FILE | VFS_LOOKUP_CREATE_DIR

datatype vfs_node_type = VFS_NODE_TYPE_FILE | VFS_NODE_TYPE_DIR

datatype vfs_ops = TmpfsOps | RdskOps

datatype vfs_private = Opaque u64 | TmpfsInfo nat | RdskInfo nat
datatype node_private = TmpfsNode nat | RdskEntry u64

record vfs =
  v_ops :: vfs_ops
  v_private :: vfs_private
  v_mount_point :: "nat option"

record vfs_node =
  n_vfs :: nat
  n_mounted_vfs :: "nat option"
  n_ops :: vfs_ops
  n_type :: vfs_node_type
  n_private :: node_private

record vfs_path =
  p_root :: "nat option"
  p_relative :: string

datatype vfs_rw_kind = VFS_RW_READ | VFS_RW_WRITE

record vfs_rw =
  rw_kind :: vfs_rw_kind
  rw_offset :: u64
  rw_size :: u64
  rw_buffer :: "u8 list"

text \<open>\<^verbatim>\<open>fs/tmpfs.c\<close>: the children of a directory are linked through \<^verbatim>\<open>sibling\<close>, newest first.\<close>

record tmpfs_file =
  f_base :: "u8 list option"
  f_size :: u64

datatype tmpfs_body = TDir "nat list" | TFile tmpfs_file

record tmpfs_node =
  t_id :: u64
  t_name :: string
  t_vnode :: nat
  t_parent :: "nat option"
  t_body :: tmpfs_body

record tmpfs_info =
  ti_root :: nat
  ti_id_counter :: u64

text \<open>\<^verbatim>\<open>fs/rdsk.c\<close>: the image lies in memory; the caches are arrays of pointers.\<close>

record rdsk_info =
  ri_header :: u64
  ri_dir_cache :: "nat option list"
  ri_file_cache :: "nat option list"

record vfs_state =
  g_vfs_all :: "nat list"
  vfss :: "nat \<Rightarrow> vfs option"
  vnodes :: "nat \<Rightarrow> vfs_node option"
  tnodes :: "nat \<Rightarrow> tmpfs_node option"
  tinfos :: "nat \<Rightarrow> tmpfs_info option"
  rinfos :: "nat \<Rightarrow> rdsk_info option"
  fs_image :: memory
  garbage :: "nat \<Rightarrow> nat \<Rightarrow> u8"
  fs_next :: nat

type_synonym 'a vfs_result = "(vfs_state \<times> (vfs_error + 'a)) option"

section \<open>Buffers\<close>

text \<open>\<^verbatim>\<open>heap_alloc\<close> of a buffer and \<^verbatim>\<open>heap_realloc\<close>, on the bytes: growing copies as many bytes as the new buffer has, so the bytes behind the old one come from
  memory the file does not own; shrinking would write past the new buffer.\<close>

definition fresh_buffer :: "u64 \<Rightarrow> vfs_state \<Rightarrow> vfs_state \<times> u8 list option" where
  "fresh_buffer n s = (if n = 0 then (s, None) else (s\<lparr>fs_next := Suc (fs_next s)\<rparr>, Some (map (garbage s (fs_next s)) [0..<unat n])))"

definition realloc_buffer :: "u8 list option \<Rightarrow> u64 \<Rightarrow> u64 \<Rightarrow> vfs_state \<Rightarrow> (vfs_state \<times> u8 list option) option" where
  "realloc_buffer base current_size new_size s =
    (if current_size = new_size then Some (s, base)
     else if base = None \<and> new_size = 0 then Some (s, base)
     else let (s, new_base) = fresh_buffer new_size s in
       case base of None \<Rightarrow> Some (s, new_base)
       | Some b \<Rightarrow> if current_size = 0 then Some (s, new_base)
         else do { nb \<leftarrow> new_base; ASSERT (current_size < new_size); Some (s, Some (b @ drop (length b) nb)) })"

text \<open>\<^verbatim>\<open>mem_copy\<close> between buffers: reading or writing outside of one is undefined.\<close>

definition buffer_put :: "u8 list \<Rightarrow> nat \<Rightarrow> u8 list \<Rightarrow> u8 list option" where
  "buffer_put b off xs = (if xs = [] then Some b
     else if off + length xs \<le> length b then Some (take off b @ xs @ drop (off + length xs) b) else None)"

definition buffer_get :: "u8 list \<Rightarrow> nat \<Rightarrow> nat \<Rightarrow> u8 list option" where
  "buffer_get b off n = (if n = 0 then Some [] else if off + n \<le> length b then Some (take n (drop off b)) else None)"

lemma length_buffer_put: "buffer_put b off xs = Some b' \<Longrightarrow> length b' = length b"
  by (auto simp: buffer_put_def split: if_splits)

lemma buffer_get_put: "buffer_put b off xs = Some b' \<Longrightarrow> buffer_get b' off (length xs) = Some xs"
  by (auto simp: buffer_put_def buffer_get_def split: if_splits)

lemma nth_buffer_put: "buffer_put b off xs = Some b' \<Longrightarrow> i < length b \<Longrightarrow> b' ! i = (if off \<le> i \<and> i < off + length xs then xs ! (i - off) else b ! i)"
  by (auto simp: buffer_put_def nth_append split: if_splits)

end
