(* ===== verification/Tmpfs.thy ===== *)
theory Tmpfs
  imports VfsBase
begin

text \<open>
  The memory file system of \<^verbatim>\<open>fs/tmpfs.c\<close>: a tree of nodes, each with its node of the virtual file system.
\<close>

section \<open>Nodes\<close>

definition TMPFS_NODE :: "vfs_node \<Rightarrow> nat option" where
  "TMPFS_NODE v = (case n_private v of TmpfsNode t \<Rightarrow> Some t | _ \<Rightarrow> None)"

definition tmpfs_INFO :: "nat \<Rightarrow> vfs_state \<Rightarrow> nat option" where
  "tmpfs_INFO vfs s = do { f \<leftarrow> vfss s vfs; case v_private f of TmpfsInfo i \<Rightarrow> Some i | _ \<Rightarrow> None }"

text \<open>Prepend \<open>t\<close> to the children of \<open>p\<close>: writing them through a node that is no directory overwrites its file pointer.\<close>

definition add_child :: "nat \<Rightarrow> nat \<Rightarrow> vfs_state \<Rightarrow> vfs_state option" where
  "add_child p t s = do {
     pn \<leftarrow> tnodes s p;
     case t_body pn of TDir cs \<Rightarrow> Some (s\<lparr>tnodes := (tnodes s)(p \<mapsto> pn\<lparr>t_body := TDir (t # cs)\<rparr>)\<rparr>) | TFile f \<Rightarrow> None
   }"

definition make_tmpfs_node :: "nat option \<Rightarrow> nat \<Rightarrow> bool \<Rightarrow> string \<Rightarrow> vfs_state \<Rightarrow> (vfs_state \<times> nat) option" where
  "make_tmpfs_node parent vfs is_dir name s = do {
     i \<leftarrow> tmpfs_INFO vfs s;
     info \<leftarrow> tinfos s i;
     let t = fs_next s;
     let v = Suc t;
     let s = s\<lparr>fs_next := Suc v, tinfos := (tinfos s)(i \<mapsto> info\<lparr>ti_id_counter := ti_id_counter info + 1\<rparr>)\<rparr>;
     s \<leftarrow> (case parent of None \<Rightarrow> Some s | Some p \<Rightarrow> add_child p t s);
     let tn = \<lparr>t_id = ti_id_counter info + 1, t_name = name, t_vnode = v, t_parent = parent,
               t_body = (if is_dir then TDir [] else TFile \<lparr>f_base = None, f_size = 0\<rparr>)\<rparr>;
     let vn = \<lparr>n_vfs = vfs, n_mounted_vfs = None, n_ops = TmpfsOps,
               n_type = (if is_dir then VFS_NODE_TYPE_DIR else VFS_NODE_TYPE_FILE), n_private = TmpfsNode t\<rparr>;
     Some (s\<lparr>tnodes := (tnodes s)(t \<mapsto> tn), vnodes := (vnodes s)(v \<mapsto> vn)\<rparr>, t)
   }"

text \<open>The loop over the siblings: a dangling link is \<open>None\<close>.\<close>

fun find_child :: "(nat \<Rightarrow> tmpfs_node option) \<Rightarrow> string \<Rightarrow> nat list \<Rightarrow> nat option option" where
  "find_child ns name [] = Some None"
| "find_child ns name (c # cs) = do { cn \<leftarrow> ns c; if t_name cn = name then Some (Some c) else find_child ns name cs }"

definition dir_find :: "nat \<Rightarrow> string \<Rightarrow> vfs_state \<Rightarrow> nat option option" where
  "dir_find t name s = do {
     tn \<leftarrow> tnodes s t;
     v \<leftarrow> vnodes s (t_vnode tn);
     ASSERT (n_type v = VFS_NODE_TYPE_DIR);
     case t_body tn of TDir cs \<Rightarrow> find_child (tnodes s) name cs | TFile f \<Rightarrow> None
   }"

definition file_of :: "vfs_node \<Rightarrow> vfs_state \<Rightarrow> (nat \<times> tmpfs_node \<times> tmpfs_file) option" where
  "file_of v s = do { t \<leftarrow> TMPFS_NODE v; tn \<leftarrow> tnodes s t; case t_body tn of TFile f \<Rightarrow> Some (t, tn, f) | TDir _ \<Rightarrow> None }"

definition set_file :: "nat \<Rightarrow> tmpfs_node \<Rightarrow> tmpfs_file \<Rightarrow> vfs_state \<Rightarrow> vfs_state" where
  "set_file t tn f s = s\<lparr>tnodes := (tnodes s)(t \<mapsto> tn\<lparr>t_body := TFile f\<rparr>)\<rparr>"

section \<open>Operations\<close>

text \<open>No byte of a buffer that is \<^verbatim>\<open>nullptr\<close> may be touched.\<close>

definition tmpfs_rw :: "nat \<Rightarrow> vfs_rw \<Rightarrow> vfs_state \<Rightarrow> (u64 \<times> u8 list) vfs_result" where
  "tmpfs_rw n rw s = do {
     v \<leftarrow> vnodes s n;
     if n_type v \<noteq> VFS_NODE_TYPE_FILE then Some (s, Inl VFS_RESULT_ERR_NOT_FILE)
     else do {
       (t, tn, f) \<leftarrow> file_of v s;
       case rw_kind rw of
         VFS_RW_READ \<Rightarrow>
           if rw_offset rw \<ge> f_size f then Some (s, Inr (0, rw_buffer rw))
           else do {
             let n = min (f_size f - rw_offset rw) (rw_size rw);
             xs \<leftarrow> buffer_get (case f_base f of None \<Rightarrow> [] | Some b \<Rightarrow> b) (unat (rw_offset rw)) (unat n);
             buf \<leftarrow> buffer_put (rw_buffer rw) 0 xs;
             Some (s, Inr (n, buf))
           }
       | VFS_RW_WRITE \<Rightarrow> do {
           (s, f) \<leftarrow> (if rw_offset rw + rw_size rw > f_size f
             then do {
               (s, base) \<leftarrow> realloc_buffer (f_base f) (f_size f) (rw_offset rw + rw_size rw) s;
               let f = \<lparr>f_base = base, f_size = rw_offset rw + rw_size rw\<rparr>;
               Some (set_file t tn f s, f)
             }
             else Some (s, f));
           xs \<leftarrow> buffer_get (rw_buffer rw) 0 (unat (rw_size rw));
           b \<leftarrow> buffer_put (case f_base f of None \<Rightarrow> [] | Some b \<Rightarrow> b) (unat (rw_offset rw)) xs;
           Some (set_file t tn (f\<lparr>f_base := map_option (\<lambda>_. b) (f_base f)\<rparr>) s, Inr (rw_size rw, rw_buffer rw))
         }
     }
   }"

definition tmpfs_attr :: "nat \<Rightarrow> vfs_state \<Rightarrow> u64 vfs_result" where
  "tmpfs_attr n s = do {
     v \<leftarrow> vnodes s n;
     if n_type v = VFS_NODE_TYPE_FILE then do { (t, tn, f) \<leftarrow> file_of v s; Some (s, Inr (f_size f)) } else Some (s, Inr 0)
   }"

definition tmpfs_name :: "nat \<Rightarrow> vfs_state \<Rightarrow> string option" where
  "tmpfs_name n s = do { v \<leftarrow> vnodes s n; t \<leftarrow> TMPFS_NODE v; tn \<leftarrow> tnodes s t; Some (t_name tn) }"

definition tmpfs_lookup :: "nat \<Rightarrow> string \<Rightarrow> vfs_state \<Rightarrow> nat option vfs_result" where
  "tmpfs_lookup n name s = do {
     v \<leftarrow> vnodes s n;
     if n_type v \<noteq> VFS_NODE_TYPE_DIR then Some (s, Inl VFS_RESULT_ERR_NOT_DIR)
     else if name = ''.'' then Some (s, Inr (Some n))
     else do {
       t \<leftarrow> TMPFS_NODE v;
       if name = ''..'' then do {
         tn \<leftarrow> tnodes s t;
         case t_parent tn of None \<Rightarrow> Some (s, Inr None) | Some p \<Rightarrow> do { pn \<leftarrow> tnodes s p; Some (s, Inr (Some (t_vnode pn))) }
       } else do {
         found \<leftarrow> dir_find t name s;
         case found of None \<Rightarrow> Some (s, Inl VFS_RESULT_ERR_NOT_FOUND)
         | Some c \<Rightarrow> do { cn \<leftarrow> tnodes s c; Some (s, Inr (Some (t_vnode cn))) }
       }
     }
   }"

definition tmpfs_readdir :: "nat \<Rightarrow> u64 \<Rightarrow> vfs_state \<Rightarrow> (u64 \<times> string option) vfs_result" where
  "tmpfs_readdir n offset s = do {
     v \<leftarrow> vnodes s n;
     if n_type v \<noteq> VFS_NODE_TYPE_DIR then Some (s, Inl VFS_RESULT_ERR_NOT_DIR)
     else do {
       t \<leftarrow> TMPFS_NODE v;
       tn \<leftarrow> tnodes s t;
       case t_body tn of TFile _ \<Rightarrow> None | TDir cs \<Rightarrow>
         (case drop (unat offset) cs of [] \<Rightarrow> Some (s, Inr (offset + 1, None))
          | c # _ \<Rightarrow> do { cn \<leftarrow> tnodes s c; Some (s, Inr (offset + 1, Some (t_name cn))) })
     }
   }"

definition tmpfs_mknode :: "bool \<Rightarrow> nat \<Rightarrow> string \<Rightarrow> vfs_state \<Rightarrow> nat vfs_result" where
  "tmpfs_mknode is_dir n name s = do {
     v \<leftarrow> vnodes s n;
     if n_type v \<noteq> VFS_NODE_TYPE_DIR then Some (s, Inl VFS_RESULT_ERR_NOT_DIR)
     else do {
       t \<leftarrow> TMPFS_NODE v;
       found \<leftarrow> dir_find t name s;
       if found \<noteq> None then Some (s, Inl VFS_RESULT_ERR_EXISTS)
       else do {
         (s, c) \<leftarrow> make_tmpfs_node (Some t) (n_vfs v) is_dir name s;
         cn \<leftarrow> tnodes s c;
         Some (s, Inr (t_vnode cn))
       }
     }
   }"

definition tmpfs_mkdir :: "nat \<Rightarrow> string \<Rightarrow> vfs_state \<Rightarrow> nat vfs_result" where
  "tmpfs_mkdir = tmpfs_mknode True"

definition tmpfs_mkfile :: "nat \<Rightarrow> string \<Rightarrow> vfs_state \<Rightarrow> nat vfs_result" where
  "tmpfs_mkfile = tmpfs_mknode False"

definition tmpfs_truncate :: "nat \<Rightarrow> u64 \<Rightarrow> vfs_state \<Rightarrow> unit vfs_result" where
  "tmpfs_truncate n len s = do {
     v \<leftarrow> vnodes s n;
     if n_type v \<noteq> VFS_NODE_TYPE_FILE then Some (s, Inl VFS_RESULT_ERR_NOT_FILE)
     else do {
       (t, tn, f) \<leftarrow> file_of v s;
       (s, buf) \<leftarrow> (if len > 0 then do {
           let s = s\<lparr>fs_next := Suc (fs_next s)\<rparr>;
           let b = replicate (unat len) 0;
           case f_base f of None \<Rightarrow> Some (s, Some b)
           | Some old \<Rightarrow> do {
               xs \<leftarrow> buffer_get old 0 (unat (if f_size f < len then f_size f else len));
               b \<leftarrow> buffer_put b 0 xs;
               Some (s, Some b)
             }
         } else Some (s, None));
       Some (set_file t tn \<lparr>f_base = buf, f_size = len\<rparr> s, Inr ())
     }
   }"

definition tmpfs_mount :: "nat \<Rightarrow> vfs_state \<Rightarrow> unit vfs_result" where
  "tmpfs_mount vfs s = do {
     f \<leftarrow> vfss s vfs;
     let i = fs_next s;
     let s = s\<lparr>fs_next := Suc i, vfss := (vfss s)(vfs \<mapsto> f\<lparr>v_private := TmpfsInfo i\<rparr>), tinfos := (tinfos s)(i \<mapsto> \<lparr>ti_root = i, ti_id_counter = 1\<rparr>)\<rparr>;
     (s, t) \<leftarrow> make_tmpfs_node None vfs True ''root'' s;
     info \<leftarrow> tinfos s i;
     Some (s\<lparr>tinfos := (tinfos s)(i \<mapsto> info\<lparr>ti_root := t\<rparr>)\<rparr>, Inr ())
   }"

definition tmpfs_root :: "nat \<Rightarrow> vfs_state \<Rightarrow> nat option vfs_result" where
  "tmpfs_root vfs s = do {
     i \<leftarrow> tmpfs_INFO vfs s;
     info \<leftarrow> tinfos s i;
     tn \<leftarrow> tnodes s (ti_root info);
     Some (s, Inr (Some (t_vnode tn)))
   }"

end
