(* ===== verification/Rdsk.thy ===== *)
theory Rdsk
  imports VfsBase
begin

text \<open>
  The read only ramdisk of \<^verbatim>\<open>fs/rdsk.c\<close>. The image is a memory the boot loader filled: the header, the name table, and the tables of
  directories and files, whose entries are linked by indices that count from one. Pointers are 64 bit words with wrap around, as in the code; a chain of
  entries that loops is \<open>None\<close>.
\<close>

section \<open>The image\<close>

definition SUPPORTED_REVISION :: u64 where "SUPPORTED_REVISION = 0x101"

definition rdsk_header_t :: layout where
  "rdsk_header_t = [(''signature'', 4), (''revision'', 2), (''header_size'', 2), (''root_index'', 8), (''nametable_offset'', 8), (''nametable_size'', 8),
     (''dirtable_entry_size'', 2), (''dirtable_entry_count'', 8), (''dirtable_offset'', 8), (''filetable_entry_size'', 2), (''filetable_entry_count'', 8),
     (''filetable_offset'', 8)]"

definition rdsk_file_t :: layout where
  "rdsk_file_t = [(''used'', 1), (''nametable_offset'', 8), (''data_offset'', 8), (''size'', 8), (''next_index'', 8), (''parent_index'', 8)]"

definition rdsk_dir_t :: layout where
  "rdsk_dir_t = [(''used'', 1), (''nametable_offset'', 8), (''filetable_index'', 8), (''dirtable_index'', 8), (''next_index'', 8), (''parent_index'', 8)]"

definition hdr :: "memory \<Rightarrow> u64 \<Rightarrow> string \<Rightarrow> u64" where "hdr m h f = read_field m rdsk_header_t h f"

definition rdsk_get_name :: "memory \<Rightarrow> u64 \<Rightarrow> u64 \<Rightarrow> u64" where
  "rdsk_get_name m h offset = h + hdr m h ''nametable_offset'' + offset"

definition get_dir :: "memory \<Rightarrow> u64 \<Rightarrow> u64 \<Rightarrow> u64" where
  "get_dir m h index = h + hdr m h ''dirtable_offset'' + (index - 1) * hdr m h ''dirtable_entry_size''"

definition get_file :: "memory \<Rightarrow> u64 \<Rightarrow> u64 \<Rightarrow> u64" where
  "get_file m h index = h + hdr m h ''filetable_offset'' + (index - 1) * hdr m h ''filetable_entry_size''"

text \<open>Dividing by an entry size of zero faults.\<close>

definition get_dir_index :: "memory \<Rightarrow> u64 \<Rightarrow> u64 \<Rightarrow> u64 option" where
  "get_dir_index m h dir = (if hdr m h ''dirtable_entry_size'' = 0 then None
     else Some ((dir - (h + hdr m h ''dirtable_offset'')) div hdr m h ''dirtable_entry_size'' + 1))"

definition get_file_index :: "memory \<Rightarrow> u64 \<Rightarrow> u64 \<Rightarrow> u64 option" where
  "get_file_index m h file = (if hdr m h ''filetable_entry_size'' = 0 then None
     else Some ((file - (h + hdr m h ''filetable_offset'')) div hdr m h ''filetable_entry_size'' + 1))"

partial_function (option) find_dir_loop :: "memory \<Rightarrow> u64 \<Rightarrow> string \<Rightarrow> u64 \<Rightarrow> u64 option option" where
  "find_dir_loop m h name curindex =
    (if curindex \<noteq> 0 then
       (let curdir = get_dir m h curindex in
        if \<not> str_at m (unat (rdsk_get_name m h (read_field m rdsk_dir_t curdir ''nametable_offset''))) name
        then find_dir_loop m h name (read_field m rdsk_dir_t curdir ''next_index'')
        else Some (Some curdir))
     else Some None)"

definition find_dir :: "memory \<Rightarrow> u64 \<Rightarrow> u64 \<Rightarrow> string \<Rightarrow> u64 option option" where
  "find_dir m h dir name = find_dir_loop m h name (read_field m rdsk_dir_t dir ''dirtable_index'')"

partial_function (option) find_file_loop :: "memory \<Rightarrow> u64 \<Rightarrow> string \<Rightarrow> u64 \<Rightarrow> u64 option option" where
  "find_file_loop m h name curindex =
    (if curindex \<noteq> 0 then
       (let curfile = get_file m h curindex in
        if \<not> str_at m (unat (rdsk_get_name m h (read_field m rdsk_file_t curfile ''nametable_offset''))) name
        then find_file_loop m h name (read_field m rdsk_file_t curfile ''next_index'')
        else Some (Some curfile))
     else Some None)"

definition find_file :: "memory \<Rightarrow> u64 \<Rightarrow> u64 \<Rightarrow> string \<Rightarrow> u64 option option" where
  "find_file m h dir name = find_file_loop m h name (read_field m rdsk_dir_t dir ''filetable_index'')"

section \<open>Nodes\<close>

definition rdsk_INFO :: "nat \<Rightarrow> vfs_state \<Rightarrow> (nat \<times> rdsk_info) option" where
  "rdsk_INFO vfs s = do { f \<leftarrow> vfss s vfs; case v_private f of RdskInfo i \<Rightarrow> map_option (Pair i) (rinfos s i) | _ \<Rightarrow> None }"

definition rdsk_entry :: "vfs_node \<Rightarrow> u64 option" where
  "rdsk_entry v = (case n_private v of RdskEntry e \<Rightarrow> Some e | _ \<Rightarrow> None)"

definition rdsk_vnode :: "nat \<Rightarrow> vfs_node_type \<Rightarrow> u64 \<Rightarrow> vfs_node" where
  "rdsk_vnode vfs ty e = \<lparr>n_vfs = vfs, n_mounted_vfs = None, n_ops = RdskOps, n_type = ty, n_private = RdskEntry e\<rparr>"

text \<open>An index outside of the cache is undefined.\<close>

definition get_dir_vfs_node :: "nat \<Rightarrow> u64 \<Rightarrow> vfs_state \<Rightarrow> (vfs_state \<times> nat) option" where
  "get_dir_vfs_node vfs index s = do {
     (i, info) \<leftarrow> rdsk_INFO vfs s;
     let k = unat (index - 1);
     ASSERT (k < length (ri_dir_cache info));
     case ri_dir_cache info ! k of Some v \<Rightarrow> Some (s, v)
     | None \<Rightarrow> let v = fs_next s in
         Some (s\<lparr>fs_next := Suc v,
                 vnodes := (vnodes s)(v \<mapsto> rdsk_vnode vfs VFS_NODE_TYPE_DIR (get_dir (fs_image s) (ri_header info) index)),
                 rinfos := (rinfos s)(i \<mapsto> info\<lparr>ri_dir_cache := (ri_dir_cache info)[k := Some v]\<rparr>)\<rparr>, v)
   }"

definition get_file_vfs_node :: "nat \<Rightarrow> u64 \<Rightarrow> vfs_state \<Rightarrow> (vfs_state \<times> nat) option" where
  "get_file_vfs_node vfs index s = do {
     (i, info) \<leftarrow> rdsk_INFO vfs s;
     let k = unat (index - 1);
     ASSERT (k < length (ri_file_cache info));
     case ri_file_cache info ! k of Some v \<Rightarrow> Some (s, v)
     | None \<Rightarrow> let v = fs_next s in
         Some (s\<lparr>fs_next := Suc v,
                 vnodes := (vnodes s)(v \<mapsto> rdsk_vnode vfs VFS_NODE_TYPE_FILE (get_file (fs_image s) (ri_header info) index)),
                 rinfos := (rinfos s)(i \<mapsto> info\<lparr>ri_file_cache := (ri_file_cache info)[k := Some v]\<rparr>)\<rparr>, v)
   }"

section \<open>Operations\<close>

definition rdsk_rw :: "nat \<Rightarrow> vfs_rw \<Rightarrow> vfs_state \<Rightarrow> (u64 \<times> u8 list) vfs_result" where
  "rdsk_rw n rw s = do {
     v \<leftarrow> vnodes s n;
     if n_type v \<noteq> VFS_NODE_TYPE_FILE then Some (s, Inl VFS_RESULT_ERR_NOT_FILE)
     else if rw_kind rw = VFS_RW_WRITE then Some (s, Inl VFS_RESULT_ERR_READ_ONLY_FS)
     else do {
       file \<leftarrow> rdsk_entry v;
       let size' = read_field (fs_image s) rdsk_file_t file ''size'';
       if rw_offset rw \<ge> size' then Some (s, Inr (0, rw_buffer rw))
       else do {
         (i, info) \<leftarrow> rdsk_INFO (n_vfs v) s;
         let k = min (size' - rw_offset rw) (rw_size rw);
         let src = ri_header info + read_field (fs_image s) rdsk_file_t file ''data_offset'' + rw_offset rw;
         buf \<leftarrow> buffer_put (rw_buffer rw) 0 (bytes_at (fs_image s) (unat src) (unat k));
         Some (s, Inr (k, buf))
       }
     }
   }"

definition rdsk_attr :: "nat \<Rightarrow> vfs_state \<Rightarrow> u64 vfs_result" where
  "rdsk_attr n s = do {
     v \<leftarrow> vnodes s n;
     if n_type v = VFS_NODE_TYPE_FILE then do { file \<leftarrow> rdsk_entry v; Some (s, Inr (read_field (fs_image s) rdsk_file_t file ''size'')) } else Some (s, Inr 0)
   }"

definition rdsk_name :: "nat \<Rightarrow> vfs_state \<Rightarrow> string option" where
  "rdsk_name n s = do {
     v \<leftarrow> vnodes s n;
     e \<leftarrow> rdsk_entry v;
     (i, info) \<leftarrow> rdsk_INFO (n_vfs v) s;
     string_at (fs_image s) (unat (rdsk_get_name (fs_image s) (ri_header info) (case n_type v of
       VFS_NODE_TYPE_DIR \<Rightarrow> read_field (fs_image s) rdsk_dir_t e ''nametable_offset'' | VFS_NODE_TYPE_FILE \<Rightarrow> read_field (fs_image s) rdsk_file_t e ''nametable_offset'')))
   }"

definition rdsk_lookup :: "nat \<Rightarrow> string \<Rightarrow> vfs_state \<Rightarrow> nat option vfs_result" where
  "rdsk_lookup n name s = do {
     v \<leftarrow> vnodes s n;
     if n_type v \<noteq> VFS_NODE_TYPE_DIR then Some (s, Inl VFS_RESULT_ERR_NOT_DIR)
     else if name = ''.'' then Some (s, Inr (Some n))
     else do {
       dir \<leftarrow> rdsk_entry v;
       if name = ''..'' then
         (let parent_index = read_field (fs_image s) rdsk_dir_t dir ''parent_index'' in
          if parent_index \<noteq> 0 then do { (s, found) \<leftarrow> get_dir_vfs_node (n_vfs v) parent_index s; Some (s, Inr (Some found)) }
          else Some (s, Inr None))
       else do {
         (i, info) \<leftarrow> rdsk_INFO (n_vfs v) s;
         found_file \<leftarrow> find_file (fs_image s) (ri_header info) dir name;
         case found_file of Some file \<Rightarrow> do {
           index \<leftarrow> get_file_index (fs_image s) (ri_header info) file;
           (s, found) \<leftarrow> get_file_vfs_node (n_vfs v) index s;
           Some (s, Inr (Some found))
         } | None \<Rightarrow> do {
           found_dir \<leftarrow> find_dir (fs_image s) (ri_header info) dir name;
           case found_dir of Some d \<Rightarrow> do {
             index \<leftarrow> get_dir_index (fs_image s) (ri_header info) d;
             (s, found) \<leftarrow> get_dir_vfs_node (n_vfs v) index s;
             Some (s, Inr (Some found))
           } | None \<Rightarrow> Some (s, Inl VFS_RESULT_ERR_NOT_FOUND)
         }
       }
     }
   }"

text \<open>\<^verbatim>\<open>rdsk_readdir\<close> counts in \<^verbatim>\<open>int\<close>: the 64 bit values are truncated to 32 bits and read as signed numbers.\<close>

definition c_int :: "u64 \<Rightarrow> int" where
  "c_int x = sint (ucast x :: u32)"

fun skip_links :: "(u64 \<Rightarrow> u64) \<Rightarrow> nat \<Rightarrow> u64 \<Rightarrow> u64" where
  "skip_links nxt 0 index = index"
| "skip_links nxt (Suc k) index = (if index = 0 then 0 else skip_links nxt k (nxt index))"

definition rdsk_readdir :: "nat \<Rightarrow> u64 \<Rightarrow> vfs_state \<Rightarrow> (u64 \<times> string option) vfs_result" where
  "rdsk_readdir n offset s = do {
     v \<leftarrow> vnodes s n;
     if n_type v \<noteq> VFS_NODE_TYPE_DIR then Some (s, Inl VFS_RESULT_ERR_NOT_DIR)
     else do {
       dir \<leftarrow> rdsk_entry v;
       (i, info) \<leftarrow> rdsk_INFO (n_vfs v) s;
       let m = fs_image s;
       let h = ri_header info;
       let local = c_int offset;
       let files = c_int (hdr m h ''filetable_entry_count'');
       let index = skip_links (\<lambda>j. read_field m rdsk_file_t (get_file m h j) ''next_index'') (nat local) (read_field m rdsk_dir_t dir ''filetable_index'');
       if local < files \<and> index \<noteq> 0 then do {
         name \<leftarrow> string_at m (unat (rdsk_get_name m h (read_field m rdsk_file_t (get_file m h index) ''nametable_offset'')));
         Some (s, Inr (of_int (local + 1), Some name))
       } else do {
         let local = (if local < files then files else local);
         let index = skip_links (\<lambda>j. read_field m rdsk_dir_t (get_dir m h j) ''next_index'') (nat (local - files)) (read_field m rdsk_dir_t dir ''dirtable_index'');
         if index = 0 then Some (s, Inr (offset, None))
         else do {
           name \<leftarrow> string_at m (unat (rdsk_get_name m h (read_field m rdsk_dir_t (get_dir m h index) ''nametable_offset'')));
           Some (s, Inr (of_int (local + 1), Some name))
         }
       }
     }
   }"

definition rdsk_mkdir :: "nat \<Rightarrow> string \<Rightarrow> vfs_state \<Rightarrow> nat vfs_result" where
  "rdsk_mkdir n name s = Some (s, Inl VFS_RESULT_ERR_READ_ONLY_FS)"

definition rdsk_mkfile :: "nat \<Rightarrow> string \<Rightarrow> vfs_state \<Rightarrow> nat vfs_result" where
  "rdsk_mkfile n name s = Some (s, Inl VFS_RESULT_ERR_READ_ONLY_FS)"

definition rdsk_truncate :: "nat \<Rightarrow> u64 \<Rightarrow> vfs_state \<Rightarrow> unit vfs_result" where
  "rdsk_truncate n len s = Some (s, Inl VFS_RESULT_ERR_READ_ONLY_FS)"

definition rdsk_mount :: "nat \<Rightarrow> vfs_state \<Rightarrow> unit vfs_result" where
  "rdsk_mount vfs s = do {
     f \<leftarrow> vfss s vfs;
     case v_private f of Opaque h \<Rightarrow>
       if hdr (fs_image s) h ''revision'' > SUPPORTED_REVISION then Some (s, Inl VFS_RESULT_ERR_UNSUPPORTED)
       else let i = fs_next s;
           info = \<lparr>ri_header = h, ri_dir_cache = replicate (unat (hdr (fs_image s) h ''dirtable_entry_count'')) None,
                   ri_file_cache = replicate (unat (hdr (fs_image s) h ''filetable_entry_count'')) None\<rparr> in
         Some (s\<lparr>fs_next := Suc i, rinfos := (rinfos s)(i \<mapsto> info), vfss := (vfss s)(vfs \<mapsto> f\<lparr>v_private := RdskInfo i\<rparr>)\<rparr>, Inr ())
     | _ \<Rightarrow> None
   }"

definition rdsk_root :: "nat \<Rightarrow> vfs_state \<Rightarrow> nat option vfs_result" where
  "rdsk_root vfs s = do {
     (i, info) \<leftarrow> rdsk_INFO vfs s;
     (s, v) \<leftarrow> get_dir_vfs_node vfs (hdr (fs_image s) (ri_header info) ''root_index'') s;
     Some (s, Inr (Some v))
   }"

end
