(* ===== verification/Vfs.thy ===== *)
theory Vfs
  imports Tmpfs Rdsk
begin

text \<open>
  The virtual file system of \<^verbatim>\<open>fs/vfs.c\<close>: mounting, and the walk along a path. The calls through \<^verbatim>\<open>vfs_ops_t\<close> and
  \<^verbatim>\<open>vfs_node_ops_t\<close> dispatch on the file system of the object.
\<close>

section \<open>Calls through the operation tables\<close>

definition ops_mount :: "nat \<Rightarrow> vfs_state \<Rightarrow> unit vfs_result" where
  "ops_mount f s = do { vf \<leftarrow> vfss s f; case v_ops vf of TmpfsOps \<Rightarrow> tmpfs_mount f s | RdskOps \<Rightarrow> rdsk_mount f s }"

definition ops_root_node :: "nat \<Rightarrow> vfs_state \<Rightarrow> nat option vfs_result" where
  "ops_root_node f s = do { vf \<leftarrow> vfss s f; case v_ops vf of TmpfsOps \<Rightarrow> tmpfs_root f s | RdskOps \<Rightarrow> rdsk_root f s }"

definition node_lookup :: "nat \<Rightarrow> string \<Rightarrow> vfs_state \<Rightarrow> nat option vfs_result" where
  "node_lookup n name s = do { v \<leftarrow> vnodes s n; case n_ops v of TmpfsOps \<Rightarrow> tmpfs_lookup n name s | RdskOps \<Rightarrow> rdsk_lookup n name s }"

definition node_mkdir :: "nat \<Rightarrow> string \<Rightarrow> vfs_state \<Rightarrow> nat vfs_result" where
  "node_mkdir n name s = do { v \<leftarrow> vnodes s n; case n_ops v of TmpfsOps \<Rightarrow> tmpfs_mkdir n name s | RdskOps \<Rightarrow> rdsk_mkdir n name s }"

definition node_mkfile :: "nat \<Rightarrow> string \<Rightarrow> vfs_state \<Rightarrow> nat vfs_result" where
  "node_mkfile n name s = do { v \<leftarrow> vnodes s n; case n_ops v of TmpfsOps \<Rightarrow> tmpfs_mkfile n name s | RdskOps \<Rightarrow> rdsk_mkfile n name s }"

definition node_rw :: "nat \<Rightarrow> vfs_rw \<Rightarrow> vfs_state \<Rightarrow> (u64 \<times> u8 list) vfs_result" where
  "node_rw n rw s = do { v \<leftarrow> vnodes s n; case n_ops v of TmpfsOps \<Rightarrow> tmpfs_rw n rw s | RdskOps \<Rightarrow> rdsk_rw n rw s }"

text \<open>The result of a call is passed on when it succeeded.\<close>

definition on_ok :: "'a vfs_result \<Rightarrow> ('a \<Rightarrow> vfs_state \<Rightarrow> 'b vfs_result) \<Rightarrow> 'b vfs_result" where
  "on_ok r f = do { (s, res) \<leftarrow> r; case res of Inl e \<Rightarrow> Some (s, Inl e) | Inr x \<Rightarrow> f x s }"

section \<open>Paths\<close>

definition vfs_root :: "vfs_state \<Rightarrow> nat option vfs_result" where
  "vfs_root s = (case g_vfs_all s of [] \<Rightarrow> Some (s, Inl VFS_RESULT_ERR_NOT_FOUND) | f # _ \<Rightarrow> ops_root_node f s)"

text \<open>One component: the look up, or the creation of the last one. The parent of the root of a mounted file system is looked up a second time, which again finds
  no node, and the walk stays where it is.\<close>

definition walk_component :: "vfs_lookup_create \<Rightarrow> bool \<Rightarrow> bool \<Rightarrow> string \<Rightarrow> nat \<Rightarrow> vfs_state \<Rightarrow> nat vfs_result" where
  "walk_component create_mode exclusive last_comp component current s = do {
     (s, res) \<leftarrow> node_lookup current component s;
     (s, res, current) \<leftarrow> (case res of
         Inl e \<Rightarrow> Some (s, Inl e, current)
       | Inr (Some nxt) \<Rightarrow> Some (s, Inr (), nxt)
       | Inr None \<Rightarrow> do {
           v \<leftarrow> vnodes s current;
           f \<leftarrow> vfss s (n_vfs v);
           if v_mount_point f \<noteq> None then do {
             (s, res) \<leftarrow> node_lookup current ''..'' s;
             Some (s, (case res of Inl e \<Rightarrow> Inl e | Inr _ \<Rightarrow> Inr ()), current)
           } else Some (s, Inr (), current)
         });
     if res = Inl VFS_RESULT_ERR_NOT_FOUND \<and> last_comp then
       (case create_mode of
          VFS_LOOKUP_CREATE_FILE \<Rightarrow> node_mkfile current component s
        | VFS_LOOKUP_CREATE_DIR \<Rightarrow> node_mkdir current component s
        | VFS_LOOKUP_CREATE_NONE \<Rightarrow> Some (s, Inl VFS_RESULT_ERR_NOT_FOUND))
     else if exclusive then Some (s, Inl VFS_RESULT_ERR_EXISTS)
     else Some (s, (case res of Inl e \<Rightarrow> Inl e | Inr _ \<Rightarrow> Inr current))
   }"

text \<open>The step from a mount point to the root of the file system mounted on it. A root node that is \<^verbatim>\<open>nullptr\<close> is dereferenced next.\<close>

definition enter_mounted :: "nat \<Rightarrow> vfs_state \<Rightarrow> nat vfs_result" where
  "enter_mounted current s = do {
     v \<leftarrow> vnodes s current;
     case n_mounted_vfs v of None \<Rightarrow> Some (s, Inr current)
     | Some f \<Rightarrow> on_ok (ops_root_node f s) (\<lambda>r s. do { n \<leftarrow> r; Some (s, Inr n) })
   }"

text \<open>The loop of \<^verbatim>\<open>vfs_lookup_ext\<close>. The terminator stands behind the characters of the path; reading further is undefined.\<close>

function lookup_loop :: "string \<Rightarrow> vfs_lookup_create \<Rightarrow> bool \<Rightarrow> nat \<Rightarrow> nat \<Rightarrow> nat \<Rightarrow> vfs_state \<Rightarrow> nat vfs_result" where
  "lookup_loop path create_mode exclusive comp_start comp_end current s =
    (if comp_end > length path then None
     else let last_comp = (comp_end = length path); separator = (last_comp \<or> path ! comp_end = CHR ''/'') in
       on_ok
         (if separator \<and> comp_start \<noteq> comp_end
          then walk_component create_mode exclusive last_comp (take (comp_end - comp_start) (drop comp_start path)) current s
          else Some (s, Inr current))
         (\<lambda>current s. on_ok (enter_mounted current s)
           (\<lambda>current s. if last_comp then Some (s, Inr current)
              else lookup_loop path create_mode exclusive (if separator then comp_end + 1 else comp_start) (comp_end + 1) current s)))"
  by pat_completeness auto
termination by (relation "measure (\<lambda>(path, c, x, a, b, n, s). Suc (length path) - b)") auto

declare lookup_loop.simps [simp del]

definition vfs_lookup_ext :: "vfs_path \<Rightarrow> vfs_lookup_create \<Rightarrow> bool \<Rightarrow> vfs_state \<Rightarrow> nat vfs_result" where
  "vfs_lookup_ext path create_mode exclusive s =
    (if (p_relative path \<noteq> [] \<and> hd (p_relative path) = CHR ''/'') \<or> p_root path = None
     then on_ok (vfs_root s) (\<lambda>r s. case r of None \<Rightarrow> Some (s, Inl VFS_RESULT_ERR_NOT_FOUND)
       | Some current \<Rightarrow> lookup_loop (p_relative path) create_mode exclusive 1 1 current s)
     else lookup_loop (p_relative path) create_mode exclusive 0 0 (the (p_root path)) s)"

definition vfs_lookup :: "vfs_path \<Rightarrow> vfs_state \<Rightarrow> nat vfs_result" where
  "vfs_lookup path s = vfs_lookup_ext path VFS_LOOKUP_CREATE_NONE False s"

definition VFS_ABSOLUTE_PATH :: "string \<Rightarrow> vfs_path" where
  "VFS_ABSOLUTE_PATH path = \<lparr>p_root = None, p_relative = path\<rparr>"

definition vfs_rw_path :: "vfs_path \<Rightarrow> vfs_rw \<Rightarrow> vfs_state \<Rightarrow> (u64 \<times> u8 list) vfs_result" where
  "vfs_rw_path path rw s = on_ok (vfs_lookup path s) (\<lambda>n s. node_rw n rw s)"

definition vfs_mkdir :: "vfs_path \<Rightarrow> string \<Rightarrow> vfs_state \<Rightarrow> nat vfs_result" where
  "vfs_mkdir path name s = on_ok (vfs_lookup path s) (\<lambda>n s. node_mkdir n name s)"

definition vfs_mkfile :: "vfs_path \<Rightarrow> string \<Rightarrow> vfs_state \<Rightarrow> nat vfs_result" where
  "vfs_mkfile path name s = on_ok (vfs_lookup path s) (\<lambda>n s. node_mkfile n name s)"

section \<open>Mounting\<close>

text \<open>The result of the \<^verbatim>\<open>mount\<close> operation is ignored. A failed mount frees the \<^verbatim>\<open>vfs_t\<close>. Once a file system is mounted a path of \<^verbatim>\<open>nullptr\<close> is
  dereferenced.\<close>

definition vfs_free :: "nat \<Rightarrow> vfs_state \<Rightarrow> vfs_state" where
  "vfs_free f s = s\<lparr>vfss := (vfss s)(f := None)\<rparr>"

definition vfs_mount :: "vfs_ops \<Rightarrow> string option \<Rightarrow> u64 \<Rightarrow> vfs_state \<Rightarrow> unit vfs_result" where
  "vfs_mount ops path private_data s = do {
     let f = fs_next s;
     (s, _) \<leftarrow> ops_mount f (s\<lparr>fs_next := Suc f, vfss := (vfss s)(f \<mapsto> \<lparr>v_ops = ops, v_private = Opaque private_data, v_mount_point = None\<rparr>)\<rparr>);
     if g_vfs_all s = [] then
       (if path \<noteq> None then Some (vfs_free f s, Inl VFS_RESULT_ERR_NOT_FOUND)
        else Some (s\<lparr>g_vfs_all := g_vfs_all s @ [f]\<rparr>, Inr ()))
     else do {
       p \<leftarrow> path;
       (s, res) \<leftarrow> vfs_lookup (VFS_ABSOLUTE_PATH p) s;
       case res of Inl e \<Rightarrow> Some (vfs_free f s, Inl e)
       | Inr n \<Rightarrow> do {
           v \<leftarrow> vnodes s n;
           if n_type v \<noteq> VFS_NODE_TYPE_DIR then Some (vfs_free f s, Inl VFS_RESULT_ERR_NOT_DIR)
           else if n_mounted_vfs v \<noteq> None then Some (vfs_free f s, Inl VFS_RESULT_ERR_EXISTS)
           else do {
             vf \<leftarrow> vfss s f;
             Some (s\<lparr>vnodes := (vnodes s)(n \<mapsto> v\<lparr>n_mounted_vfs := Some f\<rparr>), vfss := (vfss s)(f \<mapsto> vf\<lparr>v_mount_point := Some n\<rparr>),
                     g_vfs_all := g_vfs_all s @ [f]\<rparr>, Inr ())
           }
         }
     }
   }"

end
