(* ===== verification/TmpfsInv.thy ===== *)
theory TmpfsInv
  imports Tmpfs
begin

text \<open>
  The invariant of the memory file system, and that every operation keeps it: nodes and their virtual nodes point to each other, a directory and its children
  know each other, the names in a directory are distinct, and the buffer of a file has its size.
\<close>

section \<open>The invariant\<close>

definition file_ok :: "tmpfs_file \<Rightarrow> bool" where
  "file_ok f = (case f_base f of None \<Rightarrow> f_size f = 0 | Some b \<Rightarrow> length b = unat (f_size f))"

definition body_ok :: "(nat \<Rightarrow> tmpfs_node option) \<Rightarrow> nat \<Rightarrow> tmpfs_body \<Rightarrow> bool" where
  "body_ok ns t b = (case b of TFile f \<Rightarrow> file_ok f
     | TDir cs \<Rightarrow> distinct (map (\<lambda>c. t_name (the (ns c))) cs) \<and> (\<forall>c \<in> set cs. \<exists>cn. ns c = Some cn \<and> t_parent cn = Some t))"

definition parent_ok :: "(nat \<Rightarrow> tmpfs_node option) \<Rightarrow> nat \<Rightarrow> nat option \<Rightarrow> bool" where
  "parent_ok ns t p = (case p of None \<Rightarrow> True | Some p \<Rightarrow> \<exists>pn cs. ns p = Some pn \<and> t_body pn = TDir cs \<and> t \<in> set cs)"

definition info_ok :: "vfs_state \<Rightarrow> nat \<Rightarrow> bool" where
  "info_ok s f \<longleftrightarrow> (\<exists>i info. tmpfs_INFO f s = Some i \<and> tinfos s i = Some info \<and> tnodes s (ti_root info) \<noteq> None)"

definition type_of_body :: "tmpfs_body \<Rightarrow> vfs_node_type" where
  "type_of_body b = (case b of TDir _ \<Rightarrow> VFS_NODE_TYPE_DIR | TFile _ \<Rightarrow> VFS_NODE_TYPE_FILE)"

definition tnode_ok :: "vfs_state \<Rightarrow> nat \<Rightarrow> tmpfs_node \<Rightarrow> bool" where
  "tnode_ok s t tn \<longleftrightarrow> body_ok (tnodes s) t (t_body tn) \<and> parent_ok (tnodes s) t (t_parent tn) \<and>
     (\<exists>v. vnodes s (t_vnode tn) = Some v \<and> n_private v = TmpfsNode t \<and> n_ops v = TmpfsOps \<and> n_type v = type_of_body (t_body tn) \<and> info_ok s (n_vfs v))"

definition vnode_ok :: "vfs_state \<Rightarrow> nat \<Rightarrow> vfs_node \<Rightarrow> bool" where
  "vnode_ok s n v \<longleftrightarrow> (n_ops v = TmpfsOps \<longrightarrow> (\<exists>t tn. n_private v = TmpfsNode t \<and> tnodes s t = Some tn \<and> t_vnode tn = n))"

definition fresh_ok :: "vfs_state \<Rightarrow> bool" where
  "fresh_ok s \<longleftrightarrow> (\<forall>k \<ge> fs_next s. vfss s k = None \<and> vnodes s k = None \<and> tnodes s k = None \<and> tinfos s k = None \<and> rinfos s k = None)"

definition tmpfs_wf :: "vfs_state \<Rightarrow> bool" where
  "tmpfs_wf s \<longleftrightarrow> fresh_ok s \<and> (\<forall>t tn. tnodes s t = Some tn \<longrightarrow> tnode_ok s t tn) \<and> (\<forall>n v. vnodes s n = Some v \<longrightarrow> vnode_ok s n v)"

text \<open>What the invariant says of a node of the file system.\<close>

lemma tmpfs_wf_node:
  assumes "tmpfs_wf s" "vnodes s n = Some v" "n_ops v = TmpfsOps"
  obtains t tn where "n_private v = TmpfsNode t" "tnodes s t = Some tn" "t_vnode tn = n" "n_type v = type_of_body (t_body tn)"
    "body_ok (tnodes s) t (t_body tn)" "parent_ok (tnodes s) t (t_parent tn)" "info_ok s (n_vfs v)"
proof -
  have "vnode_ok s n v" using assms(1,2) by (simp add: tmpfs_wf_def)
  then obtain t tn where t: "n_private v = TmpfsNode t" "tnodes s t = Some tn" "t_vnode tn = n" using assms(3) by (auto simp: vnode_ok_def)
  have "tnode_ok s t tn" using assms(1) t(2) by (simp add: tmpfs_wf_def)
  then show ?thesis using t assms(2) by (intro that[OF t]) (auto simp: tnode_ok_def)
qed

section \<open>Finding a child\<close>

lemma find_child_eq:
  assumes "\<forall>c \<in> set cs. ns c \<noteq> None"
  shows "find_child ns name cs = Some (List.find (\<lambda>c. t_name (the (ns c)) = name) cs)"
  using assms by (induction cs) auto

lemma find_child_body_ok: "body_ok ns t (TDir cs) \<Longrightarrow> find_child ns name cs = Some (List.find (\<lambda>c. t_name (the (ns c)) = name) cs)"
  by (rule find_child_eq) (auto simp: body_ok_def)

section \<open>Replacing the file of a node\<close>

lemma set_file_simps [simp]:
  "tnodes (set_file t tn f s) = (tnodes s)(t \<mapsto> tn\<lparr>t_body := TFile f\<rparr>)" "vnodes (set_file t tn f s) = vnodes s" "vfss (set_file t tn f s) = vfss s"
  "tinfos (set_file t tn f s) = tinfos s" "rinfos (set_file t tn f s) = rinfos s" "fs_next (set_file t tn f s) = fs_next s"
  "g_vfs_all (set_file t tn f s) = g_vfs_all s" "garbage (set_file t tn f s) = garbage s" "fs_image (set_file t tn f s) = fs_image s"
  by (simp_all add: set_file_def)

lemma set_file_set_file [simp]: "set_file t tn g (set_file t tn f s) = set_file t tn g s"
  by (simp add: set_file_def)

lemma body_ok_set_file:
  assumes "body_ok ns u b" "ns t = Some tn" "tn' = tn\<lparr>t_body := b'\<rparr>"
  shows "body_ok (ns(t \<mapsto> tn')) u b"
proof -
  have e: "(\<lambda>c. t_name (the ((ns(t \<mapsto> tn')) c))) = (\<lambda>c. t_name (the (ns c)))" using assms(2,3) by (auto simp: fun_eq_iff)
  have x: "\<exists>cn. (ns(t \<mapsto> tn')) c = Some cn \<and> t_parent cn = Some u" if "\<exists>cn. ns c = Some cn \<and> t_parent cn = Some u" for c
    using that assms(2,3) by auto
  show ?thesis by (cases b) (use assms(1) x in \<open>simp_all add: body_ok_def e del: fun_upd_apply\<close>)
qed

lemma parent_ok_set_file:
  assumes "parent_ok ns u p" "ns t = Some tn" "t_body tn = TFile g"
  shows "parent_ok (ns(t \<mapsto> tn')) u p"
  using assms by (auto simp: parent_ok_def split: option.splits)

lemma info_ok_tnodes:
  assumes "info_ok s f" "vfss s' = vfss s" "tinfos s' = tinfos s" "\<forall>k. tnodes s k \<noteq> None \<longrightarrow> tnodes s' k \<noteq> None"
  shows "info_ok s' f"
  using assms by (fastforce simp: info_ok_def tmpfs_INFO_def)

lemma tmpfs_wf_set_file:
  assumes wf: "tmpfs_wf s" and t: "tnodes s t = Some tn" "t_body tn = TFile g" and f: "file_ok f"
  shows "tmpfs_wf (set_file t tn f s)"
proof -
  let ?s = "set_file t tn f s"
  have io: "info_ok ?s k" if "info_ok s k" for k by (rule info_ok_tnodes[OF that]) (use t(1) in auto)
  have b: "body_ok (tnodes ?s) u x" if "body_ok (tnodes s) u x" for u x using body_ok_set_file[OF that t(1), of _ "TFile f"] by simp
  have p: "parent_ok (tnodes ?s) u x" if "parent_ok (tnodes s) u x" for u x using parent_ok_set_file[OF that t] by simp
  have "tnode_ok ?s u un" if "tnodes ?s u = Some un" for u un
  proof (cases "u = t")
    case True
    have o: "tnode_ok s t tn" using wf t(1) by (simp add: tmpfs_wf_def)
    have un: "un = tn\<lparr>t_body := TFile f\<rparr>" using that True by simp
    show ?thesis using o io p f True t(2) by (auto simp: un tnode_ok_def body_ok_def type_of_body_def)
  next
    case False
    then have "tnode_ok s u un" using that wf by (simp add: tmpfs_wf_def)
    then show ?thesis using b p io by (auto simp: tnode_ok_def)
  qed
  moreover have "vnode_ok ?s n v" if "vnodes s n = Some v" for n v
  proof -
    have "vnode_ok s n v" using wf that by (simp add: tmpfs_wf_def)
    then show ?thesis using t(1) by (fastforce simp: vnode_ok_def)
  qed
  moreover have "fresh_ok ?s" using wf t(1) by (auto simp: tmpfs_wf_def fresh_ok_def)
  ultimately show ?thesis by (simp add: tmpfs_wf_def)
qed

lemma tmpfs_wf_next: "tmpfs_wf s \<Longrightarrow> fs_next s \<le> k \<Longrightarrow> tmpfs_wf (s\<lparr>fs_next := k\<rparr>)"
  by (simp add: tmpfs_wf_def tnode_ok_def vnode_ok_def fresh_ok_def info_ok_def tmpfs_INFO_def)

section \<open>Creating a node\<close>

text \<open>The state after \<^verbatim>\<open>make_tmpfs_node\<close> below a directory.\<close>

definition new_body :: "bool \<Rightarrow> tmpfs_body" where
  "new_body is_dir = (if is_dir then TDir [] else TFile \<lparr>f_base = None, f_size = 0\<rparr>)"

definition new_tnode :: "vfs_state \<Rightarrow> u64 \<Rightarrow> nat option \<Rightarrow> bool \<Rightarrow> string \<Rightarrow> tmpfs_node" where
  "new_tnode s i p is_dir name = \<lparr>t_id = i, t_name = name, t_vnode = Suc (fs_next s), t_parent = p, t_body = new_body is_dir\<rparr>"

definition new_vnode :: "vfs_state \<Rightarrow> nat \<Rightarrow> bool \<Rightarrow> vfs_node" where
  "new_vnode s vfs is_dir = \<lparr>n_vfs = vfs, n_mounted_vfs = None, n_ops = TmpfsOps, n_type = type_of_body (new_body is_dir), n_private = TmpfsNode (fs_next s)\<rparr>"

lemma make_tmpfs_node_eq:
  assumes "info_ok s vfs" "tnodes s p = Some pn" "t_body pn = TDir cs" "p \<noteq> fs_next s"
  shows "\<exists>i info s'. tmpfs_INFO vfs s = Some i \<and> tinfos s i = Some info \<and> tnodes s (ti_root info) \<noteq> None \<and>
    make_tmpfs_node (Some p) vfs is_dir name s = Some (s', fs_next s) \<and>
    s' = s\<lparr>fs_next := Suc (Suc (fs_next s)), tinfos := (tinfos s)(i \<mapsto> info\<lparr>ti_id_counter := ti_id_counter info + 1\<rparr>),
      tnodes := (tnodes s)(p \<mapsto> pn\<lparr>t_body := TDir (fs_next s # cs)\<rparr>, fs_next s \<mapsto> new_tnode s (ti_id_counter info + 1) (Some p) is_dir name),
      vnodes := (vnodes s)(Suc (fs_next s) \<mapsto> new_vnode s vfs is_dir)\<rparr>"
  using assms by (auto simp: info_ok_def make_tmpfs_node_def add_child_def Let_def new_tnode_def new_vnode_def new_body_def type_of_body_def)


lemma tmpfs_wf_make:
  assumes wf: "tmpfs_wf s" and io: "info_ok s vfs" and i: "tmpfs_INFO vfs s = Some i" "tinfos s i = Some info"
    and p: "tnodes s p = Some pn" "t_body pn = TDir cs" and nm: "\<forall>c \<in> set cs. t_name (the (tnodes s c)) \<noteq> name"
    and s': "s' = s\<lparr>fs_next := Suc (Suc (fs_next s)), tinfos := (tinfos s)(i \<mapsto> info\<lparr>ti_id_counter := c\<rparr>),
      tnodes := (tnodes s)(p \<mapsto> pn\<lparr>t_body := TDir (fs_next s # cs)\<rparr>, fs_next s \<mapsto> new_tnode s c (Some p) is_dir name),
      vnodes := (vnodes s)(Suc (fs_next s) \<mapsto> new_vnode s vfs is_dir)\<rparr>"
  shows "tmpfs_wf s'"
proof -
  let ?t = "fs_next s"
  have fr: "tnodes s k = None" "vnodes s k = None" if "?t \<le> k" for k using wf that by (auto simp: tmpfs_wf_def fresh_ok_def)
  have pt: "p \<noteq> ?t" using fr p(1) by auto
  have tn: "tnodes s' = (tnodes s)(p \<mapsto> pn\<lparr>t_body := TDir (?t # cs)\<rparr>, ?t \<mapsto> new_tnode s c (Some p) is_dir name)"
    and vn: "vnodes s' = (vnodes s)(Suc ?t \<mapsto> new_vnode s vfs is_dir)" by (simp_all add: s')
  have old: "\<exists>un'. tnodes s' k = Some un' \<and> t_name un' = t_name un \<and> t_parent un' = t_parent un \<and> t_vnode un' = t_vnode un \<and> (t_body un = t_body un' \<or> k = p)"
    if "tnodes s k = Some un" for k un using that fr(1)[of ?t] p(1) by (auto simp: tn)
  have nt: "t_name (the (tnodes s' k)) = t_name (the (tnodes s k))" if "tnodes s k \<noteq> None" for k using that old by fastforce
  have io': "info_ok s' f" if "info_ok s f" for f
    using that i old unfolding info_ok_def tmpfs_INFO_def s' by (fastforce split: if_splits)
  have body: "body_ok (tnodes s') u b" if b: "body_ok (tnodes s) u b" for u b
  proof (cases b)
    case (TDir ds)
    then have e: "map (\<lambda>c. t_name (the (tnodes s' c))) ds = map (\<lambda>c. t_name (the (tnodes s c))) ds" using b nt by (fastforce simp: body_ok_def)
    have "distinct (map (\<lambda>c. t_name (the (tnodes s' c))) ds)" unfolding e using b TDir by (simp add: body_ok_def)
    moreover have "\<forall>c \<in> set ds. \<exists>cn. tnodes s' c = Some cn \<and> t_parent cn = Some u" using b TDir old by (fastforce simp: body_ok_def)
    ultimately show ?thesis using TDir by (simp add: body_ok_def)
  qed (use b in \<open>simp add: body_ok_def\<close>)
  have par: "parent_ok (tnodes s') u q" if "parent_ok (tnodes s) u q" for u q
    using that p fr(1)[of ?t] by (auto simp: parent_ok_def tn split: option.splits)
  have pok: "tnode_ok s p pn" using wf p(1) by (simp add: tmpfs_wf_def)
  have pb: "body_ok (tnodes s') p (TDir (?t # cs))"
  proof -
    have "body_ok (tnodes s') p (TDir cs)" using pok p(2) by (intro body) (simp add: tnode_ok_def)
    moreover have "t_name (the (tnodes s' k)) \<noteq> name" if "k \<in> set cs" for k
    proof -
      have "tnodes s k \<noteq> None" using pok p(2) that by (auto simp: tnode_ok_def body_ok_def)
      then show ?thesis using nt nm that by simp
    qed
    moreover have "tnodes s' ?t = Some (new_tnode s c (Some p) is_dir name)" by (simp add: tn)
    ultimately show ?thesis by (auto simp: body_ok_def new_tnode_def)
  qed
  have "tnode_ok s' u un" if u: "tnodes s' u = Some un" for u un
  proof -
    have "(u = ?t \<and> un = new_tnode s c (Some p) is_dir name) \<or> (u = p \<and> un = pn\<lparr>t_body := TDir (?t # cs)\<rparr>) \<or> tnodes s u = Some un"
      using u unfolding tn fun_upd_apply option.inject by (metis option.inject)
    then consider (new) "u = ?t" "un = new_tnode s c (Some p) is_dir name" | (parent) "u = p" "un = pn\<lparr>t_body := TDir (?t # cs)\<rparr>" | (old) "tnodes s u = Some un"
      by blast
    then show ?thesis
    proof cases
      case new
      have "parent_ok (tnodes s') ?t (Some p)" using pt by (simp add: parent_ok_def tn)
      then show ?thesis using io'[OF io] by (simp add: new tnode_ok_def new_tnode_def vn new_vnode_def body_ok_def new_body_def file_ok_def)
    next
      case parent
      then show ?thesis using pok pb par io' p(2) fr(2) by (auto simp: tnode_ok_def vn type_of_body_def)
    next
      case old
      then have "tnode_ok s u un" using wf by (simp add: tmpfs_wf_def)
      then show ?thesis using body par io' fr(2) by (auto simp: tnode_ok_def vn)
    qed
  qed
  moreover have "vnode_ok s' n v" if v: "vnodes s' n = Some v" for n v
  proof (cases "n = Suc ?t")
    case True
    then show ?thesis using v by (auto simp: vn vnode_ok_def new_vnode_def tn new_tnode_def)
  next
    case False
    then have "vnode_ok s n v" using wf v by (simp add: tmpfs_wf_def vn)
    then show ?thesis using old by (fastforce simp: vnode_ok_def)
  qed
  moreover have "fresh_ok s'"
  proof -
    have f: "fresh_ok s" using wf by (simp add: tmpfs_wf_def)
    then have "p < ?t" "i < ?t" using p(1) i(2) by (auto simp: fresh_ok_def not_less[symmetric])
    then show ?thesis using f by (auto simp: fresh_ok_def s')
  qed
  ultimately show ?thesis by (simp add: tmpfs_wf_def)
qed

end
