(* ===== verification/TmpfsSpec.thy ===== *)
theory TmpfsSpec
  imports TmpfsInv
begin

text \<open>
  What the memory file system promises: a directory is a finite map from names to nodes that creation extends, and a file is a sequence of bytes that
  writing, truncating and reading treat as one.
\<close>

section \<open>Directories as maps\<close>

definition is_tdir :: "vfs_state \<Rightarrow> nat \<Rightarrow> bool" where
  "is_tdir s n \<longleftrightarrow> (\<exists>v. vnodes s n = Some v \<and> n_ops v = TmpfsOps \<and> n_type v = VFS_NODE_TYPE_DIR)"

definition dir_map :: "(nat \<Rightarrow> tmpfs_node option) \<Rightarrow> nat \<Rightarrow> string \<Rightarrow> nat option" where
  "dir_map ns t name = (case map_option t_body (ns t) of
     Some (TDir cs) \<Rightarrow> map_option (\<lambda>c. t_vnode (the (ns c))) (List.find (\<lambda>c. t_name (the (ns c)) = name) cs) | _ \<Rightarrow> None)"

definition tnode_of :: "vfs_state \<Rightarrow> nat \<Rightarrow> nat option" where
  "tnode_of s n = (case vnodes s n of Some v \<Rightarrow> TMPFS_NODE v | None \<Rightarrow> None)"

definition entries :: "vfs_state \<Rightarrow> nat \<Rightarrow> string \<Rightarrow> nat option" where
  "entries s n name = (case tnode_of s n of Some t \<Rightarrow> dir_map (tnodes s) t name | None \<Rightarrow> None)"

text \<open>The directory a directory is in.\<close>

definition parent_of :: "vfs_state \<Rightarrow> nat \<Rightarrow> nat option" where
  "parent_of s n = do { t \<leftarrow> tnode_of s n; tn \<leftarrow> tnodes s t; p \<leftarrow> t_parent tn; pn \<leftarrow> tnodes s p; Some (t_vnode pn) }"

text \<open>The root of a mounted file system.\<close>

definition root_of :: "vfs_state \<Rightarrow> nat \<Rightarrow> nat" where
  "root_of s f = t_vnode (the (tnodes s (ti_root (the (tinfos s (the (tmpfs_INFO f s)))))))"

lemma is_tdir_obtain:
  assumes "tmpfs_wf s" "is_tdir s n"
  obtains v t tn cs where "vnodes s n = Some v" "n_type v = VFS_NODE_TYPE_DIR" "n_ops v = TmpfsOps" "n_private v = TmpfsNode t" "tnodes s t = Some tn"
    "t_vnode tn = n" "t_body tn = TDir cs" "body_ok (tnodes s) t (TDir cs)" "parent_ok (tnodes s) t (t_parent tn)" "info_ok s (n_vfs v)"
proof -
  obtain v where v: "vnodes s n = Some v" "n_ops v = TmpfsOps" "n_type v = VFS_NODE_TYPE_DIR" using assms(2) by (auto simp: is_tdir_def)
  obtain t tn where t: "n_private v = TmpfsNode t" "tnodes s t = Some tn" "t_vnode tn = n" "n_type v = type_of_body (t_body tn)"
    "body_ok (tnodes s) t (t_body tn)" "parent_ok (tnodes s) t (t_parent tn)" "info_ok s (n_vfs v)"
    by (rule tmpfs_wf_node[OF assms(1) v(1,2)])
  obtain cs where "t_body tn = TDir cs" using t(4) v(3) by (auto simp: type_of_body_def split: tmpfs_body.splits)
  then show ?thesis using that v t by simp
qed

lemma dir_find_eq:
  assumes "tmpfs_wf s" "is_tdir s n" "vnodes s n = Some v" "n_private v = TmpfsNode t" "tnodes s t = Some tn" "t_body tn = TDir cs"
  shows "dir_find t name s = Some (List.find (\<lambda>c. t_name (the (tnodes s c)) = name) cs)"
proof -
  obtain v' t' tn' cs' where o: "vnodes s n = Some v'" "n_type v' = VFS_NODE_TYPE_DIR" "n_ops v' = TmpfsOps" "n_private v' = TmpfsNode t'" "tnodes s t' = Some tn'"
    "t_vnode tn' = n" "t_body tn' = TDir cs'" "body_ok (tnodes s) t' (TDir cs')" "parent_ok (tnodes s) t' (t_parent tn')" "info_ok s (n_vfs v')"
    by (rule is_tdir_obtain[OF assms(1,2)])
  then have e: "v' = v" "t' = t" "tn' = tn" "cs' = cs" using assms(3-6) by auto
  show ?thesis using o assms(3-6) find_child_body_ok[OF o(8)] by (simp add: dir_find_def e)
qed

lemma find_in_set: "List.find P xs = Some x \<Longrightarrow> x \<in> set xs \<and> P x"
  by (auto simp: find_Some_iff)

text \<open>\<^verbatim>\<open>tmpfs_lookup\<close> is the look up in the map.\<close>

lemma tmpfs_lookup_entries:
  assumes "tmpfs_wf s" "is_tdir s n" "name \<noteq> ''.''" "name \<noteq> ''..''"
  shows "tmpfs_lookup n name s = Some (s, case entries s n name of None \<Rightarrow> Inl VFS_RESULT_ERR_NOT_FOUND | Some m \<Rightarrow> Inr (Some m))"
proof -
  obtain v t tn cs where o: "vnodes s n = Some v" "n_type v = VFS_NODE_TYPE_DIR" "n_ops v = TmpfsOps" "n_private v = TmpfsNode t" "tnodes s t = Some tn"
    "t_vnode tn = n" "t_body tn = TDir cs" "body_ok (tnodes s) t (TDir cs)" "parent_ok (tnodes s) t (t_parent tn)" "info_ok s (n_vfs v)"
    by (rule is_tdir_obtain[OF assms(1,2)])
  have f: "dir_find t name s = Some (List.find (\<lambda>c. t_name (the (tnodes s c)) = name) cs)" using dir_find_eq[OF assms(1,2) o(1,4,5,7)] .
  have "\<exists>cn. tnodes s c = Some cn" if "List.find (\<lambda>c. t_name (the (tnodes s c)) = name) cs = Some c" for c
    using find_in_set[OF that] o(8) by (auto simp: body_ok_def)
  then show ?thesis using o(1-7) assms(3,4) f
    by (auto simp: tmpfs_lookup_def TMPFS_NODE_def entries_def tnode_of_def dir_map_def split: option.splits)
qed

lemma tmpfs_lookup_dot: "is_tdir s n \<Longrightarrow> tmpfs_lookup n ''.'' s = Some (s, Inr (Some n))"
  by (auto simp: is_tdir_def tmpfs_lookup_def)

lemma tmpfs_lookup_dotdot:
  assumes "tmpfs_wf s" "is_tdir s n"
  shows "tmpfs_lookup n ''..'' s = Some (s, Inr (parent_of s n))"
proof -
  obtain v t tn cs where o: "vnodes s n = Some v" "n_type v = VFS_NODE_TYPE_DIR" "n_ops v = TmpfsOps" "n_private v = TmpfsNode t" "tnodes s t = Some tn"
    "t_vnode tn = n" "t_body tn = TDir cs" "body_ok (tnodes s) t (TDir cs)" "parent_ok (tnodes s) t (t_parent tn)" "info_ok s (n_vfs v)"
    by (rule is_tdir_obtain[OF assms])
  then show ?thesis by (auto simp: tmpfs_lookup_def TMPFS_NODE_def parent_of_def tnode_of_def parent_ok_def split: option.splits)
qed

lemma tmpfs_lookup_file: "vnodes s n = Some v \<Longrightarrow> n_type v \<noteq> VFS_NODE_TYPE_DIR \<Longrightarrow> tmpfs_lookup n name s = Some (s, Inl VFS_RESULT_ERR_NOT_DIR)"
  by (simp add: tmpfs_lookup_def)

section \<open>Creation extends the map\<close>

lemma dir_map_cong:
  assumes "ns t = Some tn" "ns' t = Some tn'" "t_body tn = TDir cs" "t_body tn' = TDir cs"
    "\<forall>c \<in> set cs. t_name (the (ns' c)) = t_name (the (ns c)) \<and> t_vnode (the (ns' c)) = t_vnode (the (ns c))"
  shows "dir_map ns' t = dir_map ns t"
proof
  fix name
  have f: "List.find (\<lambda>c. t_name (the (ns' c)) = name) cs = List.find (\<lambda>c. t_name (the (ns c)) = name) cs"
    by (rule find_cong) (use assms(5) in auto)
  show "dir_map ns' t name = dir_map ns t name"
    using assms f find_in_set by (fastforce simp: dir_map_def intro!: option.map_cong)
qed

lemma dir_map_Cons:
  assumes "ns t = Some tn" "t_body tn = TDir (c # cs)"
  shows "dir_map ns t = (dir_map (ns(t \<mapsto> tn\<lparr>t_body := TDir cs\<rparr>)) t)(t_name (the (ns c)) \<mapsto> t_vnode (the (ns c)))"
proof
  fix name
  let ?ns = "ns(t \<mapsto> tn\<lparr>t_body := TDir cs\<rparr>)"
  have e: "t_name (the (?ns k)) = t_name (the (ns k))" "t_vnode (the (?ns k)) = t_vnode (the (ns k))" for k using assms(1) by auto
  have f: "List.find (\<lambda>k. t_name (the (?ns k)) = name) cs = List.find (\<lambda>k. t_name (the (ns k)) = name) cs" unfolding e ..
  have "dir_map ?ns t name = map_option (\<lambda>k. t_vnode (the (?ns k))) (List.find (\<lambda>k. t_name (the (?ns k)) = name) cs)"
    by (simp add: dir_map_def)
  then have "dir_map ?ns t name = map_option (\<lambda>k. t_vnode (the (ns k))) (List.find (\<lambda>k. t_name (the (ns k)) = name) cs)" unfolding e .
  then show "dir_map ns t name = ((dir_map ?ns t)(t_name (the (ns c)) \<mapsto> t_vnode (the (ns c)))) name"
    using assms by (simp add: dir_map_def)
qed

text \<open>What a created node changes: the state before and after, the directory, the name and the node.\<close>

definition extends :: "vfs_state \<Rightarrow> nat \<Rightarrow> string \<Rightarrow> bool \<Rightarrow> nat \<Rightarrow> vfs_state \<Rightarrow> bool" where
  "extends s n name is_dir m s' \<longleftrightarrow>
     (\<exists>v. vnodes s n = Some v \<and> vnodes s m = None \<and> vnodes s' = (vnodes s)(m \<mapsto> new_vnode s (n_vfs v) is_dir)) \<and>
     vfss s' = vfss s \<and> g_vfs_all s' = g_vfs_all s \<and>
     entries s' n = (entries s n)(name \<mapsto> m) \<and> entries s' m = Map.empty \<and> parent_of s' m = Some n \<and> parent_of s' n = parent_of s n \<and>
     (\<forall>k. is_tdir s k \<longrightarrow> k \<noteq> n \<longrightarrow> entries s' k = entries s k \<and> parent_of s' k = parent_of s k) \<and>
     (\<forall>f. info_ok s f \<longrightarrow> info_ok s' f \<and> root_of s' f = root_of s f)"

lemma tnode_of_tdir: "vnodes s n = Some v \<Longrightarrow> n_private v = TmpfsNode t \<Longrightarrow> tnode_of s n = Some t"
  by (simp add: tnode_of_def TMPFS_NODE_def)

lemma make_extends:
  assumes wf: "tmpfs_wf s" and td: "is_tdir s n" and d: "vnodes s n = Some v" "n_ops v = TmpfsOps" "n_private v = TmpfsNode t" "tnodes s t = Some tn" "t_vnode tn = n" "t_body tn = TDir cs"
    and s': "vnodes s' = (vnodes s)(Suc (fs_next s) \<mapsto> new_vnode s (n_vfs v) is_dir)"
      "tnodes s' = (tnodes s)(t \<mapsto> tn\<lparr>t_body := TDir (fs_next s # cs)\<rparr>, fs_next s \<mapsto> new_tnode s c (Some t) is_dir name)"
      "vfss s' = vfss s" "g_vfs_all s' = g_vfs_all s" "tinfos s' = (tinfos s)(i \<mapsto> info\<lparr>ti_id_counter := c\<rparr>)" "tinfos s i = Some info"
  shows "extends s n name is_dir (Suc (fs_next s)) s'"
proof -
  let ?t = "fs_next s" and ?m = "Suc (fs_next s)"
  have fr: "tnodes s ?t = None" "vnodes s ?m = None" using wf by (auto simp: tmpfs_wf_def fresh_ok_def)
  have tt: "t \<noteq> ?t" "n \<noteq> ?m" using fr d(1,4) by auto
  have old: "tnodes s' k = Some kn \<or> k = t \<and> tnodes s' k = Some (tn\<lparr>t_body := TDir (?t # cs)\<rparr>)" if "tnodes s k = Some kn" for k kn
    using that fr(1) by (auto simp: s'(2))
  have nm: "t_name (the (tnodes s' k)) = t_name kn \<and> t_vnode (the (tnodes s' k)) = t_vnode kn" if "tnodes s k = Some kn" for k kn
    using old[OF that] that d(4) by auto
  have to: "tnode_of s' k = tnode_of s k" if "vnodes s k = Some kv" for k kv
    using that fr(2) by (cases "k = ?m") (auto simp: tnode_of_def s'(1))
  have par: "parent_of s' k = parent_of s k" if kd: "is_tdir s k" for k
  proof -
    obtain kv kt kn ks where k: "vnodes s k = Some kv" "n_type kv = VFS_NODE_TYPE_DIR" "n_ops kv = TmpfsOps" "n_private kv = TmpfsNode kt" "tnodes s kt = Some kn"
      "t_vnode kn = k" "t_body kn = TDir ks" "body_ok (tnodes s) kt (TDir ks)" "parent_ok (tnodes s) kt (t_parent kn)" "info_ok s (n_vfs kv)"
      by (rule is_tdir_obtain[OF wf kd])
    obtain kn' where kn': "tnodes s' kt = Some kn'" "t_parent kn' = t_parent kn" using old[OF k(5)] k(5) d(4) by auto
    have "tnode_of s k = Some kt" "tnode_of s' k = Some kt" using tnode_of_tdir[OF k(1,4)] to[OF k(1)] by auto
    moreover have "t_vnode (the (tnodes s' q)) = t_vnode (the (tnodes s q)) \<and> tnodes s' q \<noteq> None" if "t_parent kn = Some q" for q
      using that k(9) old[of q] nm[of q] by (auto simp: parent_ok_def)
    ultimately show ?thesis using kn' k(5,9) by (cases "t_parent kn") (auto simp: parent_of_def parent_ok_def)
  qed
  have n': "dir_map (tnodes s') t = (dir_map (tnodes s) t)(name \<mapsto> ?m)"
  proof -
    have s1: "tnodes s' t = Some (tn\<lparr>t_body := TDir (?t # cs)\<rparr>)" "tnodes s' ?t = Some (new_tnode s c (Some t) is_dir name)" using tt by (simp_all add: s'(2))
    have b: "\<forall>k \<in> set cs. tnodes s k \<noteq> None" using wf d(4,6) by (fastforce simp: tmpfs_wf_def tnode_ok_def body_ok_def)
    have "dir_map ((tnodes s')(t \<mapsto> tn\<lparr>t_body := TDir cs\<rparr>)) t = dir_map (tnodes s) t"
    proof (rule dir_map_cong[where ns = "tnodes s" and t = t and tn = tn and cs = cs and tn' = "tn\<lparr>t_body := TDir cs\<rparr>", OF d(4) _ d(6)])
      show "\<forall>k \<in> set cs. t_name (the (((tnodes s')(t \<mapsto> tn\<lparr>t_body := TDir cs\<rparr>)) k)) = t_name (the (tnodes s k)) \<and>
          t_vnode (the (((tnodes s')(t \<mapsto> tn\<lparr>t_body := TDir cs\<rparr>)) k)) = t_vnode (the (tnodes s k))"
        using b nm d(4) by fastforce
    qed simp_all
    then show ?thesis using dir_map_Cons[where ns = "tnodes s'" and t = t and c = ?t and cs = cs, OF s1(1)] s1(2) by (simp add: new_tnode_def)
  qed
  have other: "entries s' k = entries s k" if k: "is_tdir s k" "k \<noteq> n" for k
  proof -
    obtain kv kt kn ks where k': "vnodes s k = Some kv" "n_type kv = VFS_NODE_TYPE_DIR" "n_ops kv = TmpfsOps" "n_private kv = TmpfsNode kt" "tnodes s kt = Some kn"
      "t_vnode kn = k" "t_body kn = TDir ks" "body_ok (tnodes s) kt (TDir ks)" "parent_ok (tnodes s) kt (t_parent kn)" "info_ok s (n_vfs kv)"
      by (rule is_tdir_obtain[OF wf k(1)])
    have ne: "kt \<noteq> t" using k(2) k'(5,6) d(4,5) by auto
    have "dir_map (tnodes s') kt = dir_map (tnodes s) kt"
    proof (rule dir_map_cong[where ns = "tnodes s" and t = kt and tn = kn and tn' = kn, OF k'(5) _ k'(7) k'(7)])
      show "tnodes s' kt = Some kn" using old[OF k'(5)] ne by auto
      show "\<forall>j \<in> set ks. t_name (the (tnodes s' j)) = t_name (the (tnodes s j)) \<and> t_vnode (the (tnodes s' j)) = t_vnode (the (tnodes s j))"
        using k'(8) nm by (fastforce simp: body_ok_def)
    qed
    then show ?thesis using tnode_of_tdir[OF k'(1,4)] to[OF k'(1)] by (auto simp: entries_def fun_eq_iff)
  qed
  have roots: "info_ok s' f \<and> root_of s' f = root_of s f" if fo: "info_ok s f" for f
  proof -
    obtain j info' kn where j: "tmpfs_INFO f s = Some j" "tinfos s j = Some info'" "tnodes s (ti_root info') = Some kn" using fo by (auto simp: info_ok_def)
    have j': "tmpfs_INFO f s' = Some j" using j(1) s'(3) by (simp add: tmpfs_INFO_def)
    obtain info'' where i'': "tinfos s' j = Some info''" "ti_root info'' = ti_root info'" using j(2) s'(5,6) by (cases "j = i") auto
    obtain kn' where "tnodes s' (ti_root info') = Some kn'" "t_vnode kn' = t_vnode kn" using old[OF j(3)] nm[OF j(3)] by auto
    then show ?thesis using j j' i'' by (simp add: info_ok_def root_of_def)
  qed
  have tm: "tnode_of s' ?m = Some ?t" "tnode_of s n = Some t" "tnode_of s' n = Some t"
    using tnode_of_tdir[OF d(1,3)] to[OF d(1)] by (auto simp: s'(1) tnode_of_def new_vnode_def TMPFS_NODE_def)
  have "entries s' ?m = Map.empty" unfolding entries_def tm using fr(1)
    by (simp add: fun_eq_iff dir_map_def s'(2) new_tnode_def new_body_def)
  moreover have "parent_of s' ?m = Some n" using tm tt d(5) by (simp add: parent_of_def s'(2) new_tnode_def)
  moreover have "parent_of s' n = parent_of s n" by (rule par[OF td])
  ultimately show ?thesis unfolding extends_def using d(1) fr(2) s'(1,3,4) other par n' tm roots by (auto simp: entries_def fun_eq_iff)
qed

lemma tmpfs_mknode_new:
  assumes "tmpfs_wf s" "is_tdir s n" "entries s n name = None"
  shows "\<exists>s' m. tmpfs_mknode is_dir n name s = Some (s', Inr m) \<and> tmpfs_wf s' \<and> extends s n name is_dir m s'"
proof -
  obtain v t tn cs where o: "vnodes s n = Some v" "n_type v = VFS_NODE_TYPE_DIR" "n_ops v = TmpfsOps" "n_private v = TmpfsNode t" "tnodes s t = Some tn"
    "t_vnode tn = n" "t_body tn = TDir cs" "body_ok (tnodes s) t (TDir cs)" "parent_ok (tnodes s) t (t_parent tn)" "info_ok s (n_vfs v)"
    by (rule is_tdir_obtain[OF assms(1,2)])
  have "List.find (\<lambda>c. t_name (the (tnodes s c)) = name) cs = None" using assms(3) o(1,4,5,7) by (simp add: entries_def tnode_of_def TMPFS_NODE_def dir_map_def)
  then have f: "dir_find t name s = Some None" and nm: "\<forall>c \<in> set cs. t_name (the (tnodes s c)) \<noteq> name"
    using dir_find_eq[OF assms(1,2) o(1,4,5,7)] by (auto simp: find_None_iff)
  have tt: "t \<noteq> fs_next s" using assms(1) o(5) by (auto simp: tmpfs_wf_def fresh_ok_def)
  obtain i info s' where i: "tmpfs_INFO (n_vfs v) s = Some i" "tinfos s i = Some info"
    and mk: "make_tmpfs_node (Some t) (n_vfs v) is_dir name s = Some (s', fs_next s)"
    and s': "s' = s\<lparr>fs_next := Suc (Suc (fs_next s)), tinfos := (tinfos s)(i \<mapsto> info\<lparr>ti_id_counter := ti_id_counter info + 1\<rparr>),
      tnodes := (tnodes s)(t \<mapsto> tn\<lparr>t_body := TDir (fs_next s # cs)\<rparr>, fs_next s \<mapsto> new_tnode s (ti_id_counter info + 1) (Some t) is_dir name),
      vnodes := (vnodes s)(Suc (fs_next s) \<mapsto> new_vnode s (n_vfs v) is_dir)\<rparr>"
    using make_tmpfs_node_eq[OF o(10,5,7) tt, of is_dir name] by blast
  have "tnodes s' (fs_next s) = Some (new_tnode s (ti_id_counter info + 1) (Some t) is_dir name)" by (simp add: s')
  then have "tmpfs_mknode is_dir n name s = Some (s', Inr (Suc (fs_next s)))"
    using o(1,2,4) f mk by (simp add: tmpfs_mknode_def TMPFS_NODE_def new_tnode_def)
  moreover have "tmpfs_wf s'" by (rule tmpfs_wf_make[OF assms(1) o(10) i o(5,7) nm s'])
  moreover have "extends s n name is_dir (Suc (fs_next s)) s'"
    by (rule make_extends[where i = i and info = info, OF assms(1,2) o(1,3,4,5,6,7)]) (simp_all add: s' i)
  ultimately show ?thesis by blast
qed

lemma tmpfs_mknode_exists:
  assumes "tmpfs_wf s" "is_tdir s n" "entries s n name \<noteq> None"
  shows "tmpfs_mknode is_dir n name s = Some (s, Inl VFS_RESULT_ERR_EXISTS)"
proof -
  obtain v t tn cs where o: "vnodes s n = Some v" "n_type v = VFS_NODE_TYPE_DIR" "n_ops v = TmpfsOps" "n_private v = TmpfsNode t" "tnodes s t = Some tn"
    "t_vnode tn = n" "t_body tn = TDir cs" "body_ok (tnodes s) t (TDir cs)" "parent_ok (tnodes s) t (t_parent tn)" "info_ok s (n_vfs v)"
    by (rule is_tdir_obtain[OF assms(1,2)])
  then show ?thesis using assms(3) dir_find_eq[OF assms(1,2) o(1,4,5,7)]
    by (simp add: tmpfs_mknode_def TMPFS_NODE_def entries_def tnode_of_def dir_map_def)
qed

section \<open>Files as sequences of bytes\<close>

definition contents :: "vfs_state \<Rightarrow> nat \<Rightarrow> u8 list option" where
  "contents s n = do { v \<leftarrow> vnodes s n; (t, tn, f) \<leftarrow> file_of v s; Some (case f_base f of None \<Rightarrow> [] | Some b \<Rightarrow> b) }"

definition is_tfile :: "vfs_state \<Rightarrow> nat \<Rightarrow> bool" where
  "is_tfile s n \<longleftrightarrow> (\<exists>v. vnodes s n = Some v \<and> n_ops v = TmpfsOps \<and> n_type v = VFS_NODE_TYPE_FILE)"

lemma is_tfile_obtain:
  assumes "tmpfs_wf s" "is_tfile s n"
  obtains v t tn f where "vnodes s n = Some v" "n_type v = VFS_NODE_TYPE_FILE" "n_ops v = TmpfsOps" "n_private v = TmpfsNode t" "tnodes s t = Some tn"
    "t_vnode tn = n" "t_body tn = TFile f" "file_ok f" "file_of v s = Some (t, tn, f)" "contents s n = Some (case f_base f of None \<Rightarrow> [] | Some b \<Rightarrow> b)"
proof -
  obtain v where v: "vnodes s n = Some v" "n_ops v = TmpfsOps" "n_type v = VFS_NODE_TYPE_FILE" using assms(2) by (auto simp: is_tfile_def)
  obtain t tn where t: "n_private v = TmpfsNode t" "tnodes s t = Some tn" "t_vnode tn = n" "n_type v = type_of_body (t_body tn)"
    "body_ok (tnodes s) t (t_body tn)" "parent_ok (tnodes s) t (t_parent tn)" "info_ok s (n_vfs v)"
    by (rule tmpfs_wf_node[OF assms(1) v(1,2)])
  obtain f where f: "t_body tn = TFile f" using t(4) v(3) by (auto simp: type_of_body_def split: tmpfs_body.splits)
  moreover have "file_of v s = Some (t, tn, f)" using t f by (simp add: file_of_def TMPFS_NODE_def)
  ultimately show ?thesis using that v t by (simp add: contents_def body_ok_def)
qed

lemma file_ok_length: "file_ok f \<Longrightarrow> length (case f_base f of None \<Rightarrow> [] | Some b \<Rightarrow> b) = unat (f_size f)"
  by (auto simp: file_ok_def split: option.splits)

text \<open>Writing back the file of one node leaves every other file as it is.\<close>

lemma contents_set_file:
  assumes "tmpfs_wf s" "vnodes s n = Some v" "n_private v = TmpfsNode t" "tnodes s t = Some tn" "t_vnode tn = n"
  shows "contents (set_file t tn f s) n = Some (case f_base f of None \<Rightarrow> [] | Some b \<Rightarrow> b)"
    and "is_tfile s m \<Longrightarrow> m \<noteq> n \<Longrightarrow> contents (set_file t tn f s) m = contents s m"
proof -
  show "contents (set_file t tn f s) n = Some (case f_base f of None \<Rightarrow> [] | Some b \<Rightarrow> b)"
    using assms by (simp add: contents_def file_of_def TMPFS_NODE_def)
  assume m: "is_tfile s m" "m \<noteq> n"
  obtain w u un g where w: "vnodes s m = Some w" "n_type w = VFS_NODE_TYPE_FILE" "n_ops w = TmpfsOps" "n_private w = TmpfsNode u" "tnodes s u = Some un"
    "t_vnode un = m" "t_body un = TFile g" "file_ok g" "file_of w s = Some (u, un, g)" "contents s m = Some (case f_base g of None \<Rightarrow> [] | Some b \<Rightarrow> b)"
    by (rule is_tfile_obtain[OF assms(1) m(1)])
  have "u \<noteq> t" using w(5,6) assms(4,5) m(2) by auto
  then show "contents (set_file t tn f s) m = contents s m" using w by (simp add: contents_def file_of_def TMPFS_NODE_def)
qed

definition file_bytes :: "tmpfs_file \<Rightarrow> u8 list" where
  "file_bytes f = (case f_base f of None \<Rightarrow> [] | Some b \<Rightarrow> b)"

lemma realloc_grow:
  assumes "file_ok f" "f_size f < new"
  shows "\<exists>nb. realloc_buffer (f_base f) (f_size f) new s = Some (s\<lparr>fs_next := Suc (fs_next s)\<rparr>, Some nb) \<and>
    length nb = unat new \<and> take (length (file_bytes f)) nb = file_bytes f"
proof -
  have n: "new \<noteq> 0" "f_size f \<noteq> new" using assms(2) by auto
  let ?g = "map (garbage s (fs_next s)) [0..<unat new]"
  show ?thesis
  proof (cases "f_base f")
    case None
    then show ?thesis using n by (simp add: realloc_buffer_def fresh_buffer_def file_bytes_def)
  next
    case (Some b)
    have l: "length b = unat (f_size f)" using assms(1) Some by (simp add: file_ok_def)
    then have "length b \<le> unat new" using assms(2) by (simp add: word_less_nat_alt)
    then show ?thesis using n Some assms(2) l by (cases "f_size f = 0") (auto simp: realloc_buffer_def fresh_buffer_def file_bytes_def)
  qed
qed

lemma contents_next [simp]: "contents (s\<lparr>fs_next := k\<rparr>) = contents s"
  by (simp add: fun_eq_iff contents_def file_of_def)

lemma is_tfile_next [simp]: "is_tfile (s\<lparr>fs_next := k\<rparr>) = is_tfile s"
  by (simp add: fun_eq_iff is_tfile_def)

lemma is_tfile_set_file [simp]: "is_tfile (set_file t tn f s) = is_tfile s"
  by (simp add: fun_eq_iff is_tfile_def)

text \<open>The file after a write: its size, the bytes written, and the bytes it had.\<close>

definition written :: "u8 list \<Rightarrow> nat \<Rightarrow> u8 list \<Rightarrow> u8 list \<Rightarrow> bool" where
  "written c off xs c' \<longleftrightarrow> length c' = max (length c) (off + length xs) \<and> take (length xs) (drop off c') = xs \<and>
     (\<forall>i < length c. i < off \<or> off + length xs \<le> i \<longrightarrow> c' ! i = c ! i)"

lemma written_put:
  assumes "length b = max (length c) (off + length xs)" "take (length c) b = c"
  shows "\<exists>c'. buffer_put b off xs = Some c' \<and> written c off xs c'"
proof -
  have nth: "b ! i = c ! i" if "i < length c" for i using that assms by (metis nth_take)
  have "\<exists>c'. buffer_put b off xs = Some c'" using assms(1) by (auto simp: buffer_put_def)
  then obtain c' where c': "buffer_put b off xs = Some c'" by blast
  have l: "length c' = length b" by (rule length_buffer_put[OF c'])
  have "take (length xs) (drop off c') = xs" using buffer_get_put[OF c'] by (auto simp: buffer_get_def split: if_splits)
  moreover have "c' ! i = c ! i" if "i < length c" "i < off \<or> off + length xs \<le> i" for i
    using nth_buffer_put[OF c', of i] nth[OF that(1)] that assms(1) by auto
  ultimately show ?thesis using c' l assms(1) by (auto simp: written_def)
qed

lemma tmpfs_write_ok:
  assumes wf: "tmpfs_wf s" and n: "is_tfile s n" and c: "contents s n = Some c"
    and sz: "length xs = unat size'" "unat off + length xs < 2 ^ 64"
  shows "\<exists>s' c'. tmpfs_rw n \<lparr>rw_kind = VFS_RW_WRITE, rw_offset = off, rw_size = size', rw_buffer = xs\<rparr> s = Some (s', Inr (size', xs)) \<and>
    tmpfs_wf s' \<and> is_tfile s' n \<and> contents s' n = Some c' \<and> written c (unat off) xs c' \<and> (\<forall>m. is_tfile s m \<longrightarrow> m \<noteq> n \<longrightarrow> contents s' m = contents s m)"
proof -
  obtain v t tn f where o: "vnodes s n = Some v" "n_type v = VFS_NODE_TYPE_FILE" "n_ops v = TmpfsOps" "n_private v = TmpfsNode t" "tnodes s t = Some tn"
    "t_vnode tn = n" "t_body tn = TFile f" "file_ok f" "file_of v s = Some (t, tn, f)" "contents s n = Some (case f_base f of None \<Rightarrow> [] | Some b \<Rightarrow> b)"
    by (rule is_tfile_obtain[OF wf n])
  have cf: "c = file_bytes f" "length c = unat (f_size f)" using o(10) c file_ok_length[OF o(8)] by (auto simp: file_bytes_def)
  have ns: "unat (off + size') = unat off + length xs" using sz by (simp add: unat_plus_if')
  have get: "buffer_get xs 0 (unat size') = Some xs" using sz(1) by (auto simp: buffer_get_def)
  show ?thesis
  proof (cases "off + size' > f_size f")
    case True
    obtain nb where nb: "realloc_buffer (f_base f) (f_size f) (off + size') s = Some (s\<lparr>fs_next := Suc (fs_next s)\<rparr>, Some nb)"
      "length nb = unat (off + size')" "take (length (file_bytes f)) nb = file_bytes f" using realloc_grow[OF o(8) True, of s] by blast
    have "length nb = max (length c) (unat off + length xs)" using nb(2) ns cf(2) True by (simp add: word_less_nat_alt)
    then obtain c' where c': "buffer_put nb (unat off) xs = Some c'" "written c (unat off) xs c'"
      using written_put[of nb c "unat off" xs] nb(3) cf(1) by auto
    let ?s = "set_file t tn \<lparr>f_base = Some c', f_size = off + size'\<rparr> (s\<lparr>fs_next := Suc (fs_next s)\<rparr>)"
    have w1: "tmpfs_wf (s\<lparr>fs_next := Suc (fs_next s)\<rparr>)" by (rule tmpfs_wf_next[OF wf]) simp
    have "file_ok \<lparr>f_base = Some c', f_size = off + size'\<rparr>" using length_buffer_put[OF c'(1)] nb(2) by (simp add: file_ok_def)
    then have "tmpfs_wf ?s" using o(5,7) by (intro tmpfs_wf_set_file[OF w1, of t tn f]) simp_all
    moreover have "tmpfs_rw n \<lparr>rw_kind = VFS_RW_WRITE, rw_offset = off, rw_size = size', rw_buffer = xs\<rparr> s = Some (?s, Inr (size', xs))"
      using True o(1,2,9) nb(1) get c'(1) by (simp add: tmpfs_rw_def Let_def)
    moreover have "contents ?s n = Some c'" "\<forall>m. is_tfile s m \<longrightarrow> m \<noteq> n \<longrightarrow> contents ?s m = contents s m"
      using contents_set_file[where f = "\<lparr>f_base = Some c', f_size = off + size'\<rparr>" and n = n and v = v and t = t and tn = tn, OF w1] o(1,4,5,6) by simp_all
    ultimately show ?thesis using c'(2) n by (intro exI[of _ ?s] exI[of _ c']) simp
  next
    case False
    have "length c = max (length c) (unat off + length xs)" using False ns cf(2) by (simp add: word_le_nat_alt not_less)
    then obtain c' where c': "buffer_put c (unat off) xs = Some c'" "written c (unat off) xs c'" using written_put[of c c "unat off" xs] by auto
    let ?f = "f\<lparr>f_base := map_option (\<lambda>_. c') (f_base f)\<rparr>"
    have ok: "file_ok ?f" "file_bytes ?f = c'" using o(8) cf c'(1) length_buffer_put[OF c'(1)]
      by (auto simp: file_ok_def file_bytes_def split: option.splits)
    let ?s = "set_file t tn ?f s"
    have "tmpfs_wf ?s" by (rule tmpfs_wf_set_file[OF wf o(5,7) ok(1)])
    moreover have "tmpfs_rw n \<lparr>rw_kind = VFS_RW_WRITE, rw_offset = off, rw_size = size', rw_buffer = xs\<rparr> s = Some (?s, Inr (size', xs))"
      using False o(1,2,9) get c'(1) cf(1) by (simp add: tmpfs_rw_def Let_def file_bytes_def)
    moreover have "contents ?s n = Some c'" "\<forall>m. is_tfile s m \<longrightarrow> m \<noteq> n \<longrightarrow> contents ?s m = contents s m"
      using contents_set_file[where f = ?f, OF wf o(1,4,5,6)] ok(2) by (simp_all add: file_bytes_def)
    ultimately show ?thesis using c'(2) n by (intro exI[of _ ?s] exI[of _ c']) simp
  qed
qed

lemma tmpfs_read_ok:
  assumes wf: "tmpfs_wf s" and n: "is_tfile s n" and c: "contents s n = Some c" and b: "unat size' \<le> length buf"
    and k_def: "k = min (length c - unat off) (unat size')"
  shows "tmpfs_rw n \<lparr>rw_kind = VFS_RW_READ, rw_offset = off, rw_size = size', rw_buffer = buf\<rparr> s =
    Some (s, Inr (of_nat k, take k (drop (unat off) c) @ drop k buf))"
proof -
  obtain v t tn f where o: "vnodes s n = Some v" "n_type v = VFS_NODE_TYPE_FILE" "n_ops v = TmpfsOps" "n_private v = TmpfsNode t" "tnodes s t = Some tn"
    "t_vnode tn = n" "t_body tn = TFile f" "file_ok f" "file_of v s = Some (t, tn, f)" "contents s n = Some (case f_base f of None \<Rightarrow> [] | Some b \<Rightarrow> b)"
    by (rule is_tfile_obtain[OF wf n])
  have cf: "c = (case f_base f of None \<Rightarrow> [] | Some b \<Rightarrow> b)" "length c = unat (f_size f)" using o(10) c file_ok_length[OF o(8)] by auto
  show ?thesis
  proof (cases "off \<ge> f_size f")
    case True
    then have "k = 0" using cf(2) by (simp add: k_def word_le_nat_alt)
    then show ?thesis using True o(1,2,9) by (simp add: tmpfs_rw_def)
  next
    case False
    then have lt: "unat off < length c" using cf(2) by (simp add: word_le_nat_alt)
    have "unat (f_size f - off) = length c - unat off" using False cf(2) by (simp add: unat_sub)
    then have k: "unat (min (f_size f - off) size') = k" by (simp add: k_def min_def word_le_nat_alt)
    then have kw: "min (f_size f - off) size' = of_nat k" by (simp flip: k)
    have g: "buffer_get c (unat off) k = Some (take k (drop (unat off) c))" using lt by (auto simp: buffer_get_def k_def)
    have l: "length (take k (drop (unat off) c)) = k" using lt by (simp add: k_def)
    have "buffer_put buf 0 (take k (drop (unat off) c)) = Some (take k (drop (unat off) c) @ drop k buf)"
      using b l lt by (cases "k = 0") (auto simp: buffer_put_def k_def)
    then show ?thesis using False o(1,2,9) g by (simp add: tmpfs_rw_def Let_def k flip: cf(1)) (simp add: kw)
  qed
qed

text \<open>Truncation cuts the file off, or extends it with zeros.\<close>

lemma tmpfs_truncate_ok:
  assumes wf: "tmpfs_wf s" and n: "is_tfile s n" and c: "contents s n = Some c"
  shows "\<exists>s'. tmpfs_truncate n len s = Some (s', Inr ()) \<and> tmpfs_wf s' \<and> contents s' n = Some (take (unat len) c @ replicate (unat len - length c) 0) \<and>
    (\<forall>m. is_tfile s m \<longrightarrow> m \<noteq> n \<longrightarrow> contents s' m = contents s m)"
proof -
  obtain v t tn f where o: "vnodes s n = Some v" "n_type v = VFS_NODE_TYPE_FILE" "n_ops v = TmpfsOps" "n_private v = TmpfsNode t" "tnodes s t = Some tn"
    "t_vnode tn = n" "t_body tn = TFile f" "file_ok f" "file_of v s = Some (t, tn, f)" "contents s n = Some (case f_base f of None \<Rightarrow> [] | Some b \<Rightarrow> b)"
    by (rule is_tfile_obtain[OF wf n])
  have cf: "c = (case f_base f of None \<Rightarrow> [] | Some b \<Rightarrow> b)" "length c = unat (f_size f)" using o(10) c file_ok_length[OF o(8)] by auto
  let ?c = "take (unat len) c @ replicate (unat len - length c) 0"
  let ?f = "\<lparr>f_base = (if len = 0 then None else Some ?c), f_size = len\<rparr>"
  let ?s1 = "if len = 0 then s else s\<lparr>fs_next := Suc (fs_next s)\<rparr>"
  let ?s = "set_file t tn ?f ?s1"
  have w1: "tmpfs_wf ?s1" using wf tmpfs_wf_next[OF wf, of "Suc (fs_next s)"] by simp
  have "file_ok ?f" by (auto simp: file_ok_def min_def)
  then have "tmpfs_wf ?s" using o(5,7) by (intro tmpfs_wf_set_file[OF w1, of t tn f]) simp_all
  moreover have "contents ?s n = Some ?c" "\<forall>m. is_tfile s m \<longrightarrow> m \<noteq> n \<longrightarrow> contents ?s m = contents s m"
    using contents_set_file[where f = ?f and n = n and v = v and t = t and tn = tn, OF w1] o(1,4,5,6) by (simp_all split: if_splits)
  moreover have "tmpfs_truncate n len s = Some (?s, Inr ())"
  proof (cases "f_base f")
    case None
    then show ?thesis using o(1,2,9) cf by (simp add: tmpfs_truncate_def Let_def word_greater_zero_iff)
  next
    case (Some b)
    have m: "unat (if f_size f < len then f_size f else len) = min (length c) (unat len)" using cf(2) by (simp add: word_less_nat_alt min_def)
    have bc: "b = c" using cf(1) Some by simp
    have "buffer_get c 0 (min (length c) (unat len)) = Some (take (unat len) c)" by (auto simp: buffer_get_def min_def)
    moreover have "buffer_put (replicate (unat len) 0) 0 (take (unat len) c) = Some ?c" by (auto simp: buffer_put_def min_def)
    ultimately show ?thesis using o(1,2,9) Some m bc by (simp add: tmpfs_truncate_def Let_def word_greater_zero_iff)
  qed
  ultimately show ?thesis by blast
qed

section \<open>Mounting\<close>

lemma tmpfs_mount_ok:
  assumes wf: "tmpfs_wf s" and f: "vfss s f = Some vf" "tmpfs_INFO f s = None"
  shows "\<exists>s' r. tmpfs_mount f s = Some (s', Inr ()) \<and> tmpfs_wf s' \<and> tmpfs_root f s' = Some (s', Inr (Some r)) \<and>
    is_tdir s' r \<and> entries s' r = Map.empty \<and> parent_of s' r = None \<and> vnodes s r = None \<and> vnodes s' = (vnodes s)(r \<mapsto> the (vnodes s' r)) \<and>
    g_vfs_all s' = g_vfs_all s"
proof -
  let ?i = "fs_next s"
  let ?tn = "\<lparr>t_id = 2, t_name = ''root'', t_vnode = Suc (Suc ?i), t_parent = None, t_body = TDir []\<rparr>"
  let ?vn = "\<lparr>n_vfs = f, n_mounted_vfs = None, n_ops = TmpfsOps, n_type = VFS_NODE_TYPE_DIR, n_private = TmpfsNode (Suc ?i)\<rparr>"
  let ?s = "s\<lparr>fs_next := Suc (Suc (Suc ?i)), vfss := (vfss s)(f \<mapsto> vf\<lparr>v_private := TmpfsInfo ?i\<rparr>), tinfos := (tinfos s)(?i \<mapsto> \<lparr>ti_root = Suc ?i, ti_id_counter = 2\<rparr>),
      tnodes := (tnodes s)(Suc ?i \<mapsto> ?tn), vnodes := (vnodes s)(Suc (Suc ?i) \<mapsto> ?vn)\<rparr>"
  have fo: "fresh_ok s" using wf by (simp add: tmpfs_wf_def)
  have fr: "tnodes s (Suc ?i) = None" "vnodes s (Suc (Suc ?i)) = None" "tinfos s ?i = None" "f < ?i"
    using fo f(1) by (auto simp: fresh_ok_def not_less[symmetric])
  have io: "info_ok ?s g" if "info_ok s g" for g
  proof -
    have "g \<noteq> f" using that f(2) by (auto simp: info_ok_def)
    then show ?thesis using that fr by (fastforce simp: info_ok_def tmpfs_INFO_def)
  qed
  have body: "body_ok (tnodes ?s) u b" if "body_ok (tnodes s) u b" for u b
  proof (cases b)
    case (TDir cs)
    then have "\<forall>c \<in> set cs. tnodes ?s c = tnodes s c" using that fr(1) by (auto simp: body_ok_def)
    then show ?thesis using that TDir by (simp add: body_ok_def cong: map_cong)
  qed (use that in \<open>simp add: body_ok_def\<close>)
  have par: "parent_ok (tnodes ?s) u p" if "parent_ok (tnodes s) u p" for u p using that fr(1) by (auto simp: parent_ok_def split: option.splits)
  have "tnode_ok ?s u un" if "tnodes ?s u = Some un" for u un
  proof (cases "u = Suc ?i")
    case True
    moreover have "info_ok ?s f" by (simp add: info_ok_def tmpfs_INFO_def)
    ultimately show ?thesis using that by (auto simp: tnode_ok_def body_ok_def parent_ok_def type_of_body_def)
  next
    case False
    then have "tnode_ok s u un" using that wf by (simp add: tmpfs_wf_def)
    then show ?thesis using body par io fr(2) by (auto simp: tnode_ok_def)
  qed
  moreover have "vnode_ok ?s n v" if "vnodes ?s n = Some v" for n v
  proof (cases "n = Suc (Suc ?i)")
    case True
    then have "v = ?vn" using that by simp
    then show ?thesis using True by (simp add: vnode_ok_def)
  next
    case False
    then have "vnode_ok s n v" using that wf by (simp add: tmpfs_wf_def)
    moreover have "tnodes ?s u = Some un" if "tnodes s u = Some un" for u un using that fr(1) by auto
    ultimately show ?thesis unfolding vnode_ok_def by blast
  qed
  moreover have "fresh_ok ?s" using fo fr(4) by (auto simp: fresh_ok_def)
  ultimately have "tmpfs_wf ?s" by (simp add: tmpfs_wf_def)
  moreover have "tmpfs_mount f s = Some (?s, Inr ())" using f(1) by (simp add: tmpfs_mount_def make_tmpfs_node_def tmpfs_INFO_def Let_def)
  moreover have "tmpfs_root f ?s = Some (?s, Inr (Some (Suc (Suc ?i))))" by (simp add: tmpfs_root_def tmpfs_INFO_def)
  moreover have "is_tdir ?s (Suc (Suc ?i))" by (simp add: is_tdir_def)
  moreover have "entries ?s (Suc (Suc ?i)) = Map.empty" by (simp add: fun_eq_iff entries_def tnode_of_def TMPFS_NODE_def dir_map_def)
  moreover have "parent_of ?s (Suc (Suc ?i)) = None" by (simp add: parent_of_def tnode_of_def TMPFS_NODE_def)
  ultimately show ?thesis using fr(2) by (intro exI[of _ ?s] exI[of _ "Suc (Suc ?i)"]) simp
qed

section \<open>The contract of a directory\<close>

text \<open>What a client of directories relies on: an entry is a name bound to a node, creation binds a free name to a new node and fails on a bound one, and look up
  reads the binding.\<close>

fun create_list :: "(string \<Rightarrow> 's \<Rightarrow> ('s \<times> ('e + 'n)) option) \<Rightarrow> string list \<Rightarrow> 's \<Rightarrow> ('s \<times> 'n list) option" where
  "create_list mk [] s = Some (s, [])"
| "create_list mk (name # names) s = do {
     (s, res) \<leftarrow> mk name s;
     case res of Inl e \<Rightarrow> None | Inr m \<Rightarrow> do { (s, ms) \<leftarrow> create_list mk names s; Some (s, m # ms) }
   }"

locale directory =
  fixes invar :: "'s \<Rightarrow> bool"
    and is_dir :: "'s \<Rightarrow> 'n \<Rightarrow> bool"
    and bindings :: "'s \<Rightarrow> 'n \<Rightarrow> string \<Rightarrow> 'n option"
    and create :: "'n \<Rightarrow> string \<Rightarrow> 's \<Rightarrow> ('s \<times> ('e + 'n)) option"
    and find :: "'n \<Rightarrow> string \<Rightarrow> 's \<Rightarrow> ('s \<times> ('e + 'n option)) option"
    and special :: "string set"
  assumes create_new: "invar s \<Longrightarrow> is_dir s n \<Longrightarrow> bindings s n name = None \<Longrightarrow>
      \<exists>s' m. create n name s = Some (s', Inr m) \<and> invar s' \<and> is_dir s' n \<and> bindings s' n = (bindings s n)(name \<mapsto> m)"
    and create_bound: "invar s \<Longrightarrow> is_dir s n \<Longrightarrow> bindings s n name \<noteq> None \<Longrightarrow> \<exists>e. create n name s = Some (s, Inl e)"
    and find_bound: "invar s \<Longrightarrow> is_dir s n \<Longrightarrow> name \<notin> special \<Longrightarrow> bindings s n name = Some m \<Longrightarrow> find n name s = Some (s, Inr (Some m))"
begin

text \<open>Creating nodes with distinct free names binds each of them.\<close>

lemma create_list_ok:
  assumes "invar s" "is_dir s n" "distinct names" "\<forall>name \<in> set names. bindings s n name = None"
  shows "\<exists>s' ms. create_list (create n) names s = Some (s', ms) \<and> invar s' \<and> is_dir s' n \<and> length ms = length names \<and>
    bindings s' n = bindings s n ++ map_of (zip names ms)"
  using assms
proof (induction names arbitrary: s)
  case (Cons name names)
  obtain s1 m where s1: "create n name s = Some (s1, Inr m)" "invar s1" "is_dir s1 n" "bindings s1 n = (bindings s n)(name \<mapsto> m)"
    using create_new[of s n name] Cons.prems by auto
  have "\<forall>x \<in> set names. bindings s1 n x = None" using Cons.prems(3,4) s1(4) by auto
  then obtain s2 ms where s2: "create_list (create n) names s1 = Some (s2, ms)" "invar s2" "is_dir s2 n" "length ms = length names"
    "bindings s2 n = bindings s1 n ++ map_of (zip names ms)" using Cons.IH[OF s1(2,3)] Cons.prems(3) by auto
  have "name \<notin> dom (map_of (zip names ms))" using Cons.prems(3) s2(4) by (auto simp: dom_map_of_zip)
  then have "bindings s2 n = bindings s n ++ map_of (zip (name # names) (m # ms))"
    unfolding s2(5) s1(4) by (auto simp: fun_eq_iff map_add_def dom_def split: option.splits)
  then show ?case using s1(1) s2 by auto
qed (auto simp: map_add_def fun_eq_iff)

text \<open>Each of them is then found, and cannot be created again.\<close>

lemma create_list_find:
  assumes "invar s" "is_dir s n" "distinct names" "\<forall>name \<in> set names. bindings s n name = None \<and> name \<notin> special"
  shows "\<exists>s' ms. create_list (create n) names s = Some (s', ms) \<and> length ms = length names \<and>
    (\<forall>i < length names. find n (names ! i) s' = Some (s', Inr (Some (ms ! i))) \<and> (\<exists>e. create n (names ! i) s' = Some (s', Inl e)))"
proof -
  obtain s' ms where s': "create_list (create n) names s = Some (s', ms)" "invar s'" "is_dir s' n" "length ms = length names"
    "bindings s' n = bindings s n ++ map_of (zip names ms)" using create_list_ok[OF assms(1-3)] assms(4) by auto
  have "bindings s' n (names ! i) = Some (ms ! i)" if "i < length names" for i
    using that s'(4) assms(3) by (simp add: s'(5) map_of_zip_nth)
  then show ?thesis using s'(1-4) assms(4) find_bound[OF s'(2,3)] create_bound[OF s'(2,3)] by (intro exI[of _ s'] exI[of _ ms]) auto
qed

end

lemma extends_is_tdir: "extends s n name d m s' \<Longrightarrow> is_tdir s k \<Longrightarrow> is_tdir s' k"
  by (auto simp: extends_def is_tdir_def)

lemma extends_entries: "extends s n name d m s' \<Longrightarrow> entries s' n = (entries s n)(name \<mapsto> m)"
  by (simp add: extends_def)

lemma tmpfs_directory: "directory tmpfs_wf is_tdir entries (tmpfs_mknode d) tmpfs_lookup {''.'', ''..''}"
proof
  fix s :: vfs_state and n name m
  assume a: "tmpfs_wf s" "is_tdir s n"
  show "\<exists>s' m. tmpfs_mknode d n name s = Some (s', Inr m) \<and> tmpfs_wf s' \<and> is_tdir s' n \<and> entries s' n = (entries s n)(name \<mapsto> m)" if "entries s n name = None"
    using tmpfs_mknode_new[OF a that, of d] extends_is_tdir a(2) extends_entries by blast
  show "\<exists>e. tmpfs_mknode d n name s = Some (s, Inl e)" if "entries s n name \<noteq> None" using tmpfs_mknode_exists[OF a that] by blast
  show "tmpfs_lookup n name s = Some (s, Inr (Some m))" if "name \<notin> {''.'', ''..''}" "entries s n name = Some m"
    using tmpfs_lookup_entries[OF a, of name] that by simp
qed

interpretation tdir: directory tmpfs_wf is_tdir entries tmpfs_mkdir tmpfs_lookup "{''.'', ''..''}"
  unfolding tmpfs_mkdir_def by (rule tmpfs_directory)

interpretation tfile: directory tmpfs_wf is_tdir entries tmpfs_mkfile tmpfs_lookup "{''.'', ''..''}"
  unfolding tmpfs_mkfile_def by (rule tmpfs_directory)

section \<open>A file system for the examples\<close>

definition demo_empty :: vfs_state where
  "demo_empty = \<lparr>g_vfs_all = [], vfss = [0 \<mapsto> \<lparr>v_ops = TmpfsOps, v_private = Opaque 0, v_mount_point = None\<rparr>], vnodes = Map.empty, tnodes = Map.empty,
     tinfos = Map.empty, rinfos = Map.empty, fs_image = (\<lambda>_. 0), garbage = (\<lambda>_ _. 0xAA), fs_next = 1\<rparr>"

definition demo_fs :: vfs_state where
  "demo_fs = fst (the (tmpfs_mount 0 demo_empty))"

definition demo_file_fs :: vfs_state where
  "demo_file_fs = fst (the (tmpfs_mkfile 3 ''a'' demo_fs))"

lemma demo_empty_wf: "tmpfs_wf demo_empty" "tmpfs_INFO 0 demo_empty = None"
  by (auto simp: demo_empty_def tmpfs_wf_def fresh_ok_def tmpfs_INFO_def)

lemma demo_fs_ok: "tmpfs_wf demo_fs" "is_tdir demo_fs 3" "entries demo_fs 3 = Map.empty"
proof -
  obtain s' r where s': "tmpfs_mount 0 demo_empty = Some (s', Inr ())" "tmpfs_wf s'" using tmpfs_mount_ok[OF demo_empty_wf(1) _ demo_empty_wf(2)]
    by (auto simp: demo_empty_def)
  then show "tmpfs_wf demo_fs" by (simp add: demo_fs_def)
  show "is_tdir demo_fs 3" "entries demo_fs 3 = Map.empty"
    by (simp_all add: demo_fs_def demo_empty_def tmpfs_mount_def make_tmpfs_node_def tmpfs_INFO_def Let_def is_tdir_def entries_def tnode_of_def
      TMPFS_NODE_def dir_map_def fun_eq_iff numeral_3_eq_3)
qed

lemma demo_file_ok: "tmpfs_wf demo_file_fs" "is_tfile demo_file_fs 5" "contents demo_file_fs 5 = Some []"
proof -
  obtain s' m where s': "tmpfs_mkfile 3 ''a'' demo_fs = Some (s', Inr m)" "tmpfs_wf s'" 
    using tmpfs_mknode_new[OF demo_fs_ok(1,2), of "''a''" False] demo_fs_ok(3) by (auto simp: tmpfs_mkfile_def)
  then show "tmpfs_wf demo_file_fs" by (simp add: demo_file_fs_def)
  show "is_tfile demo_file_fs 5" "contents demo_file_fs 5 = Some []"
    by (simp_all add: demo_file_fs_def demo_fs_def demo_empty_def tmpfs_mount_def make_tmpfs_node_def tmpfs_INFO_def Let_def is_tfile_def contents_def tmpfs_mkfile_def
      tmpfs_mknode_def TMPFS_NODE_def dir_find_def add_child_def file_of_def eval_nat_numeral)
qed

section \<open>Properties\<close>

text \<open>
  (C35) A directory of the memory file system is a map from names to nodes, and creation refines the update of that map: on a free name \<^verbatim>\<open>tmpfs_mkdir\<close> and
  \<^verbatim>\<open>tmpfs_mkfile\<close> succeed, keep the invariant and bind the name to a new node, changing no other directory; the new node is empty, \<^verbatim>\<open>..\<close> leads back from it, and
  \<^verbatim>\<open>tmpfs_lookup\<close> finds it. On a bound name they fail with \<^verbatim>\<open>VFS_RESULT_ERR_EXISTS\<close> and change nothing.
\<close>

theorem tmpfs_create_correct:
  assumes "tmpfs_wf s" "is_tdir s n" "name \<noteq> ''.''" "name \<noteq> ''..''" "mk = (if d then tmpfs_mkdir else tmpfs_mkfile)"
  shows "case entries s n name of
      Some _ \<Rightarrow> mk n name s = Some (s, Inl VFS_RESULT_ERR_EXISTS)
    | None \<Rightarrow> (\<exists>s' m. mk n name s = Some (s', Inr m) \<and> tmpfs_wf s' \<and> extends s n name d m s' \<and> tmpfs_lookup n name s' = Some (s', Inr (Some m)))"
proof -
  have mk: "mk = tmpfs_mknode d" using assms(5) by (simp add: tmpfs_mkdir_def tmpfs_mkfile_def)
  show ?thesis
  proof (cases "entries s n name")
    case None
    obtain s' m where s': "mk n name s = Some (s', Inr m)" "tmpfs_wf s'" "extends s n name d m s'"
      using tmpfs_mknode_new[OF assms(1,2) None, of d] unfolding mk by blast
    have "tmpfs_lookup n name s' = Some (s', Inr (Some m))"
      using tmpfs_lookup_entries[OF s'(2) extends_is_tdir[OF s'(3) assms(2)] assms(3,4)] extends_entries[OF s'(3)] by simp
    then show ?thesis using s' None by auto
  next
    case (Some a)
    then show ?thesis using tmpfs_mknode_exists[OF assms(1,2), of name d] mk by simp
  qed
qed

theorem tmpfs_create_correct_witness:
  "\<exists>s' m. tmpfs_mkdir 3 ''a'' demo_fs = Some (s', Inr m) \<and> tmpfs_wf s' \<and> extends demo_fs 3 ''a'' True m s' \<and> tmpfs_lookup 3 ''a'' s' = Some (s', Inr (Some m))"
  using tmpfs_create_correct[OF demo_fs_ok(1,2), of "''a''" tmpfs_mkdir True] demo_fs_ok(3) by simp



end
