(* ===== verification/VfsSpec.thy ===== *)
theory VfsSpec
  imports Vfs TmpfsSpec
begin

text \<open>
  Looking up a path in a tree of memory file systems is a walk along its components, and a node that is created under a path is found under the longer path.
\<close>

section \<open>The walk\<close>

text \<open>A path is split at the slashes; empty components do not count.\<close>

fun splits :: "string \<Rightarrow> string list" where
  "splits [] = [[]]"
| "splits (c # r) = (if c = CHR ''/'' then [] # splits r else (c # hd (splits r)) # tl (splits r))"

definition components :: "string \<Rightarrow> string list" where
  "components p = filter (\<lambda>w. w \<noteq> []) (splits p)"

definition enter :: "vfs_state \<Rightarrow> nat \<Rightarrow> nat" where
  "enter s n = (case n_mounted_vfs (the (vnodes s n)) of None \<Rightarrow> n | Some f \<Rightarrow> root_of s f)"

definition step :: "vfs_state \<Rightarrow> nat \<Rightarrow> string \<Rightarrow> vfs_error + nat" where
  "step s n c = (if \<not> is_tdir s n then Inl VFS_RESULT_ERR_NOT_DIR
     else if c = ''.'' then Inr n
     else if c = ''..'' then Inr (case parent_of s n of None \<Rightarrow> n | Some p \<Rightarrow> p)
     else case entries s n c of None \<Rightarrow> Inl VFS_RESULT_ERR_NOT_FOUND | Some m \<Rightarrow> Inr m)"

fun walk :: "vfs_state \<Rightarrow> nat \<Rightarrow> string list \<Rightarrow> vfs_error + nat" where
  "walk s n [] = Inr n"
| "walk s n (c # cs) = (case step s n c of Inl e \<Rightarrow> Inl e | Inr m \<Rightarrow> walk s (enter s m) cs)"

text \<open>Only memory file systems are mounted, and none on the root of another one.\<close>

definition vfs_wf :: "vfs_state \<Rightarrow> bool" where
  "vfs_wf s \<longleftrightarrow> tmpfs_wf s \<and> (\<forall>n v. vnodes s n = Some v \<longrightarrow> n_ops v = TmpfsOps \<and> vfss s (n_vfs v) \<noteq> None) \<and>
     (\<forall>f vf. vfss s f = Some vf \<longrightarrow> v_ops vf = TmpfsOps) \<and> (\<forall>f \<in> set (g_vfs_all s). info_ok s f) \<and>
     (\<forall>n v f. vnodes s n = Some v \<longrightarrow> n_mounted_vfs v = Some f \<longrightarrow> info_ok s f \<and> enter s (root_of s f) = root_of s f)"

definition live :: "vfs_state \<Rightarrow> nat \<Rightarrow> bool" where
  "live s n \<longleftrightarrow> vnodes s n \<noteq> None"

lemma liveE:
  assumes "vfs_wf s" "live s n"
  obtains v vf where "vnodes s n = Some v" "n_ops v = TmpfsOps" "vfss s (n_vfs v) = Some vf"
proof -
  obtain v where v: "vnodes s n = Some v" using assms(2) by (auto simp: live_def)
  then have "n_ops v = TmpfsOps" "vfss s (n_vfs v) \<noteq> None" using assms(1) by (simp_all add: vfs_wf_def)
  then show ?thesis using that v by auto
qed

lemma tnode_live: "tmpfs_wf s \<Longrightarrow> tnodes s t = Some tn \<Longrightarrow> live s (t_vnode tn)"
proof -
  assume "tmpfs_wf s" "tnodes s t = Some tn"
  then have "tnode_ok s t tn" by (simp add: tmpfs_wf_def)
  then show "live s (t_vnode tn)" by (auto simp: tnode_ok_def live_def)
qed

lemma info_root:
  assumes "tmpfs_wf s" "info_ok s f"
  shows "tmpfs_root f s = Some (s, Inr (Some (root_of s f)))" "live s (root_of s f)"
  using assms tnode_live by (auto simp: info_ok_def tmpfs_root_def root_of_def)

lemma enter_ok:
  assumes "vfs_wf s" "live s n"
  shows "enter_mounted n s = Some (s, Inr (enter s n))" "live s (enter s n)" "enter s (enter s n) = enter s n"
proof -
  obtain v vf where v: "vnodes s n = Some v" "n_ops v = TmpfsOps" "vfss s (n_vfs v) = Some vf" by (rule liveE[OF assms])
  have wf: "tmpfs_wf s" using assms(1) by (simp add: vfs_wf_def)
  have m: "info_ok s f" "enter s (root_of s f) = root_of s f" "tmpfs_root f s = Some (s, Inr (Some (root_of s f)))" "live s (root_of s f)"
    if "n_mounted_vfs v = Some f" for f using assms(1) v(1) that info_root[OF wf] by (auto simp: vfs_wf_def)
  have r: "ops_root_node f s = Some (s, Inr (Some (root_of s f)))" if mf: "n_mounted_vfs v = Some f" for f
  proof -
    obtain g where "vfss s f = Some g" using m(1)[OF mf] by (auto simp: info_ok_def tmpfs_INFO_def split: bind_splits)
    then show ?thesis using m(3)[OF mf] assms(1) by (auto simp: ops_root_node_def vfs_wf_def)
  qed
  show "enter_mounted n s = Some (s, Inr (enter s n))" using v(1) r by (auto simp: enter_mounted_def enter_def on_ok_def split: option.splits)
  show "live s (enter s n)" "enter s (enter s n) = enter s n" using v(1) m(2,4) assms(2) by (auto simp: enter_def split: option.splits)
qed

lemma entries_live: "tmpfs_wf s \<Longrightarrow> is_tdir s n \<Longrightarrow> entries s n c = Some m \<Longrightarrow> live s m"
proof -
  assume a: "tmpfs_wf s" "is_tdir s n" "entries s n c = Some m"
  obtain v t tn cs where o: "vnodes s n = Some v" "n_type v = VFS_NODE_TYPE_DIR" "n_ops v = TmpfsOps" "n_private v = TmpfsNode t" "tnodes s t = Some tn"
    "t_vnode tn = n" "t_body tn = TDir cs" "body_ok (tnodes s) t (TDir cs)" "parent_ok (tnodes s) t (t_parent tn)" "info_ok s (n_vfs v)"
    by (rule is_tdir_obtain[OF a(1,2)])
  then obtain k where "List.find (\<lambda>k. t_name (the (tnodes s k)) = c) cs = Some k" "m = t_vnode (the (tnodes s k))"
    using a(3) by (auto simp: entries_def tnode_of_def TMPFS_NODE_def dir_map_def)
  then show "live s m" using o(8) tnode_live[OF a(1)] find_in_set by (fastforce simp: body_ok_def)
qed

lemma parent_live: "tmpfs_wf s \<Longrightarrow> parent_of s n = Some m \<Longrightarrow> live s m"
  using tnode_live by (fastforce simp: parent_of_def split: bind_splits)

lemma step_live: "vfs_wf s \<Longrightarrow> live s n \<Longrightarrow> step s n c = Inr m \<Longrightarrow> live s m"
  using entries_live parent_live by (fastforce simp: step_def vfs_wf_def split: if_splits option.splits)

lemma walk_component_step:
  assumes "vfs_wf s" "live s n"
  shows "walk_component VFS_LOOKUP_CREATE_NONE False last_comp c n s = Some (s, step s n c)"
proof -
  obtain v vf where v: "vnodes s n = Some v" "n_ops v = TmpfsOps" "vfss s (n_vfs v) = Some vf" by (rule liveE[OF assms])
  have wf: "tmpfs_wf s" using assms(1) by (simp add: vfs_wf_def)
  have nl: "node_lookup n name s = tmpfs_lookup n name s" for name using v by (simp add: node_lookup_def)
  show ?thesis
  proof (cases "is_tdir s n")
    case False
    then have "n_type v \<noteq> VFS_NODE_TYPE_DIR" using v by (simp add: is_tdir_def)
    then show ?thesis using False v by (simp add: walk_component_def nl tmpfs_lookup_file step_def)
  next
    case True
    consider (dot) "c = ''.''" | (dotdot) "c = ''..''" | (name) "c \<noteq> ''.''" "c \<noteq> ''..''" by blast
    then show ?thesis
    proof cases
      case dot
      then show ?thesis using True tmpfs_lookup_dot[OF True] by (simp add: walk_component_def nl step_def)
    next
      case dotdot
      then show ?thesis using True v tmpfs_lookup_dotdot[OF wf True] by (cases "parent_of s n") (simp_all add: walk_component_def nl step_def)
    next
      case name
      then show ?thesis using True tmpfs_lookup_entries[OF wf True name] by (cases "entries s n c") (simp_all add: walk_component_def nl step_def)
    qed
  qed
qed

section \<open>The loop is the walk\<close>

text \<open>The components of the rest of a path after the characters \<open>w\<close> of the current one.\<close>

definition comps :: "string \<Rightarrow> string \<Rightarrow> string list" where
  "comps w r = filter (\<lambda>w. w \<noteq> []) ((w @ hd (splits r)) # tl (splits r))"

lemma splits_ne [simp]: "splits r \<noteq> []"
  by (induction r) auto

lemma comps_simps:
  "comps w [] = (if w = [] then [] else [w])"
  "comps w (c # r) = (if c = CHR ''/'' then (if w = [] then comps [] r else w # comps [] r) else comps (w @ [c]) r)"
  "comps [] r = components r"
proof -
  show "comps [] r = components r" using list.collapse[OF splits_ne[of r]] by (simp add: comps_def components_def)
  show "comps w [] = (if w = [] then [] else [w])" by (simp add: comps_def)
  show "comps w (c # r) = (if c = CHR ''/'' then (if w = [] then comps [] r else w # comps [] r) else comps (w @ [c]) r)"
    using list.collapse[OF splits_ne[of r]] by (simp add: comps_def)
qed

lemma lookup_loop_walk:
  assumes wf: "vfs_wf s"
  shows "live s n \<Longrightarrow> a \<le> b \<Longrightarrow> b \<le> length path \<Longrightarrow> a = b \<or> enter s n = n \<Longrightarrow>
    lookup_loop path VFS_LOOKUP_CREATE_NONE False a b n s = Some (s, walk s (enter s n) (comps (take (b - a) (drop a path)) (drop b path)))"
proof (induction "length path - b" arbitrary: a b n)
  case 0
  then have b: "b = length path" by simp
  show ?case
  proof (cases "a = b")
    case True
    then show ?thesis using b enter_ok[OF wf 0(2)] by (subst lookup_loop.simps) (simp add: on_ok_def comps_simps)
  next
    case False
    then have e: "enter s n = n" and w: "take (b - a) (drop a path) \<noteq> []" using 0 b by auto
    show ?thesis using False e w b walk_component_step[OF wf 0(2)] enter_ok[OF wf] step_live[OF wf 0(2)]
      by (subst lookup_loop.simps) (auto simp: on_ok_def comps_simps split: sum.splits)
  qed
next
  case (Suc k)
  have b: "b < length path" "k = length path - Suc b" using Suc.hyps(2) by linarith+
  have d: "drop b path = path ! b # drop (Suc b) path" using b(1) by (simp add: Cons_nth_drop_Suc)
  let ?w = "take (b - a) (drop a path)"
  have IH: "lookup_loop path VFS_LOOKUP_CREATE_NONE False x (Suc b) (enter s m) s =
      Some (s, walk s (enter s m) (comps (take (Suc b - x) (drop x path)) (drop (Suc b) path)))" if "live s m" "x \<le> Suc b" for x m
    using Suc.hyps(1)[OF b(2) enter_ok(2)[OF wf that(1)] that(2)] b(1) enter_ok(3)[OF wf that(1)] by simp
  show ?case
  proof (cases "path ! b = CHR ''/''")
    case slash: True
    show ?thesis
    proof (cases "a = b")
      case True
      then show ?thesis using slash b(1) d enter_ok[OF wf Suc.prems(1)] IH[OF Suc.prems(1), of "Suc b"]
        by (subst lookup_loop.simps) (simp add: on_ok_def comps_simps)
    next
      case False
      then have e: "enter s n = n" and w: "?w \<noteq> []" using Suc.prems b by auto
      show ?thesis using slash False e w b(1) d walk_component_step[OF wf Suc.prems(1)] enter_ok[OF wf] step_live[OF wf Suc.prems(1)] IH[of _ "Suc b"]
        by (subst lookup_loop.simps) (auto simp: on_ok_def comps_simps split: sum.splits)
    qed
  next
    case False
    have "take (Suc b - a) (drop a path) = ?w @ [path ! b]"
      using Suc.prems(2) b(1) by (simp add: Suc_diff_le take_Suc_conv_app_nth)
    then show ?thesis using False b(1) d enter_ok[OF wf Suc.prems(1)] IH[OF Suc.prems(1), of a] Suc.prems(2)
      by (subst lookup_loop.simps) (simp add: on_ok_def comps_simps)
  qed
qed

text \<open>An absolute path starts at the root, whatever its first character is.\<close>

lemma vfs_lookup_absolute:
  assumes "vfs_wf s" "g_vfs_all s = f # fs"
  shows "vfs_lookup (VFS_ABSOLUTE_PATH (c # p)) s = Some (s, walk s (enter s (root_of s f)) (components p))"
proof -
  have f: "info_ok s f" "tmpfs_wf s" using assms by (auto simp: vfs_wf_def)
  obtain g where "vfss s f = Some g" using f(1) by (auto simp: info_ok_def tmpfs_INFO_def split: bind_splits)
  then have "vfs_root s = Some (s, Inr (Some (root_of s f)))"
    using assms info_root(1)[OF f(2,1)] by (auto simp: vfs_root_def ops_root_node_def vfs_wf_def)
  then show ?thesis using lookup_loop_walk[OF assms(1) info_root(2)[OF f(2,1)], of 1 1 "c # p"]
    by (simp add: vfs_lookup_def vfs_lookup_ext_def VFS_ABSOLUTE_PATH_def on_ok_def comps_simps(3))
qed

text \<open>With \<^verbatim>\<open>exclusive\<close> every component that exists ends the look up, also those before the last one.\<close>

lemma exclusive_component: "node_lookup n c s = Some (s', Inr (Some m)) \<Longrightarrow> walk_component mode True last_comp c n s = Some (s', Inl VFS_RESULT_ERR_EXISTS)"
  by (simp add: walk_component_def)

section \<open>Creation and the walk\<close>

lemma components_append:
  assumes "CHR ''/'' \<notin> set name" "name \<noteq> []"
  shows "components (p @ CHR ''/'' # name) = components p @ [name]"
proof -
  have n: "w @ name \<noteq> [] \<Longrightarrow> comps w name = [w @ name]" for w
    using assms(1) by (induction name arbitrary: w) (auto simp: comps_simps(1,2))
  have "comps w (p @ CHR ''/'' # name) = comps w p @ [name]" for w by (induction p arbitrary: w) (use assms(2) in \<open>auto simp: comps_simps(1,2) n\<close>)
  then show ?thesis by (simp flip: comps_simps(3))
qed

lemma walk_append: "walk s n (cs @ [c]) = (case walk s n cs of Inl e \<Rightarrow> Inl e | Inr k \<Rightarrow> walk s k [c])"
  by (induction cs arbitrary: n) (auto split: sum.splits)

lemma walk_live: "vfs_wf s \<Longrightarrow> live s n \<Longrightarrow> walk s n cs = Inr k \<Longrightarrow> live s k"
  by (induction cs arbitrary: n) (auto split: sum.splits dest: step_live enter_ok(2))

lemma extends_enter:
  assumes wf: "vfs_wf s" and e: "extends s n name d m s'"
  shows "live s k \<Longrightarrow> enter s' k = enter s k" "enter s' m = m"
proof -
  show "enter s' k = enter s k" if k: "live s k"
  proof -
    obtain v where v: "vnodes s k = Some v" using k by (auto simp: live_def)
    then have v': "vnodes s' k = Some v" using e by (auto simp: extends_def)
    have "root_of s' f = root_of s f" if "n_mounted_vfs v = Some f" for f using wf v that e by (auto simp: vfs_wf_def extends_def)
    then show ?thesis using v v' by (auto simp: enter_def split: option.splits)
  qed
  show "enter s' m = m" using e by (auto simp: extends_def enter_def new_vnode_def)
qed

lemma extends_vfs_wf:
  assumes wf: "vfs_wf s" and e: "extends s n name d m s'" and wf': "tmpfs_wf s'"
  shows "vfs_wf s'"
proof -
  obtain v where v: "vnodes s n = Some v" "vnodes s m = None" "vnodes s' = (vnodes s)(m \<mapsto> new_vnode s (n_vfs v) d)" using e by (auto simp: extends_def)
  have vf: "vfss s' = vfss s" "g_vfs_all s' = g_vfs_all s" and io: "\<And>f. info_ok s f \<Longrightarrow> info_ok s' f \<and> root_of s' f = root_of s f" using e by (auto simp: extends_def)
  have nv: "vfss s (n_vfs v) \<noteq> None" using wf v(1) by (simp add: vfs_wf_def)
  have "n_ops w = TmpfsOps \<and> vfss s' (n_vfs w) \<noteq> None" if "vnodes s' k = Some w" for k w
    using that wf nv by (cases "k = m") (auto simp: v(3) vf vfs_wf_def new_vnode_def)
  moreover have "info_ok s' f \<and> enter s' (root_of s' f) = root_of s' f" if a: "vnodes s' k = Some w" "n_mounted_vfs w = Some f" for k w f
  proof -
    have "vnodes s k = Some w" using a by (cases "k = m") (auto simp: v(3) new_vnode_def)
    then have f: "info_ok s f" "enter s (root_of s f) = root_of s f" using wf a(2) by (auto simp: vfs_wf_def)
    have "live s (root_of s f)" using wf f(1) by (auto simp: vfs_wf_def intro: info_root(2))
    then show ?thesis using io[OF f(1)] extends_enter(1)[OF wf e] f(2) by simp
  qed
  moreover have "\<forall>f vf. vfss s' f = Some vf \<longrightarrow> v_ops vf = TmpfsOps" "\<forall>f \<in> set (g_vfs_all s'). info_ok s' f" using wf io by (simp_all add: vf vfs_wf_def)
  ultimately show ?thesis using wf' by (simp add: vfs_wf_def)
qed

lemma extends_step:
  assumes "extends s n name d m s'" "entries s n name = None" "step s k c = Inr x"
  shows "step s' k c = Inr x"
proof -
  have d: "is_tdir s k" using assms(3) by (auto simp: step_def split: if_splits)
  have "parent_of s' k = parent_of s k" using assms(1) d by (cases "k = n") (auto simp: extends_def)
  moreover have "entries s' k c = Some y" if "entries s k c = Some y" for y using assms(1,2) d that by (cases "k = n") (auto simp: extends_def)
  ultimately show ?thesis using assms(3) d extends_is_tdir[OF assms(1) d] by (auto simp: step_def split: if_splits option.splits)
qed

lemma extends_walk:
  assumes wf: "vfs_wf s" and e: "extends s n name d m s'" "entries s n name = None"
  shows "live s k \<Longrightarrow> walk s k cs = Inr x \<Longrightarrow> walk s' k cs = Inr x"
proof (induction cs arbitrary: k)
  case (Cons c cs)
  obtain y where y: "step s k c = Inr y" using Cons.prems(2) by (cases "step s k c") auto
  have "live s y" by (rule step_live[OF wf Cons.prems(1) y])
  then show ?case using Cons y extends_step[OF e y] extends_enter(1)[OF wf e(1)] enter_ok(2)[OF wf] by simp
qed simp

section \<open>Properties\<close>



definition demo_vfs :: vfs_state where
  "demo_vfs = demo_fs\<lparr>g_vfs_all := [0]\<rparr>"

lemma demo_vfs_tmpfs: "tmpfs_wf demo_vfs"
  using demo_fs_ok(1) by (simp add: demo_vfs_def tmpfs_wf_def fresh_ok_def tnode_ok_def vnode_ok_def info_ok_def tmpfs_INFO_def)

lemma demo_vfs_parts:
  "vnodes demo_vfs = [3 \<mapsto> \<lparr>n_vfs = 0, n_mounted_vfs = None, n_ops = TmpfsOps, n_type = VFS_NODE_TYPE_DIR, n_private = TmpfsNode 2\<rparr>]"
  "vfss demo_vfs = [0 \<mapsto> \<lparr>v_ops = TmpfsOps, v_private = TmpfsInfo 1, v_mount_point = None\<rparr>]" "g_vfs_all demo_vfs = [0]"
  "tinfos demo_vfs = [1 \<mapsto> \<lparr>ti_root = 2, ti_id_counter = 2\<rparr>]"
  "tnodes demo_vfs = [2 \<mapsto> \<lparr>t_id = 2, t_name = ''root'', t_vnode = 3, t_parent = None, t_body = TDir []\<rparr>]"
  by (simp_all add: demo_vfs_def demo_fs_def demo_empty_def tmpfs_mount_def make_tmpfs_node_def tmpfs_INFO_def Let_def eval_nat_numeral)

lemma demo_vfs_wf: "vfs_wf demo_vfs" "root_of demo_vfs 0 = 3" "enter demo_vfs 3 = 3" "is_tdir demo_vfs 3" "entries demo_vfs 3 = Map.empty"
proof -
  show "vfs_wf demo_vfs" unfolding vfs_wf_def by (auto simp: demo_vfs_tmpfs demo_vfs_parts info_ok_def tmpfs_INFO_def split: if_splits)
  show "root_of demo_vfs 0 = 3" "enter demo_vfs 3 = 3" "is_tdir demo_vfs 3" "entries demo_vfs 3 = Map.empty"
    by (simp_all add: root_of_def enter_def is_tdir_def entries_def tnode_of_def TMPFS_NODE_def dir_map_def demo_vfs_parts tmpfs_INFO_def fun_eq_iff)
qed



end
