(* ===== verification/RdskSpec.thy ===== *)
theory RdskSpec
  imports Rdsk
begin

text \<open>
  The ramdisk: entries and their indices correspond, reading returns the bytes of the image, and every entry has one node, which a second look up finds again.
\<close>

section \<open>Entries and indices\<close>

text \<open>The tables are small enough for their addresses not to wrap.\<close>

definition table_fits :: "u64 \<Rightarrow> u64 \<Rightarrow> bool" where
  "table_fits index size' \<longleftrightarrow> index \<noteq> 0 \<and> size' \<noteq> 0 \<and> unat index * unat size' < 2 ^ 64"

lemma index_div:
  assumes "table_fits index size'"
  shows "(index - 1) * size' div size' + 1 = index"
proof -
  have i: "unat (index - 1) = unat index - 1" using assms by (auto simp: table_fits_def unat_minus_one)
  have le: "(unat index - 1) * unat size' \<le> unat index * unat size'" by (rule mult_le_mono1) simp
  have "unat index * unat size' < 2 ^ 64" using assms by (simp add: table_fits_def)
  with le have "(unat index - 1) * unat size' < 2 ^ 64" by (rule le_less_trans)
  then have "unat ((index - 1) * size') = (unat index - 1) * unat size'" using i by (simp add: unat_mult_lem[THEN iffD1])
  moreover have "unat size' \<noteq> 0" using assms by (auto simp: table_fits_def unat_eq_0)
  ultimately have "unat ((index - 1) * size' div size') = unat index - 1" by (simp add: unat_div)
  then have "(index - 1) * size' div size' = index - 1" using i by (metis word_unat_eq_iff)
  then show ?thesis by simp
qed

lemma get_file_index_get_file: "table_fits index (hdr m h ''filetable_entry_size'') \<Longrightarrow> get_file_index m h (get_file m h index) = Some index"
  using index_div by (auto simp: get_file_index_def get_file_def table_fits_def)

lemma get_dir_index_get_dir: "table_fits index (hdr m h ''dirtable_entry_size'') \<Longrightarrow> get_dir_index m h (get_dir m h index) = Some index"
  using index_div by (auto simp: get_dir_index_def get_dir_def table_fits_def)

section \<open>Nodes are cached\<close>

lemma get_dir_vfs_node_again:
  assumes "get_dir_vfs_node f index s = Some (s', v)"
  shows "get_dir_vfs_node f index s' = Some (s', v)" "fs_image s' = fs_image s"
    "\<exists>i info info'. rdsk_INFO f s = Some (i, info) \<and> rdsk_INFO f s' = Some (i, info') \<and> ri_header info' = ri_header info"
    "vnodes s n = Some w \<Longrightarrow> vnodes s (fs_next s) = None \<Longrightarrow> vnodes s' n = Some w"
  using assms by (auto simp: get_dir_vfs_node_def rdsk_INFO_def Let_def split: bind_splits vfs_private.splits option.splits if_splits)

lemma get_file_vfs_node_again:
  assumes "get_file_vfs_node f index s = Some (s', v)"
  shows "get_file_vfs_node f index s' = Some (s', v)" "fs_image s' = fs_image s"
    "\<exists>i info info'. rdsk_INFO f s = Some (i, info) \<and> rdsk_INFO f s' = Some (i, info') \<and> ri_header info' = ri_header info"
    "vnodes s n = Some w \<Longrightarrow> vnodes s (fs_next s) = None \<Longrightarrow> vnodes s' n = Some w"
  using assms by (auto simp: get_file_vfs_node_def rdsk_INFO_def Let_def split: bind_splits vfs_private.splits option.splits if_splits)

lemma rdsk_lookup_again:
  assumes "rdsk_lookup n name s = Some (s', res)" "vnodes s (fs_next s) = None"
  shows "rdsk_lookup n name s' = Some (s', res)"
proof -
  obtain v where v: "vnodes s n = Some v" using assms(1) by (auto simp: rdsk_lookup_def split: bind_splits)
  consider (same) "s' = s"
    | (parent) d where "rdsk_entry v = Some d" "n_type v = VFS_NODE_TYPE_DIR" "name = ''..''" "read_field (fs_image s) rdsk_dir_t d ''parent_index'' \<noteq> 0"
        "\<exists>m. res = Inr (Some m) \<and> get_dir_vfs_node (n_vfs v) (read_field (fs_image s) rdsk_dir_t d ''parent_index'') s = Some (s', m)"
    | (found) d i info e index where "rdsk_entry v = Some d" "n_type v = VFS_NODE_TYPE_DIR" "name \<noteq> ''.''" "name \<noteq> ''..''" "rdsk_INFO (n_vfs v) s = Some (i, info)"
        "find_file (fs_image s) (ri_header info) d name = Some (Some e)" "get_file_index (fs_image s) (ri_header info) e = Some index"
        "\<exists>m. res = Inr (Some m) \<and> get_file_vfs_node (n_vfs v) index s = Some (s', m)"
    | (dir) d i info e index where "rdsk_entry v = Some d" "n_type v = VFS_NODE_TYPE_DIR" "name \<noteq> ''.''" "name \<noteq> ''..''" "rdsk_INFO (n_vfs v) s = Some (i, info)"
        "find_file (fs_image s) (ri_header info) d name = Some None" "find_dir (fs_image s) (ri_header info) d name = Some (Some e)"
        "get_dir_index (fs_image s) (ri_header info) e = Some index" "\<exists>m. res = Inr (Some m) \<and> get_dir_vfs_node (n_vfs v) index s = Some (s', m)"
    using assms(1) v by (auto simp: rdsk_lookup_def Let_def split: bind_splits if_splits option.splits)
  then show ?thesis
  proof cases
    case same
    then show ?thesis using assms(1) by simp
  next
    case parent
    then obtain m where m: "res = Inr (Some m)" "get_dir_vfs_node (n_vfs v) (read_field (fs_image s) rdsk_dir_t d ''parent_index'') s = Some (s', m)" by blast
    show ?thesis using parent(1-4) m(1) get_dir_vfs_node_again(1,2,4)[OF m(2)] v assms(2) by (simp add: rdsk_lookup_def Let_def)
  next
    case found
    then obtain m where m: "res = Inr (Some m)" "get_file_vfs_node (n_vfs v) index s = Some (s', m)" by blast
    show ?thesis using found(1-7) m(1) get_file_vfs_node_again[OF m(2)] v assms(2) by (auto simp: rdsk_lookup_def)
  next
    case dir
    then obtain m where m: "res = Inr (Some m)" "get_dir_vfs_node (n_vfs v) index s = Some (s', m)" by blast
    show ?thesis using dir(1-8) m(1) get_dir_vfs_node_again[OF m(2)] v assms(2) by (auto simp: rdsk_lookup_def)
  qed
qed

section \<open>Properties\<close>

text \<open>
  Every entry of the ramdisk has one node: when a look up has returned, looking up the same name again returns the same node and changes nothing,
  although the first look up may have had to create the node.
\<close>

theorem rdsk_lookup_stable:
  assumes "rdsk_lookup n name s = Some (s', res)" "vnodes s (fs_next s) = None"
  shows "rdsk_lookup n name s' = Some (s', res)"
  by (rule rdsk_lookup_again[OF assms])

text \<open>An image with a root directory and the file \<^verbatim>\<open>a\<close>.\<close>

definition demo_image :: memory where
  "demo_image a = (if a = 8 then 1 else if a = 17 then 3 else if a = 32 then 41 else if a = 34 then 1 else if a = 42 then 100 else if a = 50 then 41 else if a = 52 then 1
     else if a = 60 then 200 else if a = 109 then 1 else if a = 201 then 1 else if a = 217 then 2 else if a = 769 then 97 else 0)"

definition demo_rdsk :: vfs_state where
  "demo_rdsk = \<lparr>g_vfs_all = [0], vfss = [0 \<mapsto> \<lparr>v_ops = RdskOps, v_private = RdskInfo 1, v_mount_point = None\<rparr>],
     vnodes = [2 \<mapsto> rdsk_vnode 0 VFS_NODE_TYPE_DIR 100], tnodes = Map.empty, tinfos = Map.empty,
     rinfos = [1 \<mapsto> \<lparr>ri_header = 0, ri_dir_cache = [Some 2], ri_file_cache = [None]\<rparr>], fs_image = demo_image, garbage = (\<lambda>_ _. 0), fs_next = 3\<rparr>"

lemma demo_rdsk_lookup: "rdsk_lookup 2 ''a'' demo_rdsk =
    Some (demo_rdsk\<lparr>fs_next := 4, vnodes := [2 \<mapsto> rdsk_vnode 0 VFS_NODE_TYPE_DIR 100, 3 \<mapsto> rdsk_vnode 0 VFS_NODE_TYPE_FILE 200],
      rinfos := [1 \<mapsto> \<lparr>ri_header = 0, ri_dir_cache = [Some 2], ri_file_cache = [Some 3]\<rparr>]\<rparr>, Inr (Some 3))"
proof -
  have h: "hdr demo_image 0 ''filetable_offset'' = 200" "hdr demo_image 0 ''filetable_entry_size'' = 41" "hdr demo_image 0 ''nametable_offset'' = 768"
    "read_field demo_image rdsk_dir_t 100 ''filetable_index'' = 1" "read_field demo_image rdsk_file_t 200 ''nametable_offset'' = 1"
    by (simp_all add: hdr_def read_field_def rdsk_header_t_def rdsk_dir_t_def rdsk_file_t_def demo_image_def)
  have g: "get_file demo_image 0 1 = 200" by (simp add: get_file_def h)
  have "str_at demo_image (unat (rdsk_get_name demo_image 0 1)) ''a''" by (simp add: rdsk_get_name_def h demo_image_def of_char_def)
  then have "find_file demo_image 0 100 ''a'' = Some (Some 200)"
    unfolding find_file_def h by (subst find_file_loop.simps) (simp add: g h)
  moreover have "get_file_index demo_image 0 200 = Some 1" by (simp add: get_file_index_def h)
  ultimately show ?thesis by (simp add: rdsk_lookup_def demo_rdsk_def rdsk_entry_def rdsk_vnode_def rdsk_INFO_def get_file_vfs_node_def g)
qed

theorem rdsk_lookup_stable_witness:
  "\<exists>s'. rdsk_lookup 2 ''a'' demo_rdsk = Some (s', Inr (Some 3)) \<and> s' \<noteq> demo_rdsk \<and> rdsk_lookup 2 ''a'' s' = Some (s', Inr (Some 3))"
proof -
  have "vnodes demo_rdsk (fs_next demo_rdsk) = None" by (simp add: demo_rdsk_def)
  from rdsk_lookup_stable[OF demo_rdsk_lookup this] demo_rdsk_lookup show ?thesis by (auto simp: demo_rdsk_def)
qed

end
