(* ===== verification/KernelSymbol.thy ===== *)
theory KernelSymbol
  imports Layout
begin

text \<open>
  The symbol table of the kernel (\<^verbatim>\<open>sys/kernel_symbol.c\<close>): loading the file, and looking symbols up by address and by name.

  The file lies in memory at the address the boot loader gives. A name is the address of its characters; \<open>None\<close> is the empty name \<^verbatim>\<open>g_invalid_name\<close>.
\<close>

section \<open>Data\<close>

definition ksym_header_t :: layout where
  "ksym_header_t = [(''identifier'', 4), (''revision'', 1), (''rsv0'', 3), (''names_offset'', 8), (''names_length'', 8), (''symbols_offset'', 8), (''symbol_size'', 8),
     (''symbols_count'', 8)]"

definition symbol_t :: layout where
  "symbol_t = [(''name_offset'', 8), (''flags'', 2), (''rsv0'', 2), (''rsv1'', 4), (''size'', 8), (''value'', 8)]"

definition IDENTIFIER :: string where "IDENTIFIER = ''KSyM''"
definition REVISION :: u64 where "REVISION = 2"

record kernel_symbol =
  ks_name :: "u64 option"
  ks_global :: bool
  ks_size :: u64
  ks_address :: u64

record ksym_state =
  g_kernel_symbols_header :: "u64 option"
  ks_mem :: memory

definition ksym_hdr :: "memory \<Rightarrow> u64 \<Rightarrow> string \<Rightarrow> u64" where "ksym_hdr m h f = read_field m ksym_header_t h f"
definition ksym :: "memory \<Rightarrow> u64 \<Rightarrow> string \<Rightarrow> u64" where "ksym m k f = read_field m symbol_t k f"

definition IS_GLOBAL :: "memory \<Rightarrow> u64 \<Rightarrow> bool" where
  "IS_GLOBAL m k \<longleftrightarrow> ksym m k ''flags'' AND 1 \<noteq> 0"

definition SYMBOL_AT :: "memory \<Rightarrow> u64 \<Rightarrow> u64 \<Rightarrow> u64" where
  "SYMBOL_AT m h index = h + ksym_hdr m h ''symbols_offset'' + ksym_hdr m h ''symbol_size'' * index"

definition ksym_get_name :: "memory \<Rightarrow> u64 \<Rightarrow> u64 \<Rightarrow> u64 option" where
  "ksym_get_name m h name_offset = (if name_offset \<ge> ksym_hdr m h ''names_length'' then None else Some (h + ksym_hdr m h ''names_offset'' + name_offset))"

section \<open>Operations\<close>

text \<open>\<^verbatim>\<open>kernel_symbols_load\<close> panics on a file of another kind or of a newer revision.\<close>

definition kernel_symbols_load :: "u64 \<Rightarrow> ksym_state \<Rightarrow> ksym_state option" where
  "kernel_symbols_load symbol_data s = do {
     ASSERT (bytes_at (ks_mem s) (unat symbol_data) 4 = map of_char IDENTIFIER);
     ASSERT (\<not> ksym_hdr (ks_mem s) symbol_data ''revision'' > REVISION);
     Some (s\<lparr>g_kernel_symbols_header := Some symbol_data\<rparr>)
   }"

definition kernel_symbols_is_loaded :: "ksym_state \<Rightarrow> bool" where
  "kernel_symbols_is_loaded s \<longleftrightarrow> g_kernel_symbols_header s \<noteq> None"

definition fill_symbol :: "memory \<Rightarrow> u64 \<Rightarrow> u64 \<Rightarrow> kernel_symbol" where
  "fill_symbol m h k = \<lparr>ks_name = ksym_get_name m h (ksym m k ''name_offset''), ks_global = IS_GLOBAL m k, ks_size = ksym m k ''size'', ks_address = ksym m k ''value''\<rparr>"

text \<open>The loop over the indices, with the symbol before the current one; \<open>None\<close> is \<^verbatim>\<open>nullptr\<close>.\<close>

fun address_loop :: "memory \<Rightarrow> u64 \<Rightarrow> u64 \<Rightarrow> u64 option \<Rightarrow> nat list \<Rightarrow> u64 option" where
  "address_loop m h address prev [] = None"
| "address_loop m h address prev (i # is) =
    (let k = SYMBOL_AT m h (of_nat i) in
     if ksym m k ''value'' > address then prev
     else if address \<ge> ksym m k ''value'' \<and> address < ksym m k ''value'' + ksym m k ''size'' then Some k
     else address_loop m h address (Some k) is)"

definition kernel_symbol_lookup_by_address :: "u64 \<Rightarrow> ksym_state \<Rightarrow> kernel_symbol option" where
  "kernel_symbol_lookup_by_address address s = (case g_kernel_symbols_header s of None \<Rightarrow> None | Some h \<Rightarrow>
     map_option (fill_symbol (ks_mem s) h) (address_loop (ks_mem s) h address None [0..<unat (ksym_hdr (ks_mem s) h ''symbols_count'')]))"

definition name_matches :: "memory \<Rightarrow> u64 \<Rightarrow> string \<Rightarrow> u64 \<Rightarrow> bool" where
  "name_matches m h name k = (case ksym_get_name m h (ksym m k ''name_offset'') of None \<Rightarrow> name = [] | Some a \<Rightarrow> str_at m (unat a) name)"

fun name_loop :: "memory \<Rightarrow> u64 \<Rightarrow> string \<Rightarrow> nat list \<Rightarrow> u64 option" where
  "name_loop m h name [] = None"
| "name_loop m h name (i # is) =
    (let k = SYMBOL_AT m h (of_nat i) in
     if \<not> IS_GLOBAL m k then name_loop m h name is
     else if \<not> name_matches m h name k then name_loop m h name is
     else Some k)"

definition kernel_symbol_lookup_by_name :: "string \<Rightarrow> ksym_state \<Rightarrow> kernel_symbol option" where
  "kernel_symbol_lookup_by_name name s = (case g_kernel_symbols_header s of None \<Rightarrow> None | Some h \<Rightarrow>
     map_option (fill_symbol (ks_mem s) h) (name_loop (ks_mem s) h name [0..<unat (ksym_hdr (ks_mem s) h ''symbols_count'')]))"

section \<open>The table\<close>

definition value_at :: "memory \<Rightarrow> u64 \<Rightarrow> nat \<Rightarrow> u64" where "value_at m h i = ksym m (SYMBOL_AT m h (of_nat i)) ''value''"
definition size_at :: "memory \<Rightarrow> u64 \<Rightarrow> nat \<Rightarrow> u64" where "size_at m h i = ksym m (SYMBOL_AT m h (of_nat i)) ''size''"

definition covers :: "memory \<Rightarrow> u64 \<Rightarrow> u64 \<Rightarrow> nat \<Rightarrow> bool" where
  "covers m h address i \<longleftrightarrow> value_at m h i \<le> address \<and> address < value_at m h i + size_at m h i"

lemma address_loop_Cons:
  "address_loop m h address prev (i # is) = (if value_at m h i > address then prev else if covers m h address i then Some (SYMBOL_AT m h (of_nat i))
     else address_loop m h address (Some (SYMBOL_AT m h (of_nat i))) is)"
  by (simp add: value_at_def size_at_def covers_def Let_def)

declare address_loop.simps(2) [simp del]

text \<open>The symbols before \<open>i\<close> neither end the loop nor cover the address: it gets to \<open>i\<close>.\<close>

lemma address_loop_reaches:
  assumes "\<forall>j < i. value_at m h j \<le> address \<and> \<not> covers m h address j" "i \<le> n"
  shows "a \<le> i \<Longrightarrow> address_loop m h address prev [a..<n] =
    address_loop m h address (if a = i then prev else Some (SYMBOL_AT m h (of_nat (i - 1)))) [i..<n]"
proof (induction "i - a" arbitrary: a prev)
  case (Suc k)
  then have a: "a < i" "k = i - Suc a" "[a..<n] = a # [Suc a..<n]" using assms(2) by (auto simp: upt_rec)
  then have "address_loop m h address prev [a..<n] = address_loop m h address (Some (SYMBOL_AT m h (of_nat a))) [Suc a..<n]"
    using assms(1)[rule_format, OF a(1)] by (simp add: address_loop_Cons leD)
  also have "\<dots> = address_loop m h address (if Suc a = i then Some (SYMBOL_AT m h (of_nat a)) else Some (SYMBOL_AT m h (of_nat (i - 1)))) [i..<n]"
    using Suc.hyps(1)[OF a(2)] a(1) by simp
  finally show ?case using a(1) by auto
qed simp

lemma address_loop_covered:
  assumes "i < n" "covers m h address i" "\<forall>j < i. value_at m h j \<le> address \<and> \<not> covers m h address j"
  shows "address_loop m h address None [0..<n] = Some (SYMBOL_AT m h (of_nat i))"
proof -
  have "[i..<n] = i # [Suc i..<n]" using assms(1) by (rule upt_conv_Cons)
  moreover have "\<not> address < value_at m h i" using assms(2) by (simp add: covers_def not_less)
  ultimately show ?thesis using address_loop_reaches[of i m h address n 0 None] assms by (simp add: address_loop_Cons)
qed

lemma address_loop_gap:
  assumes "Suc i < n" "address < value_at m h (Suc i)" "\<forall>j \<le> i. value_at m h j \<le> address \<and> \<not> covers m h address j"
  shows "address_loop m h address None [0..<n] = Some (SYMBOL_AT m h (of_nat i))"
proof -
  have "[Suc i..<n] = Suc i # [Suc (Suc i)..<n]" using assms(1) by (rule upt_conv_Cons)
  then show ?thesis using address_loop_reaches[of "Suc i" m h address n 0 None] assms by (simp add: address_loop_Cons)
qed

lemma address_loop_end:
  assumes "\<forall>j < n. value_at m h j \<le> address \<and> \<not> covers m h address j"
  shows "address_loop m h address None [0..<n] = None"
  using address_loop_reaches[of n m h address n 0 None] assms by simp

lemma find_append: "List.find P (xs @ ys) = (case List.find P xs of None \<Rightarrow> List.find P ys | Some x \<Rightarrow> Some x)"
  by (induction xs) auto

lemma name_loop_find: "name_loop m h name is =
    map_option (\<lambda>i. SYMBOL_AT m h (of_nat i)) (List.find (\<lambda>i. IS_GLOBAL m (SYMBOL_AT m h (of_nat i)) \<and> name_matches m h name (SYMBOL_AT m h (of_nat i))) is)"
  by (induction "is") (auto simp: Let_def)

section \<open>Properties\<close>

text \<open>
  (C39) Looking up an address in a table whose symbols are sorted by value finds the first symbol that covers the address; when none does, the last symbol that
  starts at or before it, provided that another one starts behind it; and nothing when every symbol ends before the address or all start behind it.
\<close>

theorem kernel_symbol_address_correct:
  assumes "g_kernel_symbols_header s = Some h" "m = ks_mem s" "n = unat (ksym_hdr m h ''symbols_count'')"
    and sorted: "\<forall>i j. i < j \<longrightarrow> j < n \<longrightarrow> value_at m h i \<le> value_at m h j"
  shows "kernel_symbol_lookup_by_address address s =
    map_option (\<lambda>i. fill_symbol m h (SYMBOL_AT m h (of_nat i)))
      (case List.find (covers m h address) [0..<n] of
         Some i \<Rightarrow> Some i
       | None \<Rightarrow> if \<exists>j < n. address < value_at m h j then List.find (\<lambda>i. value_at m h i \<le> address) (rev [0..<n]) else None)"
proof -
  have lk: "kernel_symbol_lookup_by_address address s = map_option (fill_symbol m h) (address_loop m h address None [0..<n])"
    using assms(1-3) by (simp add: kernel_symbol_lookup_by_address_def)
  show ?thesis
  proof (cases "List.find (covers m h address) [0..<n]")
    case (Some i)
    then have i: "i < n" "covers m h address i" "\<forall>j < i. \<not> covers m h address j" by (auto simp: find_Some_iff)
    have "\<forall>j < i. value_at m h j \<le> address" using sorted i(1,2) by (meson covers_def order_trans)
    then have "address_loop m h address None [0..<n] = Some (SYMBOL_AT m h (of_nat i))" using address_loop_covered[OF i(1,2)] i(3) by blast
    then show ?thesis using lk Some by simp
  next
    case None
    then have nc: "\<forall>j < n. \<not> covers m h address j" by (auto simp: find_None_iff)
    show ?thesis
    proof (cases "\<exists>j < n. address < value_at m h j")
      case False
      then have "address_loop m h address None [0..<n] = None" using nc by (intro address_loop_end) (meson linorder_not_less)
      then show ?thesis using lk None by (simp only: if_not_P[OF False]) simp
    next
      case True
      define k where "k = (LEAST j. j < n \<and> address < value_at m h j)"
      have k: "k < n" "address < value_at m h k" using LeastI_ex[OF True] by (auto simp: k_def)
      have below: "value_at m h j \<le> address" if "j < k" for j
        using not_less_Least[of j "\<lambda>j. j < n \<and> address < value_at m h j"] that k(1) by (auto simp: k_def not_less)
      have above: "address < value_at m h j" if "k \<le> j" "j < n" for j
        using sorted k that by (cases "j = k") (auto intro: less_le_trans)
      show ?thesis
      proof (cases k)
        case 0
        then have "[0..<n] = 0 # [1..<n]" using k(1) by (simp add: upt_conv_Cons)
        then have "address_loop m h address None [0..<n] = None" using k(2) 0 by (simp add: address_loop_Cons)
        moreover have "List.find (\<lambda>i. value_at m h i \<le> address) (rev [0..<n]) = None" using above 0 by (auto simp: find_None_iff not_le)
        ultimately show ?thesis using lk None True by simp
      next
        case (Suc i)
        have "address_loop m h address None [0..<n] = Some (SYMBOL_AT m h (of_nat i))"
          using address_loop_gap[of i n address m h] k below nc Suc by simp
        moreover have "List.find (\<lambda>i. value_at m h i \<le> address) (rev [0..<n]) = Some i"
        proof -
          have "[0..<n] = [0..<i] @ i # [k..<n]" using k(1) Suc by (metis Suc_lessD upt_conv_Cons upt_add_eq_append le_add_diff_inverse less_imp_le_nat zero_le)
          moreover have "List.find (\<lambda>i. value_at m h i \<le> address) (rev [k..<n]) = None" unfolding find_None_iff by (metis above atLeastLessThan_iff leD set_rev set_upt)
          ultimately show ?thesis using below[of i] Suc by (simp add: find_append)
        qed
        ultimately show ?thesis using lk None True by simp
      qed
    qed
  qed
qed

text \<open>A table of two symbols, at 16 and at 32, of four bytes each.\<close>

definition demo_ksym :: ksym_state where
  "demo_ksym = \<lparr>g_kernel_symbols_header = Some 0,
     ks_mem = (\<lambda>a. if a = 24 then 56 else if a = 32 then 32 else if a = 40 then 2 else if a = 64 then 1 else if a = 72 then 4 else if a = 80 then 16
       else if a = 104 then 4 else if a = 112 then 32 else 0)\<rparr>"

lemma demo_ksym_table:
  "ksym_hdr (ks_mem demo_ksym) 0 ''symbols_count'' = 2" "SYMBOL_AT (ks_mem demo_ksym) 0 0 = 56" "SYMBOL_AT (ks_mem demo_ksym) 0 1 = 88"
  "ksym (ks_mem demo_ksym) 56 ''value'' = 16" "ksym (ks_mem demo_ksym) 88 ''value'' = 32" "ksym (ks_mem demo_ksym) 56 ''size'' = 4"
  "ksym (ks_mem demo_ksym) 88 ''size'' = 4"
  by (simp_all add: SYMBOL_AT_def ksym_hdr_def ksym_def read_field_def ksym_header_t_def symbol_t_def demo_ksym_def)

theorem kernel_symbol_address_correct_witness:
  "map_option ks_address (kernel_symbol_lookup_by_address 25 demo_ksym) = Some 16 \<and> map_option ks_address (kernel_symbol_lookup_by_address 33 demo_ksym) = Some 32 \<and>
   kernel_symbol_lookup_by_address 40 demo_ksym = None"
proof -
  have h: "g_kernel_symbols_header demo_ksym = Some 0" by (simp add: demo_ksym_def)
  have v: "value_at (ks_mem demo_ksym) 0 0 = 16" "value_at (ks_mem demo_ksym) 0 (Suc 0) = 32" "size_at (ks_mem demo_ksym) 0 0 = 4" "size_at (ks_mem demo_ksym) 0 (Suc 0) = 4"
    using demo_ksym_table by (simp_all add: value_at_def size_at_def)
  have "\<forall>i j. i < j \<longrightarrow> j < (2 :: nat) \<longrightarrow> value_at (ks_mem demo_ksym) 0 i \<le> value_at (ks_mem demo_ksym) 0 j" using v by (auto simp: less_2_cases_iff)
  then have e: "kernel_symbol_lookup_by_address address demo_ksym =
    map_option (\<lambda>i. fill_symbol (ks_mem demo_ksym) 0 (SYMBOL_AT (ks_mem demo_ksym) 0 (of_nat i)))
      (case List.find (covers (ks_mem demo_ksym) 0 address) [0..<2] of
         Some i \<Rightarrow> Some i
       | None \<Rightarrow> if \<exists>j < 2. address < value_at (ks_mem demo_ksym) 0 j then List.find (\<lambda>i. value_at (ks_mem demo_ksym) 0 i \<le> address) (rev [0..<2]) else None)" for address
    using kernel_symbol_address_correct[OF h refl, of 2 address] demo_ksym_table(1) by simp
  have u: "[0..<2] = [0, Suc 0]" by (simp add: upt_rec)
  have x: "(\<exists>j < (2 :: nat). P j) \<longleftrightarrow> P 0 \<or> P (Suc 0)" for P by (auto simp: less_2_cases_iff)
  show ?thesis unfolding e u x using demo_ksym_table by (simp add: covers_def v fill_symbol_def)
qed

text \<open>
  Looking up a name finds the first global symbol of the table with that name, and nothing when there is none; a name offset outside of the name table counts as the empty name.
\<close>

theorem kernel_symbol_name_correct:
  assumes "g_kernel_symbols_header s = Some h" "m = ks_mem s"
  shows "kernel_symbol_lookup_by_name name s = map_option (\<lambda>i. fill_symbol m h (SYMBOL_AT m h (of_nat i)))
    (List.find (\<lambda>i. IS_GLOBAL m (SYMBOL_AT m h (of_nat i)) \<and> name_matches m h name (SYMBOL_AT m h (of_nat i))) [0..<unat (ksym_hdr m h ''symbols_count'')])"
  using assms by (simp add: kernel_symbol_lookup_by_name_def name_loop_find option.map_comp comp_def)

theorem kernel_symbol_name_correct_witness:
  "map_option ks_address (kernel_symbol_lookup_by_name [] demo_ksym) = Some 16"
proof -
  have g: "IS_GLOBAL (ks_mem demo_ksym) 56" "name_matches (ks_mem demo_ksym) 0 [] 56"
    by (simp_all add: IS_GLOBAL_def name_matches_def ksym_get_name_def ksym_hdr_def ksym_def read_field_def ksym_header_t_def symbol_t_def demo_ksym_def)
  have u: "[0..<2] = [0, Suc 0]" by (simp add: upt_rec)
  have h: "g_kernel_symbols_header demo_ksym = Some 0" by (simp add: demo_ksym_def)
  show ?thesis using kernel_symbol_name_correct[OF h refl, of "[]"] demo_ksym_table g by (simp add: u fill_symbol_def)
qed

end
