(* ===== verification/Event.thy ===== *)
theory Event
  imports RbSpec
begin

text \<open>
  Timed events (\<^verbatim>\<open>sys/event.c\<close>, \<^verbatim>\<open>arch/x86_64/event.c\<close>, \<^verbatim>\<open>arch/x86_64/time.c\<close>): every processor keeps its events in a red black tree ordered by
  deadline, fires those that are due and programs its timer for the next one.

  The state is that of one processor. The time stamp counter is a parameter, \<open>tsc n\<close> being what its \<open>n\<close>-th read returns; \<open>ev_reads\<close> counts the reads. The cache of events
  is the list of its free objects, \<open>ev_queued\<close> the items given to \<^verbatim>\<open>dw_queue\<close>, \<open>ev_timer\<close> the ticks the timer was started with. The trees have their own copies of the links of
  the nodes: an event is in one tree at most. The preemption counter and the interrupt mask, which every operation restores, are not part of the state.
\<close>

section \<open>State\<close>

definition TIME_NANOSECONDS_IN_SECOND :: u64 where "TIME_NANOSECONDS_IN_SECOND = 1000000000"

record event_cpu =
  ev_deadline :: "addr \<Rightarrow> u64"
  ev_dw_item :: "addr \<Rightarrow> nat"
  ev_events :: rb_tree
  ev_free_events :: rb_tree
  ev_cache :: "addr list"
  ev_queued :: "nat list"
  ev_timer :: "u64 option"
  ev_reads :: nat
  ev_in_interrupt_hard :: bool
  lapic_timer_frequency :: u64
  tsc_timer_frequency :: u64

definition MATH_CLAMP :: "u64 \<Rightarrow> u64 \<Rightarrow> u64 \<Rightarrow> u64" where
  "MATH_CLAMP v lo hi = max (min v hi) lo"

definition timer_ticks :: "u64 \<Rightarrow> u64 \<Rightarrow> u64" where
  "timer_ticks frequency delay = MATH_CLAMP (frequency * delay div TIME_NANOSECONDS_IN_SECOND) 1 0xFFFFFFFF"

definition arch_event_timer_arm :: "u64 \<Rightarrow> event_cpu \<Rightarrow> event_cpu" where
  "arch_event_timer_arm delay s = s\<lparr>ev_timer := Some (timer_ticks (lapic_timer_frequency s) delay)\<rparr>"

text \<open>A counter slower than one tick per nanosecond divides by zero.\<close>

definition tsc_time :: "(nat \<Rightarrow> u64) \<Rightarrow> event_cpu \<Rightarrow> nat \<Rightarrow> u64" where
  "tsc_time tsc s n = tsc n div (tsc_timer_frequency s div TIME_NANOSECONDS_IN_SECOND)"

definition arch_time_monotonic :: "(nat \<Rightarrow> u64) \<Rightarrow> event_cpu \<Rightarrow> (event_cpu \<times> u64) option" where
  "arch_time_monotonic tsc s = do {
     ASSERT (tsc_timer_frequency s div TIME_NANOSECONDS_IN_SECOND \<noteq> 0);
     Some (s\<lparr>ev_reads := Suc (ev_reads s)\<rparr>, tsc_time tsc s (ev_reads s))
   }"

definition rbnode_value :: "event_cpu \<Rightarrow> addr \<Rightarrow> u64" where
  "rbnode_value s e = ev_deadline s e"

section \<open>Operations\<close>

partial_function (option) events_process :: "(nat \<Rightarrow> u64) \<Rightarrow> event_cpu \<Rightarrow> event_cpu option" where
  "events_process tsc s = do {
     node \<leftarrow> rb_search (rbnode_value s) (ev_events s) 0 RB_SEARCH_NEAREST;
     case node of None \<Rightarrow> Some s
     | Some event \<Rightarrow> do {
         (s, time_current) \<leftarrow> arch_time_monotonic tsc s;
         if ev_deadline s event > time_current then Some (arch_event_timer_arm (ev_deadline s event - time_current) s)
         else do {
           t \<leftarrow> rb_remove (ev_events s) event;
           let s = s\<lparr>ev_events := t, ev_queued := ev_queued s @ [ev_dw_item s event]\<rparr>;
           s \<leftarrow> (if ev_in_interrupt_hard s
             then do { t \<leftarrow> rb_insert (rbnode_value s) (ev_free_events s) event; Some (s\<lparr>ev_free_events := t\<rparr>) }
             else Some (s\<lparr>ev_cache := event # ev_cache s\<rparr>));
           events_process tsc s
         }
       }
   }"

text \<open>The loop that gives all but one of the free events back to the cache.\<close>

partial_function (option) drain_free_events :: "event_cpu \<Rightarrow> event_cpu option" where
  "drain_free_events s =
    (if rb_count (ev_free_events s) \<noteq> 0 then do {
       node \<leftarrow> rb_search (rbnode_value s) (ev_free_events s) 0 RB_SEARCH_NEAREST;
       event \<leftarrow> node;
       t \<leftarrow> rb_remove (ev_free_events s) event;
       drain_free_events (s\<lparr>ev_free_events := t, ev_cache := event # ev_cache s\<rparr>)
     } else Some s)"

text \<open>The cache is out of memory when it has no free object.\<close>

definition event_object :: "event_cpu \<Rightarrow> (event_cpu \<times> addr) option" where
  "event_object s =
    (if rb_count (ev_free_events s) \<noteq> 0 then do {
       node \<leftarrow> rb_search (rbnode_value s) (ev_free_events s) 0 RB_SEARCH_NEAREST;
       event \<leftarrow> node;
       t \<leftarrow> rb_remove (ev_free_events s) event;
       s \<leftarrow> drain_free_events (s\<lparr>ev_free_events := t\<rparr>);
       Some (s, event)
     } else (case ev_cache s of [] \<Rightarrow> None | event # cache \<Rightarrow> Some (s\<lparr>ev_cache := cache\<rparr>, event)))"

definition event_queue :: "(nat \<Rightarrow> u64) \<Rightarrow> u64 \<Rightarrow> nat \<Rightarrow> event_cpu \<Rightarrow> event_cpu option" where
  "event_queue tsc delay item s = do {
     ASSERT (delay > 0);
     (s, event) \<leftarrow> event_object s;
     let s = s\<lparr>ev_dw_item := (ev_dw_item s)(event := item)\<rparr>;
     (s, current_time) \<leftarrow> arch_time_monotonic tsc s;
     let s = s\<lparr>ev_deadline := (ev_deadline s)(event := current_time + delay)\<rparr>;
     node \<leftarrow> rb_search (rbnode_value s) (ev_events s) 0 RB_SEARCH_NEAREST;
     let s = (if node = None \<or> rbnode_value s (the node) > ev_deadline s event
              then arch_event_timer_arm (ev_deadline s event - current_time) s else s);
     t \<leftarrow> rb_insert (rbnode_value s) (ev_events s) event;
     Some (s\<lparr>ev_events := t\<rparr>)
   }"

definition event_cancel :: "(nat \<Rightarrow> u64) \<Rightarrow> addr \<Rightarrow> event_cpu \<Rightarrow> event_cpu option" where
  "event_cancel tsc event s = do {
     t \<leftarrow> rb_remove (ev_events s) event;
     let s = s\<lparr>ev_events := t, ev_cache := event # ev_cache s\<rparr>;
     first_node \<leftarrow> rb_search (rbnode_value s) (ev_events s) 0 RB_SEARCH_NEAREST;
     case first_node of None \<Rightarrow> Some s
     | Some f \<Rightarrow> do { (s, now) \<leftarrow> arch_time_monotonic tsc s; Some (arch_event_timer_arm (ev_deadline s f - now) s) }
   }"

definition event_init_cpu_local :: "event_cpu \<Rightarrow> event_cpu" where
  "event_init_cpu_local s = s\<lparr>ev_events := RB_TREE_INIT (rb_heap (ev_events s)), ev_free_events := RB_TREE_INIT (rb_heap (ev_free_events s))\<rparr>"

section \<open>The invariant\<close>

text \<open>\<open>xs\<close> are the pending events in the order of the tree, \<open>fs\<close> the free ones.\<close>

definition ev_ok :: "event_cpu \<Rightarrow> addr list \<Rightarrow> addr list \<Rightarrow> bool" where
  "ev_ok s xs fs \<longleftrightarrow> rb_inv (ev_deadline s) (ev_events s) xs \<and> rb_inv (ev_deadline s) (ev_free_events s) fs \<and>
     distinct (xs @ fs @ ev_cache s) \<and> length fs < 2 ^ 64 \<and> tsc_timer_frequency s div TIME_NANOSECONDS_IN_SECOND \<noteq> 0"

lemma rbnode_value_eq [simp]: "rbnode_value s = ev_deadline s"
  by (simp add: fun_eq_iff rbnode_value_def)

lemma rb_inv_count: "rb_inv val t xs \<Longrightarrow> rb_count t = of_nat (length xs)"
  by (auto simp: rb_inv_def)

text \<open>The search for 0 finds an event with the least deadline.\<close>

lemma first_event:
  assumes "rb_inv val t xs"
  shows "\<exists>r. rb_search val t 0 RB_SEARCH_NEAREST = Some r \<and> (case r of None \<Rightarrow> xs = [] | Some e \<Rightarrow> e \<in> set xs \<and> (\<forall>x \<in> set xs. val e \<le> val x))"
proof -
  obtain r where r: "rb_search val t 0 RB_SEARCH_NEAREST = Some r" "search_spec val 0 RB_SEARCH_NEAREST xs r" using rbi.search_inv[OF assms] by blast
  then show ?thesis by (cases r) (auto simp: not_less)
qed

lemma arm_simps [simp]:
  "ev_deadline (arch_event_timer_arm d s) = ev_deadline s" "ev_dw_item (arch_event_timer_arm d s) = ev_dw_item s" "ev_events (arch_event_timer_arm d s) = ev_events s"
  "ev_free_events (arch_event_timer_arm d s) = ev_free_events s" "ev_cache (arch_event_timer_arm d s) = ev_cache s" "ev_queued (arch_event_timer_arm d s) = ev_queued s"
  "ev_timer (arch_event_timer_arm d s) = Some (timer_ticks (lapic_timer_frequency s) d)" "tsc_timer_frequency (arch_event_timer_arm d s) = tsc_timer_frequency s"
  "ev_reads (arch_event_timer_arm d s) = ev_reads s"
  by (simp_all add: arch_event_timer_arm_def)

lemma if_arm:
  "ev_deadline (if b then arch_event_timer_arm d s else s) = ev_deadline s" "ev_events (if b then arch_event_timer_arm d s else s) = ev_events s"
  by simp_all

lemma tsc_time_reads: "tsc_timer_frequency s' = tsc_timer_frequency s \<Longrightarrow> tsc_time tsc s' = tsc_time tsc s"
  by (simp add: tsc_time_def fun_eq_iff)

text \<open>The timer is started with at least one tick and with what its register holds.\<close>

lemma timer_ticks_bounds: "1 \<le> timer_ticks f d" "timer_ticks f d \<le> 0xFFFFFFFF"
  by (auto simp: timer_ticks_def MATH_CLAMP_def max_def min_def)

section \<open>Processing\<close>

text \<open>What a run of \<^verbatim>\<open>events_process\<close> does: \<open>ys\<close> are the events it fires, \<open>zs\<close> those it leaves.\<close>

definition processed :: "(nat \<Rightarrow> u64) \<Rightarrow> event_cpu \<Rightarrow> addr list \<Rightarrow> event_cpu \<Rightarrow> addr list \<Rightarrow> addr list \<Rightarrow> bool" where
  "processed tsc s xs s' ys zs \<longleftrightarrow>
     ev_queued s' = ev_queued s @ map (ev_dw_item s) ys \<and> ev_deadline s' = ev_deadline s \<and> mset xs = mset (ys @ zs) \<and> sorted (map (ev_deadline s) ys) \<and>
     (\<forall>y \<in> set ys. \<forall>z \<in> set zs. ev_deadline s y \<le> ev_deadline s z) \<and>
     (\<forall>i < length ys. ev_deadline s (ys ! i) \<le> tsc_time tsc s (ev_reads s + i)) \<and>
     (zs \<noteq> [] \<longrightarrow> (\<forall>z \<in> set zs. tsc_time tsc s (ev_reads s + length ys) < ev_deadline s z) \<and>
        (\<exists>z \<in> set zs. ev_timer s' = Some (timer_ticks (lapic_timer_frequency s) (ev_deadline s z - tsc_time tsc s (ev_reads s + length ys))) \<and>
           (\<forall>x \<in> set zs. ev_deadline s z \<le> ev_deadline s x)))"

lemma processed_step:
  assumes e: "e \<in> set xs" "\<forall>x \<in> set xs. ev_deadline s e \<le> ev_deadline s x" "ev_deadline s e \<le> tsc_time tsc s (ev_reads s)"
    and s1: "ev_deadline s1 = ev_deadline s" "ev_dw_item s1 = ev_dw_item s" "ev_queued s1 = ev_queued s @ [ev_dw_item s e]" "ev_reads s1 = Suc (ev_reads s)"
      "tsc_timer_frequency s1 = tsc_timer_frequency s" "lapic_timer_frequency s1 = lapic_timer_frequency s"
    and p: "processed tsc s1 (remove1 e xs) s' ys zs"
  shows "processed tsc s xs s' (e # ys) zs"
proof -
  have "mset (remove1 e xs) = mset (ys @ zs)" using p by (simp add: processed_def)
  then have m: "mset xs = mset ((e # ys) @ zs)" using e(1) by (metis append_Cons insert_DiffM mset.simps(2) mset_remove1 set_mset_mset)
  then have "set xs = set (e # ys @ zs)" by (metis append_Cons set_mset_mset)
  then have le: "\<forall>x \<in> set (ys @ zs). ev_deadline s e \<le> ev_deadline s x" using e(2) by auto
  have t: "tsc_time tsc s1 = tsc_time tsc s" using s1(5) by (rule tsc_time_reads)
  have "ev_deadline s ((e # ys) ! i) \<le> tsc_time tsc s (ev_reads s + i)" if "i < length (e # ys)" for i
    using p e(3) that by (cases i) (auto simp: processed_def s1 t)
  then show ?thesis using p m le by (auto simp: processed_def s1 t)
qed

lemma events_process_ok:
  "ev_ok s xs fs \<Longrightarrow> length xs + length fs < 2 ^ 64 \<Longrightarrow> \<exists>s' ys zs fs'. events_process tsc s = Some s' \<and> processed tsc s xs s' ys zs \<and> ev_ok s' zs fs'"
proof (induction "length xs" arbitrary: s xs fs)
  case 0
  then obtain r where r: "rb_search (ev_deadline s) (ev_events s) 0 RB_SEARCH_NEAREST = Some r" "case r of None \<Rightarrow> xs = [] | Some e \<Rightarrow> e \<in> set xs"
    using first_event[of "ev_deadline s" "ev_events s" xs] by (auto simp: ev_ok_def split: option.splits)
  then have "events_process tsc s = Some s" using 0 by (subst events_process.simps) (auto split: option.splits)
  then show ?case using 0 by (intro exI[of _ s] exI[of _ "[]"] exI[of _ fs]) (simp add: processed_def)
next
  case (Suc n)
  have ok: "rb_inv (ev_deadline s) (ev_events s) xs" "rb_inv (ev_deadline s) (ev_free_events s) fs" "distinct (xs @ fs @ ev_cache s)"
    "tsc_timer_frequency s div TIME_NANOSECONDS_IN_SECOND \<noteq> 0" using Suc.prems(1) by (auto simp: ev_ok_def)
  obtain r where r: "rb_search (ev_deadline s) (ev_events s) 0 RB_SEARCH_NEAREST = Some r"
    "case r of None \<Rightarrow> xs = [] | Some e \<Rightarrow> e \<in> set xs \<and> (\<forall>x \<in> set xs. ev_deadline s e \<le> ev_deadline s x)" using first_event[OF ok(1)] by blast
  then obtain e where e: "r = Some e" "e \<in> set xs" "\<forall>x \<in> set xs. ev_deadline s e \<le> ev_deadline s x" using Suc.hyps(2) by (cases r) auto
  let ?t = "tsc_time tsc s (ev_reads s)"
  let ?s0 = "s\<lparr>ev_reads := Suc (ev_reads s)\<rparr>"
  have tm: "arch_time_monotonic tsc s = Some (?s0, ?t)" using ok(4) by (simp add: arch_time_monotonic_def)
  show ?case
  proof (cases "ev_deadline s e > ?t")
    case True
    let ?s = "arch_event_timer_arm (ev_deadline s e - ?t) ?s0"
    have "events_process tsc s = Some ?s" using r(1) e(1) tm True by (subst events_process.simps) simp
    moreover have "processed tsc s xs ?s [] xs" using e(2,3) True by (auto simp: processed_def intro: less_le_trans)
    moreover have "ev_ok ?s xs fs" using Suc.prems(1) by (simp add: ev_ok_def)
    ultimately show ?thesis by blast
  next
    case False
    obtain t where t: "rb_remove (ev_events s) e = Some t" "rb_inv (ev_deadline s) t (remove1 e xs)" using rbi.rem_inv[OF ok(1) e(2)] by blast
    have ef: "e \<notin> set fs" "e \<notin> set (ev_cache s)" "e \<notin> set (remove1 e xs)" using ok(3) e(2) by auto
    obtain f where f: "rb_insert (ev_deadline s) (ev_free_events s) e = Some f" "rb_inv (ev_deadline s) f (ins_val (ev_deadline s) e fs)"
      using rbi.ins_inv[OF ok(2) ef(1)] by blast
    let ?s1 = "?s0\<lparr>ev_events := t, ev_queued := ev_queued s @ [ev_dw_item s e]\<rparr>"
    let ?s2 = "if ev_in_interrupt_hard s then ?s1\<lparr>ev_free_events := f\<rparr> else ?s1\<lparr>ev_cache := e # ev_cache s\<rparr>"
    let ?fs = "if ev_in_interrupt_hard s then ins_val (ev_deadline s) e fs else fs"
    have run: "events_process tsc s = events_process tsc ?s2" using r(1) e(1) tm False t(1) f(1) by (subst events_process.simps) simp
    have iv: "mset (ins_val (ev_deadline s) e fs) = add_mset e (mset fs)" by (rule mset_ins_val)
    have d: "distinct (remove1 e xs @ ?fs @ ev_cache ?s2)"
    proof -
      have "mset (remove1 e xs @ ?fs @ ev_cache ?s2) = mset (xs @ fs @ ev_cache s)" using e(2) iv by simp
      then show ?thesis using ok(3) by (metis distinct_count_atmost_1 mset_eq_setD set_mset_mset)
    qed
    have "length (ins_val (ev_deadline s) e fs) = Suc (length fs)" using arg_cong[OF iv, of size] by simp
    then have "length ?fs \<le> Suc (length fs)" by simp
    moreover have "length (remove1 e xs) = length xs - 1" "0 < length xs" using e(2) by (auto simp: length_remove1)
    ultimately have "length (remove1 e xs) + length ?fs \<le> length xs + length fs" by linarith
    then have len: "length (remove1 e xs) + length ?fs < 2 ^ 64" using Suc.prems(2) by (rule le_less_trans)
    have ok2: "ev_ok ?s2 (remove1 e xs) ?fs" using t(2) f(2) ok(2,4) d len by (simp add: ev_ok_def)
    have n: "n = length (remove1 e xs)" using Suc.hyps(2) e(2) by (simp add: length_remove1)
    obtain s' ys zs fs' where s': "events_process tsc ?s2 = Some s'" "processed tsc ?s2 (remove1 e xs) s' ys zs" "ev_ok s' zs fs'"
      using Suc.hyps(1)[OF n ok2 len] by blast
    have "processed tsc s xs s' (e # ys) zs" by (rule processed_step[OF e(2,3) _ _ _ _ _ _ _ s'(2)]) (use False in auto)
    then show ?thesis using run s'(1,3) by auto
  qed
qed

section \<open>Queueing\<close>

lemma rb_count_zero: "rb_inv val t xs \<Longrightarrow> length xs < 2 ^ 64 \<Longrightarrow> rb_count t \<noteq> 0 \<longleftrightarrow> xs \<noteq> []"
  by (auto simp: rb_inv_count of_nat_eq_0_iff dest!: arg_cong[of "of_nat (length xs)" 0 unat] simp: unat_of_nat)

text \<open>Taking the first event out of a tree.\<close>

lemma take_first:
  assumes "rb_inv val t xs" "xs \<noteq> []"
  shows "\<exists>e t'. rb_search val t 0 RB_SEARCH_NEAREST = Some (Some e) \<and> rb_remove t e = Some t' \<and> rb_inv val t' (remove1 e xs) \<and> e \<in> set xs"
proof -
  obtain e where e: "rb_search val t 0 RB_SEARCH_NEAREST = Some (Some e)" "e \<in> set xs" using first_event[OF assms(1)] assms(2) by (auto split: option.splits)
  then show ?thesis using rbi.rem_inv[OF assms(1) e(2)] by blast
qed

lemma drain_ok:
  "rb_inv (ev_deadline s) (ev_free_events s) fs \<Longrightarrow> length fs < 2 ^ 64 \<Longrightarrow>
    \<exists>t c. drain_free_events s = Some (s\<lparr>ev_free_events := t, ev_cache := c\<rparr>) \<and> rb_inv (ev_deadline s) t [] \<and> mset c = mset fs + mset (ev_cache s)"
proof (induction "length fs" arbitrary: s fs)
  case 0
  then have "drain_free_events s = Some (s\<lparr>ev_free_events := ev_free_events s, ev_cache := ev_cache s\<rparr>)"
    using rb_count_zero[of "ev_deadline s" "ev_free_events s" fs] by (subst drain_free_events.simps) simp
  then show ?case using 0 by (intro exI[of _ "ev_free_events s"] exI[of _ "ev_cache s"]) simp
next
  case (Suc n)
  have ne: "fs \<noteq> []" using Suc.hyps(2) by auto
  obtain e t where e: "rb_search (ev_deadline s) (ev_free_events s) 0 RB_SEARCH_NEAREST = Some (Some e)" "rb_remove (ev_free_events s) e = Some t"
    "rb_inv (ev_deadline s) t (remove1 e fs)" "e \<in> set fs" using take_first[OF Suc.prems(1) ne] by blast
  let ?s = "s\<lparr>ev_free_events := t, ev_cache := e # ev_cache s\<rparr>"
  have n: "n = length (remove1 e fs)" "length (remove1 e fs) < 2 ^ 64" using Suc.hyps(2) Suc.prems(2) e(4) by (auto simp: length_remove1)
  obtain t' c where r: "drain_free_events ?s = Some (?s\<lparr>ev_free_events := t', ev_cache := c\<rparr>)" "rb_inv (ev_deadline s) t' []"
    "mset c = mset (remove1 e fs) + mset (e # ev_cache s)" using Suc.hyps(1)[OF n(1), of ?s] e(3) n(2) by auto
  have "drain_free_events s = drain_free_events ?s"
    using rb_count_zero[OF Suc.prems] ne e(1,2) by (subst drain_free_events.simps) simp
  moreover have "mset c = mset fs + mset (ev_cache s)" using r(3) e(4) by simp
  ultimately show ?case using r(1,2) by (intro exI[of _ t'] exI[of _ c]) simp
qed

lemma event_object_ok:
  assumes ok: "ev_ok s xs fs" and ne: "fs \<noteq> [] \<or> ev_cache s \<noteq> []"
  shows "\<exists>t c e. event_object s = Some (s\<lparr>ev_free_events := t, ev_cache := c\<rparr>, e) \<and> ev_ok (s\<lparr>ev_free_events := t, ev_cache := c\<rparr>) xs [] \<and> e \<notin> set xs \<and> e \<notin> set c"
proof -
  have o: "rb_inv (ev_deadline s) (ev_events s) xs" "rb_inv (ev_deadline s) (ev_free_events s) fs" "distinct (xs @ fs @ ev_cache s)" "length fs < 2 ^ 64"
    "tsc_timer_frequency s div TIME_NANOSECONDS_IN_SECOND \<noteq> 0" using ok by (auto simp: ev_ok_def)
  show ?thesis
  proof (cases "fs = []")
    case True
    then obtain e c where c: "ev_cache s = e # c" using ne by (cases "ev_cache s") auto
    have "event_object s = Some (s\<lparr>ev_free_events := ev_free_events s, ev_cache := c\<rparr>, e)" using rb_count_zero[OF o(2,4)] True c by (simp add: event_object_def)
    moreover have "ev_ok (s\<lparr>ev_free_events := ev_free_events s, ev_cache := c\<rparr>) xs []" using o True c by (simp add: ev_ok_def)
    moreover have "e \<notin> set xs" "e \<notin> set c" using o(3) c by auto
    ultimately show ?thesis by blast
  next
    case False
    obtain e t where e: "rb_search (ev_deadline s) (ev_free_events s) 0 RB_SEARCH_NEAREST = Some (Some e)" "rb_remove (ev_free_events s) e = Some t"
      "rb_inv (ev_deadline s) t (remove1 e fs)" "e \<in> set fs" using take_first[OF o(2) False] by blast
    have l: "length (remove1 e fs) < 2 ^ 64" using o(4) by (auto simp: length_remove1)
    obtain t' c where d: "drain_free_events (s\<lparr>ev_free_events := t\<rparr>) = Some (s\<lparr>ev_free_events := t\<rparr>\<lparr>ev_free_events := t', ev_cache := c\<rparr>)"
      "rb_inv (ev_deadline s) t' []" "mset c = mset (remove1 e fs) + mset (ev_cache s)" using drain_ok[of "s\<lparr>ev_free_events := t\<rparr>" "remove1 e fs"] e(3) l by auto
    have "event_object s = Some (s\<lparr>ev_free_events := t', ev_cache := c\<rparr>, e)" using rb_count_zero[OF o(2,4)] False e(1,2) d(1) by (simp add: event_object_def)
    moreover have dd: "distinct (e # xs @ c)"
    proof -
      have "mset (e # xs @ c) = mset (xs @ fs @ ev_cache s)" using d(3) e(4) by simp
      then show ?thesis using o(3) by (metis distinct_count_atmost_1 mset_eq_setD)
    qed
    then have "ev_ok (s\<lparr>ev_free_events := t', ev_cache := c\<rparr>) xs []" using o d(2) by (simp add: ev_ok_def)
    moreover have "e \<notin> set xs" "e \<notin> set c" using dd by auto
    ultimately show ?thesis by blast
  qed
qed

lemma event_queue_ok:
  assumes ok: "ev_ok s xs fs" and ne: "fs \<noteq> [] \<or> ev_cache s \<noteq> []" and d: "0 < delay" and now: "now = tsc_time tsc s (ev_reads s)"
  shows "\<exists>s' e. event_queue tsc delay item s = Some s' \<and> e \<notin> set xs \<and> ev_ok s' (ins_val (ev_deadline s') e xs) [] \<and>
    ev_dw_item s' e = item \<and> ev_deadline s' e = now + delay \<and> (\<forall>x \<in> set xs. ev_deadline s' x = ev_deadline s x \<and> ev_dw_item s' x = ev_dw_item s x) \<and>
    ev_timer s' = (if \<forall>x \<in> set xs. now + delay < ev_deadline s x then Some (timer_ticks (lapic_timer_frequency s) delay) else ev_timer s)"
proof -
  obtain t c e where e: "event_object s = Some (s\<lparr>ev_free_events := t, ev_cache := c\<rparr>, e)" "ev_ok (s\<lparr>ev_free_events := t, ev_cache := c\<rparr>) xs []" "e \<notin> set xs" "e \<notin> set c"
    using event_object_ok[OF ok ne] by blast
  let ?s1 = "s\<lparr>ev_free_events := t, ev_cache := c, ev_dw_item := (ev_dw_item s)(e := item), ev_reads := Suc (ev_reads s), ev_deadline := (ev_deadline s)(e := now + delay)\<rparr>"
  have o: "rb_inv (ev_deadline s) (ev_events s) xs" "rb_inv (ev_deadline s) t []" "distinct (xs @ c)" "tsc_timer_frequency s div TIME_NANOSECONDS_IN_SECOND \<noteq> 0"
    using e(2) by (auto simp: ev_ok_def)
  have t1: "rb_inv (ev_deadline ?s1) (ev_events s) xs" by (rule rb_inv_cong[OF o(1)]) (use e(3) in auto)
  have t2: "rb_inv (ev_deadline ?s1) t []" by (rule rb_inv_cong[OF o(2)]) simp
  obtain r where r: "rb_search (ev_deadline ?s1) (ev_events s) 0 RB_SEARCH_NEAREST = Some r"
    "case r of None \<Rightarrow> xs = [] | Some f \<Rightarrow> f \<in> set xs \<and> (\<forall>x \<in> set xs. ev_deadline ?s1 f \<le> ev_deadline ?s1 x)" using first_event[OF t1] by blast
  have first: "(r = None \<or> ev_deadline ?s1 (the r) > now + delay) \<longleftrightarrow> (\<forall>x \<in> set xs. now + delay < ev_deadline s x)"
  proof (cases r)
    case (Some f)
    have v: "ev_deadline ?s1 x = ev_deadline s x" if "x \<in> set xs" for x using that e(3) by auto
    have f: "f \<in> set xs" "\<forall>x \<in> set xs. ev_deadline s f \<le> ev_deadline s x" using r(2) Some v by (auto simp del: fun_upd_apply)
    then show ?thesis using Some v[OF f(1)] less_le_trans by (auto simp del: fun_upd_apply)
  qed (use r(2) in simp)
  obtain u where u: "rb_insert (ev_deadline ?s1) (ev_events s) e = Some u" "rb_inv (ev_deadline ?s1) u (ins_val (ev_deadline ?s1) e xs)" using rbi.ins_inv[OF t1 e(3)] by blast
  let ?s2 = "if \<forall>x \<in> set xs. now + delay < ev_deadline s x then arch_event_timer_arm delay ?s1 else ?s1"
  have now': "tsc (ev_reads s) div (tsc_timer_frequency s div TIME_NANOSECONDS_IN_SECOND) = now" using now by (simp add: tsc_time_def)
  have "event_queue tsc delay item s =
      Some ((if r = None \<or> ev_deadline ?s1 (the r) > now + delay then arch_event_timer_arm delay ?s1 else ?s1)\<lparr>ev_events := u\<rparr>)"
    using d e(1) o(4) r(1) u(1)
    by (simp add: event_queue_def arch_time_monotonic_def Let_def tsc_time_def now' if_arm word_greater_zero_iff del: fun_upd_apply cong: if_cong split del: if_split) simp
  then have "event_queue tsc delay item s = Some (?s2\<lparr>ev_events := u\<rparr>)" unfolding first .
  moreover have "distinct (ins_val (ev_deadline ?s1) e xs @ c)" 
  proof -
    have "mset (ins_val (ev_deadline ?s1) e xs @ c) = mset (e # xs @ c)" by (simp add: mset_ins_val)
    moreover have "distinct (e # xs @ c)" using o(3) e(3,4) by simp
    ultimately show ?thesis by (metis distinct_count_atmost_1 mset_eq_setD)
  qed
  then have "ev_ok (?s2\<lparr>ev_events := u\<rparr>) (ins_val (ev_deadline (?s2\<lparr>ev_events := u\<rparr>)) e xs) []" using u(2) t2 o(4) by (simp add: ev_ok_def)
  moreover have "\<forall>x \<in> set xs. x \<noteq> e" using e(3) by auto
  ultimately show ?thesis using e(3) by (intro exI[of _ "?s2\<lparr>ev_events := u\<rparr>"] exI[of _ e]) (simp add: arch_event_timer_arm_def)
qed

section \<open>Properties\<close>

text \<open>
  (C40) Processing the events of a processor returns. It hands the work of some events to \<^verbatim>\<open>dw_queue\<close>, in the order of their deadlines, each of them due at the time it was looked
  at; the events left are all later than those and none was due at the last reading of the clock, and the timer runs until the first of them. No event is lost or fired twice, and the
  trees and the cache stay well formed.
\<close>

theorem events_process_correct:
  assumes "ev_ok s xs fs" "length xs + length fs < 2 ^ 64"
  shows "\<exists>s' ys zs fs'. events_process tsc s = Some s' \<and> processed tsc s xs s' ys zs \<and> ev_ok s' zs fs'"
  by (rule events_process_ok[OF assms])

text \<open>
  Queueing an event returns as long as there is an event object: the new event has the wanted work and deadline and stands behind every pending event with the same or an
  earlier deadline, which all stay as they are; the timer is restarted exactly when the new event is the first, with its delay; the spare events are back in the cache.
\<close>

theorem event_queue_correct:
  assumes "ev_ok s xs fs" "fs \<noteq> [] \<or> ev_cache s \<noteq> []" "0 < delay" "now = tsc_time tsc s (ev_reads s)"
  shows "\<exists>s' e. event_queue tsc delay item s = Some s' \<and> e \<notin> set xs \<and> ev_ok s' (ins_val (ev_deadline s') e xs) [] \<and>
    ev_dw_item s' e = item \<and> ev_deadline s' e = now + delay \<and> (\<forall>x \<in> set xs. ev_deadline s' x = ev_deadline s x \<and> ev_dw_item s' x = ev_dw_item s x) \<and>
    ev_timer s' = (if \<forall>x \<in> set xs. now + delay < ev_deadline s x then Some (timer_ticks (lapic_timer_frequency s) delay) else ev_timer s)"
  by (rule event_queue_ok[OF assms])

definition demo_events :: event_cpu where
  "demo_events = \<lparr>ev_deadline = id, ev_dw_item = unat, ev_events = rb_demo, ev_free_events = RB_TREE_INIT (rb_heap rb_demo), ev_cache = [5, 6], ev_queued = [], ev_timer = None,
     ev_reads = 0, ev_in_interrupt_hard = False, lapic_timer_frequency = 62500000, tsc_timer_frequency = 3000000000\<rparr>"

lemma demo_events_ok: "ev_ok demo_events [10, 20] []"
  using rb_demo_inv by (simp add: ev_ok_def demo_events_def rb_inv_init TIME_NANOSECONDS_IN_SECOND_def)

theorem events_process_correct_witness:
  "\<exists>s' ys zs fs'. events_process (\<lambda>n. 45) demo_events = Some s' \<and> processed (\<lambda>n. 45) demo_events [10, 20] s' ys zs \<and> ev_ok s' zs fs'"
  using events_process_correct[OF demo_events_ok, of "\<lambda>n. 45"] by simp

theorem event_queue_correct_witness:
  "\<exists>s' e. event_queue (\<lambda>n. 15) 2 7 demo_events = Some s' \<and> ev_ok s' (ins_val (ev_deadline s') e [10, 20]) [] \<and> ev_dw_item s' e = 7 \<and> ev_deadline s' e = 7 \<and>
     ev_timer s' = Some (timer_ticks 62500000 2)"
proof -
  have t: "5 = tsc_time (\<lambda>n. 15) demo_events (ev_reads demo_events)" by (simp add: tsc_time_def demo_events_def TIME_NANOSECONDS_IN_SECOND_def)
  have c: "([] :: addr list) \<noteq> [] \<or> ev_cache demo_events \<noteq> []" "ev_deadline demo_events = id" "lapic_timer_frequency demo_events = 62500000" by (simp_all add: demo_events_def)
  show ?thesis using event_queue_correct[OF demo_events_ok c(1) _ t, of 2 7] c(2,3) by auto
qed

end
